(* ===== verification/Prelude.thy ===== *)
theory Prelude
  imports "HOL-Library.Word"
begin

unbundle bit_operations_syntax

text \<open>
  Shared vocabulary of the development: the machine integers and byte buffers of the C
  sources, the C string and memory idioms they use (\<open>strncpy\<close>, \<open>snprintf\<close>,
  \<open>memcpy\<close> into a buffer at an offset), the way a byte buffer is cut into blocks, and the
  generic lemmas about them that the component theories rely on.
\<close>

type_synonym u8 = "8 word"
type_synonym u16 = "16 word"
type_synonym u32 = "32 word"
type_synonym u64 = "64 word"
type_synonym bytes = "u8 list"

named_theorems unat_simps
  \<open>moving C integer arithmetic from machine words to natural numbers\<close>
named_theorems buf_simps
  \<open>reading and writing byte buffers at an offset\<close>
named_theorems io_simps
  \<open>unfolding the calls of the operating-system model\<close>

section \<open>Byte buffers\<close>

text \<open>
  \<open>seg off len b\<close> is the bytes \<open>b[off .. off+len)\<close>; \<open>blit off src b\<close> is
  \<open>memcpy(b + off, src, length src)\<close> for a destination range inside \<open>b\<close>.
\<close>

definition seg :: "nat \<Rightarrow> nat \<Rightarrow> 'a list \<Rightarrow> 'a list" where
  "seg off len b = take len (drop off b)"

definition blit :: "nat \<Rightarrow> 'a list \<Rightarrow> 'a list \<Rightarrow> 'a list" where
  "blit off src b = take off b @ src @ drop (off + length src) b"

text \<open>\<open>chunks n b\<close> cuts \<open>b\<close> into consecutive pieces of \<open>n\<close> elements, the last one shorter.\<close>

function chunks :: "nat \<Rightarrow> 'a list \<Rightarrow> 'a list list" where
  "chunks n b = (if n = 0 \<or> b = [] then [] else take n b # chunks n (drop n b))"
  by pat_completeness auto
termination
  by (relation "measure (\<lambda>(n, b). length b)") auto

declare chunks.simps [simp del]

lemma length_seg [simp, buf_simps]: "length (seg off len b) = min len (length b - off)"
  by (simp add: seg_def)

lemma nth_seg [buf_simps]:
  "i < len \<Longrightarrow> off + i < length b \<Longrightarrow> seg off len b ! i = b ! (off + i)"
  by (simp add: seg_def)

lemma seg_append_left [buf_simps]: "off + len \<le> length a \<Longrightarrow> seg off len (a @ b) = seg off len a"
  by (simp add: seg_def)

lemma seg_append_right [buf_simps]:
  "length a \<le> off \<Longrightarrow> seg off len (a @ b) = seg (off - length a) len b"
  by (simp add: seg_def)

lemma seg_0 [simp]: "length b \<le> len \<Longrightarrow> seg 0 len b = b"
  by (simp add: seg_def)

lemma seg_all: "seg 0 (length b) b = b"
  by (simp add: seg_def)

lemma length_blit [simp, buf_simps]: "off + length src \<le> length b \<Longrightarrow> length (blit off src b) = length b"
  by (simp add: blit_def)

lemma nth_blit [buf_simps]:
  assumes "off + length src \<le> length b" "i < length b"
  shows "blit off src b ! i =
    (if off \<le> i \<and> i < off + length src then src ! (i - off) else b ! i)"
  using assms by (auto simp: blit_def nth_append min_def)

lemma blit_seg_same: "off + len \<le> length b \<Longrightarrow> blit off (seg off len b) b = b"
  by (rule nth_equalityI) (auto simp: nth_blit nth_seg)

lemma seg_blit_same: "off + length src \<le> length b \<Longrightarrow> seg off (length src) (blit off src b) = src"
  by (rule nth_equalityI) (auto simp: nth_blit nth_seg)

lemma chunks_Nil [simp]: "chunks n [] = []"
  by (simp add: chunks.simps)

lemma chunks_step: "0 < n \<Longrightarrow> b \<noteq> [] \<Longrightarrow> chunks n b = take n b # chunks n (drop n b)"
  by (subst chunks.simps) simp

lemma concat_chunks: "0 < n \<Longrightarrow> concat (chunks n b) = b"
proof (induction n b rule: chunks.induct)
  case (1 n b)
  then show ?case by (cases "b = []") (auto simp: chunks_step)
qed

lemma chunks_append:
  assumes "0 < n" "n dvd length a"
  shows "chunks n (a @ b) = chunks n a @ chunks n b"
  using assms
proof (induction n a rule: chunks.induct)
  case (1 n a)
  show ?case
  proof (cases "a = []")
    case False
    with "1.prems" have le: "n \<le> length a" by (auto intro: dvd_imp_le)
    with "1.prems" have "n dvd length (drop n a)" by (auto intro: dvd_diff_nat)
    with "1.IH" "1.prems" False have
      "chunks n (drop n a @ b) = chunks n (drop n a) @ chunks n b" by auto
    with le False "1.prems" show ?thesis by (simp add: chunks_step)
  qed simp
qed

lemma chunks_single: "0 < n \<Longrightarrow> length b = n \<Longrightarrow> chunks n b = [b]"
  by (cases "b = []") (auto simp: chunks_step)

section \<open>Words and natural numbers\<close>

lemma unat_lt32: "unat (x :: u32) < 4294967296"
  using unsigned_less [of x] by simp

lemma unat_of_nat32 [unat_simps]: "n < 4294967296 \<Longrightarrow> unat (of_nat n :: u32) = n"
  by (simp add: unat_of_nat take_bit_nat_eq_self)

lemma unat_add32 [unat_simps]:
  "unat (x :: u32) + unat y < 4294967296 \<Longrightarrow> unat (x + y) = unat x + unat y"
  by (simp add: unat_word_ariths)

lemma unat_mult32 [unat_simps]:
  "unat (x :: u32) * unat y < 4294967296 \<Longrightarrow> unat (x * y) = unat x * unat y"
  by (simp add: unat_word_ariths)

lemma unat_sub32 [unat_simps]: "(y :: u32) \<le> x \<Longrightarrow> unat (x - y) = unat x - unat y"
  by (simp add: unat_sub)

lemma unat_div32 [unat_simps]: "unat ((x :: u32) div y) = unat x div unat y"
  by (simp add: unat_div)

lemma unat_mod32 [unat_simps]: "unat ((x :: u32) mod y) = unat x mod unat y"
  by (simp add: unat_mod)

lemma of_nat_unat32 [simp]: "of_nat (unat (x :: u32)) = x"
  by simp

section \<open>C strings\<close>

text \<open>
  A C string is the list of its characters before the terminating NUL. A buffer of \<open>n\<close>
  bytes holds at most \<open>n - 1\<close> of them: \<open>snprintf(buf, n, "%s", s)\<close> and
  \<open>strncpy(buf, s, n - 1)\<close> followed by \<open>buf[n - 1] = 0\<close> both leave \<open>cstr n s\<close>.
\<close>

definition cstr :: "nat \<Rightarrow> string \<Rightarrow> string" where
  "cstr n s = take (n - 1) s"

lemma length_cstr: "0 < n \<Longrightarrow> length (cstr n s) < n"
  by (simp add: cstr_def)

lemma cstr_id [simp]: "length s < n \<Longrightarrow> cstr n s = s"
  by (simp add: cstr_def)

lemma cstr_Nil [simp]: "cstr n [] = []"
  by (simp add: cstr_def)

lemma cstr_eq_Nil_iff: "1 < n \<Longrightarrow> cstr n s = [] \<longleftrightarrow> s = []"
  by (simp add: cstr_def)

definition ends_with :: "string \<Rightarrow> string \<Rightarrow> bool" where
  "ends_with suf s \<longleftrightarrow> length suf \<le> length s \<and> drop (length s - length suf) s = suf"

lemma ends_with_append [simp]: "ends_with suf (a @ suf)"
  by (simp add: ends_with_def)

lemma ends_withD: "ends_with suf s \<Longrightarrow> \<exists>a. s = a @ suf"
  unfolding ends_with_def by (metis append_take_drop_id)

text \<open>\<open>strrchr(s, c) + 1\<close>, or \<open>s\<close> itself when \<open>c\<close> does not occur.\<close>

definition after_last :: "char \<Rightarrow> string \<Rightarrow> string" where
  "after_last c s = rev (takeWhile (\<lambda>x. x \<noteq> c) (rev s))"

lemma after_last_no [simp]: "c \<notin> set (after_last c s)"
  unfolding after_last_def by (auto dest: set_takeWhileD)

lemma takeWhile_all: "(\<forall>x \<in> set xs. P x) \<Longrightarrow> takeWhile P xs = xs"
  by (induction xs) auto

lemma after_last_append: "c \<notin> set s \<Longrightarrow> after_last c (d @ c # s) = s"
  unfolding after_last_def by (simp add: takeWhile_append takeWhile_all)

end
