(* ===== verification/Svu_Proto.thy ===== *)
theory Svu_Proto
  imports Prelude
begin

unbundle bit_operations_syntax

text \<open>
  The wire format of the self-verifying uploader (\<open>svu_proto.h\<close>, the same file in
  \<open>satdeploy-agent/svu\<close> and \<open>satdeploy-apm/svu\<close>): little-endian integers, the meta
  request with its re-request intervals, and the push announcement. The encoders write into the
  caller's buffer at the offsets the code uses; the decoders read from a buffer of which
  \<open>len\<close> bytes are valid. The main results are the round trips of both messages and
  the exact condition under which a request is refused.
\<close>

section \<open>Definitions\<close>

definition SVU_CTRL_PORT :: nat where "SVU_CTRL_PORT = 11"
definition SVU_DATA_PORT :: nat where "SVU_DATA_PORT = 9"
definition SVU_DATA_HDR :: nat where "SVU_DATA_HDR = 8"
definition SVU_MAGIC_REQ :: u32 where "SVU_MAGIC_REQ = 0x51555653"
definition SVU_MAGIC_RESP :: u32 where "SVU_MAGIC_RESP = 0x52555653"
definition SVU_MAX_INTERVALS :: u32 where "SVU_MAX_INTERVALS = 32"
definition SVU_REQ_HDR :: nat where "SVU_REQ_HDR = 24"
definition SVU_RESP_HDR :: nat where "SVU_RESP_HDR = 20"
definition SVU_PUSH_MAGIC :: u32 where "SVU_PUSH_MAGIC = 0x53565550"

lemmas svu_consts = SVU_CTRL_PORT_def SVU_DATA_PORT_def SVU_DATA_HDR_def SVU_MAGIC_REQ_def
  SVU_MAGIC_RESP_def SVU_MAX_INTERVALS_def SVU_REQ_HDR_def SVU_RESP_HDR_def SVU_PUSH_MAGIC_def

text \<open>The four bytes \<open>svu_put32\<close> stores, and the store at an offset of a buffer.\<close>

definition le32 :: "u32 \<Rightarrow> bytes" where
  "le32 v = [ucast (v AND 0xFF), ucast (drop_bit 8 v AND 0xFF),
             ucast (drop_bit 16 v AND 0xFF), ucast (drop_bit 24 v AND 0xFF)]"

definition svu_put32 :: "nat \<Rightarrow> u32 \<Rightarrow> bytes \<Rightarrow> bytes" where
  "svu_put32 p v b = blit p (le32 v) b"

definition svu_get32 :: "bytes \<Rightarrow> nat \<Rightarrow> u32" where
  "svu_get32 b p = ucast (b ! p) OR push_bit 8 (ucast (b ! (p + 1))) OR
     push_bit 16 (ucast (b ! (p + 2))) OR push_bit 24 (ucast (b ! (p + 3)))"

record svu_wire_interval_t =
  wi_start :: u32
  wi_end :: u32

record svu_req_t =
  rq_magic :: u32
  rq_session_id :: u32
  rq_mtu :: u32
  rq_block_size :: u32
  rq_nof_intervals :: u32
  rq_client_addr :: u32
  rq_intervals :: "svu_wire_interval_t list"

text \<open>The C array has \<open>SVU_MAX_INTERVALS\<close> entries, so a request is well formed when its list has.\<close>

definition svu_req_wf :: "svu_req_t \<Rightarrow> bool" where
  "svu_req_wf r \<longleftrightarrow> length (rq_intervals r) = unat SVU_MAX_INTERVALS"

definition put_interval :: "svu_req_t \<Rightarrow> nat \<Rightarrow> bytes \<Rightarrow> bytes" where
  "put_interval r i b =
     svu_put32 (SVU_REQ_HDR + i * 8 + 4) (wi_end (rq_intervals r ! i))
       (svu_put32 (SVU_REQ_HDR + i * 8 + 0) (wi_start (rq_intervals r ! i)) b)"

definition svu_req_encode :: "svu_req_t \<Rightarrow> bytes \<Rightarrow> nat \<times> bytes" where
  "svu_req_encode r buf =
     (let n = (if rq_nof_intervals r > SVU_MAX_INTERVALS then SVU_MAX_INTERVALS else rq_nof_intervals r);
          buf = svu_put32 0 (rq_magic r) buf;
          buf = svu_put32 4 (rq_session_id r) buf;
          buf = svu_put32 8 (rq_mtu r) buf;
          buf = svu_put32 12 (rq_block_size r) buf;
          buf = svu_put32 16 n buf;
          buf = svu_put32 20 (rq_client_addr r) buf
      in (SVU_REQ_HDR + unat n * 8, fold (put_interval r) [0..<unat n] buf))"

definition zero_interval :: svu_wire_interval_t where
  "zero_interval = \<lparr>wi_start = 0, wi_end = 0\<rparr>"

definition get_interval :: "bytes \<Rightarrow> nat \<Rightarrow> svu_wire_interval_t" where
  "get_interval buf i = \<lparr>wi_start = svu_get32 buf (SVU_REQ_HDR + i * 8 + 0),
                         wi_end = svu_get32 buf (SVU_REQ_HDR + i * 8 + 4)\<rparr>"

definition svu_req_decode :: "bytes option \<Rightarrow> nat \<Rightarrow> svu_req_t option" where
  "svu_req_decode buf len =
     (case buf of None \<Rightarrow> None
      | Some buf \<Rightarrow>
        if len < SVU_REQ_HDR then None
        else let r = \<lparr>rq_magic = svu_get32 buf 0, rq_session_id = svu_get32 buf 4,
                      rq_mtu = svu_get32 buf 8, rq_block_size = svu_get32 buf 12,
                      rq_nof_intervals = svu_get32 buf 16, rq_client_addr = svu_get32 buf 20,
                      rq_intervals = replicate (unat SVU_MAX_INTERVALS) zero_interval\<rparr>
             in if rq_magic r \<noteq> SVU_MAGIC_REQ \<or> rq_nof_intervals r > SVU_MAX_INTERVALS then None
                else if len < SVU_REQ_HDR + unat (rq_nof_intervals r) * 8 then None
                else Some (r\<lparr>rq_intervals :=
                  fold (\<lambda>i ivs. ivs[i := get_interval buf i]) [0..<unat (rq_nof_intervals r)]
                    (rq_intervals r)\<rparr>))"

definition svu_announce_encode :: "u32 \<Rightarrow> bytes \<Rightarrow> bytes \<Rightarrow> nat \<Rightarrow> nat \<times> bytes" where
  "svu_announce_encode mode path buf bufcap =
     (if mode = 0 then
        let plen = (if length path > bufcap then bufcap else length path)
        in (plen, blit 0 (take plen path) buf)
      else
        let plen = (if length path + 8 > bufcap then (if bufcap > 8 then bufcap - 8 else 0)
                    else length path);
            buf = svu_put32 0 SVU_PUSH_MAGIC buf;
            buf = svu_put32 4 mode buf
        in (8 + plen, blit 8 (take plen path) buf))"

text \<open>The decoded path is \<open>None\<close> when \<open>pathcap\<close> is 0 and nothing is written.\<close>

definition svu_announce_decode :: "bytes \<Rightarrow> nat \<Rightarrow> nat \<Rightarrow> u32 \<times> bytes option" where
  "svu_announce_decode buf len pathcap =
     (let (mode, psrc, plen) =
            (if len \<ge> 8 \<and> svu_get32 buf 0 = SVU_PUSH_MAGIC then (svu_get32 buf 4, 8, len - 8)
             else (0, 0, len))
      in if pathcap = 0 then (mode, None)
         else let plen = (if plen \<ge> pathcap then pathcap - 1 else plen)
              in (mode, Some (seg psrc plen buf)))"

section \<open>Little-endian integers\<close>

lemma length_le32 [simp]: "length (le32 v) = 4"
  by (simp add: le32_def)

lemma length_put32 [simp]: "p + 4 \<le> length b \<Longrightarrow> length (svu_put32 p v b) = length b"
  by (simp add: svu_put32_def)

lemma bit_FF: "bit (0xFF :: int) n \<longleftrightarrow> n < 8"
proof -
  have "(0xFF :: int) = mask 8" by (simp add: mask_eq_exp_minus_1)
  then show ?thesis by (simp only: bit_mask_iff) auto
qed

lemma le32_word: "ucast (le32 v ! 0) OR push_bit 8 (ucast (le32 v ! 1)) OR
    push_bit 16 (ucast (le32 v ! 2)) OR push_bit 24 (ucast (le32 v ! 3)) = v"
proof (rule bit_word_eqI)
  fix n assume n: "n < LENGTH(32)"
  then consider "n < 8" | "8 \<le> n" "n < 16" | "16 \<le> n" "n < 24" | "24 \<le> n" "n < 32"
    by fastforce
  then show "bit (ucast (le32 v ! 0) OR push_bit 8 (ucast (le32 v ! 1)) OR
      push_bit 16 (ucast (le32 v ! 2)) OR push_bit 24 (ucast (le32 v ! 3)) :: u32) n = bit v n"
    by cases (auto simp: le32_def bit_simps bit_FF)
qed

lemma svu_get32_nth: "svu_get32 b p = svu_get32 (seg p 4 b) 0" if "p + 4 \<le> length b"
  using that by (simp add: svu_get32_def nth_seg)

lemma svu_get32_put32:
  assumes "p + 4 \<le> length b"
  shows "svu_get32 (svu_put32 p v b) p = v"
proof -
  have "svu_get32 (svu_put32 p v b) p = svu_get32 (le32 v) 0"
    using assms seg_blit_same [of p "le32 v" b]
    by (subst svu_get32_nth) (simp_all add: svu_put32_def)
  also have "\<dots> = v" using le32_word [of v] by (simp add: svu_get32_def eval_nat_numeral)
  finally show ?thesis .
qed

lemma svu_get32_put32_other:
  assumes "p + 4 \<le> length b" "q + 4 \<le> length b" "q + 4 \<le> p \<or> p + 4 \<le> q"
  shows "svu_get32 (svu_put32 p v b) q = svu_get32 b q"
  using assms by (auto simp: svu_get32_def svu_put32_def nth_blit)

lemmas get_put = svu_get32_put32 svu_get32_put32_other

lemma svu_get32_take: "p + 4 \<le> k \<Longrightarrow> svu_get32 (take k b) p = svu_get32 b p"
  by (simp add: svu_get32_def)

lemma bit8: "8 \<le> n \<Longrightarrow> \<not> bit (x :: u8) n"
  by (auto dest: bit_imp_le_length)

lemma le32_get32:
  assumes "4 \<le> length b"
  shows "le32 (svu_get32 b 0) = take 4 b"
proof -
  obtain x y z w r where b: "b = x # y # z # w # r"
    using assms by (auto simp: eval_nat_numeral Suc_le_length_iff)
  have "le32 (svu_get32 b 0) = [x, y, z, w]"
    unfolding b le32_def svu_get32_def
    by (auto simp: bit_simps bit_FF bit8 intro!: bit_word_eqI)
  then show ?thesis by (simp add: b)
qed

section \<open>Meta requests\<close>

lemma put_intervals:
  assumes "SVU_REQ_HDR + n * 8 \<le> length b"
  shows "length (fold (put_interval r) [0..<n] b) = length b \<and>
    (\<forall>q. q + 4 \<le> SVU_REQ_HDR \<longrightarrow> svu_get32 (fold (put_interval r) [0..<n] b) q = svu_get32 b q) \<and>
    (\<forall>i<n. get_interval (fold (put_interval r) [0..<n] b) i =
       \<lparr>wi_start = wi_start (rq_intervals r ! i), wi_end = wi_end (rq_intervals r ! i)\<rparr>)"
  using assms
  by (induction n) (auto simp: put_interval_def get_interval_def get_put less_Suc_eq)

lemma fold_update: "n \<le> length xs \<Longrightarrow>
  fold (\<lambda>i ys. ys[i := f i]) [0..<n] xs = map f [0..<n] @ drop n xs"
proof (induction n)
  case (Suc n)
  then show ?case
    by (simp add: list_update_append Cons_nth_drop_Suc [symmetric])
qed simp

lemma interval_eta: "\<lparr>wi_start = wi_start w, wi_end = wi_end w\<rparr> = w"
  by (cases w) simp

lemma req_header:
  assumes "24 \<le> length b"
  shows "length (svu_put32 20 f (svu_put32 16 e (svu_put32 12 d (svu_put32 8 c (svu_put32 4 s
    (svu_put32 0 m b)))))) = length b \<and>
    map (svu_get32 (svu_put32 20 f (svu_put32 16 e (svu_put32 12 d (svu_put32 8 c (svu_put32 4 s
    (svu_put32 0 m b))))))) [0, 4, 8, 12, 16, 20] = [m, s, c, d, e, f]"
  using assms by (simp add: get_put)

definition sent_intervals :: "svu_req_t \<Rightarrow> nat" where
  "sent_intervals r = min (unat (rq_nof_intervals r)) 32"

lemma encode_n: "unat (if rq_nof_intervals r > SVU_MAX_INTERVALS then SVU_MAX_INTERVALS
    else rq_nof_intervals r) = sent_intervals r"
  by (auto simp: sent_intervals_def svu_consts word_less_nat_alt min_def)

lemma encode_w: "(if rq_nof_intervals r > SVU_MAX_INTERVALS then SVU_MAX_INTERVALS
    else rq_nof_intervals r) = of_nat (sent_intervals r)"
  by (simp only: encode_n [symmetric] of_nat_unat32)

lemma unat_sent: "unat (of_nat (sent_intervals r) :: u32) = sent_intervals r"
  by (rule unat_of_nat32) (simp add: sent_intervals_def min_def)

lemma encode_length:
  assumes "280 \<le> length buf" "svu_req_encode r buf = (k, pkt)"
  shows "length pkt = length buf"
proof -
  let ?h = "svu_put32 20 (rq_client_addr r) (svu_put32 16 (of_nat (sent_intervals r)) (svu_put32 12 (rq_block_size r)
    (svu_put32 8 (rq_mtu r) (svu_put32 4 (rq_session_id r) (svu_put32 0 (rq_magic r) buf)))))"
  have h: "length ?h = length buf" using req_header [of buf] assms(1) by simp
  have "SVU_REQ_HDR + sent_intervals r * 8 \<le> length ?h"
    unfolding h using assms(1) by (simp add: SVU_REQ_HDR_def sent_intervals_def)
  then have "length (fold (put_interval r) [0..<sent_intervals r] ?h) = length buf"
    using put_intervals [of "sent_intervals r" ?h r] h by simp
  then show ?thesis
    using assms(2) unfolding svu_req_encode_def Let_def encode_w unat_sent by simp
qed

lemma req_roundtrip:
  assumes "svu_req_wf r" "rq_magic r = SVU_MAGIC_REQ" "280 \<le> length buf"
    and "svu_req_encode r buf = (k, pkt)"
  shows "svu_req_decode (Some (take k pkt)) k = Some (r\<lparr>
      rq_nof_intervals := of_nat (sent_intervals r),
      rq_intervals := take (sent_intervals r) (rq_intervals r) @
        replicate (32 - sent_intervals r) zero_interval\<rparr>) \<and> k = 24 + 8 * sent_intervals r \<and> k \<le> 280"
proof -
  let ?n = "sent_intervals r"
  let ?h = "svu_put32 20 (rq_client_addr r) (svu_put32 16 (of_nat ?n) (svu_put32 12 (rq_block_size r)
    (svu_put32 8 (rq_mtu r) (svu_put32 4 (rq_session_id r) (svu_put32 0 (rq_magic r) buf)))))"
  let ?b = "fold (put_interval r) [0..<?n] ?h"
  have n: "?n \<le> 32" "unat (of_nat ?n :: u32) = ?n"
    by (simp_all add: sent_intervals_def) (simp flip: sent_intervals_def add: unat_sent)
  have enc: "k = 24 + 8 * ?n" "pkt = ?b"
    using assms(4) unfolding svu_req_encode_def Let_def encode_w unat_sent
    by (simp_all add: SVU_REQ_HDR_def)
  have hdr: "length ?h = length buf" "map (svu_get32 ?h) [0, 4, 8, 12, 16, 20] =
      [rq_magic r, rq_session_id r, rq_mtu r, rq_block_size r, of_nat ?n, rq_client_addr r]"
    using assms(3) req_header [of buf] by auto
  have ivs: "\<forall>q. q + 4 \<le> 24 \<longrightarrow> svu_get32 pkt q = svu_get32 ?h q"
    "\<forall>i<?n. get_interval pkt i = rq_intervals r ! i"
    using put_intervals [of ?n ?h r] assms(3) n hdr(1) enc(2)
    by (simp_all add: SVU_REQ_HDR_def interval_eta)
  have tk: "\<And>q. q + 4 \<le> k \<Longrightarrow> svu_get32 (take k pkt) q = svu_get32 pkt q"
    by (rule svu_get32_take)
  have "\<And>i. i < ?n \<Longrightarrow> get_interval (take k pkt) i = rq_intervals r ! i"
    using ivs(2) enc(1) by (simp add: get_interval_def SVU_REQ_HDR_def svu_get32_take)
  then have m: "map (get_interval (take k pkt)) [0..<?n] = take ?n (rq_intervals r)"
    using assms(1) n by (auto simp: svu_req_wf_def svu_consts intro!: nth_equalityI)
  have "svu_req_decode (Some (take k pkt)) k = Some (r\<lparr>
      rq_nof_intervals := of_nat ?n,
      rq_intervals := take ?n (rq_intervals r) @ replicate (32 - ?n) zero_interval\<rparr>)"
    using hdr(2) ivs(1) tk enc(1) n assms(2) m
    by (simp add: svu_req_decode_def Let_def svu_consts word_less_nat_alt fold_update)
  then show ?thesis using enc(1) n by simp
qed

text \<open>
  the meta request survives the wire. Whatever the scratch buffer held, the bytes
  \<open>svu_req_encode\<close> writes decode to the same request, with at most
  \<open>SVU_MAX_INTERVALS\<close> intervals and the unused entries of the array zeroed; the message
  never exceeds the 280 bytes a caller provides.
\<close>

theorem svu_req_roundtrip:
  assumes "svu_req_wf r" "rq_magic r = SVU_MAGIC_REQ" "280 \<le> length buf"
    and "svu_req_encode r buf = (k, pkt)"
  shows "svu_req_decode (Some (take k pkt)) k = Some (r\<lparr>
      rq_nof_intervals := of_nat (sent_intervals r),
      rq_intervals := take (sent_intervals r) (rq_intervals r) @
        replicate (32 - sent_intervals r) zero_interval\<rparr>) \<and> k = 24 + 8 * sent_intervals r \<and> k \<le> 280"
  by (rule req_roundtrip [OF assms])

theorem svu_req_roundtrip_witness:
  "svu_req_decode (Some (take 32 (snd (svu_req_encode
      \<lparr>rq_magic = SVU_MAGIC_REQ, rq_session_id = 7, rq_mtu = 200, rq_block_size = 1024,
       rq_nof_intervals = 1, rq_client_addr = 5,
       rq_intervals = replicate 32 \<lparr>wi_start = 3, wi_end = 9\<rparr>\<rparr> (replicate 280 0))))) 32 =
   Some \<lparr>rq_magic = SVU_MAGIC_REQ, rq_session_id = 7, rq_mtu = 200, rq_block_size = 1024,
       rq_nof_intervals = 1, rq_client_addr = 5,
       rq_intervals = \<lparr>wi_start = 3, wi_end = 9\<rparr> # replicate 31 zero_interval\<rparr>"
proof -
  let ?r = "\<lparr>rq_magic = SVU_MAGIC_REQ, rq_session_id = 7, rq_mtu = 200, rq_block_size = 1024,
       rq_nof_intervals = 1, rq_client_addr = 5,
       rq_intervals = replicate 32 \<lparr>wi_start = 3, wi_end = 9\<rparr>\<rparr>"
  have s: "sent_intervals ?r = 1" by (simp add: sent_intervals_def)
  have "fst (svu_req_encode ?r (replicate 280 0)) = 32"
    unfolding svu_req_encode_def Let_def encode_w unat_sent by (simp add: s SVU_REQ_HDR_def)
  then have e: "svu_req_encode ?r (replicate 280 0) = (32, snd (svu_req_encode ?r (replicate 280 0)))"
    by (metis prod.collapse)
  have "svu_req_wf ?r" by (simp add: svu_req_wf_def svu_consts)
  from svu_req_roundtrip [OF this _ _ e] show ?thesis by (simp add: s)
qed

text \<open>
  a meta request is accepted exactly when the packet is long enough for its header, carries
  the request magic, announces no more intervals than the array holds and contains all of them;
  an accepted request therefore never indexes past its interval array or past the packet.
\<close>

theorem svu_req_decode_accepts_iff:
  "(\<exists>r. svu_req_decode (Some buf) len = Some r) \<longleftrightarrow>
     24 \<le> len \<and> svu_get32 buf 0 = 0x51555653 \<and> unat (svu_get32 buf 16) \<le> 32 \<and>
     24 + 8 * unat (svu_get32 buf 16) \<le> len"
  by (auto simp: svu_req_decode_def Let_def svu_consts word_less_nat_alt)

lemma svu_req_decode_wf:
  "svu_req_decode buf len = Some r \<Longrightarrow> svu_req_wf r \<and> unat (rq_nof_intervals r) \<le> 32"
  by (auto simp: svu_req_decode_def Let_def svu_consts word_less_nat_alt fold_update svu_req_wf_def
      split: option.splits if_splits)

section \<open>Push announcements\<close>

text \<open>
  the push announcement survives the wire in both formats: with a mode the framed form decodes
  to that mode and path, and without one the legacy form decodes to mode 0 and the path, as long
  as the path fits both buffers and a legacy path does not itself start with the announcement
  magic.
\<close>

theorem svu_announce_roundtrip:
  assumes "length path + 8 \<le> bufcap" "bufcap \<le> length buf" "length path < pathcap"
    and "mode = 0 \<Longrightarrow> \<not> (8 \<le> length path \<and> take 4 path = le32 SVU_PUSH_MAGIC)"
    and "svu_announce_encode mode path buf bufcap = (k, pkt)"
  shows "svu_announce_decode (take k pkt) k pathcap = (mode, Some path)"
proof (cases "mode = 0")
  case True
  have e: "k = length path" "take k pkt = path"
    using True assms(1,2,5) by (auto simp: svu_announce_encode_def blit_def Let_def)
  have "\<not> (8 \<le> k \<and> svu_get32 path 0 = SVU_PUSH_MAGIC)"
    using assms(4) True e(1) le32_get32 [of path] by auto
  then show ?thesis using True assms(3) e
    by (auto simp: svu_announce_decode_def seg_all)
next
  case False
  let ?b = "svu_put32 4 mode (svu_put32 0 SVU_PUSH_MAGIC buf)"
  have e: "k = 8 + length path" "pkt = blit 8 path ?b"
    using False assms(1,5) by (auto simp: svu_announce_encode_def Let_def)
  have l: "length ?b = length buf" using assms(1,2) by simp
  have g: "svu_get32 pkt q = svu_get32 ?b q" if "q + 4 \<le> 8" for q
    using that assms(1,2) l unfolding e(2) by (simp add: svu_get32_def nth_blit)
  have "svu_get32 (take k pkt) 0 = SVU_PUSH_MAGIC" "svu_get32 (take k pkt) 4 = mode"
    using assms(1,2) by (simp_all add: svu_get32_take e(1) g get_put)
  moreover have "seg 8 (length path) (take k pkt) = path"
    using assms(1,2) l unfolding e by (simp add: seg_def blit_def)
  ultimately show ?thesis using assms(3) e(1)
    by (simp add: svu_announce_decode_def)
qed

theorem svu_announce_roundtrip_witness:
  "svu_announce_decode (take 10 (snd (svu_announce_encode 493 [47, 97] (replicate 20 0) 20))) 10 64 =
     (493, Some [47, 97])"
proof -
  have "svu_announce_encode 493 [47, 97] (replicate 20 0) 20 =
      (10, snd (svu_announce_encode 493 [47, 97] (replicate 20 0) 20))"
    by (simp add: svu_announce_encode_def Let_def)
  from svu_announce_roundtrip [OF _ _ _ _ this] show ?thesis by simp
qed

end
