(* ===== verification/Sha256.thy ===== *)
theory Sha256
  imports Prelude
begin

unbundle bit_operations_syntax

text \<open>
  The three SHA-256 implementations of the repository and the FIPS 180-4 function they all
  compute. \<open>svu/ci_sha256.c\<close> hashes the blocks of the transfer manifest,
  \<open>satdeploy-agent/src/sha256.c\<close> hashes installed files on the satellite and
  \<open>satdeploy-apm/src/sha256.c\<close> hashes the artifact on the ground. The deploy gate compares
  the last two, so their agreement is part of the protocol.

  A context is the struct of the source: eight state words, the length counter and the 64-byte
  block buffer with its fill index. The buffer is a list of 64 bytes written by index, as the
  array is. \<open>sha256\<close> is the reference: pad, cut into 64-byte blocks, fold the compression.
\<close>

section \<open>The reference function\<close>

text \<open>The table \<open>K\<close> of the sources, its hexadecimal constants written in decimal.\<close>

definition sha_K :: "u32 list" where
  "sha_K =
    [1116352408, 1899447441, 3049323471, 3921009573, 961987163, 1508970993,
     2453635748, 2870763221, 3624381080, 310598401, 607225278, 1426881987,
     1925078388, 2162078206, 2614888103, 3248222580, 3835390401, 4022224774,
     264347078, 604807628, 770255983, 1249150122, 1555081692, 1996064986,
     2554220882, 2821834349, 2952996808, 3210313671, 3336571891, 3584528711,
     113926993, 338241895, 666307205, 773529912, 1294757372, 1396182291,
     1695183700, 1986661051, 2177026350, 2456956037, 2730485921, 2820302411,
     3259730800, 3345764771, 3516065817, 3600352804, 4094571909, 275423344,
     430227734, 506948616, 659060556, 883997877, 958139571, 1322822218,
     1537002063, 1747873779, 1955562222, 2024104815, 2227730452, 2361852424,
     2428436474, 2756734187, 3204031479, 3329325298]"

definition ROTR :: "u32 \<Rightarrow> nat \<Rightarrow> u32" where
  "ROTR x n = drop_bit n x OR push_bit (32 - n) x"

definition CH :: "u32 \<Rightarrow> u32 \<Rightarrow> u32 \<Rightarrow> u32" where
  "CH x y z = (x AND y) XOR (NOT x AND z)"

definition MAJ :: "u32 \<Rightarrow> u32 \<Rightarrow> u32 \<Rightarrow> u32" where
  "MAJ x y z = (x AND y) XOR (x AND z) XOR (y AND z)"

definition EP0 :: "u32 \<Rightarrow> u32" where
  "EP0 x = ROTR x 2 XOR ROTR x 13 XOR ROTR x 22"

definition EP1 :: "u32 \<Rightarrow> u32" where
  "EP1 x = ROTR x 6 XOR ROTR x 11 XOR ROTR x 25"

definition SIG0 :: "u32 \<Rightarrow> u32" where
  "SIG0 x = ROTR x 7 XOR ROTR x 18 XOR drop_bit 3 x"

definition SIG1 :: "u32 \<Rightarrow> u32" where
  "SIG1 x = ROTR x 17 XOR ROTR x 19 XOR drop_bit 10 x"

definition sha_H0 :: "u32 list" where
  "sha_H0 = [0x6a09e667, 0xbb67ae85, 0x3c6ef372, 0xa54ff53a,
             0x510e527f, 0x9b05688c, 0x1f83d9ab, 0x5be0cd19]"

text \<open>Big-endian bytes of a 32-bit and of a 64-bit word, and back.\<close>

definition be32 :: "u32 \<Rightarrow> bytes" where
  "be32 w = [ucast (drop_bit 24 w), ucast (drop_bit 16 w), ucast (drop_bit 8 w), ucast w]"

definition be64 :: "u64 \<Rightarrow> bytes" where
  "be64 w = map (\<lambda>j. ucast (drop_bit (j * 8) w)) [7, 6, 5, 4, 3, 2, 1, 0]"

definition load_be32 :: "u8 \<Rightarrow> u8 \<Rightarrow> u8 \<Rightarrow> u8 \<Rightarrow> u32" where
  "load_be32 a b c d =
     push_bit 24 (ucast a) OR push_bit 16 (ucast b) OR push_bit 8 (ucast c) OR ucast d"

type_synonym sha_regs = "u32 \<times> u32 \<times> u32 \<times> u32 \<times> u32 \<times> u32 \<times> u32 \<times> u32"

text \<open>One round: the eight working variables shift down, two of them absorb the round's word.\<close>

fun sha_round :: "u32 list \<Rightarrow> nat \<Rightarrow> sha_regs \<Rightarrow> sha_regs" where
  "sha_round m i (a, b, c, d, e, f, g, h) =
     (let t1 = h + EP1 e + CH e f g + sha_K ! i + m ! i;
          t2 = EP0 a + MAJ a b c
      in (t1 + t2, a, b, c, d + t1, e, f, g))"

text \<open>The message schedule: sixteen loaded words, then forty-eight computed ones.\<close>

definition sched_step :: "nat \<Rightarrow> u32 list \<Rightarrow> u32 list" where
  "sched_step i m =
     m @ [SIG1 (m ! (i - 2)) + m ! (i - 7) + SIG0 (m ! (i - 15)) + m ! (i - 16)]"

definition sha_schedule :: "u32 list \<Rightarrow> u32 list" where
  "sha_schedule m0 = fold sched_step [16..<64] m0"

definition regs_of :: "u32 list \<Rightarrow> sha_regs" where
  "regs_of s = (s ! 0, s ! 1, s ! 2, s ! 3, s ! 4, s ! 5, s ! 6, s ! 7)"

fun add_regs :: "u32 list \<Rightarrow> sha_regs \<Rightarrow> u32 list" where
  "add_regs s (a, b, c, d, e, f, g, h) =
     [s ! 0 + a, s ! 1 + b, s ! 2 + c, s ! 3 + d, s ! 4 + e, s ! 5 + f, s ! 6 + g, s ! 7 + h]"

definition compress :: "u32 list \<Rightarrow> u32 list \<Rightarrow> u32 list" where
  "compress st m0 = add_regs st (fold (sha_round (sha_schedule m0)) [0..<64] (regs_of st))"

definition block_words :: "bytes \<Rightarrow> u32 list" where
  "block_words p =
     map (\<lambda>i. load_be32 (p ! (i * 4)) (p ! (i * 4 + 1)) (p ! (i * 4 + 2)) (p ! (i * 4 + 3))) [0..<16]"

definition sha_block :: "bytes \<Rightarrow> u32 list \<Rightarrow> u32 list" where
  "sha_block p st = compress st (block_words p)"

text \<open>The message length in bits, modulo \<open>2 ^ 64\<close> as the 64-bit counters keep it.\<close>

definition bit_length :: "bytes \<Rightarrow> u64" where
  "bit_length m = of_nat (length m * 8)"

definition sha_pad :: "bytes \<Rightarrow> bytes" where
  "sha_pad m = m @ [0x80] @ replicate ((119 - length m mod 64) mod 64) 0 @ be64 (bit_length m)"

definition sha_blocks :: "bytes \<Rightarrow> u32 list \<Rightarrow> u32 list" where
  "sha_blocks m st = fold sha_block (chunks 64 m) st"

definition sha256 :: "bytes \<Rightarrow> bytes" where
  "sha256 m = concat (map be32 (sha_blocks (sha_pad m) sha_H0))"

section \<open>svu/ci_sha256.c\<close>

record ci_sha256_t =
  ci_state :: "u32 list"
  ci_bitlen :: u64
  ci_buf :: bytes
  ci_buflen :: nat

definition ci_sha256_transform :: "ci_sha256_t \<Rightarrow> bytes \<Rightarrow> ci_sha256_t" where
  "ci_sha256_transform c p =
     (let m0 = map (\<lambda>i. push_bit 24 (ucast (p ! (i * 4))) OR push_bit 16 (ucast (p ! (i * 4 + 1)))
                     OR push_bit 8 (ucast (p ! (i * 4 + 2))) OR ucast (p ! (i * 4 + 3))) [0..<16];
          m = fold sched_step [16..<64] m0;
          r = fold (sha_round m) [0..<64] (regs_of (ci_state c))
      in c\<lparr>ci_state := add_regs (ci_state c) r\<rparr>)"

definition ci_sha256_init :: "ci_sha256_t \<Rightarrow> ci_sha256_t" where
  "ci_sha256_init c =
     c\<lparr>ci_state := [0x6a09e667, 0xbb67ae85, 0x3c6ef372, 0xa54ff53a,
                    0x510e527f, 0x9b05688c, 0x1f83d9ab, 0x5be0cd19],
       ci_bitlen := 0, ci_buflen := 0\<rparr>"

definition ci_sha256_byte :: "u8 \<Rightarrow> ci_sha256_t \<Rightarrow> ci_sha256_t" where
  "ci_sha256_byte x c =
     (let c1 = c\<lparr>ci_buf := (ci_buf c)[ci_buflen c := x], ci_buflen := ci_buflen c + 1\<rparr>
      in if ci_buflen c1 = 64
         then (ci_sha256_transform c1 (ci_buf c1))
                \<lparr>ci_bitlen := ci_bitlen c1 + 512, ci_buflen := 0\<rparr>
         else c1)"

definition ci_sha256_update :: "ci_sha256_t \<Rightarrow> bytes \<Rightarrow> ci_sha256_t" where
  "ci_sha256_update c data = fold ci_sha256_byte data c"

text \<open>\<open>buf[i++] = 0\<close> up to (excluding) index \<open>k\<close>.\<close>

definition zero_fill :: "nat \<Rightarrow> nat \<Rightarrow> bytes \<Rightarrow> bytes" where
  "zero_fill i k b = fold (\<lambda>j b. b[j := 0]) [i..<k] b"

definition ci_sha256_final :: "ci_sha256_t \<Rightarrow> bytes" where
  "ci_sha256_final c0 =
     (let c = c0\<lparr>ci_bitlen := ci_bitlen c0 + of_nat (ci_buflen c0) * 8\<rparr>;
          i = ci_buflen c;
          c = c\<lparr>ci_buf := (ci_buf c)[i := 0x80]\<rparr>;
          i = i + 1;
          (c, i) = (if 56 < i
                    then (let c' = c\<lparr>ci_buf := zero_fill i 64 (ci_buf c)\<rparr>
                          in (ci_sha256_transform c' (ci_buf c'), 0))
                    else (c, i));
          c = c\<lparr>ci_buf := zero_fill i 56 (ci_buf c)\<rparr>;
          c = c\<lparr>ci_buf := fold (\<lambda>j b. b[56 + (7 - j) := ucast (drop_bit (j * 8) (ci_bitlen c))])
                               (rev [0..<8]) (ci_buf c)\<rparr>;
          c = ci_sha256_transform c (ci_buf c)
      in concat (map (\<lambda>j. [ucast (drop_bit 24 (ci_state c ! j)), ucast (drop_bit 16 (ci_state c ! j)),
                           ucast (drop_bit 8 (ci_state c ! j)), ucast (ci_state c ! j)]) [0..<8]))"

section \<open>satdeploy-agent/src/sha256.c\<close>

record sha256_ctx =
  sha_data :: bytes
  sha_datalen :: nat
  sha_bitlen :: u64
  sha_state :: "u32 list"

definition sha256_transform :: "sha256_ctx \<Rightarrow> bytes \<Rightarrow> sha256_ctx" where
  "sha256_transform ctx d =
     (let m0 = map (\<lambda>j. push_bit 24 (ucast (d ! j)) OR push_bit 16 (ucast (d ! (j + 1)))
                     OR push_bit 8 (ucast (d ! (j + 2))) OR ucast (d ! (j + 3))) (map (\<lambda>i. i * 4) [0..<16]);
          m = fold sched_step [16..<64] m0;
          r = fold (sha_round m) [0..<64] (regs_of (sha_state ctx))
      in ctx\<lparr>sha_state := add_regs (sha_state ctx) r\<rparr>)"

definition sha256_init :: "sha256_ctx \<Rightarrow> sha256_ctx" where
  "sha256_init ctx =
     ctx\<lparr>sha_datalen := 0, sha_bitlen := 0,
         sha_state := [0x6a09e667, 0xbb67ae85, 0x3c6ef372, 0xa54ff53a,
                   0x510e527f, 0x9b05688c, 0x1f83d9ab, 0x5be0cd19]\<rparr>"

definition sha256_byte :: "u8 \<Rightarrow> sha256_ctx \<Rightarrow> sha256_ctx" where
  "sha256_byte x ctx =
     (let c1 = ctx\<lparr>sha_data := (sha_data ctx)[sha_datalen ctx := x], sha_datalen := sha_datalen ctx + 1\<rparr>
      in if sha_datalen c1 = 64
         then (sha256_transform c1 (sha_data c1))\<lparr>sha_bitlen := sha_bitlen c1 + 512, sha_datalen := 0\<rparr>
         else c1)"

definition sha256_update :: "sha256_ctx \<Rightarrow> bytes \<Rightarrow> sha256_ctx" where
  "sha256_update ctx d = fold sha256_byte d ctx"

definition sha256_final :: "sha256_ctx \<Rightarrow> bytes" where
  "sha256_final ctx =
     (let i = sha_datalen ctx;
          c = (if i < 56
               then ctx\<lparr>sha_data := zero_fill (i + 1) 56 ((sha_data ctx)[i := 0x80])\<rparr>
               else (let c' = ctx\<lparr>sha_data := zero_fill (i + 1) 64 ((sha_data ctx)[i := 0x80])\<rparr>;
                         c'' = sha256_transform c' (sha_data c')
                     in c''\<lparr>sha_data := zero_fill 0 56 (sha_data c'')\<rparr>));
          c = c\<lparr>sha_bitlen := sha_bitlen c + of_nat (sha_datalen c) * 8\<rparr>;
          c = c\<lparr>sha_data := (sha_data c)[63 := ucast (sha_bitlen c), 62 := ucast (drop_bit 8 (sha_bitlen c)),
                                 61 := ucast (drop_bit 16 (sha_bitlen c)), 60 := ucast (drop_bit 24 (sha_bitlen c)),
                                 59 := ucast (drop_bit 32 (sha_bitlen c)), 58 := ucast (drop_bit 40 (sha_bitlen c)),
                                 57 := ucast (drop_bit 48 (sha_bitlen c)), 56 := ucast (drop_bit 56 (sha_bitlen c))]\<rparr>;
          c = sha256_transform c (sha_data c)
      in fold (\<lambda>i hash. fold (\<lambda>k hash. hash[i + 4 * k := ucast (drop_bit (24 - i * 8) (sha_state c ! k) AND 0xff)])
                             [0..<8] hash)
              [0..<4] (replicate 32 0))"

section \<open>satdeploy-apm/src/sha256.c\<close>

record apm_sha256_ctx =
  apm_state :: "u32 list"
  apm_count :: u64
  apm_buf :: bytes

definition load32be :: "bytes \<Rightarrow> u32" where
  "load32be p = push_bit 24 (ucast (p ! 0)) OR push_bit 16 (ucast (p ! 1))
                  OR push_bit 8 (ucast (p ! 2)) OR ucast (p ! 3)"

definition store64be :: "nat \<Rightarrow> u64 \<Rightarrow> bytes \<Rightarrow> bytes" where
  "store64be at v p =
     p[at := ucast (drop_bit 56 v), at + 1 := ucast (drop_bit 48 v), at + 2 := ucast (drop_bit 40 v),
       at + 3 := ucast (drop_bit 32 v), at + 4 := ucast (drop_bit 24 v), at + 5 := ucast (drop_bit 16 v),
       at + 6 := ucast (drop_bit 8 v), at + 7 := ucast v]"

definition apm_sha256_transform :: "apm_sha256_ctx \<Rightarrow> bytes \<Rightarrow> apm_sha256_ctx" where
  "apm_sha256_transform ctx blk =
     (let w0 = map (\<lambda>i. load32be (drop (i * 4) blk)) [0..<16];
          w = fold sched_step [16..<64] w0;
          r = fold (sha_round w) [0..<64] (regs_of (apm_state ctx))
      in ctx\<lparr>apm_state := add_regs (apm_state ctx) r\<rparr>)"

definition apm_sha256_init :: "apm_sha256_ctx \<Rightarrow> apm_sha256_ctx" where
  "apm_sha256_init ctx =
     ctx\<lparr>apm_state := [0x6a09e667, 0xbb67ae85, 0x3c6ef372, 0xa54ff53a,
                       0x510e527f, 0x9b05688c, 0x1f83d9ab, 0x5be0cd19], apm_count := 0\<rparr>"

text \<open>The middle loop hashes whole blocks straight from the input; what is left over is returned.\<close>

function apm_whole_blocks :: "apm_sha256_ctx \<Rightarrow> bytes \<Rightarrow> apm_sha256_ctx \<times> bytes" where
  "apm_whole_blocks ctx p =
     (if 64 \<le> length p then apm_whole_blocks (apm_sha256_transform ctx (take 64 p)) (drop 64 p)
      else (ctx, p))"
  by pat_completeness auto
termination
  by (relation "measure (\<lambda>(ctx, p). length p)") auto

declare apm_whole_blocks.simps [simp del]

definition apm_tail :: "apm_sha256_ctx \<Rightarrow> bytes \<Rightarrow> apm_sha256_ctx" where
  "apm_tail ctx p =
     (let (ctx', rest) = apm_whole_blocks ctx p
      in if rest \<noteq> [] then ctx'\<lparr>apm_buf := blit 0 rest (apm_buf ctx')\<rparr> else ctx')"

definition apm_sha256_update :: "apm_sha256_ctx \<Rightarrow> bytes \<Rightarrow> apm_sha256_ctx" where
  "apm_sha256_update ctx p =
     (let fill = unat (apm_count ctx AND 63);
          ctx = ctx\<lparr>apm_count := apm_count ctx + of_nat (length p)\<rparr>
      in if fill \<noteq> 0
         then (let left = 64 - fill
               in if length p < left then ctx\<lparr>apm_buf := blit fill p (apm_buf ctx)\<rparr>
                  else (let ctx = ctx\<lparr>apm_buf := blit fill (take left p) (apm_buf ctx)\<rparr>;
                            ctx = apm_sha256_transform ctx (apm_buf ctx)
                        in apm_tail ctx (drop left p)))
         else apm_tail ctx p)"

definition apm_sha256_final :: "apm_sha256_ctx \<Rightarrow> bytes" where
  "apm_sha256_final ctx =
     (let bits = apm_count ctx * 8;
          fill = unat (apm_count ctx AND 63);
          ctx = ctx\<lparr>apm_buf := (apm_buf ctx)[fill := 0x80]\<rparr>;
          fill = fill + 1;
          (ctx, fill) = (if 56 < fill
                         then (let c' = ctx\<lparr>apm_buf := blit fill (replicate (64 - fill) 0) (apm_buf ctx)\<rparr>
                               in (apm_sha256_transform c' (apm_buf c'), 0))
                         else (ctx, fill));
          ctx = ctx\<lparr>apm_buf := blit fill (replicate (56 - fill) 0) (apm_buf ctx)\<rparr>;
          ctx = ctx\<lparr>apm_buf := store64be 56 bits (apm_buf ctx)\<rparr>;
          ctx = apm_sha256_transform ctx (apm_buf ctx)
      in concat (map (\<lambda>i. [ucast (drop_bit 24 (apm_state ctx ! i)), ucast (drop_bit 16 (apm_state ctx ! i)),
                           ucast (drop_bit 8 (apm_state ctx ! i)), ucast (apm_state ctx ! i)]) [0..<8]))"

section \<open>Correctness\<close>

lemma length_be64 [simp]: "length (be64 w) = 8"
  by (simp add: be64_def)

lemma length_be32 [simp]: "length (be32 w) = 4"
  by (simp add: be32_def)

lemma be64_list: "be64 w = [ucast (drop_bit 56 w), ucast (drop_bit 48 w), ucast (drop_bit 40 w),
    ucast (drop_bit 32 w), ucast (drop_bit 24 w), ucast (drop_bit 16 w), ucast (drop_bit 8 w), ucast w]"
  by (simp add: be64_def)

lemma length_compress [simp]: "length (compress st m) = 8"
  unfolding compress_def
  by (cases "fold (sha_round (sha_schedule m)) [0..<64] (regs_of st)") auto

lemma length_sha_block [simp]: "length (sha_block p st) = 8"
  by (simp add: sha_block_def)

lemma sha_blocks_Nil [simp]: "sha_blocks [] st = st"
  by (simp add: sha_blocks_def)

lemma sha_blocks_append:
  "64 dvd length a \<Longrightarrow> sha_blocks (a @ b) st = sha_blocks b (sha_blocks a st)"
  by (simp add: sha_blocks_def chunks_append)

lemma sha_blocks_single: "length b = 64 \<Longrightarrow> sha_blocks b st = sha_block b st"
  by (simp add: sha_blocks_def chunks_single)

lemma length_sha_blocks [simp]: "length st = 8 \<Longrightarrow> length (sha_blocks m st) = 8"
proof -
  have "length st = 8 \<Longrightarrow> length (fold sha_block ps st) = 8" for ps
    by (induction ps arbitrary: st) auto
  then show "length st = 8 \<Longrightarrow> length (sha_blocks m st) = 8"
    by (simp add: sha_blocks_def)
qed

lemma length_sha256 [simp]: "length (sha256 m) = 32"
proof -
  have "length (concat (map be32 ws)) = 4 * length ws" for ws
    by (induction ws) auto
  then show ?thesis by (simp add: sha256_def sha_H0_def)
qed

text \<open>
  What a context means: \<open>md_repr st buf fill m\<close> says that state and buffer hold the message
  \<open>m\<close> absorbed so far, its whole blocks compressed and the rest in the buffer's prefix.
\<close>

definition md_repr :: "u32 list \<Rightarrow> bytes \<Rightarrow> nat \<Rightarrow> bytes \<Rightarrow> bool" where
  "md_repr st buf fill m \<longleftrightarrow>
     length buf = 64 \<and> fill = length m mod 64 \<and>
     st = sha_blocks (take (length m - fill) m) sha_H0 \<and>
     take fill buf = drop (length m - fill) m"

lemma md_repr_init: "length buf = 64 \<Longrightarrow> md_repr sha_H0 buf 0 []"
  by (simp add: md_repr_def)

lemma md_repr_fill: "md_repr st buf fill m \<Longrightarrow> fill < 64 \<and> length buf = 64"
  by (simp add: md_repr_def)

lemma md_repr_split:
  assumes "md_repr st buf fill m"
  obtains h where "m = h @ take fill buf" "64 dvd length h" "st = sha_blocks h sha_H0" "fill < 64"
proof
  let ?h = "take (length m - fill) m"
  from assms show "m = ?h @ take fill buf" "st = sha_blocks ?h sha_H0" "fill < 64"
    by (auto simp: md_repr_def)
  from assms show "64 dvd length ?h"
    by (auto simp: md_repr_def minus_mod_eq_mult_div)
qed

lemma md_reprI:
  assumes "length buf = 64" "64 dvd length h" "fill < 64"
  shows "md_repr (sha_blocks h sha_H0) buf fill (h @ take fill buf)"
  using assms by (auto simp: md_repr_def dvd_def)

lemma md_repr_absorb:
  assumes "md_repr st buf fill m" "fill + length p < 64"
  shows "md_repr st (blit fill p buf) (fill + length p) (m @ p)"
proof -
  from assms(1) obtain h where h: "m = h @ take fill buf" "64 dvd length h"
      "st = sha_blocks h sha_H0" by (rule md_repr_split)
  have "take (fill + length p) (blit fill p buf) = take fill buf @ p"
    using assms md_repr_fill [OF assms(1)] by (simp add: blit_def)
  with md_reprI [of "blit fill p buf" h "fill + length p"] h assms md_repr_fill [OF assms(1)]
  show ?thesis by simp
qed

lemma md_repr_full:
  assumes "md_repr st buf fill m" "fill + length p = 64"
  shows "md_repr (sha_block (blit fill p buf) st) buf' 0 (m @ p) \<longleftrightarrow> length buf' = 64"
proof -
  from assms(1) obtain h where h: "m = h @ take fill buf" "64 dvd length h"
      "st = sha_blocks h sha_H0" by (rule md_repr_split)
  have b: "blit fill p buf = take fill buf @ p" "length (take fill buf @ p) = 64"
    using assms md_repr_fill [OF assms(1)] by (auto simp: blit_def)
  have "sha_blocks (m @ p) sha_H0 = sha_block (blit fill p buf) st"
    using h b by (simp add: sha_blocks_append sha_blocks_single)
  moreover have "64 dvd length (m @ p)" using h b by simp
  ultimately show ?thesis by (auto simp: md_repr_def)
qed

lemma md_repr_block:
  assumes "md_repr st buf 0 m" "length p = 64"
  shows "md_repr (sha_block p st) buf 0 (m @ p)"
  using md_repr_full [of st buf 0 m p buf] assms md_repr_fill [OF assms(1)]
  by (simp add: blit_def)

lemma md_repr_bits:
  assumes "md_repr st buf fill m"
  shows "of_nat ((length m - fill) * 8) + of_nat fill * 8 = bit_length m"
proof -
  have "fill \<le> length m" using assms by (simp add: md_repr_def)
  then have "length m * 8 = (length m - fill) * 8 + fill * 8" by simp
  then show ?thesis
    unfolding bit_length_def by (metis of_nat_add of_nat_mult of_nat_numeral)
qed

text \<open>The two shapes of the padded tail.\<close>

lemma sha_pad_short:
  assumes "md_repr st buf fill m" "fill < 56"
  shows "sha_blocks (sha_pad m) sha_H0 =
    sha_block (take fill buf @ 0x80 # replicate (55 - fill) 0 @ be64 (bit_length m)) st"
proof -
  from assms(1) obtain h where h: "m = h @ take fill buf" "64 dvd length h"
      "st = sha_blocks h sha_H0" by (rule md_repr_split)
  have "(119 - fill) mod 64 = 55 - fill" using assms(2) by (simp add: mod_if)
  moreover have "length m mod 64 = fill" using assms(1) by (simp add: md_repr_def)
  ultimately have "sha_pad m = h @ (take fill buf @ 0x80 # replicate (55 - fill) 0
      @ be64 (bit_length m))"
    using h by (simp add: sha_pad_def)
  then show ?thesis
    using h assms md_repr_fill [OF assms(1)] by (simp add: sha_blocks_append sha_blocks_single)
qed

lemma sha_pad_long:
  assumes "md_repr st buf fill m" "56 \<le> fill"
  shows "sha_blocks (sha_pad m) sha_H0 =
    sha_block (replicate 56 0 @ be64 (bit_length m))
      (sha_block (take fill buf @ 0x80 # replicate (63 - fill) 0) st)"
proof -
  from assms(1) obtain h where h: "m = h @ take fill buf" "64 dvd length h"
      "st = sha_blocks h sha_H0" by (rule md_repr_split)
  have "fill < 64" using md_repr_fill [OF assms(1)] by simp
  then have m: "(119 - fill) mod 64 = 119 - fill" using assms(2) by (simp add: mod_if)
  have rep: "replicate ((119 - fill) mod 64) (0 :: u8) = replicate (63 - fill) 0 @ replicate 56 0"
    using \<open>fill < 64\<close> m by (simp flip: replicate_add)
  have "length m mod 64 = fill" using assms(1) by (simp add: md_repr_def)
  then have "sha_pad m = h @ (take fill buf @ 0x80 # replicate (63 - fill) 0)
      @ (replicate 56 0 @ be64 (bit_length m))" (is "_ = h @ ?x @ ?y")
    using h rep by (simp add: sha_pad_def)
  moreover have "length ?x = 64" using assms md_repr_fill [OF assms(1)] by simp
  ultimately show ?thesis
    using h sha_blocks_append [of ?x ?y] by (simp add: sha_blocks_append sha_blocks_single)
qed

lemma zero_fill_blit: "i \<le> k \<Longrightarrow> k \<le> length b \<Longrightarrow> zero_fill i k b = blit i (replicate (k - i) 0) b"
proof (induction k)
  case (Suc k)
  show ?case
  proof (cases "i = Suc k")
    case False
    with Suc have "zero_fill i (Suc k) b = (blit i (replicate (k - i) 0) b)[k := 0]"
      by (simp add: zero_fill_def)
    also have "\<dots> = blit i (replicate (Suc k - i) 0) b"
      using Suc.prems False by (intro nth_equalityI) (auto simp: nth_blit nth_list_update)
    finally show ?thesis .
  qed (simp add: zero_fill_def blit_def)
qed (simp add: zero_fill_def blit_def)

lemma set_mark_blit:
  assumes "fill < k" "k \<le> length buf"
  shows "blit (Suc fill) (replicate (k - Suc fill) 0) (buf[fill := x]) =
    take fill buf @ x # replicate (k - Suc fill) 0 @ drop k buf"
  using assms by (simp add: blit_def take_Suc_conv_app_nth)

lemma mark_56:
  "fill < 56 \<Longrightarrow> length buf = 64 \<Longrightarrow> blit (Suc fill) (replicate (55 - fill) 0) (buf[fill := x]) =
    take fill buf @ x # replicate (55 - fill) 0 @ drop 56 buf"
  using set_mark_blit [of fill 56 buf x] by simp

lemma mark_64:
  "fill < 64 \<Longrightarrow> length buf = 64 \<Longrightarrow> blit (Suc fill) (replicate (63 - fill) 0) (buf[fill := x]) =
    take fill buf @ x # replicate (63 - fill) 0"
  using set_mark_blit [of fill 64 buf x] by simp

lemma zeros_56: "length buf = 64 \<Longrightarrow> blit 0 (replicate 56 0) buf = replicate 56 0 @ drop 56 buf"
  by (simp add: blit_def)

lemmas pad_simps = zero_fill_blit mark_56 mark_64 zeros_56

lemma list8E:
  assumes "length xs = 8"
  obtains x0 x1 x2 x3 x4 x5 x6 x7 where "xs = [x0, x1, x2, x3, x4, x5, x6, x7]"
  using assms by (auto simp: numeral_eq_Suc length_Suc_conv)

lemma set_length_bytes:
  assumes "length (b :: u8 list) = 64"
  shows "b[56 := a0, 57 := a1, 58 := a2, 59 := a3, 60 := a4, 61 := a5, 62 := a6, 63 := a7] =
    take 56 b @ [a0, a1, a2, a3, a4, a5, a6, a7]"
proof -
  have "length (drop 56 b) = 8" using assms by simp
  then obtain x0 x1 x2 x3 x4 x5 x6 x7 where "drop 56 b = [x0, x1, x2, x3, x4, x5, x6, x7]"
    by (rule list8E)
  then have "b = take 56 b @ [x0, x1, x2, x3, x4, x5, x6, x7]"
    by (metis append_take_drop_id)
  moreover have "length (take 56 b) = 56" using assms by simp
  ultimately obtain t where "b = t @ [x0, x1, x2, x3, x4, x5, x6, x7]" "length t = 56" by blast
  then show ?thesis by (simp add: list_update_append)
qed

text \<open>
  The interface the users of a hash rely on: absorbing pieces one after another and finishing
  gives the digest of their concatenation, whatever the previous contents of the context.
\<close>

locale incremental_hash =
  fixes init :: "'c \<Rightarrow> 'c"
    and update :: "'c \<Rightarrow> bytes \<Rightarrow> 'c"
    and final :: "'c \<Rightarrow> bytes"
    and wf :: "'c \<Rightarrow> bool"
    and repr :: "'c \<Rightarrow> bytes \<Rightarrow> bool"
  assumes repr_init: "wf c \<Longrightarrow> repr (init c) []"
    and repr_update: "repr c m \<Longrightarrow> repr (update c d) (m @ d)"
    and final_digest: "repr c m \<Longrightarrow> final c = sha256 m"
begin

lemma repr_fold: "repr c m \<Longrightarrow> repr (fold (\<lambda>d c. update c d) ds c) (m @ concat ds)"
proof (induction ds arbitrary: c m)
  case (Cons d ds)
  from Cons.IH [OF repr_update [OF Cons.prems]] show ?case by simp
qed simp

lemma digest_pieces:
  assumes "wf c"
  shows "final (fold (\<lambda>d c. update c d) ds (init c)) = sha256 (concat ds)"
  using final_digest [OF repr_fold [OF repr_init [OF assms], of ds]] by simp

lemma digest_once: "wf c \<Longrightarrow> final (update (init c) d) = sha256 d"
  using digest_pieces [of c "[d]"] by simp

end

subsection \<open>ci\_sha256.c computes the reference\<close>

definition ci_wf :: "ci_sha256_t \<Rightarrow> bool" where
  "ci_wf c \<longleftrightarrow> length (ci_buf c) = 64"

definition ci_repr :: "ci_sha256_t \<Rightarrow> bytes \<Rightarrow> bool" where
  "ci_repr c m \<longleftrightarrow> md_repr (ci_state c) (ci_buf c) (ci_buflen c) m \<and>
     ci_bitlen c = of_nat ((length m - ci_buflen c) * 8)"

lemma ci_transform_state: "ci_sha256_transform c p = c\<lparr>ci_state := sha_block p (ci_state c)\<rparr>"
  by (simp add: ci_sha256_transform_def sha_block_def compress_def sha_schedule_def
      block_words_def load_be32_def Let_def)

lemma ci_repr_byte:
  assumes "ci_repr c m"
  shows "ci_repr (ci_sha256_byte x c) (m @ [x])"
proof -
  let ?b = "(ci_buf c)[ci_buflen c := x]"
  have r: "md_repr (ci_state c) (ci_buf c) (ci_buflen c) m"
    and l: "ci_bitlen c = of_nat ((length m - ci_buflen c) * 8)"
    using assms by (auto simp: ci_repr_def)
  note f = md_repr_fill [OF r]
  have b: "?b = blit (ci_buflen c) [x] (ci_buf c)"
    using f by (simp add: blit_def upd_conv_take_nth_drop)
  have le: "ci_buflen c \<le> length m" using r by (simp add: md_repr_def)
  show ?thesis
  proof (cases "ci_buflen c = 63")
    case True
    moreover have "(length m + 1) * 8 = (length m - 63) * 8 + 512" using le True by simp
    then have "(of_nat ((length m - 63) * 8) :: u64) + 512 = of_nat ((length m + 1) * 8)"
      by (metis of_nat_add of_nat_numeral)
    ultimately show ?thesis
      using md_repr_full [OF r, of "[x]" ?b] f l b
      by (simp add: ci_sha256_byte_def ci_transform_state ci_repr_def)
  next
    case False
    with md_repr_absorb [OF r, of "[x]"] f l b show ?thesis
      by (simp add: ci_sha256_byte_def ci_repr_def)
  qed
qed

lemma ci_repr_update: "ci_repr c m \<Longrightarrow> ci_repr (ci_sha256_update c d) (m @ d)"
  unfolding ci_sha256_update_def
proof (induction d arbitrary: c m)
  case (Cons x d)
  from Cons.IH [OF ci_repr_byte [OF Cons.prems, of x]] show ?case by simp
qed simp

lemma ci_length_fold:
  "length b = 64 \<Longrightarrow> fold (\<lambda>j b. b[56 + (7 - j) := ucast (drop_bit (j * 8) w)]) (rev [0..<8]) b =
     take 56 b @ be64 (w :: u64)"
  by (simp add: set_length_bytes be64_list upt_rec)

lemma digest_words: "length st = 8 \<Longrightarrow>
  concat (map (\<lambda>j. [ucast (drop_bit 24 (st ! j)), ucast (drop_bit 16 (st ! j)),
     ucast (drop_bit 8 (st ! j)), ucast (st ! j)]) [0..<8]) = concat (map be32 st)"
  by (erule list8E) (simp add: be32_def upt_rec)

lemma ci_final_digest:
  assumes "ci_repr c m"
  shows "ci_sha256_final c = sha256 m"
proof -
  have r: "md_repr (ci_state c) (ci_buf c) (ci_buflen c) m"
    and l: "ci_bitlen c = of_nat ((length m - ci_buflen c) * 8)"
    using assms by (auto simp: ci_repr_def)
  note f = md_repr_fill [OF r]
  have L: "ci_bitlen c + of_nat (ci_buflen c) * 8 = bit_length m"
    using l md_repr_bits [OF r] by simp
  show ?thesis
  proof (cases "ci_buflen c < 56")
    case True
    then show ?thesis using f L sha_pad_short [OF r True]
      by (simp add: ci_sha256_final_def Let_def ci_transform_state pad_simps ci_length_fold
          digest_words sha256_def take_Cons')
  next
    case False
    then have "56 \<le> ci_buflen c" by simp
    then show ?thesis using f L sha_pad_long [OF r]
      by (simp add: ci_sha256_final_def Let_def ci_transform_state pad_simps ci_length_fold
          digest_words sha256_def)
  qed
qed

lemma ci_repr_init: "ci_wf c \<Longrightarrow> ci_repr (ci_sha256_init c) []"
  by (simp add: ci_wf_def ci_repr_def ci_sha256_init_def md_repr_init flip: sha_H0_def)

interpretation ci: incremental_hash ci_sha256_init ci_sha256_update ci_sha256_final ci_wf ci_repr
  by unfold_locales
    (auto simp: ci_repr_init ci_repr_update ci_final_digest)

subsection \<open>The agent's sha256.c computes the reference\<close>

definition agent_wf :: "sha256_ctx \<Rightarrow> bool" where
  "agent_wf c \<longleftrightarrow> length (sha_data c) = 64"

definition agent_repr :: "sha256_ctx \<Rightarrow> bytes \<Rightarrow> bool" where
  "agent_repr c m \<longleftrightarrow> md_repr (sha_state c) (sha_data c) (sha_datalen c) m \<and>
     sha_bitlen c = of_nat ((length m - sha_datalen c) * 8)"

text \<open>
  Up to the names of the fields the byte loop is that of \<open>ci_sha256.c\<close>; the abstraction
  below maps one context to the other, so the facts about absorbing are reused.
\<close>

definition as_ci :: "sha256_ctx \<Rightarrow> ci_sha256_t" where
  "as_ci c = \<lparr>ci_state = sha_state c, ci_bitlen = sha_bitlen c, ci_buf = sha_data c,
     ci_buflen = sha_datalen c\<rparr>"

lemma agent_transform_state: "sha256_transform c p = c\<lparr>sha_state := sha_block p (sha_state c)\<rparr>"
  by (simp add: sha256_transform_def sha_block_def compress_def sha_schedule_def block_words_def
      load_be32_def Let_def comp_def)

lemma as_ci_byte: "as_ci (sha256_byte x c) = ci_sha256_byte x (as_ci c)"
  by (simp add: as_ci_def sha256_byte_def ci_sha256_byte_def ci_transform_state agent_transform_state
      Let_def)

lemma as_ci_update: "as_ci (sha256_update c d) = ci_sha256_update (as_ci c) d"
  unfolding sha256_update_def ci_sha256_update_def
  by (induction d arbitrary: c) (auto simp: as_ci_byte)

lemma agent_repr_ci: "agent_repr c m \<longleftrightarrow> ci_repr (as_ci c) m"
  by (simp add: agent_repr_def ci_repr_def as_ci_def)

lemma ucast_low8: "ucast (x AND 0xff :: u32) = (ucast x :: u8)"
proof -
  have "x AND 0xff = take_bit 8 x" by (simp add: take_bit_eq_mask mask_eq_exp_minus_1)
  then show ?thesis by (intro bit_word_eqI) (simp only: bit_simps, simp)
qed

lemma replicate_32:
  "replicate 32 x = [x, x, x, x, x, x, x, x, x, x, x, x, x, x, x, x,
                     x, x, x, x, x, x, x, x, x, x, x, x, x, x, x, x]"
  by (simp add: numeral_eq_Suc)

lemma agent_digest_fold:
  "length st = 8 \<Longrightarrow>
   fold (\<lambda>i hash. fold (\<lambda>k hash. hash[i + 4 * k := ucast (drop_bit (24 - i * 8) (st ! k) AND 0xff)])
       [0..<8] hash) [0..<4] (replicate 32 (0 :: u8)) = concat (map be32 (st :: u32 list))"
  by (erule list8E) (simp add: be32_def upt_rec ucast_low8 replicate_32)

lemma agent_length_bytes:
  "length b = 64 \<Longrightarrow> b[63 := ucast w, 62 := ucast (drop_bit 8 w), 61 := ucast (drop_bit 16 w),
     60 := ucast (drop_bit 24 w), 59 := ucast (drop_bit 32 w), 58 := ucast (drop_bit 40 w),
     57 := ucast (drop_bit 48 w), 56 := ucast (drop_bit 56 w)] = take 56 b @ be64 (w :: u64)"
  by (simp add: set_length_bytes [symmetric] be64_list list_update_swap)

lemma agent_final_digest:
  assumes "agent_repr c m"
  shows "sha256_final c = sha256 m"
proof -
  have r: "md_repr (sha_state c) (sha_data c) (sha_datalen c) m"
    and l: "sha_bitlen c = of_nat ((length m - sha_datalen c) * 8)"
    using assms by (auto simp: agent_repr_def)
  note f = md_repr_fill [OF r]
  have L: "sha_bitlen c + of_nat (sha_datalen c) * 8 = bit_length m"
    using l md_repr_bits [OF r] by simp
  show ?thesis
  proof (cases "sha_datalen c < 56")
    case True
    then show ?thesis using f L sha_pad_short [OF r True]
      by (simp add: sha256_final_def Let_def agent_transform_state pad_simps agent_length_bytes
          agent_digest_fold sha256_def take_Cons')
  next
    case False
    then have "56 \<le> sha_datalen c" by simp
    then show ?thesis using f L sha_pad_long [OF r]
      by (simp add: sha256_final_def Let_def agent_transform_state pad_simps agent_length_bytes
          agent_digest_fold sha256_def)
  qed
qed

lemma agent_repr_update: "agent_repr c m \<Longrightarrow> agent_repr (sha256_update c d) (m @ d)"
  by (simp add: agent_repr_ci as_ci_update ci_repr_update)

lemma agent_repr_init: "agent_wf c \<Longrightarrow> agent_repr (sha256_init c) []"
  by (simp add: agent_wf_def agent_repr_def sha256_init_def md_repr_init flip: sha_H0_def)

interpretation agent: incremental_hash sha256_init sha256_update sha256_final agent_wf agent_repr
  by unfold_locales
    (auto simp: agent_repr_init agent_final_digest agent_repr_update)

subsection \<open>The ground's sha256.c computes the reference\<close>

definition apm_wf :: "apm_sha256_ctx \<Rightarrow> bool" where
  "apm_wf c \<longleftrightarrow> length (apm_buf c) = 64"

definition apm_repr :: "apm_sha256_ctx \<Rightarrow> bytes \<Rightarrow> bool" where
  "apm_repr c m \<longleftrightarrow> md_repr (apm_state c) (apm_buf c) (length m mod 64) m \<and>
     apm_count c = of_nat (length m)"

lemma count_fill: "unat ((of_nat n :: u64) AND 63) = n mod 64"
proof -
  have "(63 :: u64) = mask 6" by (simp add: mask_eq_exp_minus_1)
  then have "(of_nat n :: u64) AND 63 = take_bit 6 (of_nat n)" by (simp add: take_bit_eq_mask)
  also have "unat \<dots> = take_bit 6 (take_bit 64 n)" by (simp add: unsigned_take_bit_eq unsigned_of_nat)
  finally show ?thesis by (simp add: take_bit_eq_mod mod_mod_cancel)
qed

lemma load_words:
  "length p = 64 \<Longrightarrow> map (\<lambda>i. load32be (drop (i * 4) p)) [0..<16] = block_words p"
  unfolding block_words_def by (rule map_cong) (auto simp: load32be_def load_be32_def add.commute)

lemma apm_transform_state:
  "length p = 64 \<Longrightarrow> apm_sha256_transform c p = c\<lparr>apm_state := sha_block p (apm_state c)\<rparr>"
  by (simp only: apm_sha256_transform_def sha_block_def compress_def sha_schedule_def load_words Let_def)

lemma apm_blocks_repr:
  assumes "md_repr (apm_state c) (apm_buf c) 0 m"
  shows "case apm_whole_blocks c p of (c', rest) \<Rightarrow>
    length rest < 64 \<and> apm_count c' = apm_count c \<and> (\<exists>h. p = h @ rest \<and>
    md_repr (apm_state c') (apm_buf c') 0 (m @ h))"
  using assms
proof (induction c p arbitrary: m rule: apm_whole_blocks.induct)
  case (1 c p)
  show ?case
  proof (cases "64 \<le> length p")
    case True
    let ?c = "apm_sha256_transform c (take 64 p)"
    have "md_repr (apm_state ?c) (apm_buf ?c) 0 (m @ take 64 p)"
      using md_repr_block [OF "1.prems", of "take 64 p"] True by (simp add: apm_transform_state)
    note IH = "1.IH" [OF True this]
    obtain c' rest where e: "apm_whole_blocks ?c (drop 64 p) = (c', rest)"
      by (cases "apm_whole_blocks ?c (drop 64 p)")
    with IH obtain h where h: "length rest < 64" "apm_count c' = apm_count ?c" "drop 64 p = h @ rest"
      "md_repr (apm_state c') (apm_buf c') 0 ((m @ take 64 p) @ h)" by auto
    have "p = (take 64 p @ h) @ rest" using h(3) by (metis append.assoc append_take_drop_id)
    with h e True show ?thesis
      by (subst apm_whole_blocks.simps) (auto simp: apm_transform_state intro!: exI [of _ "take 64 p @ h"])
  next
    case False
    with "1.prems" show ?thesis by (subst apm_whole_blocks.simps) auto
  qed
qed

lemma apm_tail_repr:
  assumes "md_repr (apm_state c) (apm_buf c) 0 m" "apm_count c = of_nat (length (m @ p))"
  shows "apm_repr (apm_tail c p) (m @ p)"
proof -
  obtain c' rest where e: "apm_whole_blocks c p = (c', rest)" by (cases "apm_whole_blocks c p")
  with apm_blocks_repr [OF assms(1), of p] obtain h where h: "length rest < 64"
    "apm_count c' = apm_count c" "p = h @ rest" "md_repr (apm_state c') (apm_buf c') 0 (m @ h)" by auto
  then have "md_repr (apm_state c') (blit 0 rest (apm_buf c')) (length rest) (m @ p)"
    using md_repr_absorb [OF h(4), of rest] by simp
  moreover from this have "length (m @ p) mod 64 = length rest" by (simp add: md_repr_def)
  ultimately show ?thesis
    using e h assms(2) by (auto simp: apm_tail_def apm_repr_def blit_def)
qed

lemma apm_repr_update:
  assumes "apm_repr c m"
  shows "apm_repr (apm_sha256_update c p) (m @ p)"
proof -
  let ?f = "length m mod 64"
  have r: "md_repr (apm_state c) (apm_buf c) ?f m" and n: "apm_count c = of_nat (length m)"
    using assms by (auto simp: apm_repr_def)
  have b: "length (apm_buf c) = 64" using md_repr_fill [OF r] by simp
  consider "?f = 0" | "?f \<noteq> 0" "length p < 64 - ?f" | "?f \<noteq> 0" "64 - ?f \<le> length p" by linarith
  then show ?thesis
  proof cases
    case 1
    then show ?thesis using r n
      by (simp add: apm_sha256_update_def count_fill apm_tail_repr)
  next
    case 2
    then have s: "?f + length p < 64" by simp
    then have "length (m @ p) mod 64 = ?f + length p"
      using mod_add_left_eq [of "length m" 64 "length p"] by simp
    with 2 md_repr_absorb [OF r s] show ?thesis
      using n by (simp add: apm_sha256_update_def Let_def count_fill apm_repr_def)
  next
    case 3
    let ?l = "64 - ?f"
    let ?b = "blit ?f (take ?l p) (apm_buf c)"
    have "length ?b = 64" using 3 b by simp
    then have "md_repr (sha_block ?b (apm_state c)) ?b 0 (m @ take ?l p)"
      using md_repr_full [OF r, of "take ?l p" ?b] 3 by (simp add: min_def)
    from apm_tail_repr [of "c\<lparr>apm_count := apm_count c + of_nat (length p), apm_buf := ?b,
        apm_state := sha_block ?b (apm_state c)\<rparr>" "m @ take ?l p" "drop ?l p"] this
    show ?thesis
      using 3 n b \<open>length ?b = 64\<close>
      by (simp add: apm_sha256_update_def Let_def count_fill apm_transform_state)
  qed
qed

lemma store64be_56: "length b = 64 \<Longrightarrow> store64be 56 w b = take 56 b @ be64 w"
  by (simp add: store64be_def set_length_bytes be64_list)

lemma apm_final_digest:
  assumes "apm_repr c m"
  shows "apm_sha256_final c = sha256 m"
proof -
  let ?f = "length m mod 64"
  have r: "md_repr (apm_state c) (apm_buf c) ?f m" and n: "apm_count c = of_nat (length m)"
    using assms by (auto simp: apm_repr_def)
  have b: "length (apm_buf c) = 64" "?f < 64" using md_repr_fill [OF r] by auto
  have L: "apm_count c * 8 = bit_length m" using n by (simp add: bit_length_def)
  show ?thesis
  proof (cases "?f < 56")
    case True
    then show ?thesis using b L n sha_pad_short [OF r True]
      by (simp add: apm_sha256_final_def Let_def count_fill apm_transform_state pad_simps
          store64be_56 digest_words sha256_def take_Cons')
  next
    case False
    then have "56 \<le> ?f" by simp
    then show ?thesis using b L n sha_pad_long [OF r]
      by (simp add: apm_sha256_final_def Let_def count_fill apm_transform_state pad_simps
          store64be_56 digest_words sha256_def)
  qed
qed

lemma apm_repr_init: "apm_wf c \<Longrightarrow> apm_repr (apm_sha256_init c) []"
  by (simp add: apm_wf_def apm_repr_def apm_sha256_init_def md_repr_init flip: sha_H0_def)

interpretation apm: incremental_hash apm_sha256_init apm_sha256_update apm_sha256_final apm_wf apm_repr
  by unfold_locales (auto simp: apm_repr_init apm_repr_update apm_final_digest)

section \<open>Properties\<close>

text \<open>
  C24: feeding any sequence of pieces through init, update and final of the transfer core's
  \<open>ci_sha256.c\<close>, the agent's \<open>sha256.c\<close> and the ground's \<open>sha256.c\<close>, each
  split in its own way and from any previous buffer contents, gives the same digest: the
  SHA-256 of the concatenated bytes. The ground's announced checksum and the agent's recomputed
  one can therefore be compared.
\<close>

theorem sha256_implementations_agree:
  assumes "length (ci_buf c) = 64" "length (sha_data a) = 64" "length (apm_buf g) = 64"
    and "concat ds = m" "concat es = m" "concat gs = m"
  shows "ci_sha256_final (fold (\<lambda>d c. ci_sha256_update c d) ds (ci_sha256_init c)) = sha256 m \<and>
    sha256_final (fold (\<lambda>d c. sha256_update c d) es (sha256_init a)) = sha256 m \<and>
    apm_sha256_final (fold (\<lambda>d c. apm_sha256_update c d) gs (apm_sha256_init g)) = sha256 m"
  using assms ci.digest_pieces [of c ds] agent.digest_pieces [of a es] apm.digest_pieces [of g gs]
  by (simp add: ci_wf_def agent_wf_def apm_wf_def)

theorem sha256_implementations_agree_witness:
  "ci_sha256_final (fold (\<lambda>d c. ci_sha256_update c d) [[1, 2], [3]] (ci_sha256_init
       \<lparr>ci_state = [], ci_bitlen = 0, ci_buf = replicate 64 7, ci_buflen = 0\<rparr>)) = sha256 [1, 2, 3] \<and>
   sha256_final (fold (\<lambda>d c. sha256_update c d) [[1], [2, 3]] (sha256_init
       \<lparr>sha_data = replicate 64 9, sha_datalen = 0, sha_bitlen = 0, sha_state = []\<rparr>)) = sha256 [1, 2, 3] \<and>
   apm_sha256_final (fold (\<lambda>d c. apm_sha256_update c d) [[1, 2, 3]] (apm_sha256_init
       \<lparr>apm_state = [], apm_count = 0, apm_buf = replicate 64 0\<rparr>)) = sha256 [1, 2, 3]"
  by (rule sha256_implementations_agree) simp_all

end
