(* ===== verification/Runs.thy ===== *)
theory Runs
  imports Prelude
begin

text \<open>
  Maximal runs of a predicate over an interval of naturals, as increasing lists of half-open
  intervals: the specification of the missing and corrupt ranges the receiver reports, built
  from either end, with the facts that two runs never touch and that a run cannot be extended.
\<close>

text \<open>
  \<open>is_runs P i n L\<close>: \<open>L\<close> lists, in increasing order, the maximal non-empty
  half-open intervals of \<open>[i, n)\<close> all of whose elements satisfy \<open>P\<close>. Two
  consecutive intervals never touch, and together they contain exactly the elements with
  \<open>P\<close>.
\<close>

definition in_runs :: "(nat \<times> nat) list \<Rightarrow> nat \<Rightarrow> bool" where
  "in_runs L j \<longleftrightarrow> (\<exists>(a, b) \<in> set L. a \<le> j \<and> j < b)"

definition is_runs :: "(nat \<Rightarrow> bool) \<Rightarrow> nat \<Rightarrow> nat \<Rightarrow> (nat \<times> nat) list \<Rightarrow> bool" where
  "is_runs P i n L \<longleftrightarrow> sorted_wrt (\<lambda>p q. snd p < fst q) L \<and>
     (\<forall>(a, b) \<in> set L. i \<le> a \<and> a < b \<and> b \<le> n) \<and>
     (\<forall>j. i \<le> j \<and> j < n \<longrightarrow> P j = in_runs L j)"

lemma in_runs_simps [simp]:
  "\<not> in_runs [] j"
  "in_runs ((a, b) # L) j \<longleftrightarrow> (a \<le> j \<and> j < b) \<or> in_runs L j"
  "in_runs (L @ M) j \<longleftrightarrow> in_runs L j \<or> in_runs M j"
  by (auto simp: in_runs_def)

lemma is_runsI:
  assumes "sorted_wrt (\<lambda>p q. snd p < fst q) L"
    and "\<And>a b. (a, b) \<in> set L \<Longrightarrow> i \<le> a \<and> a < b \<and> b \<le> n"
    and "\<And>j. i \<le> j \<Longrightarrow> j < n \<Longrightarrow> P j = in_runs L j"
  shows "is_runs P i n L"
  using assms by (auto simp: is_runs_def)

lemma is_runsD:
  assumes "is_runs P i n L"
  shows "sorted_wrt (\<lambda>p q. snd p < fst q) L"
    and "(a, b) \<in> set L \<Longrightarrow> i \<le> a \<and> a < b \<and> b \<le> n"
    and "i \<le> j \<Longrightarrow> j < n \<Longrightarrow> in_runs L j = P j"
    and "in_runs L j \<Longrightarrow> i \<le> j \<and> j < n"
  using assms by (auto simp: is_runs_def in_runs_def)

lemma is_runs_Nil: "n \<le> i \<Longrightarrow> is_runs P i n []"
  by (rule is_runsI) auto

lemma is_runs_skip:
  assumes "\<not> P i" "is_runs P (Suc i) n L"
  shows "is_runs P i n L"
proof (rule is_runsI)
  fix j assume "i \<le> j" "j < n"
  then show "P j = in_runs L j"
    using assms(1) is_runsD(3,4) [OF assms(2), of j]
    by (metis Suc_leI Suc_n_not_le_n le_neq_implies_less)
qed (use is_runsD(1,2) [OF assms(2)] in \<open>auto dest: Suc_leD\<close>)

lemma is_runs_Cons:
  assumes "i < r" "r \<le> n" "\<And>j. i \<le> j \<Longrightarrow> j < r \<Longrightarrow> P j" "r < n \<Longrightarrow> \<not> P r" "is_runs P r n L"
  shows "is_runs P i n ((i, r) # L)"
proof -
  have gap: "r < a" if "(a, b) \<in> set L" for a b
  proof -
    have "r \<le> a" "a < b" "b \<le> n" using is_runsD(2) [OF assms(5) that] by auto
    moreover have "in_runs L a" using that calculation by (auto simp: in_runs_def)
    ultimately show ?thesis using assms(4) is_runsD(3) [OF assms(5), of a] by (cases "r = a") auto
  qed
  show ?thesis
  proof (rule is_runsI)
    fix j assume "i \<le> j" "j < n"
    then show "P j = in_runs ((i, r) # L) j"
      using assms(3) [of j] is_runsD(3,4) [OF assms(5), of j]
      by (metis in_runs_simps(2) not_less)
  qed (use assms(1,2) gap is_runsD(1,2) [OF assms(5)] in fastforce)+
qed

lemma is_runs_good:
  assumes "is_runs P i m L" "m \<le> m'" "\<And>j. m \<le> j \<Longrightarrow> j < m' \<Longrightarrow> \<not> P j"
  shows "is_runs P i m' L"
proof (rule is_runsI)
  fix j assume "i \<le> j" "j < m'"
  then show "P j = in_runs L j"
    using assms(3) is_runsD(3,4) [OF assms(1), of j] by (cases "j < m") auto
qed (use assms(2) is_runsD(1,2) [OF assms(1)] in fastforce)+

lemma is_runs_snoc:
  assumes "is_runs P i m L" "i \<le> m" "m < m'" "\<And>j. m \<le> j \<Longrightarrow> j < m' \<Longrightarrow> P j"
    and "\<And>a b. (a, b) \<in> set L \<Longrightarrow> b \<noteq> m"
  shows "is_runs P i m' (L @ [(m, m')])"
proof (rule is_runsI)
  fix j assume "i \<le> j" "j < m'"
  then show "P j = in_runs (L @ [(m, m')]) j"
    using assms(4) is_runsD(3,4) [OF assms(1), of j] by (cases "j < m") auto
next
  show "sorted_wrt (\<lambda>p q. snd p < fst q) (L @ [(m, m')])"
    using is_runsD(1,2) [OF assms(1)] assms(5) by (fastforce simp: sorted_wrt_append le_less)
qed (use assms(2,3) is_runsD(2) [OF assms(1)] in fastforce)

lemma is_runs_extend:
  assumes "is_runs P i m (L @ [(a, m)])" "m < m'" "\<And>j. m \<le> j \<Longrightarrow> j < m' \<Longrightarrow> P j"
  shows "is_runs P i m' (L @ [(a, m')])"
proof (rule is_runsI)
  have a: "i \<le> a" "a < m" using is_runsD(2) [OF assms(1), of a m] by auto
  fix j assume "i \<le> j" "j < m'"
  then show "P j = in_runs (L @ [(a, m')]) j"
    using a assms(2,3) is_runsD(3,4) [OF assms(1), of j] by (cases "j < m") auto
next
  show "sorted_wrt (\<lambda>p q. snd p < fst q) (L @ [(a, m')])"
    using is_runsD(1) [OF assms(1)] by (simp add: sorted_wrt_append)
qed (use assms(2) is_runsD(2) [OF assms(1)] in fastforce)

lemma is_runs_length:
  assumes "is_runs P i n L"
  shows "length L \<le> n - i"
proof -
  have s: "sorted_wrt (<) (map fst L)" and sub: "set (map fst L) \<subseteq> {i..<n}"
    using is_runsD(1,2) [OF assms]
    by (fastforce simp: sorted_wrt_map intro: sorted_wrt_mono_rel [rotated])+
  then have "length L = card (set (map fst L))"
    using distinct_card [of "map fst L"] by (simp add: strict_sorted_iff)
  also have "\<dots> \<le> card {i..<n}" using sub by (intro card_mono) auto
  finally show ?thesis by simp
qed

lemma runs_apart:
  assumes "is_runs P i n L" "p \<in> set L" "q \<in> set L" "p \<noteq> q"
  shows "snd p < fst q \<or> snd q < fst p"
proof -
  obtain x y where xy: "x < length L" "L ! x = p" "y < length L" "L ! y = q"
    using assms(2,3) by (metis in_set_conv_nth)
  then have "x < y \<or> y < x" using assms(4) by (metis nat_neq_iff)
  then show ?thesis using is_runsD(1) [OF assms(1)] xy by (metis sorted_wrt_iff_nth_less)
qed

lemma is_runs_maximal:
  assumes "is_runs P i n L" "(a, b) \<in> set L"
  shows "b < n \<Longrightarrow> \<not> P b" and "i < a \<Longrightarrow> \<not> P (a - 1)"
proof -
  have ab: "i \<le> a" "a < b" "b \<le> n" using is_runsD(2) [OF assms] by auto
  show "\<not> P b" if "b < n"
  proof
    assume "P b"
    then have "in_runs L b" using is_runsD(3) [OF assms(1), of b] that ab by simp
    then obtain c d where "(c, d) \<in> set L" "c \<le> b" "b < d" by (auto simp: in_runs_def)
    then show False using runs_apart [OF assms(1,2), of "(c, d)"] ab by auto
  qed
  show "\<not> P (a - 1)" if "i < a"
  proof
    assume "P (a - 1)"
    then have "in_runs L (a - 1)" using is_runsD(3) [OF assms(1), of "a - 1"] that ab by simp
    then obtain c d where "(c, d) \<in> set L" "c \<le> a - 1" "a - 1 < d" by (auto simp: in_runs_def)
    moreover have "(a, b) \<noteq> (c, d)" using calculation(2) that by auto
    ultimately show False using runs_apart [OF assms(1,2), of "(c, d)"] ab that by auto
  qed
qed

text \<open>A set of neighbours that all satisfy \<open>P\<close> lies in one run.\<close>

lemma is_runs_connected:
  assumes L: "is_runs P i n L" "(a, b) \<in> set L" and x: "a \<le> x" "x < b"
    and P: "\<And>z. min x y \<le> z \<Longrightarrow> z \<le> max x y \<Longrightarrow> P z" and y: "i \<le> y" "y < n"
  shows "a \<le> y \<and> y < b"
proof (rule ccontr)
  assume "\<not> (a \<le> y \<and> y < b)"
  then consider "y < a" | "b \<le> y" by linarith
  then show False
  proof cases
    case 1
    then have "i < a" "P (a - 1)" using x y by (auto intro!: P)
    then show False using is_runs_maximal(2) [OF L] by blast
  next
    case 2
    then have "b < n" "P b" using x y by (auto intro!: P)
    then show False using is_runs_maximal(1) [OF L] by blast
  qed
qed

lemma is_runs_empty_iff:
  assumes "is_runs P 0 n L"
  shows "L = [] \<longleftrightarrow> (\<forall>i<n. \<not> P i)"
proof
  assume r: "\<forall>i<n. \<not> P i"
  show "L = []"
  proof (cases L)
    case (Cons p L')
    then have "in_runs L (fst p) \<and> fst p < n"
      using is_runsD(2) [OF assms, of "fst p" "snd p"] by (cases p) auto
    then show ?thesis using r is_runsD(3) [OF assms, of "fst p"] by blast
  qed
qed (use is_runsD(3) [OF assms] in force)

text \<open>Runs exist for every predicate, and may be looked for from further left.\<close>

lemma runs_exist: "\<exists>L. is_runs P i n L"
proof (induction "n - i" arbitrary: i rule: less_induct)
  case less
  consider "n \<le> i" | "i < n" "\<not> P i" | "i < n" "P i" by linarith
  then show ?case
  proof cases
    case 1
    then show ?thesis using is_runs_Nil by blast
  next
    case 2
    then have "n - Suc i < n - i" by simp
    from less [OF this] obtain L where "is_runs P (Suc i) n L" by blast
    then show ?thesis using is_runs_skip [of P i] 2(2) by blast
  next
    case 3
    let ?Q = "\<lambda>r. i \<le> r \<and> (r = n \<or> \<not> P r)"
    define r where "r = Least ?Q"
    have q: "?Q n" using 3 by simp
    have r: "?Q r" unfolding r_def by (rule LeastI [of ?Q, OF q])
    have rn: "r \<le> n" unfolding r_def by (rule Least_le [of ?Q, OF q])
    have m: "P j" if "i \<le> j" "j < r" for j using not_less_Least [of j ?Q] that r_def by blast
    have "i < r" using r 3 by (metis le_neq_implies_less nat_neq_iff)
    moreover from calculation 3 have "n - r < n - i" by simp
    from less [OF this] obtain L where "is_runs P r n L" by blast
    ultimately show ?thesis using is_runs_Cons [of i r n P L] r m rn by blast
  qed
qed

lemma is_runs_skips:
  assumes "is_runs P b n L" "a \<le> b" "\<And>k. a \<le> k \<Longrightarrow> k < b \<Longrightarrow> \<not> P k"
  shows "is_runs P a n L"
proof (rule is_runsI)
  fix j assume "a \<le> j" "j < n"
  then show "P j = in_runs L j"
  proof (cases "j < b")
    case True
    then show ?thesis using assms(3) \<open>a \<le> j\<close> is_runsD(4) [OF assms(1), of j] by (metis linorder_not_le)
  next
    case False
    then show ?thesis using is_runsD(3) [OF assms(1), of j] \<open>j < n\<close> by (metis linorder_not_le)
  qed
next
  fix x y assume "(x, y) \<in> set L"
  from is_runsD(2) [OF assms(1) this] assms(2) show "a \<le> x \<and> x < y \<and> y \<le> n" by simp
qed (rule is_runsD(1) [OF assms(1)])

end
