(* ===== verification/Ci_Svu.thy ===== *)
theory Ci_Svu
  imports Svu_Proto Sha256 Runs
begin

text \<open>
  The core of the self-verifying uploader (\<open>svu/ci_svu.c\<close>): the block manifest, the
  receiver that reassembles fragments and counts the bytes covered, and the verdict that
  declares a transfer complete only when every byte arrived and every block has its expected
  digest, or names the byte ranges to ask for again.

  Pointers that may be \<open>NULL\<close> are options. \<open>calloc\<close>/\<open>malloc\<close> failing in
  \<open>ci_svu_new\<close> is the argument \<open>oom\<close>. Loop counters that stay below a 32-bit
  bound held in the same state are natural numbers; the stored fields, the block count and the
  reported intervals keep their C width. \<open>ci_svu_free\<close> only releases memory.
\<close>

section \<open>Definitions\<close>

definition CI_SVU_HASH_LEN :: nat where "CI_SVU_HASH_LEN = 32"

datatype ci_svu_status_t = CI_SVU_INCOMPLETE | CI_SVU_COMPLETE_VERIFIED | CI_SVU_CORRUPT

record ci_svu_interval_t =
  iv_start :: u32
  iv_end :: u32

record ci_svu =
  s_total :: u32
  s_block :: u32
  s_nblocks :: u32
  s_covered_count :: u32
  s_data :: bytes
  s_covered :: bytes
  s_expected :: bytes

definition ci_svu_nblocks :: "u32 \<Rightarrow> u32 \<Rightarrow> u32" where
  "ci_svu_nblocks total_size block_size =
     (if total_size = 0 \<or> block_size = 0 then 0
      else (total_size + block_size - 1) div block_size)"

text \<open>The 64-bit bounds \<open>start\<close> and \<open>end\<close> of block \<open>b\<close>.\<close>

definition block_range :: "u32 \<Rightarrow> u32 \<Rightarrow> u32 \<Rightarrow> u64 \<times> u64" where
  "block_range tot block b =
     (let start = ucast b * ucast block; fin = start + ucast block
      in (start, if fin > ucast tot then ucast tot else fin))"

text \<open>
  The hash context is an uninitialised stack object; \<open>ci_sha256_init\<close> makes its previous
  contents irrelevant, so any 64-byte buffer stands for it.
\<close>

definition ci_stack :: ci_sha256_t where
  "ci_stack = \<lparr>ci_state = replicate 8 0, ci_bitlen = 0, ci_buf = replicate 64 0, ci_buflen = 0\<rparr>"

definition hash_block :: "bytes \<Rightarrow> u32 \<Rightarrow> u32 \<Rightarrow> u32 \<Rightarrow> bytes" where
  "hash_block src tot block b =
     (let (start, fin) = block_range tot block b;
          ctx = ci_sha256_init ci_stack;
          ctx = ci_sha256_update ctx (seg (unat start) (unat (fin - start)) src)
      in ci_sha256_final ctx)"

definition ci_svu_manifest :: "bytes option \<Rightarrow> u32 \<Rightarrow> u32 \<Rightarrow> bytes option \<Rightarrow> u32 \<times> bytes option" where
  "ci_svu_manifest src total_size block_size digests_out =
     (case (src, digests_out) of
        (Some src, Some digests) \<Rightarrow>
          let nblk = ci_svu_nblocks total_size block_size
          in if nblk = 0 then (0, Some digests)
             else (nblk, Some (fold (\<lambda>b. blit (b * CI_SVU_HASH_LEN)
                     (hash_block src total_size block_size (of_nat b))) [0..<unat nblk] digests))
      | _ \<Rightarrow> (0, digests_out))"

definition ci_svu_new :: "bool \<Rightarrow> u32 \<Rightarrow> u32 \<Rightarrow> bytes option \<Rightarrow> u32 \<Rightarrow> ci_svu option" where
  "ci_svu_new oom total_size block_size expected nblocks =
     (let nblk = ci_svu_nblocks total_size block_size
      in if nblk = 0 \<or> nblk \<noteq> nblocks then None
         else case expected of None \<Rightarrow> None
         | Some ex \<Rightarrow>
             if oom then None
             else Some \<lparr>s_total = total_size, s_block = block_size, s_nblocks = nblk,
                        s_covered_count = 0,
                        s_data = replicate (unat total_size) 0,
                        s_covered = replicate (unat total_size) 0,
                        s_expected = take (unat nblk * CI_SVU_HASH_LEN) ex\<rparr>)"

definition cover_byte :: "nat \<Rightarrow> ci_svu \<Rightarrow> ci_svu" where
  "cover_byte i s =
     (if s_covered s ! i = 0
      then s\<lparr>s_covered := (s_covered s)[i := 1], s_covered_count := s_covered_count s + 1\<rparr>
      else s)"

definition ci_svu_accept :: "ci_svu option \<Rightarrow> u32 \<Rightarrow> bytes option \<Rightarrow> int \<times> ci_svu option" where
  "ci_svu_accept s offset buf =
     (case (s, buf) of
        (Some s, Some buf) \<Rightarrow>
          let fin = unat offset + length buf
          in if fin > unat (s_total s) then (-1, Some s)
             else let s = fold cover_byte [unat offset..<fin] s;
                      s = (if length buf > 0 then s\<lparr>s_data := blit (unat offset) buf (s_data s)\<rparr> else s)
                  in (0, Some s)
      | _ \<Rightarrow> (-1, s))"

definition ci_svu_covered :: "ci_svu option \<Rightarrow> u32" where
  "ci_svu_covered s = (case s of None \<Rightarrow> 0 | Some s \<Rightarrow> s_covered_count s)"

definition ci_svu_data :: "ci_svu option \<Rightarrow> bytes option" where
  "ci_svu_data s = (case s of None \<Rightarrow> None | Some s \<Rightarrow> Some (s_data s))"

text \<open>The caller's array and the logical count, which advances even when there is no room.\<close>

type_synonym pushed = "ci_svu_interval_t list option \<times> u32"

definition push_interval :: "u32 \<Rightarrow> u32 \<Rightarrow> u32 \<Rightarrow> pushed \<Rightarrow> pushed" where
  "push_interval mx start fin = (\<lambda>(out, nout).
     ((case out of
         Some a \<Rightarrow> if nout < mx then Some (a[unat nout := \<lparr>iv_start = start, iv_end = fin\<rparr>]) else Some a
       | None \<Rightarrow> None), nout + 1))"

function run_of_holes :: "ci_svu \<Rightarrow> nat \<Rightarrow> nat" where
  "run_of_holes s run =
     (if run < unat (s_total s) \<and> s_covered s ! run = 0 then run_of_holes s (Suc run) else run)"
  by pat_completeness auto
termination
  by (relation "measure (\<lambda>(s, run). unat (s_total s) - run)") auto

declare run_of_holes.simps [simp del]

lemma run_of_holes_le: "i \<le> run_of_holes s i"
  by (induction s i rule: run_of_holes.induct) (subst run_of_holes.simps, force)

lemma run_of_holes_gt: "i < unat (s_total s) \<Longrightarrow> s_covered s ! i = 0 \<Longrightarrow> i < run_of_holes s i"
  using run_of_holes_le [of "Suc i" s] by (subst run_of_holes.simps) simp

function missing_loop :: "ci_svu \<Rightarrow> u32 \<Rightarrow> nat \<Rightarrow> pushed \<Rightarrow> pushed" where
  "missing_loop s mx i acc =
     (if i < unat (s_total s) then
        if s_covered s ! i = 0 then
          let run = run_of_holes s i
          in missing_loop s mx run (push_interval mx (of_nat i) (of_nat run) acc)
        else missing_loop s mx (Suc i) acc
      else acc)"
  by pat_completeness auto
termination
  by (relation "measure (\<lambda>(s, mx, i, acc). unat (s_total s) - i)")
    (auto intro!: diff_less_mono2 run_of_holes_gt)

declare missing_loop.simps [simp del]

record block_scan =
  b_status :: ci_svu_status_t
  b_run_start :: u32
  b_run_end :: u32
  b_pushed :: pushed

definition scan_block :: "ci_svu \<Rightarrow> u32 \<Rightarrow> nat \<Rightarrow> block_scan \<Rightarrow> block_scan" where
  "scan_block s mx b c =
     (let got = hash_block (s_data s) (s_total s) (s_block s) (of_nat b)
      in if got \<noteq> seg (b * CI_SVU_HASH_LEN) CI_SVU_HASH_LEN (s_expected s) then
           let c = c\<lparr>b_status := CI_SVU_CORRUPT\<rparr>;
               (start, fin) = block_range (s_total s) (s_block s) (of_nat b)
           in if b_run_end c \<noteq> b_run_start c \<and> ucast start = b_run_end c then c\<lparr>b_run_end := ucast fin\<rparr>
              else let c = (if b_run_end c \<noteq> b_run_start c
                            then c\<lparr>b_pushed := push_interval mx (b_run_start c) (b_run_end c) (b_pushed c)\<rparr>
                            else c)
                   in c\<lparr>b_run_start := ucast start, b_run_end := ucast fin\<rparr>
         else c)"

definition ci_svu_verify ::
  "ci_svu option \<Rightarrow> ci_svu_interval_t list option \<Rightarrow> u32 \<Rightarrow> ci_svu_status_t \<times> pushed" where
  "ci_svu_verify s out mx =
     (case s of
        None \<Rightarrow> (CI_SVU_INCOMPLETE, (out, 0))
      | Some s \<Rightarrow>
          if s_covered_count s < s_total s then
            (CI_SVU_INCOMPLETE, missing_loop s mx 0 (out, 0))
          else
            let c = fold (scan_block s mx) [0..<unat (s_nblocks s)]
                      \<lparr>b_status = CI_SVU_COMPLETE_VERIFIED, b_run_start = 0, b_run_end = 0,
                       b_pushed = (out, 0)\<rparr>
            in (b_status c,
                if b_run_end c \<noteq> b_run_start c
                then push_interval mx (b_run_start c) (b_run_end c) (b_pushed c)
                else b_pushed c))"

section \<open>Blocks\<close>

lemma nblocks_nat:
  "unat (ci_svu_nblocks t k) =
     (if t = 0 \<or> k = 0 \<or> 4294967296 < unat t + unat k then 0 else (unat t + unat k - 1) div unat k)"
proof (cases "t = 0 \<or> k = 0")
  case False
  then have k: "0 < unat k" "0 < unat t" by (simp_all add: unat_gt_0)
  have "unat (t + k - 1) = unat (t + (k - 1))" by (simp add: algebra_simps)
  also have "\<dots> = (unat t + (unat k - 1)) mod 4294967296"
    using False by (simp add: unat_word_ariths(1) unat_minus_one)
  finally have u: "unat (t + k - 1) = (unat t + (unat k - 1)) mod 4294967296" .
  show ?thesis
  proof (cases "4294967296 < unat t + unat k")
    case True
    then have "unat t + (unat k - 1) = 4294967296 + (unat t + unat k - 1 - 4294967296)" using k by linarith
    then have "(unat t + (unat k - 1)) mod 4294967296 = unat t + unat k - 1 - 4294967296"
      using unat_lt32 [of t] unat_lt32 [of k] by (simp add: mod_if)
    then have "unat (t + k - 1) < unat k" using u unat_lt32 [of t] k by linarith
    then show ?thesis using True False by (simp add: ci_svu_nblocks_def unat_div)
  next
    case no: False
    then show ?thesis using u False k by (simp add: ci_svu_nblocks_def unat_div)
  qed
qed (auto simp: ci_svu_nblocks_def)

lemma block_range_nat:
  "unat (fst (block_range t k b)) = unat b * unat k"
  "unat (snd (block_range t k b)) = min (unat b * unat k + unat k) (unat t)"
proof -
  have m: "unat b * unat k \<le> 4294967295 * 4294967295"
    using unat_lt32 [of b] unat_lt32 [of k] by (intro mult_mono) auto
  have c: "unat (ucast x :: u64) = unat (x :: u32)" for x
    by (simp add: unsigned_ucast_eq take_bit_nat_eq_self less_trans [OF unat_lt32])
  have s: "unat (ucast b * ucast k :: u64) = unat b * unat k"
    using m by (simp add: unat_word_ariths c)
  moreover have "unat (ucast b * ucast k + ucast k :: u64) = unat b * unat k + unat k"
    using m unat_lt32 [of k] by (simp add: unat_word_ariths(1) s c)
  ultimately show "unat (fst (block_range t k b)) = unat b * unat k"
    "unat (snd (block_range t k b)) = min (unat b * unat k + unat k) (unat t)"
    by (simp_all add: block_range_def Let_def word_less_nat_alt c min_def)
qed

lemma block_range_lt:
  assumes "unat b * unat k \<le> unat t"
  shows "unat (snd (block_range t k b) - fst (block_range t k b)) = min (unat k) (unat t - unat b * unat k)"
proof -
  have "fst (block_range t k b) \<le> snd (block_range t k b)"
    using assms by (simp add: word_le_nat_alt block_range_nat)
  then show ?thesis using assms by (auto simp: unat_sub block_range_nat min_def)
qed

lemma ci_hash: "ci_sha256_final (ci_sha256_update (ci_sha256_init ci_stack) d) = sha256 d"
  by (rule ci.digest_once) (simp add: ci_wf_def ci_stack_def)

text \<open>Block \<open>b\<close> of a buffer, as the manifest sees it.\<close>

definition blk :: "u32 \<Rightarrow> nat \<Rightarrow> bytes \<Rightarrow> bytes" where
  "blk k b d = seg (b * unat k) (unat k) d"

lemma hash_block_blk:
  assumes "length src = unat t" "unat b * unat k \<le> unat t"
  shows "hash_block src t k b = sha256 (blk k (unat b) src)"
proof -
  have "seg (unat b * unat k) (min (unat k) (unat t - unat b * unat k)) src = blk k (unat b) src"
    using assms by (simp add: seg_def blk_def min_def)
  then show ?thesis
    using assms by (simp add: hash_block_def Let_def ci_hash block_range_lt block_range_nat split_def)
qed

text \<open>
  For a non-zero block count, the blocks tile the payload: block \<open>b\<close> starts inside it for
  every \<open>b\<close> below the count, and the last one reaches its end.
\<close>

lemma nblocks_tile:
  assumes "n = unat (ci_svu_nblocks t k)" "n \<noteq> 0"
  shows "0 < unat k" "0 < unat t" "(n - 1) * unat k < unat t" "unat t \<le> n * unat k" "n \<le> unat t"
proof -
  have nz: "t \<noteq> 0" "k \<noteq> 0" "unat t + unat k \<le> 4294967296"
    using assms by (auto simp: nblocks_nat split: if_splits)
  then show k: "0 < unat k" "0 < unat t" by (simp_all add: unat_gt_0)
  have n: "n = (unat t + unat k - 1) div unat k"
    using assms(1) nz by (simp add: nblocks_nat)
  have "n * unat k \<le> unat t + unat k - 1" by (simp add: n)
  moreover have "n * unat k = (n - 1) * unat k + unat k"
    using assms(2) by (cases n) auto
  ultimately show lt: "(n - 1) * unat k < unat t" using k by linarith
  have "unat t + unat k - 1 < (n + 1) * unat k"
    unfolding n using k by (metis add.commute dividend_less_times_div mult.commute mult_Suc_right plus_1_eq_Suc)
  then show "unat t \<le> n * unat k" using k by simp
  have "(n - 1) * 1 \<le> (n - 1) * unat k" using k by (intro mult_le_mono) auto
  then show "n \<le> unat t" using lt assms(2) by linarith
qed

lemma block_in:
  assumes "n = unat (ci_svu_nblocks t k)" "b < n"
  shows "b * unat k < unat t"
proof -
  have "b * unat k \<le> (n - 1) * unat k" using assms(2) by (intro mult_le_mono) auto
  also have "\<dots> < unat t" using assms by (intro nblocks_tile) auto
  finally show ?thesis .
qed

section \<open>The receiver\<close>

text \<open>
  The receiver's invariant: buffers of the declared sizes, the coverage flags 0 or 1, the counter
  equal to the number of covered bytes, and a non-zero block count that is the one
  \<open>ci_svu_nblocks\<close> gives.
\<close>

definition covered_at :: "ci_svu \<Rightarrow> nat \<Rightarrow> bool" where
  "covered_at s i \<longleftrightarrow> s_covered s ! i \<noteq> 0"

definition svu_wf :: "ci_svu \<Rightarrow> bool" where
  "svu_wf s \<longleftrightarrow>
     length (s_data s) = unat (s_total s) \<and> length (s_covered s) = unat (s_total s) \<and>
     unat (s_covered_count s) = card {i. i < unat (s_total s) \<and> covered_at s i} \<and>
     s_nblocks s = ci_svu_nblocks (s_total s) (s_block s) \<and> s_nblocks s \<noteq> 0 \<and>
     length (s_expected s) = unat (s_nblocks s) * CI_SVU_HASH_LEN"

text \<open>Whether the block that byte \<open>i\<close> lies in fails its digest.\<close>

definition block_ok :: "ci_svu \<Rightarrow> nat \<Rightarrow> bool" where
  "block_ok s b \<longleftrightarrow>
     sha256 (blk (s_block s) b (s_data s)) = seg (b * CI_SVU_HASH_LEN) CI_SVU_HASH_LEN (s_expected s)"

definition bad_byte :: "ci_svu \<Rightarrow> nat \<Rightarrow> bool" where
  "bad_byte s i \<longleftrightarrow> \<not> block_ok s (i div unat (s_block s))"

definition iv :: "nat \<times> nat \<Rightarrow> ci_svu_interval_t" where
  "iv p = \<lparr>iv_start = of_nat (fst p), iv_end = of_nat (snd p)\<rparr>"

definition push_all :: "u32 \<Rightarrow> (nat \<times> nat) list \<Rightarrow> pushed \<Rightarrow> pushed" where
  "push_all mx = fold (\<lambda>p. push_interval mx (of_nat (fst p)) (of_nat (snd p)))"

lemma push_all_simps [simp]:
  "push_all mx [] acc = acc"
  "push_all mx ((a, b) # L) acc = push_all mx L (push_interval mx (of_nat a) (of_nat b) acc)"
  "push_all mx (L @ [(a, b)]) acc = push_interval mx (of_nat a) (of_nat b) (push_all mx L acc)"
  by (simp_all add: push_all_def)

lemma push_all_out:
  assumes "length L < 4294967296" "unat mx \<le> length a"
  shows "push_all mx L (Some a, 0) =
    (Some (map iv (take (unat mx) L) @ drop (min (unat mx) (length L)) a), of_nat (length L))"
  using assms(1)
proof (induction L rule: rev_induct)
  case (snoc p L)
  obtain x y where p: "p = (x, y)" by (cases p)
  have lt: "of_nat (length L) < mx \<longleftrightarrow> length L < unat mx"
    using snoc.prems by (simp add: word_less_nat_alt unat_of_nat32)
  show ?case
  proof (cases "length L < unat mx")
    case True
    then have "drop (length L) a = a ! length L # drop (Suc (length L)) a"
      "min (unat mx) (length (L @ [p])) = Suc (length L)" "min (unat mx) (length L) = length L"
      using assms(2) by (simp_all add: Cons_nth_drop_Suc)
    then show ?thesis using snoc True lt
      by (simp add: p push_interval_def unat_of_nat32 iv_def list_update_append)
  next
    case False
    then show ?thesis using snoc lt by (simp add: p push_interval_def)
  qed
qed simp

subsection \<open>Missing ranges\<close>

lemma run_of_holes_run:
  assumes "i < unat (s_total s)" "s_covered s ! i = 0"
  shows "run_of_holes s i \<le> unat (s_total s)"
    and "i \<le> j \<Longrightarrow> j < run_of_holes s i \<Longrightarrow> \<not> covered_at s j"
    and "run_of_holes s i < unat (s_total s) \<Longrightarrow> covered_at s (run_of_holes s i)"
proof -
  have *: "i \<le> unat (s_total s) \<Longrightarrow> run_of_holes s i \<le> unat (s_total s) \<and>
     (\<forall>j. i \<le> j \<and> j < run_of_holes s i \<longrightarrow> \<not> covered_at s j) \<and>
     (run_of_holes s i < unat (s_total s) \<longrightarrow> covered_at s (run_of_holes s i))" for i
  proof (induction s i rule: run_of_holes.induct)
    case (1 s i)
    show ?case
    proof (cases "i < unat (s_total s) \<and> s_covered s ! i = 0")
      case True
      then have e: "run_of_holes s i = run_of_holes s (Suc i)" by (subst run_of_holes.simps) simp
      have "covered_at s j \<Longrightarrow> i \<le> j \<Longrightarrow> Suc i \<le> j" for j
        using True by (cases "j = i") (auto simp: covered_at_def)
      then show ?thesis using "1.IH" True unfolding e by auto
    next
      case False
      then have "run_of_holes s i = i" by (subst run_of_holes.simps) auto
      then show ?thesis using False "1.prems" by (auto simp: covered_at_def)
    qed
  qed
  show "run_of_holes s i \<le> unat (s_total s)"
    "i \<le> j \<Longrightarrow> j < run_of_holes s i \<Longrightarrow> \<not> covered_at s j"
    "run_of_holes s i < unat (s_total s) \<Longrightarrow> covered_at s (run_of_holes s i)"
    using * [of i] assms by auto
qed

lemma missing_loop_runs:
  "\<exists>L. missing_loop s mx i acc = push_all mx L acc \<and> is_runs (\<lambda>j. \<not> covered_at s j) i (unat (s_total s)) L"
proof (induction s mx i acc rule: missing_loop.induct)
  case (1 s mx i acc)
  let ?t = "unat (s_total s)" let ?r = "run_of_holes s i" let ?P = "\<lambda>j. \<not> covered_at s j"
  consider "\<not> i < ?t" | "i < ?t" "s_covered s ! i = 0" | "i < ?t" "s_covered s ! i \<noteq> 0" by blast
  then show ?case
  proof cases
    case 1
    then have "missing_loop s mx i acc = push_all mx [] acc \<and> is_runs ?P i ?t []"
      by (subst missing_loop.simps) (simp add: is_runs_Nil)
    then show ?thesis by blast
  next
    case 2
    from "1.IH"(1) [OF 2 refl] obtain L where L: "missing_loop s mx ?r
        (push_interval mx (of_nat i) (of_nat ?r) acc) =
        push_all mx L (push_interval mx (of_nat i) (of_nat ?r) acc)" "is_runs ?P ?r ?t L" by blast
    have "missing_loop s mx i acc = push_all mx ((i, ?r) # L) acc"
      using 2 L(1) by (subst missing_loop.simps) (simp add: Let_def)
    moreover have "is_runs ?P i ?t ((i, ?r) # L)"
      using 2 L(2) run_of_holes_run [OF 2] run_of_holes_gt [OF 2]
      by (intro is_runs_Cons) auto
    ultimately show ?thesis by blast
  next
    case 3
    from "1.IH"(2) [OF 3] obtain L where L: "missing_loop s mx (Suc i) acc = push_all mx L acc"
      "is_runs ?P (Suc i) ?t L" by blast
    have "missing_loop s mx i acc = push_all mx L acc" using 3 L(1) by (subst missing_loop.simps) simp
    moreover have "is_runs ?P i ?t L" 
      by (rule is_runs_skip) (use 3 L(2) in \<open>auto simp: covered_at_def\<close>)
    ultimately show ?thesis by blast
  qed
qed

subsection \<open>Corrupt ranges\<close>

lemma ucast_of_nat32: "unat (x :: u64) = n \<Longrightarrow> ucast x = (of_nat n :: u32)"
  by (metis of_nat_unat)

lemma of_nat32_eq: "a < 4294967296 \<Longrightarrow> b < 4294967296 \<Longrightarrow> (of_nat a :: u32) = of_nat b \<longleftrightarrow> a = b"
  by (metis unat_of_nat32)

lemma scan_block_nat:
  assumes "svu_wf s" "n < unat (s_nblocks s)"
  defines "m \<equiv> n * unat (s_block s)" and "m' \<equiv> min (n * unat (s_block s) + unat (s_block s)) (unat (s_total s))"
  shows "scan_block s mx n c =
     (if block_ok s n then c
      else let c = c\<lparr>b_status := CI_SVU_CORRUPT\<rparr>
           in if b_run_end c \<noteq> b_run_start c \<and> of_nat m = b_run_end c then c\<lparr>b_run_end := of_nat m'\<rparr>
              else let c = (if b_run_end c \<noteq> b_run_start c
                            then c\<lparr>b_pushed := push_interval mx (b_run_start c) (b_run_end c) (b_pushed c)\<rparr>
                            else c)
                   in c\<lparr>b_run_start := of_nat m, b_run_end := of_nat m'\<rparr>)"
    and "m < m'" "m' \<le> unat (s_total s)" "m' = min (Suc n * unat (s_block s)) (unat (s_total s))"
    and "m \<le> j \<Longrightarrow> j < m' \<Longrightarrow> bad_byte s j \<longleftrightarrow> \<not> block_ok s n"
proof -
  have nb: "unat (s_nblocks s) = unat (ci_svu_nblocks (s_total s) (s_block s))"
    "length (s_data s) = unat (s_total s)" "unat (s_nblocks s) \<noteq> 0"
    using assms(1) by (auto simp: svu_wf_def unat_gt_0)
  have n: "unat (of_nat n :: u32) = n"
    using assms(2) unat_lt32 [of "s_nblocks s"] by (intro unat_of_nat32) auto
  have lt: "m < unat (s_total s)" using block_in [OF nb(1) assms(2)] by (simp add: m_def)
  have k: "0 < unat (s_block s)" using nblocks_tile(1) [OF nb(1,3)] .
  show "m < m'" "m' \<le> unat (s_total s)" using lt k by (simp_all add: m_def m'_def)
  show "m' = min (Suc n * unat (s_block s)) (unat (s_total s))" by (simp add: m'_def add.commute)
  show "bad_byte s j \<longleftrightarrow> \<not> block_ok s n" if "m \<le> j" "j < m'"
  proof -
    have "j div unat (s_block s) = n"
      using that k unfolding m_def m'_def by (intro div_nat_eqI) (auto simp: mult.commute)
    then show ?thesis by (simp add: bad_byte_def)
  qed
  have h: "hash_block (s_data s) (s_total s) (s_block s) (of_nat n) = sha256 (blk (s_block s) n (s_data s))"
    using hash_block_blk [of "s_data s" "s_total s" "of_nat n" "s_block s"] nb lt n by (simp add: m_def)
  have r: "ucast (fst (block_range (s_total s) (s_block s) (of_nat n))) = (of_nat m :: u32)"
    "ucast (snd (block_range (s_total s) (s_block s) (of_nat n))) = (of_nat m' :: u32)"
    by (rule ucast_of_nat32, simp add: block_range_nat n m_def m'_def)+
  show "scan_block s mx n c =
     (if block_ok s n then c
      else let c = c\<lparr>b_status := CI_SVU_CORRUPT\<rparr>
           in if b_run_end c \<noteq> b_run_start c \<and> of_nat m = b_run_end c then c\<lparr>b_run_end := of_nat m'\<rparr>
              else let c = (if b_run_end c \<noteq> b_run_start c
                            then c\<lparr>b_pushed := push_interval mx (b_run_start c) (b_run_end c) (b_pushed c)\<rparr>
                            else c)
                   in c\<lparr>b_run_start := of_nat m, b_run_end := of_nat m'\<rparr>)"
    unfolding scan_block_def Let_def h block_ok_def split_def r by simp
qed

definition scan_rel :: "u32 \<Rightarrow> pushed \<Rightarrow> (nat \<times> nat) list \<Rightarrow> block_scan \<Rightarrow> bool" where
  "scan_rel mx acc L c \<longleftrightarrow>
     (if L = [] then c = \<lparr>b_status = CI_SVU_COMPLETE_VERIFIED, b_run_start = 0, b_run_end = 0, b_pushed = acc\<rparr>
      else c = \<lparr>b_status = CI_SVU_CORRUPT, b_run_start = of_nat (fst (last L)),
                b_run_end = of_nat (snd (last L)), b_pushed = push_all mx (butlast L) acc\<rparr>)"

lemma scan_rel_snoc: "scan_rel mx acc (L @ [(a, e)]) c \<longleftrightarrow>
  c = \<lparr>b_status = CI_SVU_CORRUPT, b_run_start = of_nat a, b_run_end = of_nat e,
       b_pushed = push_all mx L acc\<rparr>"
  by (simp add: scan_rel_def)

text \<open>One block of the scan extends the last run or starts a new one.\<close>

lemma scan_runs_bad:
  assumes "svu_wf s" "n < unat (s_nblocks s)" "is_runs (bad_byte s) 0 (n * unat (s_block s)) L" "scan_rel mx acc L c" "\<not> block_ok s n"
  shows "\<exists>L'. is_runs (bad_byte s) 0 (min (n * unat (s_block s) + unat (s_block s)) (unat (s_total s))) L' \<and>
    scan_rel mx acc L' (scan_block s mx n c)"
proof -
  let ?k = "unat (s_block s)" let ?t = "unat (s_total s)"
  let ?m = "n * ?k" let ?m' = "min (n * ?k + ?k) ?t"
  note step = scan_block_nat [OF assms(1,2)]
  have mt: "?m < ?m'" "?m' \<le> ?t" using step(2-4) by simp_all
  have b: "\<And>j. ?m \<le> j \<Longrightarrow> j < ?m' \<Longrightarrow> bad_byte s j" using step(5) assms(5) by auto
  show ?thesis
  proof (cases L rule: rev_cases)
    case Nil
    then have "is_runs (bad_byte s) 0 ?m' (L @ [(?m, ?m')])" using is_runs_snoc [OF assms(3) _ mt(1) b] by simp
    moreover have "scan_rel mx acc (L @ [(?m, ?m')]) (scan_block s mx n c)"
      using Nil assms(4,5) by (simp add: step(1) scan_rel_def)
    ultimately show ?thesis by blast
  next
    case (snoc L0 p)
    obtain a e where p: "p = (a, e)" by (cases p)
    have ae: "a < e" "e \<le> ?m" using is_runsD(2) [OF assms(3), of a e] by (auto simp: snoc p)
    have c: "c = \<lparr>b_status = CI_SVU_CORRUPT, b_run_start = of_nat a, b_run_end = of_nat e,
       b_pushed = push_all mx L0 acc\<rparr>" using assms(4) by (simp add: snoc p scan_rel_snoc)
    have eq: "(of_nat e :: u32) = of_nat a \<longleftrightarrow> False" "(of_nat ?m :: u32) = of_nat e \<longleftrightarrow> ?m = e"
      using ae mt(1,2) unat_lt32 [of "s_total s"] by (simp_all del: of_nat_mult add: of_nat32_eq)
    show ?thesis
    proof (cases "e = ?m")
      case True
      then have "is_runs (bad_byte s) 0 ?m' (L0 @ [(a, ?m')])"
        using is_runs_extend [OF _ mt(1) b] assms(3) by (simp add: snoc p)
      moreover have "scan_rel mx acc (L0 @ [(a, ?m')]) (scan_block s mx n c)"
        using assms(5) eq True by (simp del: of_nat_mult add: step(1) c scan_rel_snoc)
      ultimately show ?thesis by blast
    next
      case False
      have "b \<noteq> ?m" if "(x, b) \<in> set L" for x b
        using that False is_runsD(1) [OF assms(3)] is_runsD(2) [OF assms(3), of x b] ae
        by (auto simp: snoc p sorted_wrt_append)
      then have "is_runs (bad_byte s) 0 ?m' (L @ [(?m, ?m')])" using is_runs_snoc [OF assms(3) _ mt(1) b] by simp
      moreover have "scan_rel mx acc (L @ [(?m, ?m')]) (scan_block s mx n c)"
        unfolding scan_rel_snoc using assms(5) eq False by (simp del: of_nat_mult add: step(1) c snoc p)
      ultimately show ?thesis by blast
    qed
  qed
qed

lemma scan_runs:
  assumes "svu_wf s" "n \<le> unat (s_nblocks s)"
  shows "\<exists>L. is_runs (bad_byte s) 0 (min (n * unat (s_block s)) (unat (s_total s))) L \<and>
    scan_rel mx acc L (fold (scan_block s mx) [0..<n]
      \<lparr>b_status = CI_SVU_COMPLETE_VERIFIED, b_run_start = 0, b_run_end = 0, b_pushed = acc\<rparr>)"
  using assms(2)
proof (induction n)
  case 0
  show ?case by (rule exI [of _ "[]"]) (simp add: is_runs_Nil scan_rel_def)
next
  case (Suc n)
  let ?k = "unat (s_block s)" let ?t = "unat (s_total s)"
  let ?m = "n * ?k" let ?m' = "min (n * ?k + ?k) ?t"
  have n: "n < unat (s_nblocks s)" using Suc.prems by simp
  note step = scan_block_nat [OF assms(1) n]
  have mt: "?m < ?m'" "min ?m ?t = ?m" "min (Suc n * ?k) ?t = ?m'" using step(2-4) by simp_all
  obtain L c where L: "is_runs (bad_byte s) 0 ?m L" "scan_rel mx acc L c" and
    c: "c = fold (scan_block s mx) [0..<n]
      \<lparr>b_status = CI_SVU_COMPLETE_VERIFIED, b_run_start = 0, b_run_end = 0, b_pushed = acc\<rparr>"
    using Suc n unfolding mt(2) by auto
  have "\<exists>L. is_runs (bad_byte s) 0 ?m' L \<and> scan_rel mx acc L (scan_block s mx n c)"
  proof (cases "block_ok s n")
    case True
    then have "is_runs (bad_byte s) 0 ?m' L"
      using is_runs_good [OF L(1) less_imp_le [OF mt(1)]] step(5) by blast
    then show ?thesis using L(2) True by (auto simp: step(1))
  next
    case False
    show ?thesis by (rule scan_runs_bad [OF assms(1) n L False])
  qed
  then show ?case unfolding mt(3) by (simp add: c)
qed

subsection \<open>The verdict\<close>

definition cov_set :: "ci_svu \<Rightarrow> nat set" where
  "cov_set s = {i. i < unat (s_total s) \<and> covered_at s i}"

lemma covered_count_full:
  assumes "svu_wf s"
  shows "s_covered_count s < s_total s \<longleftrightarrow> \<not> {..<unat (s_total s)} \<subseteq> cov_set s"
proof -
  let ?t = "unat (s_total s)"
  have sub: "cov_set s \<subseteq> {..<?t}" by (auto simp: cov_set_def)
  have c: "unat (s_covered_count s) = card (cov_set s)" using assms by (simp add: svu_wf_def cov_set_def)
  show ?thesis
  proof
    assume "s_covered_count s < s_total s"
    then have "card (cov_set s) < ?t" by (simp add: word_less_nat_alt c)
    then show "\<not> {..<?t} \<subseteq> cov_set s"
      using card_mono [of "cov_set s" "{..<?t}"] finite_subset [OF sub] by auto
  next
    assume "\<not> {..<?t} \<subseteq> cov_set s"
    then have "cov_set s \<subset> {..<?t}" using sub by blast
    then have "card (cov_set s) < card {..<?t}" by (intro psubset_card_mono) auto
    then show "s_covered_count s < s_total s" by (simp add: word_less_nat_alt c)
  qed
qed

lemma verify_incomplete:
  assumes "svu_wf s" "\<not> {..<unat (s_total s)} \<subseteq> cov_set s"
  obtains L where "ci_svu_verify (Some s) out mx = (CI_SVU_INCOMPLETE, push_all mx L (out, 0))"
    "is_runs (\<lambda>i. i \<notin> cov_set s) 0 (unat (s_total s)) L" "length L \<le> unat (s_total s)"
proof -
  obtain L where L: "missing_loop s mx 0 (out, 0) = push_all mx L (out, 0)"
    "is_runs (\<lambda>j. \<not> covered_at s j) 0 (unat (s_total s)) L"
    using missing_loop_runs by blast
  show thesis
  proof (rule that)
    show "ci_svu_verify (Some s) out mx = (CI_SVU_INCOMPLETE, push_all mx L (out, 0))"
      using covered_count_full [OF assms(1)] assms(2) L(1) by (simp add: ci_svu_verify_def)
    show "is_runs (\<lambda>i. i \<notin> cov_set s) 0 (unat (s_total s)) L"
      using L(2) by (simp add: is_runs_def cov_set_def)
    show "length L \<le> unat (s_total s)" using is_runs_length [OF L(2)] by simp
  qed
qed

lemma verify_complete:
  assumes "svu_wf s" "{..<unat (s_total s)} \<subseteq> cov_set s"
  obtains L where "ci_svu_verify (Some s) out mx =
      (if L = [] then CI_SVU_COMPLETE_VERIFIED else CI_SVU_CORRUPT, push_all mx L (out, 0))"
    "is_runs (bad_byte s) 0 (unat (s_total s)) L" "length L \<le> unat (s_total s)"
proof -
  let ?i = "\<lparr>b_status = CI_SVU_COMPLETE_VERIFIED, b_run_start = 0, b_run_end = 0, b_pushed = (out, 0)\<rparr>"
  let ?c = "fold (scan_block s mx) [0..<unat (s_nblocks s)] ?i"
  have nb: "unat (s_nblocks s) = unat (ci_svu_nblocks (s_total s) (s_block s))" "unat (s_nblocks s) \<noteq> 0"
    using assms(1) by (auto simp: svu_wf_def unat_gt_0)
  then have m: "min (unat (s_nblocks s) * unat (s_block s)) (unat (s_total s)) = unat (s_total s)"
    using nblocks_tile(4) [OF nb] by simp
  obtain L where L: "is_runs (bad_byte s) 0 (unat (s_total s)) L" "scan_rel mx (out, 0) L ?c"
    using scan_runs [OF assms(1) order_refl, of mx "(out, 0)"] unfolding m by blast
  have not: "\<not> s_covered_count s < s_total s" using covered_count_full [OF assms(1)] assms(2) by simp
  show thesis
  proof (rule that)
    show "is_runs (bad_byte s) 0 (unat (s_total s)) L" "length L \<le> unat (s_total s)"
      using L(1) is_runs_length [OF L(1)] by auto
    show "ci_svu_verify (Some s) out mx =
      (if L = [] then CI_SVU_COMPLETE_VERIFIED else CI_SVU_CORRUPT, push_all mx L (out, 0))"
    proof (cases L rule: rev_cases)
      case Nil
      then show ?thesis using L(2) not by (simp add: ci_svu_verify_def scan_rel_def)
    next
      case (snoc L0 p)
      obtain a e where p: "p = (a, e)" by (cases p)
      have "a < e" "e \<le> unat (s_total s)" using is_runsD(2) [OF L(1), of a e] by (auto simp: snoc p)
      then have "(of_nat e :: u32) \<noteq> of_nat a"
        using unat_lt32 [of "s_total s"] by (simp add: of_nat32_eq)
      then show ?thesis
        using L(2) not by (simp add: ci_svu_verify_def snoc p scan_rel_snoc)
    qed
  qed
qed

subsection \<open>Fragments\<close>

definition same_plan :: "ci_svu \<Rightarrow> ci_svu \<Rightarrow> bool" where
  "same_plan s s' \<longleftrightarrow> s_total s' = s_total s \<and> s_block s' = s_block s \<and>
     s_nblocks s' = s_nblocks s \<and> s_expected s' = s_expected s"

definition cov_ok :: "ci_svu \<Rightarrow> bool" where
  "cov_ok s \<longleftrightarrow> length (s_covered s) = unat (s_total s) \<and> unat (s_covered_count s) = card (cov_set s)"

lemma finite_cov_set [simp]: "finite (cov_set s)"
  by (simp add: cov_set_def)

lemma cover_byte_cov:
  assumes "cov_ok s" "i < unat (s_total s)"
  shows "cov_ok (cover_byte i s) \<and> cov_set (cover_byte i s) = insert i (cov_set s) \<and>
    same_plan s (cover_byte i s) \<and> s_data (cover_byte i s) = s_data s"
proof (cases "s_covered s ! i = 0")
  case True
  let ?s = "cover_byte i s"
  have s: "?s = s\<lparr>s_covered := (s_covered s)[i := 1], s_covered_count := s_covered_count s + 1\<rparr>"
    using True by (simp add: cover_byte_def)
  have l: "length (s_covered s) = unat (s_total s)" using assms(1) by (simp add: cov_ok_def)
  have set: "cov_set ?s = insert i (cov_set s)"
    using assms(2) l by (auto simp: s cov_set_def covered_at_def nth_list_update)
  have new: "i \<notin> cov_set s" using True by (simp add: cov_set_def covered_at_def)
  have "card (insert i (cov_set s)) \<le> card {..<unat (s_total s)}"
    using assms(2) by (intro card_mono) (auto simp: cov_set_def)
  then have "unat (s_covered_count s + 1) = unat (s_covered_count s) + 1"
    using assms(1) new unat_lt32 [of "s_total s"] by (simp add: cov_ok_def unat_add32)
  then have "unat (s_covered_count ?s) = card (cov_set ?s)"
    using assms(1) new by (simp add: s cov_ok_def set [unfolded s])
  then show ?thesis using set l by (simp add: cov_ok_def s same_plan_def)
next
  case False
  then show ?thesis using assms
    by (auto simp: cover_byte_def same_plan_def cov_set_def covered_at_def)
qed

lemma cover_bytes_cov:
  assumes "cov_ok s" "b \<le> unat (s_total s)"
  shows "cov_ok (fold cover_byte [a..<b] s) \<and> cov_set (fold cover_byte [a..<b] s) = cov_set s \<union> {a..<b} \<and>
    same_plan s (fold cover_byte [a..<b] s) \<and> s_data (fold cover_byte [a..<b] s) = s_data s"
  using assms(2)
proof (induction b)
  case (Suc b)
  show ?case
  proof (cases "a \<le> b")
    case True
    let ?s = "fold cover_byte [a..<b] s"
    have IH: "cov_ok ?s" "cov_set ?s = cov_set s \<union> {a..<b}" "same_plan s ?s" "s_data ?s = s_data s"
      using Suc by auto
    have "b < unat (s_total ?s)" using IH(3) Suc.prems by (simp add: same_plan_def)
    note step = cover_byte_cov [OF IH(1) this]
    have "cov_set (cover_byte b ?s) = cov_set s \<union> {a..<Suc b}"
      using step IH(2) True by (auto simp: less_Suc_eq)
    moreover have "same_plan s (cover_byte b ?s)" using step IH(3) by (simp add: same_plan_def)
    ultimately show ?thesis using step IH(4) True by simp
  qed (use assms(1) in \<open>auto simp: same_plan_def\<close>)
qed (use assms(1) in \<open>auto simp: same_plan_def\<close>)

lemma svu_wf_cov_ok: "svu_wf s \<Longrightarrow> cov_ok s"
  by (simp add: svu_wf_def cov_ok_def cov_set_def)

lemma svu_wf_step:
  "svu_wf s \<Longrightarrow> same_plan s s' \<Longrightarrow> cov_ok s' \<Longrightarrow> length (s_data s') = length (s_data s) \<Longrightarrow> svu_wf s'"
  by (auto simp: svu_wf_def same_plan_def cov_ok_def cov_set_def)

lemma accept_ok:
  assumes "svu_wf s" "unat off + length d \<le> unat (s_total s)"
  obtains s' where "ci_svu_accept (Some s) off (Some d) = (0, Some s')" "svu_wf s'" "same_plan s s'"
    "s_data s' = blit (unat off) d (s_data s)"
    "cov_set s' = cov_set s \<union> {unat off..<unat off + length d}"
proof -
  let ?c = "fold cover_byte [unat off..<unat off + length d] s"
  let ?s = "if length d > 0 then ?c\<lparr>s_data := blit (unat off) d (s_data ?c)\<rparr> else ?c"
  have c: "cov_ok ?c" "cov_set ?c = cov_set s \<union> {unat off..<unat off + length d}" "same_plan s ?c"
    "s_data ?c = s_data s"
    using cover_bytes_cov [OF svu_wf_cov_ok [OF assms(1)] assms(2), of "unat off"] by auto
  have d: "s_data ?s = blit (unat off) d (s_data s)"
    using c(4) by (auto simp: blit_def)
  have s: "same_plan s ?s" "cov_set ?s = cov_set ?c" "s_covered ?s = s_covered ?c"
    "s_covered_count ?s = s_covered_count ?c"
    using c(3) by (auto simp: same_plan_def cov_set_def covered_at_def)
  have "s_total ?s = s_total ?c" by simp
  then have "cov_ok ?s" using c(1) unfolding cov_ok_def s(2-4) by simp
  moreover have "length (s_data ?s) = length (s_data s)"
    unfolding d using assms by (simp add: svu_wf_def)
  ultimately have "svu_wf ?s" by (rule svu_wf_step [OF assms(1) s(1)])
  moreover have "ci_svu_accept (Some s) off (Some d) = (0, Some ?s)"
    using assms(2) by (simp add: ci_svu_accept_def Let_def)
  ultimately show thesis using that s(1,2) c(2) d by metis
qed

lemma new_ok:
  assumes "ci_svu_new oom t k (Some ex) n = Some s" "unat n * CI_SVU_HASH_LEN \<le> length ex"
  shows "svu_wf s" "cov_set s = {}" "s_total s = t" "s_block s = k" "s_nblocks s = n"
    "s_expected s = take (unat n * CI_SVU_HASH_LEN) ex"
  using assms
  by (auto simp: ci_svu_new_def Let_def svu_wf_def cov_set_def covered_at_def split: if_splits)

section \<open>The manifest\<close>

text \<open>The receiver was given the digests of \<open>src\<close>, block by block.\<close>

definition expects :: "ci_svu \<Rightarrow> bytes \<Rightarrow> bool" where
  "expects s src \<longleftrightarrow> length src = unat (s_total s) \<and>
     (\<forall>b < unat (s_nblocks s). seg (b * CI_SVU_HASH_LEN) CI_SVU_HASH_LEN (s_expected s) =
        sha256 (blk (s_block s) b src))"

lemma blits_digests:
  assumes "n * 32 \<le> length d" "\<And>b. b < n \<Longrightarrow> length (h b) = 32"
  shows "length (fold (\<lambda>b. blit (b * 32) (h b)) [0..<n] d) = length d \<and>
    (\<forall>b<n. seg (b * 32) 32 (fold (\<lambda>b. blit (b * 32) (h b)) [0..<n] d) = h b)"
  using assms
proof (induction n)
  case (Suc n)
  let ?d = "fold (\<lambda>b. blit (b * 32) (h b)) [0..<n] d"
  have IH: "length ?d = length d" "\<forall>b<n. seg (b * 32) 32 ?d = h b" using Suc by auto
  have n: "n * 32 + length (h n) \<le> length ?d" "length (h n) = 32" using Suc.prems IH(1) by auto
  have "seg (b * 32) 32 (blit (n * 32) (h n) ?d) = h b" if "b < Suc n" for b
  proof (cases "b = n")
    case True
    then show ?thesis using seg_blit_same [OF n(1)] n(2) by simp
  next
    case False
    then have b: "b * 32 + 32 \<le> n * 32" "b < n" using that by auto
    have "seg (b * 32) 32 (blit (n * 32) (h n) ?d) = seg (b * 32) 32 ?d"
      using b n by (intro nth_equalityI) (auto simp: nth_seg nth_blit)
    then show ?thesis using IH(2) b by simp
  qed
  then show ?case using IH(1) n by simp
qed simp

lemma manifest_digests:
  assumes "length src = unat t" "unat (ci_svu_nblocks t k) * CI_SVU_HASH_LEN \<le> length d"
    and "ci_svu_nblocks t k \<noteq> 0"
  obtains d' where "ci_svu_manifest (Some src) t k (Some d) = (ci_svu_nblocks t k, Some d')"
    "length d' = length d"
    "\<And>b. b < unat (ci_svu_nblocks t k) \<Longrightarrow> seg (b * CI_SVU_HASH_LEN) CI_SVU_HASH_LEN d' = sha256 (blk k b src)"
proof -
  let ?n = "unat (ci_svu_nblocks t k)"
  have h: "hash_block src t k (of_nat b) = sha256 (blk k b src)" if "b < ?n" for b
  proof -
    have "unat (of_nat b :: u32) = b" using that unat_lt32 [of "ci_svu_nblocks t k"] by (intro unat_of_nat32) auto
    then show ?thesis using hash_block_blk [OF assms(1), of "of_nat b" k] block_in [OF refl that] by simp
  qed
  let ?d = "fold (\<lambda>b. blit (b * 32) (hash_block src t k (of_nat b))) [0..<?n] d"
  have "length ?d = length d \<and> (\<forall>b<?n. seg (b * 32) 32 ?d = hash_block src t k (of_nat b))"
    using assms(2) h by (intro blits_digests) (auto simp: CI_SVU_HASH_LEN_def)
  then show thesis
    using that assms(3) h by (auto simp: ci_svu_manifest_def Let_def CI_SVU_HASH_LEN_def)
qed

lemma expects_new:
  assumes "ci_svu_manifest (Some src) t k (Some d) = (n, Some d')" "length src = unat t"
    and "unat (ci_svu_nblocks t k) * CI_SVU_HASH_LEN \<le> length d"
    and "ci_svu_new oom t k (Some d') n = Some s"
  shows "svu_wf s" "cov_set s = {}" "expects s src"
proof -
  have nz: "ci_svu_nblocks t k \<noteq> 0" "n = ci_svu_nblocks t k"
    using assms(4) by (auto simp: ci_svu_new_def Let_def split: if_splits)
  obtain e where "d' = e" "length e = length d"
    "\<And>b. b < unat n \<Longrightarrow> seg (b * CI_SVU_HASH_LEN) CI_SVU_HASH_LEN e = sha256 (blk k b src)"
    using manifest_digests [OF assms(2,3) nz(1)] assms(1) nz(2) by (metis Pair_inject option.inject)
  then have d: "length d' = length d"
    "\<And>b. b < unat n \<Longrightarrow> seg (b * CI_SVU_HASH_LEN) CI_SVU_HASH_LEN d' = sha256 (blk k b src)" by auto
  note new = new_ok [OF assms(4)]
  have "unat n * CI_SVU_HASH_LEN \<le> length d'" using assms(3) d(1) nz by simp
  from new [OF this] show "svu_wf s" "cov_set s = {}" by auto
  have "seg (b * 32) 32 (take (unat n * 32) d') = seg (b * 32) 32 d'" if "b < unat n" for b
    using that by (simp add: seg_def take_drop min_absorb1 add.commute [of 32])
  then show "expects s src"
    using new [OF \<open>unat n * CI_SVU_HASH_LEN \<le> length d'\<close>] d(2) assms(2)
    by (simp add: expects_def CI_SVU_HASH_LEN_def)
qed


section \<open>The receiver's contract\<close>

text \<open>
  What a transfer session relies on: a receiver with a covered set and a buffer, a way to store a
  fragment, a verdict that lists the ranges still needed, and the notion that the receiver was
  built from the manifest of a source. Whether the byte at \<open>i\<close> is \<open>ok\<close> is a matter
  of its block alone.
\<close>

definition resend_with :: "(nat \<Rightarrow> bytes \<Rightarrow> 's \<Rightarrow> 's) \<Rightarrow> bytes \<Rightarrow> (nat \<times> nat) list \<Rightarrow> 's \<Rightarrow> 's" where
  "resend_with put src = fold (\<lambda>(a, b). put a (seg a (b - a) src))"

definition lossless_round ::
  "(nat \<Rightarrow> bytes \<Rightarrow> 's \<Rightarrow> 's) \<Rightarrow> ('s \<Rightarrow> ci_svu_status_t \<times> (nat \<times> nat) list) \<Rightarrow> nat \<Rightarrow> bytes \<Rightarrow> 's \<Rightarrow> 's" where
  "lossless_round put verdict m src s = resend_with put src (take m (snd (verdict s))) s"

locale verified_receiver =
  fixes wf :: "'s \<Rightarrow> bool"
    and size_of :: "'s \<Rightarrow> nat"
    and bsz :: "'s \<Rightarrow> nat"
    and cov :: "'s \<Rightarrow> nat set"
    and buf :: "'s \<Rightarrow> bytes"
    and ok :: "'s \<Rightarrow> nat \<Rightarrow> bool"
    and src_of :: "'s \<Rightarrow> bytes \<Rightarrow> bool"
    and put :: "nat \<Rightarrow> bytes \<Rightarrow> 's \<Rightarrow> 's"
    and verdict :: "'s \<Rightarrow> ci_svu_status_t \<times> (nat \<times> nat) list"
  assumes src_length: "src_of s src \<Longrightarrow> length src = size_of s"
    and buf_length: "wf s \<Longrightarrow> length (buf s) = size_of s"
    and put_wf: "wf s \<Longrightarrow> off + length d \<le> size_of s \<Longrightarrow>
        wf (put off d s) \<and> size_of (put off d s) = size_of s \<and> bsz (put off d s) = bsz s"
    and put_src: "wf s \<Longrightarrow> off + length d \<le> size_of s \<Longrightarrow> src_of s src \<Longrightarrow> src_of (put off d s) src"
    and put_cov: "wf s \<Longrightarrow> off + length d \<le> size_of s \<Longrightarrow> cov (put off d s) = cov s \<union> {off..<off + length d}"
    and put_buf: "wf s \<Longrightarrow> off + length d \<le> size_of s \<Longrightarrow> buf (put off d s) = blit off d (buf s)"
    and verdict_holes: "wf s \<Longrightarrow> \<not> {..<size_of s} \<subseteq> cov s \<Longrightarrow>
        fst (verdict s) = CI_SVU_INCOMPLETE \<and> is_runs (\<lambda>i. i \<notin> cov s) 0 (size_of s) (snd (verdict s))"
    and verdict_full: "wf s \<Longrightarrow> {..<size_of s} \<subseteq> cov s \<Longrightarrow>
        fst (verdict s) = (if snd (verdict s) = [] then CI_SVU_COMPLETE_VERIFIED else CI_SVU_CORRUPT) \<and>
        is_runs (\<lambda>i. \<not> ok s i) 0 (size_of s) (snd (verdict s))"
    and ok_block: "i div bsz s = j div bsz s \<Longrightarrow> ok s i \<longleftrightarrow> ok s j"
    and ok_src: "wf s \<Longrightarrow> src_of s src \<Longrightarrow> i < size_of s \<Longrightarrow>
        (\<And>j. j < size_of s \<Longrightarrow> j div bsz s = i div bsz s \<Longrightarrow> buf s ! j = src ! j) \<Longrightarrow> ok s i"
    and ok_keep: "wf s \<Longrightarrow> wf s' \<Longrightarrow> src_of s src \<Longrightarrow> src_of s' src \<Longrightarrow> bsz s' = bsz s \<Longrightarrow>
        i < size_of s \<Longrightarrow> (\<And>j. j < size_of s \<Longrightarrow> j div bsz s = i div bsz s \<Longrightarrow> buf s' ! j = buf s ! j) \<Longrightarrow>
        ok s i \<Longrightarrow> ok s' i"
begin

lemma resend_facts:
  assumes "wf s" "src_of s src" "\<forall>(a, b) \<in> set L. a < b \<and> b \<le> size_of s"
  shows "wf (resend_with put src L s) \<and> size_of (resend_with put src L s) = size_of s \<and>
    bsz (resend_with put src L s) = bsz s \<and> src_of (resend_with put src L s) src \<and>
    cov (resend_with put src L s) = cov s \<union> {j. in_runs L j} \<and>
    (\<forall>j < size_of s. buf (resend_with put src L s) ! j = (if in_runs L j then src ! j else buf s ! j))"
  using assms
proof (induction L arbitrary: s)
  case (Cons p L)
  obtain a b where p: "p = (a, b)" by (cases p)
  let ?d = "seg a (b - a) src" let ?s = "put a ?d s"
  have ab: "a < b" "b \<le> size_of s" using Cons.prems(3) by (auto simp: p)
  have d: "length ?d = b - a" "a + length ?d = b"
    using ab src_length [OF Cons.prems(2)] by auto
  then have le: "a + length ?d \<le> size_of s" using ab by simp
  have s: "wf ?s" "size_of ?s = size_of s" "bsz ?s = bsz s" "src_of ?s src"
    "cov ?s = cov s \<union> {a..<b}" "buf ?s = blit a ?d (buf s)"
    using put_wf [OF Cons.prems(1) le] put_src [OF Cons.prems(1) le Cons.prems(2)]
      put_cov [OF Cons.prems(1) le] put_buf [OF Cons.prems(1) le] d by auto
  have L: "\<forall>(a, b) \<in> set L. a < b \<and> b \<le> size_of ?s" using Cons.prems(3) s(2) by simp
  have "buf ?s ! j = (if a \<le> j \<and> j < b then src ! j else buf s ! j)" if "j < size_of s" for j
    using that d ab le buf_length [OF Cons.prems(1)] src_length [OF Cons.prems(2)]
    by (auto simp: s(6) nth_blit nth_seg)
  then show ?case using Cons.IH [OF s(1,4) L] s(2,3,5)
    by (auto simp: p resend_with_def in_runs_simps)
qed (auto simp: resend_with_def)

lemma take_in_runs: "in_runs (take m L) j \<Longrightarrow> in_runs L j"
  by (auto simp: in_runs_def dest: in_set_takeD)

lemma take_runs: "is_runs P 0 n L \<Longrightarrow> \<forall>(a, b) \<in> set (take m L). a < b \<and> b \<le> n"
  by (auto dest!: in_set_takeD is_runsD(2))

lemma round_holes:
  assumes "wf s" "src_of s src" "\<not> {..<size_of s} \<subseteq> cov s" "0 < m"
  defines "s' \<equiv> lossless_round put verdict m src s"
  shows "wf s' \<and> src_of s' src \<and> size_of s' = size_of s \<and>
    card ({..<size_of s} - cov s') < card ({..<size_of s} - cov s)"
proof -
  have r: "is_runs (\<lambda>i. i \<notin> cov s) 0 (size_of s) (snd (verdict s))"
    using verdict_holes [OF assms(1,3)] by simp
  note f = resend_facts [OF assms(1,2) take_runs [OF r, of m], folded lossless_round_def s'_def]
  obtain x where x: "x < size_of s" "x \<notin> cov s" using assms(3) by auto
  then have "snd (verdict s) \<noteq> []" using is_runsD(3) [OF r, of x] by auto
  then obtain a b L where L: "snd (verdict s) = (a, b) # L" by (metis list.exhaust surj_pair)
  have ab: "a < b" "b \<le> size_of s" using is_runsD(2) [OF r, of a b] by (auto simp: L)
  then have "a \<notin> cov s" using is_runsD(3) [OF r, of a] by (auto simp: L)
  moreover have "a \<in> cov s'" using f ab assms(4) by (cases m) (auto simp: L)
  ultimately have "{..<size_of s} - cov s' \<subset> {..<size_of s} - cov s" using f ab by auto
  then show ?thesis using f by (auto intro: psubset_card_mono)
qed

lemma round_corrupt:
  assumes "wf s" "src_of s src" "{..<size_of s} \<subseteq> cov s" "snd (verdict s) \<noteq> []" "0 < m"
  defines "s' \<equiv> lossless_round put verdict m src s"
  shows "wf s' \<and> src_of s' src \<and> size_of s' = size_of s \<and> {..<size_of s} \<subseteq> cov s' \<and>
    card {i. i < size_of s \<and> \<not> ok s' i} < card {i. i < size_of s \<and> \<not> ok s i}"
proof -
  have r: "is_runs (\<lambda>i. \<not> ok s i) 0 (size_of s) (snd (verdict s))"
    using verdict_full [OF assms(1,3)] by simp
  note f = resend_facts [OF assms(1,2) take_runs [OF r, of m], folded lossless_round_def s'_def]
  have keep: "ok s' i" if i: "i < size_of s" "ok s i" for i
  proof (rule ok_keep [of s s' src])
    fix j assume j: "j < size_of s" "j div bsz s = i div bsz s"
    then have "ok s j" using ok_block i by metis
    then have "\<not> in_runs (take m (snd (verdict s))) j"
      using take_in_runs [of m "snd (verdict s)" j] is_runsD(3) [OF r, of j] j(1) by blast
    then show "buf s' ! j = buf s ! j" using f j by auto
  qed (use assms(1,2) f i in auto)
  obtain a b L where L: "snd (verdict s) = (a, b) # L" using assms(4) by (metis list.exhaust surj_pair)
  then have in_ab: "(a, b) \<in> set (snd (verdict s))" by simp
  have ab: "a < b" "b \<le> size_of s" using is_runsD(2) [OF r in_ab] by auto
  then have bad: "\<not> ok s a" using is_runsD(3) [OF r, of a] by (auto simp: L)
  have "ok s' a"
  proof (rule ok_src [of s' src])
    fix j assume j: "j < size_of s'" "j div bsz s' = a div bsz s'"
    have "a \<le> j \<and> j < b"
    proof (rule is_runs_connected [OF r in_ab])
      fix z assume z: "min a j \<le> z" "z \<le> max a j"
      have "min a j div bsz s \<le> z div bsz s" "z div bsz s \<le> max a j div bsz s"
        using z by (auto intro: div_le_mono)
      then have "z div bsz s = a div bsz s" using j f by (auto simp: min_def max_def split: if_splits)
      then show "\<not> ok s z" using ok_block bad by metis
    qed (use ab j f in auto)
    then have "in_runs (take m (snd (verdict s))) j" using assms(5) by (cases m) (auto simp: L)
    then show "buf s' ! j = src ! j" using f j by auto
  qed (use f ab in auto)
  then have "{i. i < size_of s \<and> \<not> ok s' i} \<subset> {i. i < size_of s \<and> \<not> ok s i}"
    using keep bad ab by auto
  then show ?thesis using f assms(3) by (auto intro: psubset_card_mono)
qed

lemma round_wf:
  assumes "wf s" "src_of s src"
  shows "wf (lossless_round put verdict m src s) \<and> src_of (lossless_round put verdict m src s) src"
proof (cases "{..<size_of s} \<subseteq> cov s")
  case True
  then show ?thesis using resend_facts [OF assms take_runs] verdict_full [OF assms(1)]
    unfolding lossless_round_def by blast
next
  case False
  then show ?thesis using resend_facts [OF assms take_runs] verdict_holes [OF assms(1)]
    unfolding lossless_round_def by blast
qed

lemma rounds_wf:
  "wf s \<Longrightarrow> src_of s src \<Longrightarrow>
    wf ((lossless_round put verdict m src ^^ n) s) \<and> src_of ((lossless_round put verdict m src ^^ n) s) src"
  by (induction n) (auto dest: round_wf)

lemma converge_full:
  assumes "wf s" "src_of s src" "{..<size_of s} \<subseteq> cov s" "0 < m"
  shows "\<exists>n \<le> card {i. i < size_of s \<and> \<not> ok s i}.
    fst (verdict ((lossless_round put verdict m src ^^ n) s)) = CI_SVU_COMPLETE_VERIFIED"
  using assms
proof (induction "card {i. i < size_of s \<and> \<not> ok s i}" arbitrary: s rule: less_induct)
  case less
  let ?r = "lossless_round put verdict m src"
  show ?case
  proof (cases "snd (verdict s) = []")
    case True
    then show ?thesis using verdict_full [OF less.prems(1,3)] by (intro exI [of _ 0]) simp
  next
    case False
    note rc = round_corrupt [OF less.prems(1-3) False less.prems(4)]
    obtain n where n: "n \<le> card {i. i < size_of (?r s) \<and> \<not> ok (?r s) i}"
      "fst (verdict ((?r ^^ n) (?r s))) = CI_SVU_COMPLETE_VERIFIED"
      using less.hyps [of "?r s"] rc less.prems(4) by auto
    then show ?thesis using rc by (intro exI [of _ "Suc n"]) (auto simp: funpow_swap1)
  qed
qed

text \<open>
  Whatever the receiver holds, a bounded number of rounds in which everything asked for arrives
  intact, at most \<open>m\<close> ranges per round, ends in the verified verdict.
\<close>

lemma converge:
  assumes "wf s" "src_of s src" "0 < m"
  shows "\<exists>n \<le> card ({..<size_of s} - cov s) + size_of s.
    fst (verdict ((lossless_round put verdict m src ^^ n) s)) = CI_SVU_COMPLETE_VERIFIED"
  using assms
proof (induction "card ({..<size_of s} - cov s)" arbitrary: s rule: less_induct)
  case less
  let ?r = "lossless_round put verdict m src"
  show ?case
  proof (cases "{..<size_of s} \<subseteq> cov s")
    case True
    have "card {i. i < size_of s \<and> \<not> ok s i} \<le> card {..<size_of s}" by (intro card_mono) auto
    moreover obtain n where "n \<le> card {i. i < size_of s \<and> \<not> ok s i}"
      "fst (verdict ((?r ^^ n) s)) = CI_SVU_COMPLETE_VERIFIED"
      using converge_full [OF less.prems(1,2) True less.prems(3)] by blast
    ultimately show ?thesis by (intro exI [of _ n]) simp
  next
    case False
    note rh = round_holes [OF less.prems(1,2) False less.prems(3)]
    obtain n where n: "n \<le> card ({..<size_of (?r s)} - cov (?r s)) + size_of (?r s)"
      "fst (verdict ((?r ^^ n) (?r s))) = CI_SVU_COMPLETE_VERIFIED"
      using less.hyps [of "?r s"] rh less.prems(3) by auto
    then show ?thesis using rh by (intro exI [of _ "Suc n"]) (auto simp: funpow_swap1)
  qed
qed

end

subsection \<open>The C receiver keeps the contract\<close>

definition svu_put :: "nat \<Rightarrow> bytes \<Rightarrow> ci_svu \<Rightarrow> ci_svu" where
  "svu_put off d s = (case snd (ci_svu_accept (Some s) (of_nat off) (Some d)) of Some s' \<Rightarrow> s' | None \<Rightarrow> s)"

definition svu_verdict :: "ci_svu \<Rightarrow> ci_svu_status_t \<times> (nat \<times> nat) list" where
  "svu_verdict s =
     (let (st, out, n) = ci_svu_verify (Some s) (Some (replicate (unat (s_total s)) (iv (0, 0)))) (s_total s)
      in (st, map (\<lambda>v. (unat (iv_start v), unat (iv_end v)))
                (take (unat n) (case out of Some a \<Rightarrow> a | None \<Rightarrow> []))))"

lemma unat_iv_map:
  assumes "is_runs P i n L" "n < 4294967296"
  shows "map (\<lambda>v. (unat (iv_start v), unat (iv_end v))) (map iv L) = L"
proof -
  have "(\<lambda>v. (unat (iv_start v), unat (iv_end v))) (iv p) = p" if "p \<in> set L" for p
    using is_runsD(2) [OF assms(1), of "fst p" "snd p"] that assms(2)
    by (simp add: iv_def unat_of_nat32)
  then show ?thesis by (simp add: map_idI)
qed

lemma pushed_runs:
  assumes "is_runs P 0 (unat (t :: u32)) L"
  shows "map (\<lambda>v. (unat (iv_start v), unat (iv_end v))) (take (unat (snd (push_all t L (Some (replicate (unat t) z), 0))))
     (case fst (push_all t L (Some (replicate (unat t) z), 0)) of Some a \<Rightarrow> a | None \<Rightarrow> [])) = L"
proof -
  have l: "length L \<le> unat t" using is_runs_length [OF assms] by simp
  then have "length L < 4294967296" using unat_lt32 [of t] by simp
  then show ?thesis using l unat_iv_map [OF assms unat_lt32]
    by (simp add: push_all_out unat_of_nat32)
qed

text \<open>\<open>svu_verdict\<close> is what \<open>ci_svu_verify\<close> reports, whatever array it is given.\<close>

lemma svu_verdict_cases:
  assumes "svu_wf s"
  shows "\<not> {..<unat (s_total s)} \<subseteq> cov_set s \<Longrightarrow>
      fst (svu_verdict s) = CI_SVU_INCOMPLETE \<and>
      is_runs (\<lambda>i. i \<notin> cov_set s) 0 (unat (s_total s)) (snd (svu_verdict s))"
    and "{..<unat (s_total s)} \<subseteq> cov_set s \<Longrightarrow>
      fst (svu_verdict s) = (if snd (svu_verdict s) = [] then CI_SVU_COMPLETE_VERIFIED else CI_SVU_CORRUPT) \<and>
      is_runs (bad_byte s) 0 (unat (s_total s)) (snd (svu_verdict s))"
proof -
  let ?a = "Some (replicate (unat (s_total s)) (iv (0, 0)))"
  show "\<not> {..<unat (s_total s)} \<subseteq> cov_set s \<Longrightarrow> fst (svu_verdict s) = CI_SVU_INCOMPLETE \<and>
      is_runs (\<lambda>i. i \<notin> cov_set s) 0 (unat (s_total s)) (snd (svu_verdict s))"
    by (erule verify_incomplete [OF assms, where out = ?a and mx = "s_total s"])
      (simp add: svu_verdict_def split_def Let_def pushed_runs)
  show "{..<unat (s_total s)} \<subseteq> cov_set s \<Longrightarrow>
      fst (svu_verdict s) = (if snd (svu_verdict s) = [] then CI_SVU_COMPLETE_VERIFIED else CI_SVU_CORRUPT) \<and>
      is_runs (bad_byte s) 0 (unat (s_total s)) (snd (svu_verdict s))"
    by (erule verify_complete [OF assms, where out = ?a and mx = "s_total s"])
      (simp add: svu_verdict_def split_def Let_def pushed_runs)
qed

lemma svu_put_ok:
  assumes "svu_wf s" "off + length d \<le> unat (s_total s)"
  shows "svu_wf (svu_put off d s)" "same_plan s (svu_put off d s)"
    "s_data (svu_put off d s) = blit off d (s_data s)"
    "cov_set (svu_put off d s) = cov_set s \<union> {off..<off + length d}"
    "ci_svu_accept (Some s) (of_nat off) (Some d) = (0, Some (svu_put off d s))"
proof -
  have "unat (of_nat off :: u32) = off"
    using assms(2) unat_lt32 [of "s_total s"] by (intro unat_of_nat32) auto
  then obtain s' where s': "ci_svu_accept (Some s) (of_nat off) (Some d) = (0, Some s')" "svu_wf s'"
    "same_plan s s'" "s_data s' = blit off d (s_data s)" "cov_set s' = cov_set s \<union> {off..<off + length d}"
    using accept_ok [OF assms(1), of "of_nat off" d] assms(2) by metis
  have e: "svu_put off d s = s'" by (simp add: svu_put_def s'(1))
  show "svu_wf (svu_put off d s)" "same_plan s (svu_put off d s)"
    "s_data (svu_put off d s) = blit off d (s_data s)"
    "cov_set (svu_put off d s) = cov_set s \<union> {off..<off + length d}"
    "ci_svu_accept (Some s) (of_nat off) (Some d) = (0, Some (svu_put off d s))"
    unfolding e by (fact s')+
qed

lemma blk_cong:
  assumes "length d = n" "length e = n" "0 < unat k"
    and "\<And>j. j < n \<Longrightarrow> j div unat k = b \<Longrightarrow> d ! j = e ! j"
  shows "blk k b d = blk k b e"
proof (rule nth_equalityI)
  fix j assume "j < length (blk k b d)"
  then have j: "j < unat k" "b * unat k + j < n" using assms(1) by (auto simp: blk_def)
  then have "(b * unat k + j) div unat k = b" by simp
  then show "blk k b d ! j = blk k b e ! j"
    using j assms by (simp add: blk_def nth_seg)
qed (use assms in \<open>simp add: blk_def\<close>)

lemma byte_block:
  assumes "svu_wf s" "i < unat (s_total s)"
  shows "i div unat (s_block s) < unat (s_nblocks s)" "0 < unat (s_block s)"
proof -
  have nb: "unat (s_nblocks s) = unat (ci_svu_nblocks (s_total s) (s_block s))" "unat (s_nblocks s) \<noteq> 0"
    using assms(1) by (auto simp: svu_wf_def unat_gt_0)
  show "0 < unat (s_block s)" by (rule nblocks_tile(1) [OF nb])
  have "i < unat (s_nblocks s) * unat (s_block s)" using assms(2) nblocks_tile(4) [OF nb] by simp
  then show "i div unat (s_block s) < unat (s_nblocks s)" by (simp add: less_mult_imp_div_less)
qed

lemma block_ok_expects:
  assumes "expects s src" "b < unat (s_nblocks s)"
  shows "block_ok s b \<longleftrightarrow> sha256 (blk (s_block s) b (s_data s)) = sha256 (blk (s_block s) b src)"
  using assms by (simp add: block_ok_def expects_def)

lemma ok_when_source:
  assumes "svu_wf s" "expects s src" "i < unat (s_total s)"
    and "\<And>j. j < unat (s_total s) \<Longrightarrow> j div unat (s_block s) = i div unat (s_block s) \<Longrightarrow> s_data s ! j = src ! j"
  shows "\<not> bad_byte s i"
proof -
  note b = byte_block [OF assms(1,3)]
  have "blk (s_block s) (i div unat (s_block s)) (s_data s) = blk (s_block s) (i div unat (s_block s)) src"
    using assms(1,2,4) b(2) by (intro blk_cong [of _ "unat (s_total s)"]) (auto simp: svu_wf_def expects_def)
  then show ?thesis using block_ok_expects [OF assms(2) b(1)] by (simp add: bad_byte_def)
qed

lemma ok_when_kept:
  assumes "svu_wf s" "svu_wf s'" "expects s src" "expects s' src" "unat (s_block s') = unat (s_block s)"
    and i: "i < unat (s_total s)" and "\<not> bad_byte s i"
    and "\<And>j. j < unat (s_total s) \<Longrightarrow> j div unat (s_block s) = i div unat (s_block s) \<Longrightarrow> s_data s' ! j = s_data s ! j"
  shows "\<not> bad_byte s' i"
proof -
  let ?b = "i div unat (s_block s)"
  have t: "unat (s_total s') = unat (s_total s)" "s_block s' = s_block s"
    using assms(3-5) by (auto simp: expects_def word_unat_eq_iff)
  note b = byte_block [OF assms(1) i] and b' = byte_block [OF assms(2), of i, unfolded t, OF i]
  have "blk (s_block s) ?b (s_data s') = blk (s_block s) ?b (s_data s)"
    using assms(1,2,8) b(2) t by (intro blk_cong [of _ "unat (s_total s)"]) (auto simp: svu_wf_def)
  then show ?thesis
    using assms(7) block_ok_expects [OF assms(3) b(1)] block_ok_expects [OF assms(4) b'(1)]
    by (simp add: bad_byte_def t)
qed

interpretation rx: verified_receiver svu_wf "\<lambda>s. unat (s_total s)" "\<lambda>s. unat (s_block s)" cov_set s_data
  "\<lambda>s i. \<not> bad_byte s i" expects svu_put svu_verdict
proof
  fix s s' :: ci_svu and src d :: bytes and off i j :: nat
  show "expects s src \<Longrightarrow> length src = unat (s_total s)" by (simp add: expects_def)
  show "svu_wf s \<Longrightarrow> length (s_data s) = unat (s_total s)" by (simp add: svu_wf_def)
  show "svu_wf s \<Longrightarrow> off + length d \<le> unat (s_total s) \<Longrightarrow> svu_wf (svu_put off d s) \<and>
      unat (s_total (svu_put off d s)) = unat (s_total s) \<and> unat (s_block (svu_put off d s)) = unat (s_block s)"
    using svu_put_ok [of s off d] by (auto simp: same_plan_def)
  show "svu_wf s \<Longrightarrow> off + length d \<le> unat (s_total s) \<Longrightarrow> expects s src \<Longrightarrow> expects (svu_put off d s) src"
    using svu_put_ok [of s off d] by (auto simp: same_plan_def expects_def)
  show "svu_wf s \<Longrightarrow> off + length d \<le> unat (s_total s) \<Longrightarrow>
      cov_set (svu_put off d s) = cov_set s \<union> {off..<off + length d}" by (rule svu_put_ok)
  show "svu_wf s \<Longrightarrow> off + length d \<le> unat (s_total s) \<Longrightarrow> s_data (svu_put off d s) = blit off d (s_data s)"
    by (rule svu_put_ok)
  show "svu_wf s \<Longrightarrow> \<not> {..<unat (s_total s)} \<subseteq> cov_set s \<Longrightarrow> fst (svu_verdict s) = CI_SVU_INCOMPLETE \<and>
      is_runs (\<lambda>i. i \<notin> cov_set s) 0 (unat (s_total s)) (snd (svu_verdict s))" by (rule svu_verdict_cases)
  show "svu_wf s \<Longrightarrow> {..<unat (s_total s)} \<subseteq> cov_set s \<Longrightarrow>
      fst (svu_verdict s) = (if snd (svu_verdict s) = [] then CI_SVU_COMPLETE_VERIFIED else CI_SVU_CORRUPT) \<and>
      is_runs (\<lambda>i. \<not> \<not> bad_byte s i) 0 (unat (s_total s)) (snd (svu_verdict s))"
    using svu_verdict_cases(2) [of s] by simp
  show "i div unat (s_block s) = j div unat (s_block s) \<Longrightarrow> (\<not> bad_byte s i) = (\<not> bad_byte s j)"
    by (simp add: bad_byte_def)
  show "svu_wf s \<Longrightarrow> expects s src \<Longrightarrow> i < unat (s_total s) \<Longrightarrow>
      (\<And>j. j < unat (s_total s) \<Longrightarrow> j div unat (s_block s) = i div unat (s_block s) \<Longrightarrow> s_data s ! j = src ! j) \<Longrightarrow>
      \<not> bad_byte s i"
    by (rule ok_when_source)
  show "svu_wf s \<Longrightarrow> svu_wf s' \<Longrightarrow> expects s src \<Longrightarrow> expects s' src \<Longrightarrow>
      unat (s_block s') = unat (s_block s) \<Longrightarrow> i < unat (s_total s) \<Longrightarrow>
      (\<And>j. j < unat (s_total s) \<Longrightarrow> j div unat (s_block s) = i div unat (s_block s) \<Longrightarrow>
        s_data s' ! j = s_data s ! j) \<Longrightarrow> \<not> bad_byte s i \<Longrightarrow> \<not> bad_byte s' i"
    by (rule ok_when_kept)
qed

lemma all_blocks_ok:
  assumes "svu_wf s"
  shows "(\<forall>i < unat (s_total s). \<not> bad_byte s i) \<longleftrightarrow> (\<forall>b < unat (s_nblocks s). block_ok s b)"
proof
  assume a: "\<forall>i < unat (s_total s). \<not> bad_byte s i"
  have nb: "unat (s_nblocks s) = unat (ci_svu_nblocks (s_total s) (s_block s))"
    "unat (s_nblocks s) \<noteq> 0"
    using assms by (auto simp: svu_wf_def unat_gt_0)
  show "\<forall>b < unat (s_nblocks s). block_ok s b"
  proof (intro allI impI)
    fix b assume "b < unat (s_nblocks s)"
    then have "\<not> bad_byte s (b * unat (s_block s))" using a block_in [OF nb(1)] by blast
    then show "block_ok s b" using nblocks_tile(1) [OF nb] by (simp add: bad_byte_def)
  qed
qed (use byte_block [OF assms] in \<open>auto simp: bad_byte_def\<close>)

section \<open>Properties\<close>

text \<open>
  the number of blocks is the rounded-up quotient whenever the 32-bit sum
  \<open>total_size + block_size - 1\<close> does not overflow; on overflow it is 0, never a wrong
  positive count, so the callers treat such a size as invalid instead of under-allocating.
\<close>

theorem ci_svu_nblocks_ceil:
  "unat (ci_svu_nblocks t k) =
     (if t = 0 \<or> k = 0 \<or> 2 ^ 32 < unat t + unat k then 0 else (unat t + unat k - 1) div unat k)"
  using nblocks_nat [of t k] by simp

text \<open>
  C22: the verdict of \<open>ci_svu_verify\<close>, with any interval array of at least \<open>mx\<close>
  entries. With a byte missing it is INCOMPLETE and the reported ranges are the maximal runs of
  missing bytes; with every byte covered the ranges are the maximal runs of bytes in blocks whose
  digest differs, and the verdict is COMPLETE_VERIFIED when there are none and CORRUPT otherwise.
  The count is that of all ranges, and the first \<open>mx\<close> of them are stored in order while the
  rest of the array keeps its contents.
\<close>

theorem ci_svu_verify_verdict:
  assumes "svu_wf s" "unat mx \<le> length a"
  shows "\<exists>L. is_runs (\<lambda>i. if {..<unat (s_total s)} \<subseteq> cov_set s then bad_byte s i else i \<notin> cov_set s)
      0 (unat (s_total s)) L \<and>
    ci_svu_verify (Some s) (Some a) mx =
      (if \<not> {..<unat (s_total s)} \<subseteq> cov_set s then CI_SVU_INCOMPLETE
       else if L = [] then CI_SVU_COMPLETE_VERIFIED else CI_SVU_CORRUPT,
       Some (map iv (take (unat mx) L) @ drop (min (unat mx) (length L)) a), of_nat (length L))"
proof (cases "{..<unat (s_total s)} \<subseteq> cov_set s")
  case True
  obtain L where L: "ci_svu_verify (Some s) (Some a) mx =
      (if L = [] then CI_SVU_COMPLETE_VERIFIED else CI_SVU_CORRUPT, push_all mx L (Some a, 0))"
    "is_runs (bad_byte s) 0 (unat (s_total s)) L" "length L \<le> unat (s_total s)"
    by (rule verify_complete [OF assms(1) True])
  then show ?thesis using True assms(2) unat_lt32 [of "s_total s"] push_all_out [of L mx a] by auto
next
  case False
  obtain L where L: "ci_svu_verify (Some s) (Some a) mx = (CI_SVU_INCOMPLETE, push_all mx L (Some a, 0))"
    "is_runs (\<lambda>i. i \<notin> cov_set s) 0 (unat (s_total s)) L" "length L \<le> unat (s_total s)"
    by (rule verify_incomplete [OF assms(1) False])
  then show ?thesis using False assms(2) unat_lt32 [of "s_total s"] push_all_out [of L mx a] by auto
qed

definition svu_fresh :: ci_svu where
  "svu_fresh = \<lparr>s_total = 3, s_block = 2, s_nblocks = 2, s_covered_count = 0, s_data = replicate 3 0,
     s_covered = replicate 3 0, s_expected = replicate 64 0\<rparr>"

lemma nblocks_3_2: "ci_svu_nblocks 3 2 = 2"
  using nblocks_nat [of 3 2] by (simp add: word_unat_eq_iff)

lemma svu_fresh_new: "ci_svu_new False 3 2 (Some (replicate 64 0)) 2 = Some svu_fresh"
  by (simp add: ci_svu_new_def nblocks_3_2 svu_fresh_def CI_SVU_HASH_LEN_def)

lemma svu_fresh_total: "unat (s_total svu_fresh) = 3"
  by (simp add: svu_fresh_def)

lemma svu_fresh_wf: "svu_wf svu_fresh" "cov_set svu_fresh = {}"
  using new_ok(1,2) [OF svu_fresh_new] by (simp_all add: CI_SVU_HASH_LEN_def)

theorem ci_svu_verify_verdict_witness:
  "fst (ci_svu_verify (Some svu_fresh) (Some [iv (0, 0)]) 1) = CI_SVU_INCOMPLETE"
proof -
  have "\<not> {..<unat (s_total svu_fresh)} \<subseteq> cov_set svu_fresh"
    by (simp add: svu_fresh_wf(2) svu_fresh_total lessThan_empty_iff)
  then show ?thesis
    using ci_svu_verify_verdict [OF svu_fresh_wf(1), of 1 "[iv (0, 0)]"] by auto
qed

lemma verified_iff:
  assumes "svu_wf s"
  shows "fst (ci_svu_verify (Some s) out mx) = CI_SVU_COMPLETE_VERIFIED \<longleftrightarrow>
    {..<unat (s_total s)} \<subseteq> cov_set s \<and>
    (\<forall>b < unat (s_nblocks s). sha256 (blk (s_block s) b (s_data s)) =
       seg (b * 32) 32 (s_expected s))"
proof (cases "{..<unat (s_total s)} \<subseteq> cov_set s")
  case True
  obtain L where L: "ci_svu_verify (Some s) out mx =
      (if L = [] then CI_SVU_COMPLETE_VERIFIED else CI_SVU_CORRUPT, push_all mx L (out, 0))"
    "is_runs (bad_byte s) 0 (unat (s_total s)) L"
    by (rule verify_complete [OF assms True])
  have "L = [] \<longleftrightarrow> (\<forall>i < unat (s_total s). \<not> bad_byte s i)"
    by (rule is_runs_empty_iff [OF L(2)])
  also have "\<dots> \<longleftrightarrow> (\<forall>b < unat (s_nblocks s). block_ok s b)"
    by (rule all_blocks_ok [OF assms])
  finally show ?thesis using L(1) True by (simp add: block_ok_def CI_SVU_HASH_LEN_def)
next
  case False
  obtain L where "ci_svu_verify (Some s) out mx = (CI_SVU_INCOMPLETE, push_all mx L (out, 0))"
    by (rule verify_incomplete [OF assms False])
  then show ?thesis using False by simp
qed

text \<open>
  the rule the module exists for. \<open>ci_svu_verify\<close> says COMPLETE_VERIFIED exactly
  when every byte has arrived and every block of the buffer has the digest of the manifest.
\<close>

theorem ci_svu_verified_iff:
  assumes "svu_wf s"
  shows "fst (ci_svu_verify (Some s) out mx) = CI_SVU_COMPLETE_VERIFIED \<longleftrightarrow>
    {..<unat (s_total s)} \<subseteq> cov_set s \<and>
    (\<forall>b < unat (s_nblocks s). sha256 (blk (s_block s) b (s_data s)) =
       seg (b * 32) 32 (s_expected s))"
  by (rule verified_iff [OF assms])

theorem ci_svu_verified_iff_witness:
  "fst (ci_svu_verify (Some svu_fresh) None 0) \<noteq> CI_SVU_COMPLETE_VERIFIED"
  using ci_svu_verified_iff [OF svu_fresh_wf(1), of None 0]
  by (simp add: svu_fresh_wf(2) svu_fresh_total lessThan_empty_iff)

text \<open>
  storing a fragment. A fragment inside the declared payload is copied to its place, marks
  exactly its bytes as covered, keeps the counter equal to the number of distinct covered bytes
  however often bytes arrive, and changes nothing of the plan; one that runs past the end is
  refused with the receiver unchanged.
\<close>

theorem ci_svu_accept_spec:
  assumes "svu_wf s"
  shows "if unat off + length d \<le> unat (s_total s) then
      \<exists>s'. ci_svu_accept (Some s) off (Some d) = (0, Some s') \<and> svu_wf s' \<and> same_plan s s' \<and>
        s_data s' = blit (unat off) d (s_data s) \<and>
        cov_set s' = cov_set s \<union> {unat off..<unat off + length d} \<and>
        unat (ci_svu_covered (Some s')) = card (cov_set s')
    else ci_svu_accept (Some s) off (Some d) = (-1, Some s)"
proof (cases "unat off + length d \<le> unat (s_total s)")
  case True
  obtain s' where "ci_svu_accept (Some s) off (Some d) = (0, Some s')" "svu_wf s'" "same_plan s s'"
    "s_data s' = blit (unat off) d (s_data s)"
    "cov_set s' = cov_set s \<union> {unat off..<unat off + length d}"
    by (rule accept_ok [OF assms True])
  moreover from this(2) have "unat (ci_svu_covered (Some s')) = card (cov_set s')"
    by (simp add: ci_svu_covered_def svu_wf_def cov_set_def)
  ultimately show ?thesis using True by auto
qed (simp add: ci_svu_accept_def)

theorem ci_svu_accept_spec_witness:
  "\<exists>s'. ci_svu_accept (Some svu_fresh) 1 (Some [7]) = (0, Some s') \<and> cov_set s' = {1}"
  using ci_svu_accept_spec [OF svu_fresh_wf(1), of 1 "[7]"]
  by (auto simp: svu_fresh_wf(2) svu_fresh_total)

section \<open>A whole transfer\<close>

text \<open>A sequence of fragments, in whatever order, repeated or damaged.\<close>

definition deliver :: "(u32 \<times> bytes) list \<Rightarrow> ci_svu option \<Rightarrow> ci_svu option" where
  "deliver frs = fold (\<lambda>(off, d) s. snd (ci_svu_accept s off (Some d))) frs"

lemma accept_total:
  assumes "svu_wf s" "expects s src"
  obtains s' where "snd (ci_svu_accept (Some s) off (Some d)) = Some s'" "svu_wf s'" "expects s' src" "same_plan s s'"
proof (cases "unat off + length d \<le> unat (s_total s)")
  case True
  obtain s' where s': "ci_svu_accept (Some s) off (Some d) = (0, Some s')" "svu_wf s'" "same_plan s s'"
    by (rule accept_ok [OF assms(1) True])
  moreover have "expects s' src" using assms(2) s'(3) by (simp add: expects_def same_plan_def)
  ultimately show thesis using that by simp
next
  case False
  then show thesis using that [of s] assms by (simp add: ci_svu_accept_def same_plan_def)
qed

lemma deliver_wf:
  assumes "svu_wf s" "expects s src" "deliver frs (Some s) = Some s'"
  shows "svu_wf s' \<and> expects s' src \<and> same_plan s s'"
  using assms
proof (induction frs arbitrary: s)
  case Nil
  then show ?case by (simp add: deliver_def same_plan_def)
next
  case (Cons f frs)
  obtain off d where f: "f = (off, d)" by (cases f)
  obtain s1 where s1: "snd (ci_svu_accept (Some s) off (Some d)) = Some s1" "svu_wf s1"
    "expects s1 src" "same_plan s s1"
    by (rule accept_total [OF Cons.prems(1,2)])
  have "deliver frs (Some s1) = Some s'" using Cons.prems(3) s1(1) by (simp add: deliver_def f)
  then show ?case using Cons.IH [OF s1(2,3)] s1(4) by (simp add: same_plan_def)
qed

lemma blks_eq:
  assumes "svu_wf s" "length src = unat (s_total s)"
    and "\<And>b. b < unat (s_nblocks s) \<Longrightarrow> blk (s_block s) b (s_data s) = blk (s_block s) b src"
  shows "s_data s = src"
proof (rule nth_equalityI)
  show "length (s_data s) = length src" using assms by (simp add: svu_wf_def)
  fix i assume "i < length (s_data s)"
  then have i: "i < unat (s_total s)" using assms(1) by (simp add: svu_wf_def)
  let ?k = "unat (s_block s)"
  note b = byte_block [OF assms(1) i]
  have "seg (i div ?k * ?k) ?k d ! (i mod ?k) = d ! i" if "i < length d" for d :: bytes
    using that b(2) by (simp add: nth_seg)
  then show "s_data s ! i = src ! i"
    using assms(3) [OF b(1)] assms(1,2) i by (metis blk_def svu_wf_def)
qed

text \<open>
  C21: a transfer is never declared complete on wrong data. Starting from the manifest the sender
  computes over its file, whatever fragments the receiver is fed in whatever order, a verdict of
  COMPLETE_VERIFIED means the reassembled buffer is the sender's file, byte for byte, unless some
  block of it is a SHA-256 collision with the sender's.
\<close>

theorem ci_svu_verified_delivers:
  assumes "ci_svu_manifest (Some src) t k (Some d) = (n, Some ex)" "length src = unat t"
    and "unat (ci_svu_nblocks t k) * CI_SVU_HASH_LEN \<le> length d"
    and "ci_svu_new oom t k (Some ex) n = Some s"
    and "deliver frs (Some s) = Some s'"
    and "fst (ci_svu_verify (Some s') out mx) = CI_SVU_COMPLETE_VERIFIED"
  shows "ci_svu_data (Some s') = Some src \<or>
    (\<exists>b < unat n. blk k b (s_data s') \<noteq> blk k b src \<and> sha256 (blk k b (s_data s')) = sha256 (blk k b src))"
proof -
  note s = expects_new [OF assms(1-4)]
  have plan: "s_total s = t" "s_block s = k" "s_nblocks s = n"
    using assms(4) by (auto simp: ci_svu_new_def Let_def split: if_splits option.splits)
  have s': "svu_wf s'" "expects s' src" "same_plan s s'" using deliver_wf [OF s(1,3) assms(5)] by auto
  then have p: "s_block s' = k" "s_nblocks s' = n" "s_total s' = t"
    using plan by (auto simp: same_plan_def)
  have "\<forall>b < unat n. sha256 (blk k b (s_data s')) = sha256 (blk k b src)"
    using verified_iff [OF s'(1), of out mx] assms(6) s'(2) p
    by (simp add: expects_def CI_SVU_HASH_LEN_def)
  then show ?thesis using blks_eq [OF s'(1), of src] p assms(2) by (auto simp: ci_svu_data_def)
qed

text \<open>The bytes the receiver holds as covered are the source's.\<close>

definition holds_src :: "ci_svu \<Rightarrow> bytes \<Rightarrow> bool" where
  "holds_src s src \<longleftrightarrow> (\<forall>i \<in> cov_set s. s_data s ! i = src ! i)"

definition intact :: "bytes \<Rightarrow> u32 \<times> bytes \<Rightarrow> bool" where
  "intact src f \<longleftrightarrow> unat (fst f) + length (snd f) \<le> length src \<and>
     snd f = seg (unat (fst f)) (length (snd f)) src"

lemma deliver_intact:
  assumes "svu_wf s" "expects s src" "holds_src s src" "\<forall>f \<in> set frs. intact src f"
  shows "\<exists>s'. deliver frs (Some s) = Some s' \<and> svu_wf s' \<and> expects s' src \<and> same_plan s s' \<and> holds_src s' src \<and>
    cov_set s' = cov_set s \<union> (\<Union>f \<in> set frs. {unat (fst f)..<unat (fst f) + length (snd f)})"
  using assms
proof (induction frs arbitrary: s)
  case Nil
  then show ?case by (simp add: deliver_def same_plan_def)
next
  case (Cons f frs)
  obtain off d where f: "f = (off, d)" by (cases f)
  have len: "length src = unat (s_total s)" using Cons.prems(2) by (simp add: expects_def)
  have d: "unat off + length d \<le> unat (s_total s)" "d = seg (unat off) (length d) src"
    using Cons.prems(4) len by (auto simp: f intact_def)
  obtain s1 where s1: "ci_svu_accept (Some s) off (Some d) = (0, Some s1)" "svu_wf s1" "same_plan s s1"
    "s_data s1 = blit (unat off) d (s_data s)" "cov_set s1 = cov_set s \<union> {unat off..<unat off + length d}"
    by (rule accept_ok [OF Cons.prems(1) d(1)])
  have e: "expects s1 src" using Cons.prems(2) s1(3) by (simp add: expects_def same_plan_def)
  have "s_data s1 ! i = src ! i" if "i \<in> cov_set s1" for i
  proof -
    have i: "i < unat (s_total s)" using that s1(3) by (simp add: cov_set_def same_plan_def)
    have "d ! (i - unat off) = src ! i" if "unat off \<le> i" "i < unat off + length d"
      using that i len by (subst d(2)) (simp add: nth_seg)
    moreover have "length (s_data s) = unat (s_total s)" using Cons.prems(1) by (simp add: svu_wf_def)
    ultimately show ?thesis
      using that i d(1) Cons.prems(3) s1(5) by (auto simp: s1(4) nth_blit holds_src_def)
  qed
  then have "holds_src s1 src" by (simp add: holds_src_def)
  with Cons.IH [OF s1(2) e] Cons.prems(4) s1 show ?case
    by (auto simp: deliver_def f same_plan_def)
qed

lemma intact_verified:
  assumes "svu_wf s" "expects s src" "holds_src s src" "{..<unat (s_total s)} \<subseteq> cov_set s"
  shows "s_data s = src \<and> fst (ci_svu_verify (Some s) out mx) = CI_SVU_COMPLETE_VERIFIED"
proof -
  have "s_data s = src"
    using assms by (intro nth_equalityI) (auto simp: svu_wf_def expects_def holds_src_def)
  then show ?thesis
    using verified_iff [OF assms(1), of out mx] assms(2,4) by (simp add: expects_def CI_SVU_HASH_LEN_def)
qed

text \<open>
  a good transfer is never refused. If the fragments are pieces of the sender's file and
  together cover it, then in whatever order and however often they arrive the verdict is
  COMPLETE_VERIFIED and the buffer is the file.
\<close>

theorem ci_svu_good_transfer_verified:
  assumes "ci_svu_manifest (Some src) t k (Some d) = (n, Some ex)" "length src = unat t"
    and "unat (ci_svu_nblocks t k) * CI_SVU_HASH_LEN \<le> length d"
    and "ci_svu_new oom t k (Some ex) n = Some s"
    and "\<forall>f \<in> set frs. intact src f"
    and "{..<unat t} \<subseteq> (\<Union>f \<in> set frs. {unat (fst f)..<unat (fst f) + length (snd f)})"
  shows "\<exists>s'. deliver frs (Some s) = Some s' \<and> ci_svu_data (Some s') = Some src \<and>
    fst (ci_svu_verify (Some s') out mx) = CI_SVU_COMPLETE_VERIFIED"
proof -
  note s = expects_new [OF assms(1-4)]
  have plan: "s_total s = t"
    using assms(4) by (auto simp: ci_svu_new_def Let_def split: if_splits option.splits)
  have "holds_src s src" using s(2) by (simp add: holds_src_def)
  from deliver_intact [OF s(1,3) this assms(5)] obtain s' where
    s': "deliver frs (Some s) = Some s'" "svu_wf s'" "expects s' src" "same_plan s s'" "holds_src s' src"
    "cov_set s' = cov_set s \<union> (\<Union>f \<in> set frs. {unat (fst f)..<unat (fst f) + length (snd f)})" by blast
  then have "{..<unat (s_total s')} \<subseteq> cov_set s'" using assms(6) plan by (auto simp: same_plan_def)
  from intact_verified [OF s'(2,3,5) this, of out mx] show ?thesis using s'(1) by (auto simp: ci_svu_data_def)
qed

lemma nblocks_1_1: "ci_svu_nblocks 1 1 = 1"
  using nblocks_nat [of 1 1] by (simp add: word_unat_eq_iff)

lemma one_byte_receiver:
  obtains ex s where "ci_svu_manifest (Some [5]) 1 1 (Some (replicate 32 0)) = (1, Some ex)"
    "ci_svu_new False 1 1 (Some ex) 1 = Some s"
proof -
  obtain ex where ex: "ci_svu_manifest (Some [5]) 1 1 (Some (replicate 32 0)) = (1, Some ex)"
    by (rule manifest_digests [of "[5]" 1 1 "replicate 32 0"])
      (simp_all add: nblocks_1_1 CI_SVU_HASH_LEN_def)
  then show thesis using that by (auto simp: ci_svu_new_def nblocks_1_1)
qed

theorem ci_svu_good_transfer_verified_witness:
  "\<exists>ex s s'. ci_svu_manifest (Some [5]) 1 1 (Some (replicate 32 0)) = (1, Some ex) \<and>
     ci_svu_new False 1 1 (Some ex) 1 = Some s \<and> deliver [(0, [5])] (Some s) = Some s' \<and>
     ci_svu_data (Some s') = Some [5] \<and> fst (ci_svu_verify (Some s') None 0) = CI_SVU_COMPLETE_VERIFIED"
proof -
  obtain ex s where m: "ci_svu_manifest (Some [5]) 1 1 (Some (replicate 32 0)) = (1, Some ex)"
    "ci_svu_new False 1 1 (Some ex) 1 = Some s" by (rule one_byte_receiver)
  have "\<exists>s'. deliver [(0, [5])] (Some s) = Some s' \<and> ci_svu_data (Some s') = Some [5] \<and>
      fst (ci_svu_verify (Some s') None 0) = CI_SVU_COMPLETE_VERIFIED"
    by (rule ci_svu_good_transfer_verified [OF m(1) _ _ m(2)])
      (auto simp: nblocks_1_1 CI_SVU_HASH_LEN_def intact_def)
  then show ?thesis using m by blast
qed

theorem ci_svu_verified_delivers_witness:
  "\<exists>ex s s'. ci_svu_manifest (Some [5]) 1 1 (Some (replicate 32 0)) = (1, Some ex) \<and>
     ci_svu_new False 1 1 (Some ex) 1 = Some s \<and> deliver [(0, [5])] (Some s) = Some s' \<and>
     fst (ci_svu_verify (Some s') None 0) = CI_SVU_COMPLETE_VERIFIED \<and>
     (ci_svu_data (Some s') = Some [5] \<or>
      (\<exists>b < unat (1 :: u32). blk 1 b (s_data s') \<noteq> blk 1 b [5] \<and> sha256 (blk 1 b (s_data s')) = sha256 (blk 1 b [5])))"
proof -
  obtain ex s where m: "ci_svu_manifest (Some [5]) 1 1 (Some (replicate 32 0)) = (1, Some ex)"
    "ci_svu_new False 1 1 (Some ex) 1 = Some s" by (rule one_byte_receiver)
  have l: "length [5 :: u8] = unat (1 :: u32)"
    "unat (ci_svu_nblocks 1 1) * CI_SVU_HASH_LEN \<le> length (replicate 32 (0 :: u8))"
    by (simp_all add: nblocks_1_1 CI_SVU_HASH_LEN_def)
  note s = expects_new [OF m(1) l m(2)]
  have "s_total s = 1" using m(2) by (auto simp: ci_svu_new_def Let_def split: if_splits)
  moreover have "holds_src s [5]" "\<forall>f \<in> set [(0, [5])]. intact [5] f"
    using s(2) by (auto simp: holds_src_def intact_def)
  ultimately obtain s' where s': "deliver [(0, [5])] (Some s) = Some s'" "svu_wf s'" "expects s' [5]"
    "holds_src s' [5]" "s_total s' = 1" "cov_set s' = {0..<1}"
    using deliver_intact [OF s(1,3), of "[(0, [5])]"] s(2) by (auto simp: same_plan_def)
  have v: "fst (ci_svu_verify (Some s') None 0) = CI_SVU_COMPLETE_VERIFIED"
    using intact_verified [OF s'(2-4), of None 0] s'(5,6) by auto
  show ?thesis using ci_svu_verified_delivers [OF m(1) l m(2) s'(1) v] m s'(1) v by blast
qed

text \<open>
  C23: convergence. Whatever was lost or damaged so far, re-requesting up to \<open>m\<close> reported
  ranges per round ends in COMPLETE_VERIFIED after a bounded number of rounds in which the
  re-sent bytes arrive intact: at most one round per missing byte and one per byte of the payload.
  Bytes of blocks that already match are never asked for again.
\<close>

theorem ci_svu_converges:
  assumes "svu_wf s" "expects s src" "0 < m"
  shows "\<exists>n \<le> card ({..<unat (s_total s)} - cov_set s) + unat (s_total s).
    fst (ci_svu_verify (Some ((lossless_round svu_put svu_verdict m src ^^ n) s)) out mx) =
      CI_SVU_COMPLETE_VERIFIED"
proof -
  let ?r = "lossless_round svu_put svu_verdict m src"
  obtain n where n: "n \<le> card ({..<unat (s_total s)} - cov_set s) + unat (s_total s)"
    "fst (svu_verdict ((?r ^^ n) s)) = CI_SVU_COMPLETE_VERIFIED"
    using rx.converge [OF assms] by blast
  have "svu_wf ((?r ^^ n) s)" using rx.rounds_wf [OF assms(1,2)] by blast
  from verified_iff [OF this] n show ?thesis
    by (intro exI [of _ n]) (auto simp: svu_verdict_def split_def Let_def)
qed

theorem ci_svu_converges_witness:
  "\<exists>s n. svu_wf s \<and> n \<le> 2 \<and> cov_set s = {} \<and>
    fst (ci_svu_verify (Some ((lossless_round svu_put svu_verdict 32 [5] ^^ n) s)) None 0) =
      CI_SVU_COMPLETE_VERIFIED"
proof -
  obtain ex s where m: "ci_svu_manifest (Some [5]) 1 1 (Some (replicate 32 0)) = (1, Some ex)"
    "ci_svu_new False 1 1 (Some ex) 1 = Some s" by (rule one_byte_receiver)
  have s: "svu_wf s" "cov_set s = {}" "expects s [5]"
    by (rule expects_new [OF m(1) _ _ m(2)]; simp add: nblocks_1_1 CI_SVU_HASH_LEN_def)+
  have t: "s_total s = 1" using m(2) by (auto simp: ci_svu_new_def Let_def split: if_splits)
  have "\<exists>n \<le> 2. fst (ci_svu_verify (Some ((lossless_round svu_put svu_verdict 32 [5] ^^ n) s)) None 0) =
      CI_SVU_COMPLETE_VERIFIED"
    using ci_svu_converges [OF s(1,3), of 32 None 0] by (simp add: s(2) t numeral_2_eq_2)
  then show ?thesis using s by blast
qed

end
