(* ===== verification/Os.thy ===== *)
theory Os
  imports Prelude "HOL-Library.AList"
begin

text \<open>
  The operating-system calls of the agent and the ground, over an explicit state.

  The file system is an association list from paths to regular files, in the order a directory
  scan returns them, with the list of existing directories; every change is also recorded in
  \<open>fs_log\<close>, so that statements about every intermediate state (what a power loss would
  leave) can be made. Each fallible call consumes one entry of a script of outcomes: \<open>Good\<close>,
  or \<open>Fail n\<close> where a write stores only the first \<open>n\<close> bytes, a flush loses all but
  the first \<open>n\<close>, and a \<open>pread\<close> is an error (0) or stops after \<open>n - 1\<close> bytes. An exhausted script means \<open>Good\<close>, so a property for all scripts
  covers every pattern of failing calls. Calls still fail by themselves when the path does not
  exist, is a directory, or has no parent directory.

  An open stream or descriptor is its path: no code path unlinks or renames a file it still
  writes. Local time is the \<open>clock\<close> field.
\<close>

section \<open>State\<close>

record tm =
  tm_year :: nat
  tm_mon :: nat
  tm_mday :: nat
  tm_hour :: nat
  tm_min :: nat
  tm_sec :: nat

record inode =
  f_data :: bytes
  f_mode :: nat
  f_mtime :: tm

datatype outcome = Good | Fail nat

type_synonym fsys = "(string \<times> inode) list"

record os =
  fs :: fsys
  dirs :: "string list"
  script :: "outcome list"
  clock :: tm
  fs_log :: "fsys list"

definition next_outcome :: "os \<Rightarrow> outcome \<times> os" where
  "next_outcome s = (case script s of [] \<Rightarrow> (Good, s) | x # xs \<Rightarrow> (x, s\<lparr>script := xs\<rparr>))"

definition lookup :: "os \<Rightarrow> string \<Rightarrow> inode option" where
  "lookup s p = map_of (fs s) p"

definition contents :: "os \<Rightarrow> string \<Rightarrow> bytes option" where
  "contents s p = map_option f_data (lookup s p)"

definition put_fs :: "fsys \<Rightarrow> os \<Rightarrow> os" where
  "put_fs f s = s\<lparr>fs := f, fs_log := f # fs_log s\<rparr>"

definition store :: "string \<Rightarrow> inode \<Rightarrow> os \<Rightarrow> os" where
  "store p f s = put_fs (AList.update p f (fs s)) s"

definition discard :: "string \<Rightarrow> os \<Rightarrow> os" where
  "discard p s = put_fs (AList.delete p (fs s)) s"

text \<open>The part of a path before its last slash (POSIX \<open>dirname\<close> of a path without a trailing slash).\<close>

definition dirname :: "string \<Rightarrow> string" where
  "dirname p =
     (let d = rev (dropWhile (\<lambda>c. c \<noteq> CHR ''/'') (rev p))
      in if d = [] then ''.'' else if butlast d = [] then ''/'' else butlast d)"

definition dir_exists :: "os \<Rightarrow> string \<Rightarrow> bool" where
  "dir_exists s d \<longleftrightarrow> d = ''/'' \<or> d = ''.'' \<or> d \<in> set (dirs s)"

definition can_create :: "os \<Rightarrow> string \<Rightarrow> bool" where
  "can_create s p \<longleftrightarrow> p \<noteq> [] \<and> \<not> dir_exists s p \<and> dir_exists s (dirname p)"

section \<open>Calls\<close>

text \<open>\<open>fopen(path, "rb")\<close>: the bytes still to be read, or \<open>NULL\<close>.\<close>

definition fopen_r :: "string \<Rightarrow> os \<Rightarrow> bytes option \<times> os" where
  "fopen_r p s = (case next_outcome s of
     (Good, s) \<Rightarrow> (contents s p, s)
   | (Fail _, s) \<Rightarrow> (None, s))"

text \<open>\<open>fread\<close> of \<open>n\<close> bytes: what was read, the rest of the stream, the error flag.\<close>

definition fread :: "nat \<Rightarrow> bytes \<Rightarrow> os \<Rightarrow> bytes \<times> bytes \<times> bool \<times> os" where
  "fread n r s = (case next_outcome s of
     (Good, s) \<Rightarrow> (take n r, drop n r, False, s)
   | (Fail k, s) \<Rightarrow> (take (min k n) r, drop (min k n) r, True, s))"

text \<open>\<open>fopen(path, "wb")\<close>: an existing file keeps its mode.\<close>

definition fopen_w :: "string \<Rightarrow> os \<Rightarrow> bool \<times> os" where
  "fopen_w p s = (case next_outcome s of
     (Good, s) \<Rightarrow>
       if can_create s p then
         (True, store p \<lparr>f_data = [], f_mode = (case lookup s p of Some f \<Rightarrow> f_mode f | None \<Rightarrow> 420),
                         f_mtime = clock s\<rparr> s)
       else (False, s)
   | (Fail _, s) \<Rightarrow> (False, s))"

definition append_file :: "string \<Rightarrow> bytes \<Rightarrow> os \<Rightarrow> os" where
  "append_file p b s = (case lookup s p of
     Some f \<Rightarrow> store p (f\<lparr>f_data := f_data f @ b, f_mtime := clock s\<rparr>) s
   | None \<Rightarrow> s)"

text \<open>\<open>fwrite\<close>: the number of bytes taken.\<close>

definition fwrite :: "string \<Rightarrow> bytes \<Rightarrow> os \<Rightarrow> nat \<times> os" where
  "fwrite p b s = (case next_outcome s of
     (Good, s) \<Rightarrow> (length b, append_file p b s)
   | (Fail k, s) \<Rightarrow> let b' = take (min k (length b - 1)) b in (length b', append_file p b' s))"

definition truncate_file :: "string \<Rightarrow> nat \<Rightarrow> os \<Rightarrow> os" where
  "truncate_file p k s = (case lookup s p of
     Some f \<Rightarrow> store p (f\<lparr>f_data := take k (f_data f)\<rparr>) s
   | None \<Rightarrow> s)"

text \<open>
  \<open>fflush\<close> and \<open>fclose\<close> of a stream opened for writing: a failure means buffered
  data never reached the file.
\<close>

definition fflush :: "string \<Rightarrow> os \<Rightarrow> bool \<times> os" where
  "fflush p s = (case next_outcome s of
     (Good, s) \<Rightarrow> (True, s)
   | (Fail k, s) \<Rightarrow> (False, truncate_file p k s))"

definition fclose_w :: "string \<Rightarrow> os \<Rightarrow> bool \<times> os" where
  "fclose_w = fflush"

definition unlink :: "string \<Rightarrow> os \<Rightarrow> bool \<times> os" where
  "unlink p s = (case next_outcome s of
     (Good, s) \<Rightarrow> if lookup s p \<noteq> None then (True, discard p s) else (False, s)
   | (Fail _, s) \<Rightarrow> (False, s))"

definition rename :: "string \<Rightarrow> string \<Rightarrow> os \<Rightarrow> bool \<times> os" where
  "rename p q s = (case next_outcome s of
     (Good, s) \<Rightarrow> (case lookup s p of
         Some f \<Rightarrow> if can_create s q
                   then (True, if p = q then s
                               else put_fs (AList.update q f (AList.delete p (fs s))) s)
                   else (False, s)
       | None \<Rightarrow> (False, s))
   | (Fail _, s) \<Rightarrow> (False, s))"

definition chmod :: "string \<Rightarrow> nat \<Rightarrow> os \<Rightarrow> bool \<times> os" where
  "chmod p m s = (case next_outcome s of
     (Good, s) \<Rightarrow> (case lookup s p of
         Some f \<Rightarrow> (True, store p (f\<lparr>f_mode := m\<rparr>) s)
       | None \<Rightarrow> (dir_exists s p, s))
   | (Fail _, s) \<Rightarrow> (False, s))"

datatype stat_result = No_entry | Is_dir | Is_reg inode

definition stat :: "string \<Rightarrow> os \<Rightarrow> stat_result \<times> os" where
  "stat p s = (case next_outcome s of
     (Good, s) \<Rightarrow> (if dir_exists s p then Is_dir
                  else case lookup s p of Some f \<Rightarrow> Is_reg f | None \<Rightarrow> No_entry, s)
   | (Fail _, s) \<Rightarrow> (No_entry, s))"

datatype mkdir_result = Made | Exists | Mkdir_error

definition mkdir :: "string \<Rightarrow> os \<Rightarrow> mkdir_result \<times> os" where
  "mkdir d s = (case next_outcome s of
     (Good, s) \<Rightarrow> if dir_exists s d \<or> lookup s d \<noteq> None then (Exists, s)
                 else if d \<noteq> [] \<and> dir_exists s (dirname d) then (Made, s\<lparr>dirs := d # dirs s\<rparr>)
                 else (Mkdir_error, s)
   | (Fail _, s) \<Rightarrow> (Mkdir_error, s))"

text \<open>\<open>opendir\<close> and the names \<open>readdir\<close> then gives, with whether each is a regular file.\<close>

definition dir_entries :: "os \<Rightarrow> string \<Rightarrow> (string \<times> bool) list" where
  "dir_entries s d =
     map (\<lambda>p. (after_last CHR ''/'' p, True)) (filter (\<lambda>p. dirname p = d) (map fst (fs s))) @
     map (\<lambda>p. (after_last CHR ''/'' p, False)) (filter (\<lambda>p. dirname p = d) (dirs s))"

definition opendir :: "string \<Rightarrow> os \<Rightarrow> (string \<times> bool) list option \<times> os" where
  "opendir d s = (case next_outcome s of
     (Good, s) \<Rightarrow> (if dir_exists s d then Some (dir_entries s d) else None, s)
   | (Fail _, s) \<Rightarrow> (None, s))"

text \<open>Descriptor calls used by the transfer's sidecar; a descriptor is the path it was opened on.\<close>

definition open_rw :: "string \<Rightarrow> os \<Rightarrow> string option \<times> os" where
  "open_rw p s = (case next_outcome s of
     (Good, s) \<Rightarrow> (if lookup s p \<noteq> None then Some p else None, s)
   | (Fail _, s) \<Rightarrow> (None, s))"

definition open_creat :: "string \<Rightarrow> nat \<Rightarrow> os \<Rightarrow> string option \<times> os" where
  "open_creat p m s = (case next_outcome s of
     (Good, s) \<Rightarrow>
       if can_create s p then
         (Some p, store p \<lparr>f_data = [], f_mode = (case lookup s p of Some f \<Rightarrow> f_mode f | None \<Rightarrow> m),
                           f_mtime = clock s\<rparr> s)
       else (None, s)
   | (Fail _, s) \<Rightarrow> (None, s))"

definition pread :: "string \<Rightarrow> nat \<Rightarrow> nat \<Rightarrow> os \<Rightarrow> bytes option \<times> os" where
  "pread p n off s = (case next_outcome s of
     (Good, s) \<Rightarrow> (map_option (seg off n) (contents s p), s)
   | (Fail k, s) \<Rightarrow> (if k = 0 then None else map_option (\<lambda>d. take (k - 1) (seg off n d)) (contents s p), s))"

definition pwrite_bytes :: "nat \<Rightarrow> bytes \<Rightarrow> bytes \<Rightarrow> bytes" where
  "pwrite_bytes off b d =
     (if b = [] then d
      else take off (d @ replicate (off - length d) 0) @ b @ drop (off + length b) d)"

definition pwrite :: "string \<Rightarrow> bytes \<Rightarrow> nat \<Rightarrow> os \<Rightarrow> nat \<times> os" where
  "pwrite p b off s = (let (r, s) = next_outcome s;
       b' = (case r of Good \<Rightarrow> b | Fail k \<Rightarrow> take (min k (length b - 1)) b)
     in (length b', case lookup s p of
           Some f \<Rightarrow> store p (f\<lparr>f_data := pwrite_bytes off b' (f_data f), f_mtime := clock s\<rparr>) s
         | None \<Rightarrow> s))"

definition ftruncate0 :: "string \<Rightarrow> os \<Rightarrow> bool \<times> os" where
  "ftruncate0 p s = (case next_outcome s of
     (Good, s) \<Rightarrow> (True, truncate_file p 0 s)
   | (Fail _, s) \<Rightarrow> (False, s))"

text \<open>\<open>access(path, F_OK) == 0\<close>.\<close>

definition access_ok :: "string \<Rightarrow> os \<Rightarrow> bool \<times> os" where
  "access_ok p s = (case next_outcome s of
     (Good, s) \<Rightarrow> (dir_exists s p \<or> lookup s p \<noteq> None, s)
   | (Fail _, s) \<Rightarrow> (False, s))"

text \<open>\<open>malloc\<close> and \<open>calloc\<close>.\<close>

definition malloc :: "os \<Rightarrow> bool \<times> os" where
  "malloc s = (case next_outcome s of (Good, s) \<Rightarrow> (True, s) | (Fail _, s) \<Rightarrow> (False, s))"

section \<open>Laws of the file store\<close>

lemma lookup_store [simp]: "lookup (store p f s) q = (if q = p then Some f else lookup s q)"
  by (simp add: lookup_def store_def put_fs_def update_conv')

lemma lookup_discard [simp]: "lookup (discard p s) q = (if q = p then None else lookup s q)"
  by (simp add: lookup_def discard_def put_fs_def delete_conv')

lemma store_fields [simp]:
  "script (store p f s) = script s" "dirs (store p f s) = dirs s" "clock (store p f s) = clock s"
  "script (discard p s) = script s" "dirs (discard p s) = dirs s" "clock (discard p s) = clock s"
  by (simp_all add: store_def discard_def put_fs_def)

lemma dir_exists_store [simp]:
  "dir_exists (store p f s) d = dir_exists s d" "dir_exists (discard p s) d = dir_exists s d"
  by (simp_all add: dir_exists_def)

lemma can_create_store [simp]:
  "can_create (store p f s) q = can_create s q" "can_create (discard p s) q = can_create s q"
  by (simp_all add: can_create_def)

lemma contents_store [simp]: "contents (store p f s) q = (if q = p then Some (f_data f) else contents s q)"
  by (simp add: contents_def)

lemma contents_discard [simp]: "contents (discard p s) q = (if q = p then None else contents s q)"
  by (simp add: contents_def)

lemma script_fields [simp]:
  "lookup (s\<lparr>script := xs\<rparr>) p = lookup s p" "contents (s\<lparr>script := xs\<rparr>) p = contents s p"
  "dir_exists (s\<lparr>script := xs\<rparr>) d = dir_exists s d" "can_create (s\<lparr>script := xs\<rparr>) p = can_create s p"
  by (simp_all add: lookup_def contents_def dir_exists_def can_create_def)

lemma next_outcome_nil [io_simps]: "script s = [] \<Longrightarrow> next_outcome s = (Good, s)"
  by (simp add: next_outcome_def)

lemma next_outcome_cons [io_simps]: "script s = x # xs \<Longrightarrow> next_outcome s = (x, s\<lparr>script := xs\<rparr>)"
  by (simp add: next_outcome_def)

text \<open>A call changes the script at most by consuming its head.\<close>

lemma next_outcome_files:
  assumes "next_outcome s = (r, s')"
  shows "lookup s' p = lookup s p" "contents s' p = contents s p" "dirs s' = dirs s" "clock s' = clock s"
    "fs s' = fs s" "fs_log s' = fs_log s" "dir_exists s' d = dir_exists s d" "can_create s' p = can_create s p"
  using assms by (auto simp: next_outcome_def split: list.splits)

lemma contents_append_file [simp]:
  "contents (append_file p b s) q = (if q = p then map_option (\<lambda>d. d @ b) (contents s p) else contents s q)"
  by (auto simp: append_file_def contents_def split: option.splits)

lemma append_file_fields [simp]:
  "script (append_file p b s) = script s" "dirs (append_file p b s) = dirs s"
  "clock (append_file p b s) = clock s"
  by (auto simp: append_file_def split: option.splits)

lemma contents_truncate_file [simp]:
  "contents (truncate_file p k s) q = (if q = p then map_option (take k) (contents s p) else contents s q)"
  by (auto simp: truncate_file_def contents_def split: option.splits)

lemma truncate_file_fields [simp]:
  "script (truncate_file p k s) = script s" "dirs (truncate_file p k s) = dirs s"
  "clock (truncate_file p k s) = clock s"
  by (auto simp: truncate_file_def split: option.splits)

section \<open>What a call can touch\<close>

text \<open>
  \<open>frame P s s'\<close>: going from \<open>s\<close> to \<open>s'\<close>, in every intermediate state of the
  file system and in the last one, only files at paths satisfying \<open>P\<close> differ from
  \<open>s\<close>.
\<close>

definition frame :: "(string \<Rightarrow> bool) \<Rightarrow> os \<Rightarrow> os \<Rightarrow> bool" where
  "frame P s s' \<longleftrightarrow> (\<exists>new. fs_log s' = new @ fs_log s \<and>
     (\<forall>f \<in> set (fs s' # new). \<forall>q. \<not> P q \<longrightarrow> map_of f q = map_of (fs s) q))"

named_theorems frames \<open>which paths each call can touch\<close>

lemma frame_refl [frames]: "frame P s s"
  by (auto simp: frame_def)

lemma frame_trans [trans]: "frame P s t \<Longrightarrow> frame P t u \<Longrightarrow> frame P s u"
  by (auto simp: frame_def)

lemma frame_mono: "frame P s t \<Longrightarrow> (\<And>q. P q \<Longrightarrow> Q q) \<Longrightarrow> frame Q s t"
  unfolding frame_def by blast

lemma frame_lookup: "frame P s t \<Longrightarrow> \<not> P q \<Longrightarrow> lookup t q = lookup s q"
  by (auto simp: frame_def lookup_def)

lemma frame_contents: "frame P s t \<Longrightarrow> \<not> P q \<Longrightarrow> contents t q = contents s q"
  by (simp add: frame_lookup contents_def)

lemma frame_put: "(\<And>q. \<not> P q \<Longrightarrow> map_of f q = map_of (fs s) q) \<Longrightarrow> frame P s (put_fs f s)"
  unfolding frame_def by (rule exI [of _ "[f]"]) (auto simp: put_fs_def)

lemma frame_store [frames]: "P p \<Longrightarrow> frame P s (store p f s)"
  unfolding store_def by (rule frame_put) (auto simp: update_conv')

lemma frame_discard [frames]: "P p \<Longrightarrow> frame P s (discard p s)"
  unfolding discard_def by (rule frame_put) (auto simp: delete_conv')

lemma frame_outcome: "next_outcome s = (r, s') \<Longrightarrow> frame P s s'"
  unfolding frame_def by (rule exI [of _ "[]"]) (auto simp: next_outcome_files)

lemma frame_after_outcome: "frame P (snd (next_outcome s)) t \<Longrightarrow> frame P s t"
  using frame_outcome [of s "fst (next_outcome s)"] frame_trans by (metis prod.collapse)

lemma frame_append [frames]: "P p \<Longrightarrow> frame P s (append_file p b s)"
  by (auto simp: append_file_def intro: frames split: option.splits)

lemma frame_truncate [frames]: "P p \<Longrightarrow> frame P s (truncate_file p k s)"
  by (auto simp: truncate_file_def intro: frames split: option.splits)

lemma frame_dirs [frames]: "frame P s (s\<lparr>dirs := d\<rparr>)"
  by (auto simp: frame_def)

lemma frame_calls [frames]:
  "frame P s (snd (fopen_r p s))"
  "frame P s (snd (snd (snd (fread n r s))))"
  "P p \<Longrightarrow> frame P s (snd (fopen_w p s))"
  "P p \<Longrightarrow> frame P s (snd (fwrite p b s))"
  "P p \<Longrightarrow> frame P s (snd (fflush p s))"
  "P p \<Longrightarrow> frame P s (snd (fclose_w p s))"
  "P p \<Longrightarrow> frame P s (snd (unlink p s))"
  "P p \<Longrightarrow> frame P s (snd (chmod p m s))"
  "frame P s (snd (stat p s))"
  "frame P s (snd (mkdir p s))"
  "frame P s (snd (opendir p s))"
  "frame P s (snd (open_rw p s))"
  "P p \<Longrightarrow> frame P s (snd (open_creat p m s))"
  "frame P s (snd (pread p n off s))"
  "P p \<Longrightarrow> frame P s (snd (pwrite p b off s))"
  "P p \<Longrightarrow> frame P s (snd (ftruncate0 p s))"
  by (rule frame_after_outcome;
      auto simp: fopen_r_def fread_def fopen_w_def fwrite_def fflush_def fclose_w_def unlink_def chmod_def
        stat_def mkdir_def opendir_def open_rw_def open_creat_def pread_def pwrite_def ftruncate0_def Let_def
        intro: frames split: outcome.splits prod.splits option.splits)+

lemma frame_malloc [frames]: "frame P s (snd (malloc s))"
  by (rule frame_after_outcome) (auto simp: malloc_def intro: frames split: outcome.splits prod.splits)

lemma frame_access [frames]: "frame P s (snd (access_ok p s))"
  by (rule frame_after_outcome) (auto simp: access_ok_def intro: frames split: outcome.splits prod.splits)

lemma access_quiet: "script s = [] \<Longrightarrow> access_ok p s = (dir_exists s p \<or> lookup s p \<noteq> None, s)"
  by (simp add: access_ok_def io_simps)

lemma malloc_quiet [io_simps]: "script s = [] \<Longrightarrow> malloc s = (True, s)"
  by (simp add: malloc_def io_simps)

lemma frame_rename [frames]:
  assumes "P p" "P q"
  shows "frame P s (snd (rename p q s))"
  using assms
  by (intro frame_after_outcome [of P s])
    (auto simp: rename_def intro!: frame_put frames split: outcome.splits prod.splits option.splits
      simp: update_conv' delete_conv')

section \<open>Relations that whole operations inherit from their calls\<close>

text \<open>
  A reflexive and transitive relation between states holds of an operation when it holds of its
  calls. The rules, one per control construct, reduce the first to the second by \<open>intro\<close>.
\<close>

locale step_relation =
  fixes R :: "os \<Rightarrow> os \<Rightarrow> bool"
  assumes stay: "R s s"
    and chain: "R s t \<Longrightarrow> R t u \<Longrightarrow> R s u"
begin

lemma bind:
  assumes "R s (snd x)" "\<And>a t. R t (snd (f a t))"
  shows "R s (snd (case x of (a, t) \<Rightarrow> f a t))"
  using assms by (cases x) (auto intro: chain)

lemma pair: "R s t \<Longrightarrow> R s (snd (r, t))"
  by simp

lemma cond: "(b \<Longrightarrow> R s (snd x)) \<Longrightarrow> (\<not> b \<Longrightarrow> R s (snd y)) \<Longrightarrow> R s (snd (if b then x else y))"
  by simp

lemma case_option: "R s (snd x) \<Longrightarrow> (\<And>v. R s (snd (f v))) \<Longrightarrow> R s (snd (case v of None \<Rightarrow> x | Some v \<Rightarrow> f v))"
  by (cases v) auto

lemma case_bool: "R s (snd x) \<Longrightarrow> R s (snd y) \<Longrightarrow> R s (snd (case b of True \<Rightarrow> x | False \<Rightarrow> y))"
  by (cases b) auto

lemma case_stat: "R s (snd x) \<Longrightarrow> R s (snd y) \<Longrightarrow> (\<And>i. R s (snd (f i))) \<Longrightarrow>
    R s (snd (case r of No_entry \<Rightarrow> x | Is_dir \<Rightarrow> y | Is_reg i \<Rightarrow> f i))"
  by (cases r) auto

lemma case_mkdir: "R s (snd x) \<Longrightarrow> R s (snd y) \<Longrightarrow> R s (snd z) \<Longrightarrow>
    R s (snd (case r of Made \<Rightarrow> x | Exists \<Rightarrow> y | Mkdir_error \<Rightarrow> z))"
  by (cases r) auto

lemmas steps = bind pair cond case_option case_bool case_stat case_mkdir

end

interpretation framing: step_relation "frame P" for P
  by unfold_locales (rule frame_refl, rule frame_trans)

lemmas frame_steps = framing.steps

text \<open>
  \<open>quietly D s s'\<close>: no failure appears, the clock stands, no directory goes away and only
  directories in \<open>D\<close> are made.
\<close>

definition quietly :: "string set \<Rightarrow> os \<Rightarrow> os \<Rightarrow> bool" where
  "quietly D s s' \<longleftrightarrow> (script s = [] \<longrightarrow> script s' = []) \<and> clock s' = clock s \<and>
     set (dirs s) \<subseteq> set (dirs s') \<and> set (dirs s') \<subseteq> set (dirs s) \<union> D"

interpretation quiet: step_relation "quietly D" for D
  by unfold_locales (auto simp: quietly_def)

lemmas quiet_steps = quiet.steps

named_theorems quiets \<open>calls that make no directory outside a set\<close>

lemma quiet_refl [quiets]: "quietly D s s"
  by (rule quiet.stay)

lemma quiet_trans [trans]: "quietly D s t \<Longrightarrow> quietly D t u \<Longrightarrow> quietly D s u"
  by (rule quiet.chain)

lemma quiet_mono: "quietly D s t \<Longrightarrow> D \<subseteq> E \<Longrightarrow> quietly E s t"
  by (auto simp: quietly_def)

lemma quiet_create:
  assumes "quietly D s t" "can_create s p" "p \<notin> D"
  shows "can_create t p"
  using assms by (auto simp: quietly_def can_create_def dir_exists_def)

lemma quiet_dir: "quietly D s t \<Longrightarrow> dir_exists s d \<Longrightarrow> dir_exists t d"
  by (auto simp: quietly_def dir_exists_def)

lemma outcome_quiet: "quietly D (snd (next_outcome s)) t \<Longrightarrow> quietly D s t"
  by (auto simp: quietly_def next_outcome_def split: list.splits)

lemma files_quiet [quiets]:
  "quietly D s (store p f s)" "quietly D s (discard p s)" "quietly D s (append_file p b s)"
  "quietly D s (truncate_file p k s)" "quietly D s (put_fs g s)"
  by (simp_all add: quietly_def put_fs_def)

lemma quietly_calls [quiets]:
  "quietly D s (snd (fopen_r p s))" "quietly D s (snd (snd (snd (fread n r s))))"
  "quietly D s (snd (fopen_w p s))" "quietly D s (snd (fwrite p b s))" "quietly D s (snd (fflush p s))"
  "quietly D s (snd (fclose_w p s))" "quietly D s (snd (unlink p s))" "quietly D s (snd (chmod p m s))"
  "quietly D s (snd (stat p s))" "quietly D s (snd (opendir p s))" "quietly D s (snd (open_rw p s))"
  "quietly D s (snd (open_creat p m s))" "quietly D s (snd (pread p n off s))" "quietly D s (snd (pwrite p b off s))"
  "quietly D s (snd (ftruncate0 p s))" "quietly D s (snd (rename p q s))" "quietly D s (snd (malloc s))"
  "quietly D s (snd (access_ok p s))"
  by (rule outcome_quiet;
      auto simp: fopen_r_def fread_def fopen_w_def fwrite_def fflush_def fclose_w_def unlink_def chmod_def
        stat_def opendir_def open_rw_def open_creat_def pread_def pwrite_def ftruncate0_def rename_def malloc_def
        access_ok_def Let_def intro: quiets split: outcome.splits prod.splits option.splits)+

lemma mkdir_quietly [quiets]: "d \<in> D \<Longrightarrow> quietly D s (snd (mkdir d s))"
  by (rule outcome_quiet) (auto simp: mkdir_def quietly_def split: outcome.splits prod.splits)

text \<open>With no failures scripted, none appears.\<close>

lemma quiet_calls [simp]:
  assumes "script s = []"
  shows "script (snd (fopen_r p s)) = []" "script (snd (snd (snd (fread n r s)))) = []"
    "script (snd (fopen_w p s)) = []" "script (snd (fwrite p b s)) = []" "script (snd (fflush p s)) = []"
    "script (snd (fclose_w p s)) = []" "script (snd (unlink p s)) = []" "script (snd (chmod p m s)) = []"
    "script (snd (stat p s)) = []" "script (snd (mkdir p s)) = []" "script (snd (opendir p s)) = []"
    "script (snd (rename p q s)) = []" "script (snd (open_rw p s)) = []" "script (snd (open_creat p m s)) = []"
    "script (snd (pread p n off s)) = []" "script (snd (pwrite p b off s)) = []" "script (snd (ftruncate0 p s)) = []"
  using assms
  by (auto simp: fopen_r_def fread_def fopen_w_def fwrite_def fflush_def fclose_w_def unlink_def chmod_def
      stat_def mkdir_def opendir_def open_rw_def open_creat_def pread_def pwrite_def ftruncate0_def rename_def
      Let_def io_simps put_fs_def split: option.splits)

end
