(* ===== verification/Svu_Serve.thy ===== *)
theory Svu_Serve
  imports Ci_Svu Os
begin

text \<open>
  The ground's sender (\<open>satdeploy-apm/svu/svu_serve.c\<close>) and the session that runs it
  (\<open>svu_serve_session.c\<close>): loading the artifact, sending the manifest in offset-tagged
  chunks, blasting byte ranges as connectionless data packets, and the loop that answers meta
  requests until it is told to stop.

  libcsp is a parameter: \<open>ok n\<close> says whether the \<open>n\<close>-th \<open>csp_buffer_get\<close>
  returns a packet, and what is sent is recorded in order. A packet is the list of its
  \<open>length\<close> bytes, so the 16-bit length field is part of the model. The loops over 32-bit
  offsets may run forever when the offset wraps, hence \<open>partial_function (option)\<close>. The
  pacing delay (\<open>SVU_BLAST_PACE_US\<close>) only sleeps between packets and is left out.
\<close>

section \<open>Definitions\<close>

text \<open>What the sender has handed to libcsp so far: on the open connection, and as data packets.\<close>

record csp_tx =
  tx_gets :: nat
  tx_conn :: "bytes list"
  tx_data :: "(u16 \<times> bytes) list"

definition csp_buffer_get :: "(nat \<Rightarrow> bool) \<Rightarrow> csp_tx \<Rightarrow> bool \<times> csp_tx" where
  "csp_buffer_get ok t = (ok (tx_gets t), t\<lparr>tx_gets := Suc (tx_gets t)\<rparr>)"

text \<open>The first \<open>length\<close> bytes of a filled packet buffer, the length stored in 16 bits.\<close>

definition csp_pkt :: "u32 \<Rightarrow> bytes \<Rightarrow> bytes" where
  "csp_pkt len d = take (unat (ucast len :: u16)) d"

definition svu_load_file :: "bool \<Rightarrow> string \<Rightarrow> os \<Rightarrow> (bytes \<times> u32) option \<times> os" where
  "svu_load_file oom path s =
     (case fopen_r path s of
        (None, s) \<Rightarrow> (None, s)
      | (Some d, s) \<Rightarrow>
          (case next_outcome s of
             (Fail _, s) \<Rightarrow> (None, s)
           | (Good, s) \<Rightarrow>
               (case next_outcome s of
                  (Fail _, s) \<Rightarrow> (None, s)
                | (Good, s) \<Rightarrow>
                    if oom then (None, s)
                    else let (b, _, _, s) = fread (length d) d s
                         in if length b \<noteq> length d then (None, s)
                            else (Some (b, of_nat (length d)), s))))"

text \<open>
  The loop both senders share: \<open>for (off = start; off < end; off += pay)\<close> with the
  piece length clipped at the end; the body returns whether to go on.
\<close>

partial_function (option) chunk_loop ::
  "u32 \<Rightarrow> u32 \<Rightarrow> (u32 \<Rightarrow> u32 \<Rightarrow> 't \<Rightarrow> bool \<times> 't) \<Rightarrow> u32 \<Rightarrow> 't \<Rightarrow> 't option" where
  "chunk_loop pay fin body off t =
     (if off < fin then
        let len = (if off + pay \<le> fin then pay else fin - off);
            (go, t) = body off len t
        in if go then chunk_loop pay fin body (off + pay) t else Some t
      else Some t)"

definition manifest_chunk :: "(nat \<Rightarrow> bool) \<Rightarrow> bytes \<Rightarrow> u32 \<Rightarrow> u32 \<Rightarrow> csp_tx \<Rightarrow> bool \<times> csp_tx" where
  "manifest_chunk ok manifest off len t =
     (let (got, t) = csp_buffer_get ok t
      in if \<not> got then (False, t)
         else let p = csp_pkt (4 + len) (le32 off @ seg (unat off) (unat len) manifest)
              in (True, t\<lparr>tx_conn := tx_conn t @ [p]\<rparr>))"

definition send_manifest :: "(nat \<Rightarrow> bool) \<Rightarrow> bytes \<Rightarrow> u32 \<Rightarrow> csp_tx \<Rightarrow> csp_tx option" where
  "send_manifest ok manifest nbytes t = chunk_loop 200 nbytes (manifest_chunk ok manifest) 0 t"

definition blast_chunk ::
  "(nat \<Rightarrow> bool) \<Rightarrow> u16 \<Rightarrow> u32 \<Rightarrow> bytes \<Rightarrow> u32 \<Rightarrow> u32 \<Rightarrow> csp_tx \<Rightarrow> bool \<times> csp_tx" where
  "blast_chunk ok client_addr session src off len t =
     (let (got, t) = csp_buffer_get ok t
      in if \<not> got then (False, t)
         else let p = csp_pkt (of_nat SVU_DATA_HDR + len)
                        (le32 off @ le32 session @ seg (unat off) (unat len) src)
              in (True, t\<lparr>tx_data := tx_data t @ [(client_addr, p)]\<rparr>))"

definition blast_pay :: "u32 \<Rightarrow> u32" where
  "blast_pay mtu = (if mtu > of_nat SVU_DATA_HDR then mtu - of_nat SVU_DATA_HDR else 1)"

definition blast_interval ::
  "(nat \<Rightarrow> bool) \<Rightarrow> u16 \<Rightarrow> u32 \<Rightarrow> u32 \<Rightarrow> bytes \<Rightarrow> u32 \<Rightarrow> u32 \<Rightarrow> csp_tx \<Rightarrow> csp_tx option" where
  "blast_interval ok client_addr session mtu src start fin t =
     chunk_loop (blast_pay mtu) fin (blast_chunk ok client_addr session src) start t"

text \<open>The re-request branch: each interval clipped to the file, empty ones skipped.\<close>

fun blast_all ::
  "(nat \<Rightarrow> bool) \<Rightarrow> u16 \<Rightarrow> u32 \<Rightarrow> u32 \<Rightarrow> bytes \<Rightarrow> u32 \<Rightarrow> svu_wire_interval_t list \<Rightarrow> csp_tx \<times> u32 \<Rightarrow>
     (csp_tx \<times> u32) option" where
  "blast_all ok addr session mtu src tot [] (t, blasted) = Some (t, blasted)"
| "blast_all ok addr session mtu src tot (w # ws) (t, blasted) =
     (let s = wi_start w; e = (if wi_end w > tot then tot else wi_end w)
      in if s < e then
           (case blast_interval ok addr session mtu src s e t of
              None \<Rightarrow> None
            | Some t \<Rightarrow> blast_all ok addr session mtu src tot ws (t, blasted + (e - s)))
         else blast_all ok addr session mtu src tot ws (t, blasted))"

definition resp_header :: "u32 \<Rightarrow> u32 \<Rightarrow> u32 \<Rightarrow> u32 \<Rightarrow> bytes" where
  "resp_header session tot block nblocks =
     le32 SVU_MAGIC_RESP @ le32 session @ le32 tot @ le32 block @ le32 nblocks"

text \<open>
  One accepted connection: decode the request, answer with header and manifest on the
  connection, then blast. \<open>None\<close> as the packet is a read timeout. The second component of
  the result is the number of bytes blasted that is reported. A CSP buffer that is free is large
  enough for the packet.
\<close>

definition serve_conn ::
  "(nat \<Rightarrow> bool) \<Rightarrow> bytes \<Rightarrow> u32 \<Rightarrow> u32 \<Rightarrow> u32 \<Rightarrow> bytes \<Rightarrow> u16 \<Rightarrow> bytes option \<Rightarrow> csp_tx \<Rightarrow>
     (csp_tx \<times> u32) option" where
  "serve_conn ok src tot block_size nblocks manifest client_addr pkt t =
     (case pkt of
        None \<Rightarrow> Some (t, 0)
      | Some d \<Rightarrow>
          (case svu_req_decode (Some d) (length d) of
             None \<Rightarrow> Some (t, 0)
           | Some req \<Rightarrow>
               let mtu = (if rq_mtu req > of_nat SVU_DATA_HDR then rq_mtu req else 256);
                   (got, t) = csp_buffer_get ok t;
                   sent = (if got
                           then send_manifest ok manifest (nblocks * of_nat CI_SVU_HASH_LEN)
                                  (t\<lparr>tx_conn := tx_conn t @
                                      [resp_header (rq_session_id req) tot block_size nblocks]\<rparr>)
                           else Some t)
               in (case sent of
                     None \<Rightarrow> None
                   | Some t \<Rightarrow>
                       if rq_nof_intervals req = 0 then
                         map_option (\<lambda>t. (t, tot))
                           (blast_interval ok client_addr (rq_session_id req) mtu src 0 tot t)
                       else blast_all ok client_addr (rq_session_id req) mtu src tot
                              (take (unat (rq_nof_intervals req)) (rq_intervals req)) (t, 0))))"

text \<open>
  What \<open>csp_accept\<close> reports in turn: a timeout, with the value \<open>*stop\<close> has at that
  moment, or a connection from a node with the packet read from it.
\<close>

datatype serve_event = Accept_timeout bool | Accept_conn u16 "bytes option"

fun serve_events ::
  "(nat \<Rightarrow> bool) \<Rightarrow> bytes \<Rightarrow> u32 \<Rightarrow> u32 \<Rightarrow> u32 \<Rightarrow> bytes \<Rightarrow> serve_event list \<Rightarrow> csp_tx \<Rightarrow>
     (bool \<times> csp_tx) option" where
  "serve_events ok src tot block nblocks manifest [] t = Some (False, t)"
| "serve_events ok src tot block nblocks manifest (Accept_timeout stop # evs) t =
     (if stop then Some (True, t) else serve_events ok src tot block nblocks manifest evs t)"
| "serve_events ok src tot block nblocks manifest (Accept_conn addr pkt # evs) t =
     (case serve_conn ok src tot block nblocks manifest addr pkt t of
        None \<Rightarrow> None
      | Some (t, _) \<Rightarrow> serve_events ok src tot block nblocks manifest evs t)"

text \<open>
  The whole loop. The result is \<open>-1\<close> on an allocation or bind failure, 0 once stopped;
  \<open>None\<close> in the first component while it is still waiting for the next event.
\<close>

definition svu_serve_loop ::
  "(nat \<Rightarrow> bool) \<Rightarrow> bool \<Rightarrow> bool \<Rightarrow> bytes \<Rightarrow> u32 \<Rightarrow> u32 \<Rightarrow> serve_event list \<Rightarrow> csp_tx \<Rightarrow>
     (int option \<times> csp_tx) option" where
  "svu_serve_loop ok oom bind_ok src tot block_size evs t =
     (let nblocks = ci_svu_nblocks tot block_size
      in if oom then Some (Some (-1), t)
         else let manifest = the (snd (ci_svu_manifest (Some src) tot block_size
                                (Some (replicate (unat nblocks * CI_SVU_HASH_LEN) 0))))
              in if \<not> bind_ok then Some (Some (-1), t)
                 else map_option (\<lambda>(stopped, t). (if stopped then Some 0 else None, t))
                        (serve_events ok src tot block_size nblocks manifest evs t))"

definition SVU_SERVE_DEFAULT_BLOCK :: u32 where "SVU_SERVE_DEFAULT_BLOCK = 4096"

record svu_serve_session_t =
  ss_src :: "bytes option"
  ss_total :: u32
  ss_block_size :: u32
  ss_stop :: bool
  ss_active :: bool

definition svu_serve_session_start ::
  "bool \<Rightarrow> bool \<Rightarrow> string option \<Rightarrow> u32 \<Rightarrow> svu_serve_session_t option \<Rightarrow> os \<Rightarrow>
     int \<times> svu_serve_session_t option \<times> os" where
  "svu_serve_session_start oom thread_ok path block_size ses s =
     (case (ses, path) of
        (Some _, Some path) \<Rightarrow>
          let ses = \<lparr>ss_src = None, ss_total = 0,
                     ss_block_size = (if block_size \<noteq> 0 then block_size else SVU_SERVE_DEFAULT_BLOCK),
                     ss_stop = False, ss_active = False\<rparr>
          in (case svu_load_file oom path s of
                (None, s) \<Rightarrow> (-1, Some ses, s)
              | (Some (b, n), s) \<Rightarrow>
                  let ses = ses\<lparr>ss_src := Some b, ss_total := n\<rparr>
                  in if ss_total ses = 0 then (-1, Some (ses\<lparr>ss_src := None\<rparr>), s)
                     else if \<not> thread_ok then (-1, Some (ses\<lparr>ss_src := None\<rparr>), s)
                     else (0, Some (ses\<lparr>ss_active := True\<rparr>), s))
      | _ \<Rightarrow> (-1, ses, s))"

definition svu_serve_session_stop :: "svu_serve_session_t option \<Rightarrow> svu_serve_session_t option" where
  "svu_serve_session_stop ses = (case ses of
     None \<Rightarrow> None
   | Some c \<Rightarrow> if \<not> ss_active c then Some c
               else Some (c\<lparr>ss_stop := True, ss_src := None, ss_active := False\<rparr>))"

section \<open>The chunk loop\<close>

text \<open>The pieces \<open>[a, b)\<close> is cut into, as offset and length.\<close>

function pieces :: "nat \<Rightarrow> nat \<Rightarrow> nat \<Rightarrow> (nat \<times> nat) list" where
  "pieces p a b = (if a < b \<and> 0 < p then (a, min p (b - a)) # pieces p (a + p) b else [])"
  by pat_completeness auto
termination
  by (relation "measure (\<lambda>(p, a, b). b - a)") auto

declare pieces.simps [simp del]

lemma pieces_Nil [simp]: "b \<le> a \<Longrightarrow> pieces p a b = []"
  by (subst pieces.simps) simp

lemma pieces_Cons: "a < b \<Longrightarrow> 0 < p \<Longrightarrow> pieces p a b = (a, min p (b - a)) # pieces p (a + p) b"
  by (subst pieces.simps) simp

fun run_pieces :: "(u32 \<Rightarrow> u32 \<Rightarrow> 't \<Rightarrow> bool \<times> 't) \<Rightarrow> (nat \<times> nat) list \<Rightarrow> 't \<Rightarrow> 't" where
  "run_pieces body [] t = t"
| "run_pieces body ((off, len) # ps) t =
     (let (go, t) = body (of_nat off) (of_nat len) t in if go then run_pieces body ps t else t)"

text \<open>Without wrap-around the loop ends, and does what running the pieces in order does.\<close>

lemma chunk_loop_pieces:
  assumes "pay \<noteq> 0" "unat fin + unat pay \<le> 4294967296"
  shows "chunk_loop pay fin body off t = Some (run_pieces body (pieces (unat pay) (unat off) (unat fin)) t)"
proof (induction "unat fin - unat off" arbitrary: off t rule: less_induct)
  case less
  have p: "0 < unat pay" using assms(1) by (simp add: unat_gt_0)
  show ?case
  proof (cases "off < fin")
    case True
    then have lt: "unat off < unat fin" by (simp add: word_less_nat_alt)
    then have add: "unat (off + pay) = unat off + unat pay"
      using assms(2) by (intro unat_add32) simp
    let ?len = "if off + pay \<le> fin then pay else fin - off"
    have len: "?len = of_nat (min (unat pay) (unat fin - unat off))"
      using lt add True
      by (auto simp: word_le_nat_alt min_def word_unat_eq_iff unat_of_nat32 unat_sub32 less_imp_le
          less_trans [OF _ unat_lt32] le_less_trans [OF diff_le_self unat_lt32])
    have ih: "chunk_loop pay fin body (off + pay) t' =
        Some (run_pieces body (pieces (unat pay) (unat off + unat pay) (unat fin)) t')" for t'
      using less [of "off + pay" t'] lt p add by simp
    obtain go t' where b: "body off ?len t = (go, t')" by (cases "body off ?len t")
    show ?thesis
      using True lt p b ih by (subst chunk_loop.simps) (simp add: Let_def pieces_Cons flip: len)
  next
    case False
    then have "unat fin \<le> unat off" by (simp add: word_less_nat_alt)
    then show ?thesis using False by (subst chunk_loop.simps) simp
  qed
qed

lemma pieces_in: "(off, len) \<in> set (pieces p a b) \<Longrightarrow> a \<le> off \<and> 0 < len \<and> len \<le> p \<and> off + len \<le> b"
proof (induction p a b rule: pieces.induct)
  case (1 p a b)
  then show ?case
    by (cases "a < b \<and> 0 < p") (auto simp: pieces_Cons pieces.simps [of p a b] split: if_splits)
qed

lemma pieces_cover:
  assumes "0 < p"
  shows "(\<Union>(off, len) \<in> set (pieces p a b). {off..<off + len}) = {a..<b}"
  using assms
proof (induction p a b rule: pieces.induct)
  case (1 p a b)
  show ?case
  proof (cases "a < b")
    case True
    then have "(\<Union>(off, len) \<in> set (pieces p (a + p) b). {off..<off + len}) = {a + p..<b}"
      using 1 by auto
    moreover have "{a..<a + min p (b - a)} \<union> {a + p..<b} = {a..<b}" using True 1 by auto
    ultimately show ?thesis using True 1(2) by (simp add: pieces_Cons)
  qed simp
qed

section \<open>What is sent\<close>

definition data_pkt :: "u32 \<Rightarrow> bytes \<Rightarrow> nat \<times> nat \<Rightarrow> bytes" where
  "data_pkt session src p = le32 (of_nat (fst p)) @ le32 session @ seg (fst p) (snd p) src"

definition chunk_pkt :: "bytes \<Rightarrow> nat \<times> nat \<Rightarrow> bytes" where
  "chunk_pkt manifest p = le32 (of_nat (fst p)) @ seg (fst p) (snd p) manifest"

lemma csp_pkt_all: "unat len = length d \<Longrightarrow> length d < 65536 \<Longrightarrow> csp_pkt len d = d"
  by (simp add: csp_pkt_def unsigned_ucast_eq take_bit_nat_eq_self)

text \<open>Every packet is a genuine piece, however many buffers can be had; with enough of them all are sent.\<close>

lemma run_blast:
  assumes "length src < 4294967296"
    and "\<forall>(off, len) \<in> set ps. off + len \<le> length src \<and> len + 8 < 65536"
  shows "\<exists>n. tx_data (run_pieces (blast_chunk ok addr session src) ps t) =
      tx_data t @ map (\<lambda>p. (addr, data_pkt session src p)) (take n ps) \<and>
    tx_conn (run_pieces (blast_chunk ok addr session src) ps t) = tx_conn t \<and>
    ((\<forall>i. ok i) \<longrightarrow> length ps \<le> n)"
  using assms(2)
proof (induction ps arbitrary: t)
  case (Cons p ps)
  obtain off len where p: "p = (off, len)" by (cases p)
  have le: "off + len \<le> length src" "len + 8 < 65536" using Cons.prems by (auto simp: p)
  then have u: "unat (of_nat off :: u32) = off" "unat (of_nat len :: u32) = len"
    using assms(1) by (auto intro!: unat_of_nat32)
  have "unat (of_nat SVU_DATA_HDR + of_nat len :: u32) = len + 8"
    using le(2) by (subst unat_add32) (simp_all add: u SVU_DATA_HDR_def)
  then have pk: "csp_pkt (of_nat SVU_DATA_HDR + of_nat len)
      (le32 (of_nat off) @ le32 session @ seg off len src) = data_pkt session src p"
    using le by (subst csp_pkt_all) (auto simp: data_pkt_def p)
  show ?case
  proof (cases "ok (tx_gets t)")
    case True
    let ?t = "t\<lparr>tx_gets := Suc (tx_gets t), tx_data := tx_data t @ [(addr, data_pkt session src p)]\<rparr>"
    obtain n where n: "tx_data (run_pieces (blast_chunk ok addr session src) ps ?t) =
      tx_data ?t @ map (\<lambda>p. (addr, data_pkt session src p)) (take n ps)"
      "tx_conn (run_pieces (blast_chunk ok addr session src) ps ?t) = tx_conn ?t"
      "(\<forall>i. ok i) \<longrightarrow> length ps \<le> n"
      using Cons.IH [of ?t] Cons.prems by auto
    have "run_pieces (blast_chunk ok addr session src) (p # ps) t =
        run_pieces (blast_chunk ok addr session src) ps ?t"
      using True u pk by (simp add: p blast_chunk_def csp_buffer_get_def)
    then show ?thesis using n by (intro exI [of _ "Suc n"]) simp
  next
    case False
    then show ?thesis
      by (intro exI [of _ 0]) (auto simp: p blast_chunk_def csp_buffer_get_def)
  qed
qed simp

lemma run_manifest:
  assumes "length manifest < 4294967296"
    and "\<forall>(off, len) \<in> set ps. off + len \<le> length manifest \<and> len \<le> 200"
  shows "\<exists>n. tx_conn (run_pieces (manifest_chunk ok manifest) ps t) =
      tx_conn t @ map (chunk_pkt manifest) (take n ps) \<and>
    tx_data (run_pieces (manifest_chunk ok manifest) ps t) = tx_data t \<and>
    ((\<forall>i. ok i) \<longrightarrow> length ps \<le> n)"
  using assms(2)
proof (induction ps arbitrary: t)
  case (Cons p ps)
  obtain off len where p: "p = (off, len)" by (cases p)
  have le: "off + len \<le> length manifest" "len \<le> 200" using Cons.prems by (auto simp: p)
  then have u: "unat (of_nat off :: u32) = off" "unat (of_nat len :: u32) = len"
    using assms(1) by (auto intro!: unat_of_nat32)
  have "unat (4 + of_nat len :: u32) = 4 + len"
    using le(2) by (subst unat_add32) (simp_all add: u)
  then have pk: "csp_pkt (4 + of_nat len) (le32 (of_nat off) @ seg off len manifest) = chunk_pkt manifest p"
    using le by (subst csp_pkt_all) (auto simp: chunk_pkt_def p)
  show ?case
  proof (cases "ok (tx_gets t)")
    case True
    let ?t = "t\<lparr>tx_gets := Suc (tx_gets t), tx_conn := tx_conn t @ [chunk_pkt manifest p]\<rparr>"
    obtain n where n: "tx_conn (run_pieces (manifest_chunk ok manifest) ps ?t) =
      tx_conn ?t @ map (chunk_pkt manifest) (take n ps)"
      "tx_data (run_pieces (manifest_chunk ok manifest) ps ?t) = tx_data ?t"
      "(\<forall>i. ok i) \<longrightarrow> length ps \<le> n"
      using Cons.IH [of ?t] Cons.prems by auto
    have "run_pieces (manifest_chunk ok manifest) (p # ps) t = run_pieces (manifest_chunk ok manifest) ps ?t"
      using True u pk by (simp add: p manifest_chunk_def csp_buffer_get_def)
    then show ?thesis using n by (intro exI [of _ "Suc n"]) simp
  next
    case False
    then show ?thesis
      by (intro exI [of _ 0]) (auto simp: p manifest_chunk_def csp_buffer_get_def)
  qed
qed simp

lemma send_manifest_sent:
  assumes "unat nbytes + 200 \<le> 4294967296" "length manifest = unat nbytes"
  shows "\<exists>n t'. send_manifest ok manifest nbytes t = Some t' \<and>
    tx_conn t' = tx_conn t @ map (chunk_pkt manifest) (take n (pieces 200 0 (unat nbytes))) \<and>
    tx_data t' = tx_data t \<and> ((\<forall>i. ok i) \<longrightarrow> length (pieces 200 0 (unat nbytes)) \<le> n)"
proof -
  have "\<forall>(off, len) \<in> set (pieces 200 0 (unat nbytes)). off + len \<le> length manifest \<and> len \<le> 200"
    using assms(2) by (auto dest: pieces_in)
  from run_manifest [OF _ this, of ok t] show ?thesis
    using assms chunk_loop_pieces [of 200 nbytes "manifest_chunk ok manifest" 0 t]
    by (auto simp: send_manifest_def)
qed

lemma blast_interval_sent:
  assumes "unat e + unat (blast_pay mtu) \<le> 4294967296" "unat e \<le> length src" "length src < 4294967296"
    and "unat (blast_pay mtu) + 8 < 65536"
  shows "\<exists>n t'. blast_interval ok addr session mtu src s e t = Some t' \<and>
    tx_data t' = tx_data t @ map (\<lambda>p. (addr, data_pkt session src p))
      (take n (pieces (unat (blast_pay mtu)) (unat s) (unat e))) \<and>
    tx_conn t' = tx_conn t \<and> ((\<forall>i. ok i) \<longrightarrow> length (pieces (unat (blast_pay mtu)) (unat s) (unat e)) \<le> n)"
proof -
  let ?ps = "pieces (unat (blast_pay mtu)) (unat s) (unat e)"
  have p: "blast_pay mtu \<noteq> 0" by (auto simp: blast_pay_def SVU_DATA_HDR_def)
  have "\<forall>(off, len) \<in> set ?ps. off + len \<le> length src \<and> len + 8 < 65536"
    using assms(2,4) by (auto dest!: pieces_in)
  from run_blast [OF assms(3) this, of ok addr session t] show ?thesis
    using chunk_loop_pieces [OF p assms(1), of "blast_chunk ok addr session src" s t]
    by (auto simp: blast_interval_def)
qed

text \<open>The byte ranges a request asks for, clipped to the file, and the pieces they are sent as.\<close>

definition clip :: "u32 \<Rightarrow> svu_wire_interval_t \<Rightarrow> nat \<times> nat" where
  "clip tot w = (unat (wi_start w), min (unat (wi_end w)) (unat tot))"

definition req_ranges :: "svu_req_t \<Rightarrow> u32 \<Rightarrow> (nat \<times> nat) list" where
  "req_ranges r tot = (if rq_nof_intervals r = 0 then [(0, unat tot)]
     else filter (\<lambda>(a, b). a < b) (map (clip tot) (take (unat (rq_nof_intervals r)) (rq_intervals r))))"

definition req_mtu :: "svu_req_t \<Rightarrow> u32" where
  "req_mtu r = (if rq_mtu r > of_nat SVU_DATA_HDR then rq_mtu r else 256)"

definition range_pkts :: "u32 \<Rightarrow> u32 \<Rightarrow> bytes \<Rightarrow> (nat \<times> nat) list \<Rightarrow> bytes list" where
  "range_pkts session mtu src rs =
     concat (map (\<lambda>(a, b). map (data_pkt session src) (pieces (unat (blast_pay mtu)) a b)) rs)"

definition genuine :: "u32 \<Rightarrow> bytes \<Rightarrow> bytes \<Rightarrow> bool" where
  "genuine session src p \<longleftrightarrow> (\<exists>off len. 0 < len \<and> off + len \<le> length src \<and> p = data_pkt session src (off, len))"

lemma pieces_genuine:
  assumes "p \<in> set (pieces k a b)" "b \<le> length src"
  shows "genuine session src (data_pkt session src p)"
proof -
  have "0 < snd p \<and> fst p + snd p \<le> length src" using pieces_in [of "fst p" "snd p" k a b] assms by simp
  then show ?thesis unfolding genuine_def by (metis prod.collapse)
qed

lemma blast_all_sent:
  assumes "unat tot + unat (blast_pay mtu) \<le> 4294967296" "unat tot = length src"
    and "unat (blast_pay mtu) + 8 < 65536"
  shows "\<exists>t' b' new. blast_all ok addr session mtu src tot ws (t, b) = Some (t', b') \<and>
    tx_data t' = tx_data t @ map (Pair addr) new \<and> tx_conn t' = tx_conn t \<and>
    (\<forall>p \<in> set new. genuine session src p) \<and>
    ((\<forall>i. ok i) \<longrightarrow> new = range_pkts session mtu src (filter (\<lambda>(a, b). a < b) (map (clip tot) ws)))"
proof (induction ws arbitrary: t b)
  case Nil
  show ?case by (auto simp: range_pkts_def)
next
  case (Cons w ws)
  define fin where "fin = (if wi_end w > tot then tot else wi_end w)"
  have e: "unat fin = min (unat (wi_end w)) (unat tot)" by (auto simp: fin_def word_less_nat_alt min_def)
  show ?case
  proof (cases "wi_start w < fin")
    case True
    let ?ps = "pieces (unat (blast_pay mtu)) (unat (wi_start w)) (unat fin)"
    have le: "unat fin \<le> unat tot" unfolding e by simp
    have len: "length src < 4294967296" using assms(2) unat_lt32 [of tot] by simp
    have pre: "unat fin + unat (blast_pay mtu) \<le> 4294967296" "unat fin \<le> length src"
      using assms(1,2) le by linarith+
    obtain n t1 where t1: "blast_interval ok addr session mtu src (wi_start w) fin t = Some t1"
      "tx_data t1 = tx_data t @ map (\<lambda>p. (addr, data_pkt session src p)) (take n ?ps)"
      "tx_conn t1 = tx_conn t" "(\<forall>i. ok i) \<longrightarrow> length ?ps \<le> n"
      using blast_interval_sent [OF pre len assms(3), of ok addr session "wi_start w" t] by blast
    obtain t' b' new where t': "blast_all ok addr session mtu src tot ws (t1, b + (fin - wi_start w)) = Some (t', b')"
      "tx_data t' = tx_data t1 @ map (Pair addr) new" "tx_conn t' = tx_conn t1"
      "\<forall>p \<in> set new. genuine session src p"
      "(\<forall>i. ok i) \<longrightarrow> new = range_pkts session mtu src (filter (\<lambda>(a, b). a < b) (map (clip tot) ws))"
      using Cons.IH [of t1 "b + (fin - wi_start w)"] by blast
    have g: "\<forall>p \<in> set (map (data_pkt session src) (take n ?ps)). genuine session src p"
      using pre(2) by (auto dest!: in_set_takeD intro: pieces_genuine)
    have c: "clip tot w = (unat (wi_start w), unat fin)" unfolding e clip_def ..
    have "unat (wi_start w) < unat fin" using True by (simp add: word_less_nat_alt)
    then have "(\<forall>i. ok i) \<longrightarrow> map (data_pkt session src) (take n ?ps) @ new =
        range_pkts session mtu src (filter (\<lambda>(a, b). a < b) (map (clip tot) (w # ws)))"
      using t1(4) t'(5) by (auto simp: c range_pkts_def)
    moreover have "blast_all ok addr session mtu src tot (w # ws) (t, b) = Some (t', b')"
      using True t1(1) t'(1) by (simp add: Let_def flip: fin_def)
    ultimately show ?thesis
      using t1 t' g by (intro exI [of _ t'] exI [of _ b'] exI [of _ "map (data_pkt session src) (take n ?ps) @ new"]) auto
  next
    case False
    then have "\<not> unat (wi_start w) < min (unat (wi_end w)) (unat tot)"
      unfolding e [symmetric] by (simp add: word_less_nat_alt)
    then have "filter (\<lambda>(a, b). a < b) (map (clip tot) (w # ws)) = filter (\<lambda>(a, b). a < b) (map (clip tot) ws)"
      by (simp add: clip_def)
    moreover have "blast_all ok addr session mtu src tot (w # ws) (t, b) = blast_all ok addr session mtu src tot ws (t, b)"
      using False by (simp add: Let_def flip: fin_def)
    ultimately show ?thesis using Cons.IH [of t b] by presburger
  qed
qed

section \<open>Properties\<close>

lemma unat_hash_bytes:
  "unat (n :: u32) * 32 < 4294967296 \<Longrightarrow> unat (n * of_nat CI_SVU_HASH_LEN) = unat n * 32"
  by (simp add: CI_SVU_HASH_LEN_def unat_mult32)

text \<open>The header and the manifest on the connection, then the ranges as data packets.\<close>

lemma reply_sent:
  assumes "length manifest = unat nblocks * 32" "length manifest + 200 \<le> 4294967296"
  obtains t1 where "(if ok (tx_gets t) then send_manifest ok manifest (nblocks * of_nat CI_SVU_HASH_LEN)
      (t\<lparr>tx_gets := Suc (tx_gets t), tx_conn := tx_conn t @ [resp_header ses tot bs nblocks]\<rparr>)
      else Some (t\<lparr>tx_gets := Suc (tx_gets t)\<rparr>)) = Some t1" "tx_data t1 = tx_data t"
    "(\<forall>i. ok i) \<longrightarrow> tx_conn t1 = tx_conn t @ resp_header ses tot bs nblocks # map (chunk_pkt manifest) (pieces 200 0 (length manifest))"
proof (cases "ok (tx_gets t)")
  case True
  let ?h = "resp_header ses tot bs nblocks" and ?t = "t\<lparr>tx_gets := Suc (tx_gets t)\<rparr>"
  have nb: "unat (nblocks * of_nat CI_SVU_HASH_LEN) = length manifest" using assms by (subst unat_hash_bytes) simp_all
  obtain n t1 where "send_manifest ok manifest (nblocks * of_nat CI_SVU_HASH_LEN) (?t\<lparr>tx_conn := tx_conn t @ [?h]\<rparr>) = Some t1"
    "tx_conn t1 = (tx_conn t @ [?h]) @ map (chunk_pkt manifest) (take n (pieces 200 0 (length manifest)))"
    "tx_data t1 = tx_data t" "(\<forall>i. ok i) \<longrightarrow> length (pieces 200 0 (length manifest)) \<le> n"
    using send_manifest_sent [of "nblocks * of_nat CI_SVU_HASH_LEN" manifest ok "?t\<lparr>tx_conn := tx_conn t @ [?h]\<rparr>"] assms(2)
    unfolding nb by auto
  then show ?thesis using True by (intro that [of t1]) simp_all
next
  case False
  then show ?thesis by (intro that [of "t\<lparr>tx_gets := Suc (tx_gets t)\<rparr>"]) auto
qed

lemma ranges_sent:
  assumes "length src = unat tot" "unat tot + unat (blast_pay (req_mtu req)) \<le> 4294967296" "unat (blast_pay (req_mtu req)) + 8 < 65536"
  shows "\<exists>t' b new. (if rq_nof_intervals req = 0 then
        map_option (\<lambda>t. (t, tot)) (blast_interval ok addr ses (req_mtu req) src 0 tot t1)
      else blast_all ok addr ses (req_mtu req) src tot
        (take (unat (rq_nof_intervals req)) (rq_intervals req)) (t1, 0)) = Some (t', b) \<and>
    tx_data t' = tx_data t1 @ map (Pair addr) new \<and> tx_conn t' = tx_conn t1 \<and> (\<forall>p \<in> set new. genuine ses src p) \<and>
    ((\<forall>i. ok i) \<longrightarrow> new = range_pkts ses (req_mtu req) src (req_ranges req tot))"
proof (cases "rq_nof_intervals req = 0")
  case True
  let ?ps = "pieces (unat (blast_pay (req_mtu req))) 0 (unat tot)"
  have len: "length src < 4294967296" using assms(1) unat_lt32 [of tot] by simp
  obtain n t' where t': "blast_interval ok addr ses (req_mtu req) src 0 tot t1 = Some t'"
    "tx_data t' = tx_data t1 @ map (\<lambda>p. (addr, data_pkt ses src p)) (take n ?ps)"
    "tx_conn t' = tx_conn t1" "(\<forall>i. ok i) \<longrightarrow> length ?ps \<le> n"
    using blast_interval_sent [OF assms(2) _ len assms(3), of ok addr ses 0 t1] assms(1) by auto
  have "\<forall>p \<in> set (map (data_pkt ses src) (take n ?ps)). genuine ses src p"
    using assms(1) by (auto dest!: in_set_takeD intro: pieces_genuine)
  then show ?thesis using True t'
    by (intro exI [of _ t'] exI [of _ tot] exI [of _ "map (data_pkt ses src) (take n ?ps)"])
      (auto simp: req_ranges_def range_pkts_def)
next
  case False
  then show ?thesis
    using blast_all_sent [OF assms(2) assms(1) [symmetric] assms(3), of ok addr ses
        "take (unat (rq_nof_intervals req)) (rq_intervals req)" t1 0]
    by (simp add: req_ranges_def)
qed

lemma serve_conn_sends:
  assumes "length src = unat tot" "length manifest = unat nblocks * 32" "length manifest + 200 \<le> 4294967296"
    and "svu_req_decode (Some d) (length d) = Some req"
    and "unat tot + unat (blast_pay (req_mtu req)) \<le> 4294967296" "unat (blast_pay (req_mtu req)) + 8 < 65536"
  shows "\<exists>t' b new. serve_conn ok src tot bs nblocks manifest addr (Some d) t = Some (t', b) \<and>
    tx_data t' = tx_data t @ map (Pair addr) new \<and> (\<forall>p \<in> set new. genuine (rq_session_id req) src p) \<and>
    ((\<forall>i. ok i) \<longrightarrow>
       new = range_pkts (rq_session_id req) (req_mtu req) src (req_ranges req tot) \<and>
       tx_conn t' = tx_conn t @ resp_header (rq_session_id req) tot bs nblocks #
         map (chunk_pkt manifest) (pieces 200 0 (length manifest)))"
proof -
  let ?ses = "rq_session_id req"
  obtain t1 where t1: "(if ok (tx_gets t) then send_manifest ok manifest (nblocks * of_nat CI_SVU_HASH_LEN)
      (t\<lparr>tx_gets := Suc (tx_gets t), tx_conn := tx_conn t @ [resp_header ?ses tot bs nblocks]\<rparr>)
      else Some (t\<lparr>tx_gets := Suc (tx_gets t)\<rparr>)) = Some t1" "tx_data t1 = tx_data t"
    "(\<forall>i. ok i) \<longrightarrow> tx_conn t1 = tx_conn t @ resp_header ?ses tot bs nblocks # map (chunk_pkt manifest) (pieces 200 0 (length manifest))"
    by (rule reply_sent [OF assms(2,3)])
  have "serve_conn ok src tot bs nblocks manifest addr (Some d) t = (if rq_nof_intervals req = 0 then
        map_option (\<lambda>t. (t, tot)) (blast_interval ok addr ?ses (req_mtu req) src 0 tot t1)
      else blast_all ok addr ?ses (req_mtu req) src tot
        (take (unat (rq_nof_intervals req)) (rq_intervals req)) (t1, 0))"
    using t1(1) by (cases "ok (tx_gets t)")
      (simp_all add: serve_conn_def assms(4) Let_def csp_buffer_get_def flip: req_mtu_def)
  with ranges_sent [OF assms(1,5,6), of ok addr ?ses t1] obtain t' b new where
    t': "serve_conn ok src tot bs nblocks manifest addr (Some d) t = Some (t', b)"
    "tx_data t' = tx_data t1 @ map (Pair addr) new" "tx_conn t' = tx_conn t1" "\<forall>p \<in> set new. genuine ?ses src p"
    "(\<forall>i. ok i) \<longrightarrow> new = range_pkts ?ses (req_mtu req) src (req_ranges req tot)"
    by metis
  then show ?thesis using t1(2,3) by (intro exI [of _ t'] exI [of _ b] exI [of _ new]) simp
qed

text \<open>
  C25: answering a meta request. For a file of \<open>tot\<close> bytes whose manifest is at hand, with
  offsets and packet lengths inside their 32 and 16 bits, the handler always finishes; every data
  packet it sends, to the address the connection came from, is a non-empty piece of the file with
  its true offset, however the packet pool behaves; and when buffers are available it sends
  exactly the pieces of the requested ranges, clipped to the file (the whole file when the
  request names none), and on the connection the header followed by every manifest chunk.
\<close>

theorem svu_serve_conn_sends:
  assumes "length src = unat tot" "length manifest = unat nblocks * 32" "length manifest + 200 \<le> 4294967296"
    and "svu_req_decode (Some d) (length d) = Some req"
    and "unat tot + unat (blast_pay (req_mtu req)) \<le> 4294967296" "unat (blast_pay (req_mtu req)) + 8 < 65536"
  shows "\<exists>t' b new. serve_conn ok src tot bs nblocks manifest addr (Some d) t = Some (t', b) \<and>
    tx_data t' = tx_data t @ map (Pair addr) new \<and> (\<forall>p \<in> set new. genuine (rq_session_id req) src p) \<and>
    ((\<forall>i. ok i) \<longrightarrow>
       new = range_pkts (rq_session_id req) (req_mtu req) src (req_ranges req tot) \<and>
       tx_conn t' = tx_conn t @ resp_header (rq_session_id req) tot bs nblocks #
         map (chunk_pkt manifest) (pieces 200 0 (length manifest)))"
  by (rule serve_conn_sends [OF assms])

lemma example_request:
  "svu_req_decode (Some ([0x53, 0x56, 0x55, 0x51, 1, 0, 0, 0, 16, 0, 0, 0] @ replicate 12 0)) 24 =
   Some \<lparr>rq_magic = SVU_MAGIC_REQ, rq_session_id = 1, rq_mtu = 16, rq_block_size = 0,
         rq_nof_intervals = 0, rq_client_addr = 0, rq_intervals = replicate 32 zero_interval\<rparr>"
  by code_simp

theorem svu_serve_conn_sends_witness:
  "\<exists>t' b. serve_conn (\<lambda>_. True) [5, 6, 7] 3 2 2 (replicate 64 7) 9
      (Some ([0x53, 0x56, 0x55, 0x51, 1, 0, 0, 0, 16, 0, 0, 0] @ replicate 12 0))
      \<lparr>tx_gets = 0, tx_conn = [], tx_data = []\<rparr> = Some (t', b) \<and>
    tx_data t' = [(9, le32 0 @ le32 1 @ [5, 6, 7])]"
proof -
  let ?r = "\<lparr>rq_magic = SVU_MAGIC_REQ, rq_session_id = 1, rq_mtu = 16, rq_block_size = 0,
         rq_nof_intervals = 0, rq_client_addr = 0, rq_intervals = replicate 32 zero_interval\<rparr>"
  let ?d = "[0x53, 0x56, 0x55, 0x51, 1, 0, 0, 0, 16, 0, 0, 0] @ replicate 12 0 :: bytes"
  have p: "blast_pay (req_mtu ?r) = 8" by (simp add: blast_pay_def req_mtu_def SVU_DATA_HDR_def)
  have r: "range_pkts 1 (req_mtu ?r) [5, 6, 7] (req_ranges ?r 3) = [le32 0 @ le32 1 @ [5, 6, 7]]"
    unfolding range_pkts_def p by (simp add: req_ranges_def pieces_Cons data_pkt_def seg_def)
  have d: "svu_req_decode (Some ?d) (length ?d) = Some ?r" using example_request by simp
  have len: "length [5, 6, 7 :: u8] = unat (3 :: u32)"
    "length (replicate 64 (7 :: u8)) = unat (2 :: u32) * 32" "length (replicate 64 (7 :: u8)) + 200 \<le> 4294967296"
    "unat (3 :: u32) + unat (blast_pay (req_mtu ?r)) \<le> 4294967296" "unat (blast_pay (req_mtu ?r)) + 8 < 65536"
    by (simp_all add: p)
  show ?thesis
    using svu_serve_conn_sends [OF len(1-3) d len(4,5), of "\<lambda>_. True" 2 9 "\<lparr>tx_gets = 0, tx_conn = [], tx_data = []\<rparr>"] r
    by auto
qed

lemma wrap_step:
  assumes "16 dvd unat (off :: u32)"
  shows "off < 0xFFFFFFFF" "16 dvd unat (off + 16)"
proof -
  obtain k where k: "unat off = 16 * k" using assms by (rule dvdE)
  then have "k < 268435456" using unat_lt32 [of off] by simp
  then show "off < 0xFFFFFFFF" using k by (simp add: word_less_nat_alt)
  have "unat (off + 16) = (unat off + 16) mod 4294967296" by (simp add: unat_word_ariths)
  then show "16 dvd unat (off + 16)" using assms by (simp add: dvd_mod)
qed

definition wraps :: "u32 \<Rightarrow> u32 \<Rightarrow> (u32 \<Rightarrow> u32 \<Rightarrow> 't \<Rightarrow> bool \<times> 't) \<Rightarrow> u32 \<Rightarrow> bool" where
  "wraps pay fin body off \<longleftrightarrow>
     pay = 16 \<and> fin = 0xFFFFFFFF \<and> 16 dvd unat off \<and> (\<forall>off len t. fst (body off len t))"

lemma chunk_loop_wraps:
  assumes "chunk_loop pay fin body off t = Some y"
  shows "\<not> wraps pay fin body off"
proof (rule chunk_loop.raw_induct [OF _ assms, where P = "\<lambda>pay fin body off t y. \<not> wraps pay fin body off"])
  fix loop pay fin and body :: "u32 \<Rightarrow> u32 \<Rightarrow> 'a \<Rightarrow> bool \<times> 'a" and off t y
  assume ih: "\<And>pay fin body off t y. loop pay fin body off t = Some y \<Longrightarrow> \<not> wraps pay fin body off"
    and eq: "(if off < fin then let len = if off + pay \<le> fin then pay else fin - off;
        (go, t) = body off len t in if go then loop pay fin body (off + pay) t else Some t
      else Some t) = Some y"
  show "\<not> wraps pay fin body off"
  proof
    assume a: "wraps pay fin body off"
    then have w: "off < fin" "wraps pay fin body (off + pay)"
      using wrap_step [of off] by (auto simp: wraps_def)
    have "\<exists>t'. loop pay fin body (off + pay) t' = Some y"
      using eq a w(1) by (auto simp: Let_def split_def wraps_def)
    then show False using ih w(2) by blast
  qed
qed

text \<open>
  the offset arithmetic of the blast is 32 bits wide and unguarded: for a file of
  \<open>2^32 - 1\<close> bytes and an mtu of 24 the offset wraps from \<open>2^32 - 16\<close> to 0 instead of
  passing the end, so the blast never returns.
\<close>

theorem blast_interval_wraps: "blast_interval (\<lambda>_. True) addr session 24 src 0 0xFFFFFFFF t = None"
proof (cases "blast_interval (\<lambda>_. True) addr session 24 src 0 0xFFFFFFFF t")
  case (Some y)
  have "fst (blast_chunk (\<lambda>_. True) addr session src off len t)" for off len t
    by (simp add: blast_chunk_def csp_buffer_get_def)
  with chunk_loop_wraps [OF Some [unfolded blast_interval_def]] show ?thesis
    by (simp add: wraps_def blast_pay_def SVU_DATA_HDR_def)
qed

end
