(* ===== verification/Svu_Session.thy ===== *)
theory Svu_Session
  imports Svu_Serve
begin

text \<open>
  The receiving end of a transfer (\<open>satdeploy-agent/svu/svu_session.c\<close>): draining data
  packets into the receiver, the control exchange that fetches header and manifest, and the
  round loop that re-requests what \<open>ci_svu_verify\<close> reports until every block verifies.

  libcsp and whatever is at the other end of the link are a parameter: an environment with a
  state of its own that answers each control exchange (given the request packet sent, if one
  was) and each drain of the data socket (the packets received before the link went idle). So
  the packets can be lost, duplicated, reordered, damaged or invented, and can depend on
  everything sent before. The loop that drains while packets still arrive ends only if the link
  goes quiet, hence \<open>partial_function (option)\<close>. The persistence hooks are functions of
  a caller's context and the operating-system state, as in \<open>svu_client_hooks_t\<close>.
\<close>

section \<open>Definitions\<close>

text \<open>
  One control exchange as the client sees it: whether \<open>csp_connect\<close> and
  \<open>csp_buffer_get\<close> succeed, the packets \<open>csp_read\<close> returns before it times out, and
  whether the two allocations succeed.
\<close>

record ctrl_in =
  ci_conn_ok :: bool
  ci_buf_ok :: bool
  ci_replies :: "bytes list"
  ci_mem_ok :: bool

text \<open>The other end of the link.\<close>

record 'e link =
  lk_ctrl :: "'e \<Rightarrow> bytes \<Rightarrow> ctrl_in \<times> 'e"
  lk_drain :: "'e \<Rightarrow> bytes list \<times> 'e"

record 'c svu_client_hooks =
  hk_restore :: "('c \<Rightarrow> os \<Rightarrow> (bytes \<times> u32) option \<times> 'c \<times> os) option"
  hk_meta :: "(u32 \<Rightarrow> u32 \<Rightarrow> 'c \<Rightarrow> os \<Rightarrow> 'c \<times> os) option"
  hk_data :: "(u32 \<Rightarrow> bytes \<Rightarrow> 'c \<Rightarrow> os \<Rightarrow> 'c \<times> os) option"
  hk_complete :: "('c \<Rightarrow> os \<Rightarrow> 'c \<times> os) option"

text \<open>The receiver, the hooks' context and the operating system while packets are drained.\<close>

record 'c rx_state =
  rx_recv :: "ci_svu option"
  rx_ctx :: 'c
  rx_os :: os

definition data_hook :: "'c svu_client_hooks option \<Rightarrow> u32 \<Rightarrow> bytes \<Rightarrow> 'c \<Rightarrow> os \<Rightarrow> 'c \<times> os" where
  "data_hook hooks off d c s = (case hooks of None \<Rightarrow> (c, s) | Some h \<Rightarrow>
     (case hk_data h of None \<Rightarrow> (c, s) | Some f \<Rightarrow> f off d c s))"

definition drain_packet :: "'c svu_client_hooks option \<Rightarrow> bytes \<Rightarrow> 'c rx_state \<times> u32 \<Rightarrow> 'c rx_state \<times> u32" where
  "drain_packet hooks pkt = (\<lambda>(x, accepted).
     if length pkt > SVU_DATA_HDR then
       let off = svu_get32 pkt 0; d = drop SVU_DATA_HDR pkt
       in (case ci_svu_accept (rx_recv x) off (Some d) of
             (rc, recv) \<Rightarrow>
               if rc = 0 then
                 let (c, s) = data_hook hooks off d (rx_ctx x) (rx_os x)
                 in (x\<lparr>rx_recv := recv, rx_ctx := c, rx_os := s\<rparr>, accepted + 1)
               else (x\<lparr>rx_recv := recv\<rparr>, accepted))
     else (x, accepted))"

definition drain_data :: "'c svu_client_hooks option \<Rightarrow> bytes list \<Rightarrow> 'c rx_state \<Rightarrow> 'c rx_state \<times> u32" where
  "drain_data hooks pkts x = fold (drain_packet hooks) pkts (x, 0)"

text \<open>Manifest assembly: the manifest buffer, the flag per 200-byte stride, the bytes counted.\<close>

record man_state =
  mn_manifest :: bytes
  mn_have :: "bool list"
  mn_got :: u32

definition take_chunk :: "u32 \<Rightarrow> bytes \<Rightarrow> man_state \<Rightarrow> man_state" where
  "take_chunk man_bytes mp m =
     (if length mp > 4 then
        let off = svu_get32 mp 0; len = of_nat (length mp) - 4
        in if off < man_bytes \<and> off mod 200 = 0 \<and> len \<le> man_bytes - off then
             let idx = unat (off div 200)
             in if \<not> mn_have m ! idx then
                  m\<lparr>mn_manifest := blit (unat off) (drop 4 mp) (mn_manifest m),
                    mn_have := (mn_have m)[idx := True], mn_got := mn_got m + len\<rparr>
                else m
           else m
      else m)"

text \<open>Read chunks while bytes are missing; \<open>None\<close> when a read times out first.\<close>

fun read_manifest :: "u32 \<Rightarrow> bytes list \<Rightarrow> man_state \<Rightarrow> man_state option" where
  "read_manifest man_bytes pkts m =
     (if mn_got m < man_bytes then
        (case pkts of [] \<Rightarrow> None | mp # pkts \<Rightarrow> read_manifest man_bytes pkts (take_chunk man_bytes mp m))
      else Some m)"

declare read_manifest.simps [simp del]

record meta =
  mt_total :: u32
  mt_block :: u32
  mt_nblocks :: u32
  mt_manifest :: bytes

text \<open>
  The stack buffer of the request and the \<open>malloc\<close>ed manifest start with arbitrary
  contents; they are modelled as zeroes, and every byte that is used is written first.
\<close>

definition request_bytes :: "svu_req_t \<Rightarrow> bytes" where
  "request_bytes req = (let (n, buf) = svu_req_encode req (replicate 280 0)
     in take (unat (of_nat n :: u16)) buf)"

definition read_reply :: "bool \<Rightarrow> bytes list \<Rightarrow> meta option" where
  "read_reply mem_ok replies =
     (case replies of
        [] \<Rightarrow> None
      | hp # pkts \<Rightarrow>
          if length hp < SVU_RESP_HDR \<or> svu_get32 hp 0 \<noteq> SVU_MAGIC_RESP then None
          else let tot = svu_get32 hp 8; block = svu_get32 hp 12; nblocks = svu_get32 hp 16;
                   man_bytes = nblocks * of_nat CI_SVU_HASH_LEN;
                   nchunks = (man_bytes + 200 - 1) div 200
               in if \<not> mem_ok then None
                  else map_option (\<lambda>m. \<lparr>mt_total = tot, mt_block = block, mt_nblocks = nblocks,
                                        mt_manifest = mn_manifest m\<rparr>)
                         (read_manifest man_bytes pkts
                            \<lparr>mn_manifest = replicate (unat man_bytes) 0,
                             mn_have = replicate (unat nchunks) False, mn_got = 0\<rparr>))"

definition ctrl_exchange :: "'e link \<Rightarrow> svu_req_t \<Rightarrow> 'e \<Rightarrow> meta option \<times> 'e" where
  "ctrl_exchange lk req e =
     (let (i, e) = lk_ctrl lk e (request_bytes req)
      in if \<not> ci_conn_ok i then (None, e)
         else if \<not> ci_buf_ok i then (None, e)
         else (read_reply (ci_mem_ok i) (ci_replies i), e))"

text \<open>Up to eight attempts; every retry asks for the manifest only.\<close>

definition manifest_only :: "svu_req_t \<Rightarrow> svu_req_t" where
  "manifest_only req = req\<lparr>rq_nof_intervals := 1, rq_intervals := (rq_intervals req)[0 := zero_interval]\<rparr>"

fun ctrl_attempts :: "nat \<Rightarrow> 'e link \<Rightarrow> svu_req_t \<Rightarrow> 'e \<Rightarrow> meta option \<times> 'e" where
  "ctrl_attempts 0 lk req e = (None, e)"
| "ctrl_attempts (Suc n) lk req e =
     (case ctrl_exchange lk req e of
        (Some m, e) \<Rightarrow> (Some m, e)
      | (None, e) \<Rightarrow> ctrl_attempts n lk (manifest_only req) e)"

text \<open>The drain-and-verify loop of a round: the verdict, the reported intervals and their count.\<close>

partial_function (option) drain_rounds ::
  "'e link \<Rightarrow> 'c svu_client_hooks option \<Rightarrow> ci_svu_interval_t list \<Rightarrow> 'c rx_state \<Rightarrow> 'e \<Rightarrow>
     (ci_svu_status_t \<times> ci_svu_interval_t list \<times> u32 \<times> 'c rx_state \<times> 'e) option" where
  "drain_rounds lk hooks ivs x e =
     (let (pkts, e) = lk_drain lk e;
          (x, got) = drain_data hooks pkts x;
          (st, out, nout) = ci_svu_verify (rx_recv x) (Some ivs) SVU_MAX_INTERVALS;
          ivs = (case out of Some a \<Rightarrow> a | None \<Rightarrow> ivs)
      in if st = CI_SVU_COMPLETE_VERIFIED \<or> got = 0 then Some (st, ivs, nout, x, e)
         else drain_rounds lk hooks ivs x e)"

definition wire_iv :: "ci_svu_interval_t \<Rightarrow> svu_wire_interval_t" where
  "wire_iv v = \<lparr>wi_start = iv_start v, wi_end = iv_end v\<rparr>"

definition make_req :: "u32 \<Rightarrow> u32 \<Rightarrow> u32 \<Rightarrow> ci_svu_interval_t list \<Rightarrow> svu_req_t" where
  "make_req block_size mtu nreq ivs =
     \<lparr>rq_magic = SVU_MAGIC_REQ, rq_session_id = 1, rq_mtu = mtu, rq_block_size = block_size,
      rq_nof_intervals = nreq, rq_client_addr = 0,
      rq_intervals = map wire_iv (take (unat nreq) ivs) @ replicate (32 - unat nreq) zero_interval\<rparr>"

text \<open>The state of the round loop.\<close>

record ('c, 'e) client =
  cl_rx :: "'c rx_state"
  cl_env :: 'e
  cl_seed :: "(bytes \<times> u32) option"
  cl_total :: u32
  cl_ivs :: "ci_svu_interval_t list"
  cl_nreq :: u32

datatype round_result = Verified | Again | Failed

definition meta_hook :: "'c svu_client_hooks option \<Rightarrow> u32 \<Rightarrow> u32 \<Rightarrow> 'c \<Rightarrow> os \<Rightarrow> 'c \<times> os" where
  "meta_hook hooks tot block c s = (case hooks of None \<Rightarrow> (c, s) | Some h \<Rightarrow>
     (case hk_meta h of None \<Rightarrow> (c, s) | Some f \<Rightarrow> f tot block c s))"

text \<open>
  The first manifest creates the receiver, feeds it a restored buffer of the right length and
  tells the hooks the geometry; later manifests are ignored. \<open>False\<close>: \<open>ci_svu_new\<close> failed.
\<close>

definition setup_recv ::
  "bool \<Rightarrow> 'c svu_client_hooks option \<Rightarrow> meta \<Rightarrow> ('c, 'e) client \<Rightarrow> bool \<times> ('c, 'e) client" where
  "setup_recv oom hooks m cl =
     (case rx_recv (cl_rx cl) of
        Some _ \<Rightarrow> (True, cl)
      | None \<Rightarrow>
          (case ci_svu_new oom (mt_total m) (mt_block m) (Some (mt_manifest m)) (mt_nblocks m) of
             None \<Rightarrow> (False, cl\<lparr>cl_total := mt_total m\<rparr>)
           | Some r \<Rightarrow>
               let r = (case cl_seed cl of
                          Some (b, n) \<Rightarrow>
                            if n = mt_total m
                            then snd (ci_svu_accept (Some r) 0 (Some (take (unat (mt_total m)) b)))
                            else Some r
                        | None \<Rightarrow> Some r);
                   (c, s) = meta_hook hooks (mt_total m) (mt_block m) (rx_ctx (cl_rx cl)) (rx_os (cl_rx cl))
               in (True, cl\<lparr>cl_total := mt_total m, cl_seed := None,
                            cl_rx := \<lparr>rx_recv = r, rx_ctx = c, rx_os = s\<rparr>\<rparr>)))"

definition client_round ::
  "'e link \<Rightarrow> bool \<Rightarrow> 'c svu_client_hooks option \<Rightarrow> u32 \<Rightarrow> u32 \<Rightarrow> ('c, 'e) client \<Rightarrow>
     (round_result \<times> ('c, 'e) client) option" where
  "client_round lk oom hooks block_size mtu cl =
     (case ctrl_attempts 8 lk (make_req block_size mtu (cl_nreq cl) (cl_ivs cl)) (cl_env cl) of
        (None, e) \<Rightarrow> Some (Failed, cl\<lparr>cl_env := e\<rparr>)
      | (Some m, e) \<Rightarrow>
          (case setup_recv oom hooks m (cl\<lparr>cl_env := e\<rparr>) of
             (False, cl) \<Rightarrow> Some (Failed, cl)
           | (True, cl) \<Rightarrow>
               (case drain_rounds lk hooks (cl_ivs cl) (cl_rx cl) (cl_env cl) of
                  None \<Rightarrow> None
                | Some (st, ivs, nout, x, e) \<Rightarrow>
                    let cl = cl\<lparr>cl_rx := x, cl_env := e, cl_ivs := ivs\<rparr>
                    in if st = CI_SVU_COMPLETE_VERIFIED then Some (Verified, cl)
                       else Some (Again, cl\<lparr>cl_nreq :=
                              (if nout < SVU_MAX_INTERVALS then nout else SVU_MAX_INTERVALS)\<rparr>))))"

fun client_rounds ::
  "nat \<Rightarrow> 'e link \<Rightarrow> bool \<Rightarrow> 'c svu_client_hooks option \<Rightarrow> u32 \<Rightarrow> u32 \<Rightarrow> ('c, 'e) client \<Rightarrow>
     (bool \<times> ('c, 'e) client) option" where
  "client_rounds 0 lk oom hooks block_size mtu cl = Some (False, cl)"
| "client_rounds (Suc n) lk oom hooks block_size mtu cl =
     (case client_round lk oom hooks block_size mtu cl of
        None \<Rightarrow> None
      | Some (Verified, cl) \<Rightarrow> Some (True, cl)
      | Some (Failed, cl) \<Rightarrow> Some (False, cl)
      | Some (Again, cl) \<Rightarrow> client_rounds n lk oom hooks block_size mtu cl)"

text \<open>
  The tail of the run: write the buffer out and call the completion hook. The results of
  \<open>fwrite\<close> and \<open>fclose\<close> are not looked at.
\<close>

definition write_out :: "string \<Rightarrow> ('c, 'e) client \<Rightarrow> bool \<times> os" where
  "write_out outfile cl =
     (case fopen_w outfile (rx_os (cl_rx cl)) of
        (False, s) \<Rightarrow> (False, s)
      | (True, s) \<Rightarrow>
          let d = take (unat (cl_total cl)) (case ci_svu_data (rx_recv (cl_rx cl)) of Some d \<Rightarrow> d | None \<Rightarrow> []);
              (_, s) = fwrite outfile d s;
              (_, s) = fclose_w outfile s
          in (True, s))"

definition complete_hook :: "'c svu_client_hooks option \<Rightarrow> 'c \<Rightarrow> os \<Rightarrow> 'c \<times> os" where
  "complete_hook hooks c s = (case hooks of None \<Rightarrow> (c, s) | Some h \<Rightarrow>
     (case hk_complete h of None \<Rightarrow> (c, s) | Some f \<Rightarrow> f c s))"

definition restore_hook :: "'c svu_client_hooks option \<Rightarrow> 'c \<Rightarrow> os \<Rightarrow> (bytes \<times> u32) option \<times> 'c \<times> os" where
  "restore_hook hooks c s = (case hooks of None \<Rightarrow> (None, c, s) | Some h \<Rightarrow>
     (case hk_restore h of None \<Rightarrow> (None, c, s) | Some f \<Rightarrow> f c s))"

definition zero_iv :: ci_svu_interval_t where
  "zero_iv = \<lparr>iv_start = 0, iv_end = 0\<rparr>"

definition svu_client_start :: "'c svu_client_hooks option \<Rightarrow> 'c \<Rightarrow> os \<Rightarrow> 'e \<Rightarrow> ('c, 'e) client" where
  "svu_client_start hooks c s e =
     (let (seed, c, s) = restore_hook hooks c s
      in \<lparr>cl_rx = \<lparr>rx_recv = None, rx_ctx = c, rx_os = s\<rparr>, cl_env = e, cl_seed = seed, cl_total = 0,
          cl_ivs = replicate 32 zero_iv, cl_nreq = (if seed \<noteq> None then 1 else 0)\<rparr>)"

definition svu_client_run_hooked ::
  "'e link \<Rightarrow> bool \<Rightarrow> u32 \<Rightarrow> u32 \<Rightarrow> u32 \<Rightarrow> string \<Rightarrow> 'c svu_client_hooks option \<Rightarrow> 'c \<Rightarrow> os \<Rightarrow> 'e \<Rightarrow>
     (int \<times> 'c \<times> os \<times> 'e) option" where
  "svu_client_run_hooked lk oom block_size mtu max_rounds outfile hooks c s e =
     (case client_rounds (unat max_rounds) lk oom hooks block_size mtu (svu_client_start hooks c s e) of
        None \<Rightarrow> None
      | Some (False, cl) \<Rightarrow> Some (-1, rx_ctx (cl_rx cl), rx_os (cl_rx cl), cl_env cl)
      | Some (True, cl) \<Rightarrow>
          (case write_out outfile cl of
             (False, s) \<Rightarrow> Some (-1, rx_ctx (cl_rx cl), s, cl_env cl)
           | (True, s) \<Rightarrow>
               let (c, s) = complete_hook hooks (rx_ctx (cl_rx cl)) s
               in Some (0, c, s, cl_env cl)))"

definition svu_client_run ::
  "'e link \<Rightarrow> bool \<Rightarrow> u32 \<Rightarrow> u32 \<Rightarrow> u32 \<Rightarrow> string \<Rightarrow> os \<Rightarrow> 'e \<Rightarrow> (int \<times> unit \<times> os \<times> 'e) option" where
  "svu_client_run lk oom block_size mtu max_rounds outfile s e =
     svu_client_run_hooked lk oom block_size mtu max_rounds outfile None () s e"

section \<open>Manifest assembly\<close>

text \<open>
  The state of the assembly of manifest \<open>man\<close>: the strides flagged hold its bytes and the
  counter is the number of bytes in them.
\<close>

definition man_have :: "man_state \<Rightarrow> nat \<Rightarrow> nat set" where
  "man_have m n = {j. j < n \<and> mn_have m ! (j div 200)}"

definition man_ok :: "bytes \<Rightarrow> man_state \<Rightarrow> bool" where
  "man_ok man m \<longleftrightarrow> length (mn_manifest m) = length man \<and> length man \<le> 200 * length (mn_have m) \<and>
     unat (mn_got m) = card (man_have m (length man)) \<and>
     (\<forall>j \<in> man_have m (length man). mn_manifest m ! j = man ! j)"

definition man_piece :: "bytes \<Rightarrow> nat \<times> nat \<Rightarrow> bool" where
  "man_piece man p \<longleftrightarrow> fst p < length man \<and> 200 dvd fst p \<and> snd p = min 200 (length man - fst p)"

lemma pieces_man_piece:
  assumes "p \<in> set (pieces 200 0 (length man))"
  shows "man_piece man p"
proof -
  have "p \<in> set (pieces 200 a (length man)) \<Longrightarrow> 200 dvd a \<Longrightarrow> man_piece man p" for a
  proof (induction "(200 :: nat)" a "length man" rule: pieces.induct)
    case (1 a)
    then show ?case
      by (cases "a < length man") (auto simp: pieces_Cons man_piece_def)
  qed
  then show ?thesis using assms by simp
qed

lemma man_piece_in:
  assumes "200 * i < length man"
  shows "(200 * i, min 200 (length man - 200 * i)) \<in> set (pieces 200 0 (length man))"
proof -
  have "200 * k \<le> 200 * i \<Longrightarrow> (200 * i, min 200 (length man - 200 * i)) \<in> set (pieces 200 (200 * k) (length man))" for k
  proof (induction "i - k" arbitrary: k)
    case 0
    then show ?case using assms by (simp add: pieces_Cons)
  next
    case (Suc x)
    then have "(200 * i, min 200 (length man - 200 * i)) \<in> set (pieces 200 (200 * Suc k) (length man))"
      by (intro Suc.hyps(1)) simp_all
    then show ?case using assms Suc by (simp add: pieces_Cons add.commute)
  qed
  from this [of 0] show ?thesis by simp
qed

lemma svu_get32_le32: "svu_get32 (le32 v @ r) 0 = v"
proof -
  have "svu_get32 (le32 v @ r) 0 = svu_get32 (le32 v) 0" by (simp add: svu_get32_def nth_append)
  then show ?thesis using le32_word [of v] by (simp add: svu_get32_def eval_nat_numeral)
qed

text \<open>Storing a chunk that was missing.\<close>

lemma man_have_store:
  assumes "i < length (mn_have m)" "\<not> mn_have m ! i" "len = min 200 (n - 200 * i)" "200 * i < n"
  shows "man_have (m\<lparr>mn_manifest := x, mn_have := (mn_have m)[i := True], mn_got := g\<rparr>) n = man_have m n \<union> {200 * i..<200 * i + len}"
    "card (man_have m n \<union> {200 * i..<200 * i + len}) = card (man_have m n) + len"
proof -
  have div: "j < n \<Longrightarrow> j div 200 = i \<longleftrightarrow> 200 * i \<le> j \<and> j < 200 * i + len" for j using assms(3) by auto
  have b: "200 * i + len \<le> n" using assms(3,4) by simp
  have "j \<in> man_have (m\<lparr>mn_manifest := x, mn_have := (mn_have m)[i := True], mn_got := g\<rparr>) n \<longleftrightarrow> j \<in> man_have m n \<union> {200 * i..<200 * i + len}" for j
    using div [of j] assms(1) b by (cases "j < n"; cases "j div 200 = i") (auto simp: man_have_def)
  then show "man_have (m\<lparr>mn_manifest := x, mn_have := (mn_have m)[i := True], mn_got := g\<rparr>) n = man_have m n \<union> {200 * i..<200 * i + len}" by blast
  have "j div 200 = i" if "200 * i \<le> j" "j < 200 * i + len" for j using that assms(3) by auto
  then have "man_have m n \<inter> {200 * i..<200 * i + len} = {}" using assms(2) by (fastforce simp: man_have_def)
  moreover have "finite (man_have m n)" by (simp add: man_have_def)
  ultimately show "card (man_have m n \<union> {200 * i..<200 * i + len}) = card (man_have m n) + len" by (subst card_Un_disjoint) auto
qed

lemma man_ok_store:
  assumes "man_ok man m" "200 * i < length man" "len = min 200 (length man - 200 * i)" "length man < 4294967296" "\<not> mn_have m ! i"
  shows "man_ok man (m\<lparr>mn_manifest := blit (200 * i) (seg (200 * i) len man) (mn_manifest m), mn_have := (mn_have m)[i := True],
      mn_got := mn_got m + of_nat len\<rparr>)" (is "man_ok man ?m")
proof -
  let ?d = "seg (200 * i) len man"
  have ih: "i < length (mn_have m)" using assms(1,2) by (auto simp: man_ok_def)
  have d: "length ?d = len" "200 * i + length ?d \<le> length (mn_manifest m)" using assms(1,2,3) by (auto simp: man_ok_def)
  note hv = man_have_store [OF ih assms(5,3,2)]
  have ul: "unat (of_nat len :: u32) = len" using assms(3) by (intro unat_of_nat32) simp
  have "man_have ?m (length man) \<subseteq> {..<length man}" by (auto simp: man_have_def)
  then have "card (man_have ?m (length man)) \<le> length man" by (metis card_lessThan card_mono finite_lessThan)
  then have got: "unat (mn_got ?m) = card (man_have ?m (length man))"
    using assms(1,4) hv by (simp add: man_ok_def unat_add32 ul)
  have "mn_manifest ?m ! j = man ! j" if j: "j \<in> man_have ?m (length man)" for j
  proof -
    have "j < length man" using j by (simp add: man_have_def)
    then show ?thesis using j assms(1) d unfolding hv(1) by (auto simp: man_ok_def nth_blit nth_seg)
  qed
  moreover have "length (mn_manifest ?m) = length man" using assms(1) d by (simp add: man_ok_def)
  ultimately show ?thesis using assms(1) got unfolding man_ok_def by simp
qed

lemma take_chunk_piece:
  assumes "man_ok man m" "man_piece man p" "length man < 4294967296" "length man = unat man_bytes"
  shows "man_ok man (take_chunk man_bytes (chunk_pkt man p) m) \<and>
    mn_have (take_chunk man_bytes (chunk_pkt man p) m) = (mn_have m)[fst p div 200 := True]"
proof -
  obtain i len where p: "p = (200 * i, len)"
    using assms(2) by (cases p) (auto simp: man_piece_def elim!: dvdE)
  have i: "200 * i < length man" and len: "len = min 200 (length man - 200 * i)" "0 < len"
    using assms(2) by (auto simp: man_piece_def p)
  have lle: "len \<le> length man - 200 * i" using len by simp
  let ?off = "of_nat (200 * i) :: u32" and ?mp = "chunk_pkt man p"
  have mp: "length ?mp = 4 + len" "svu_get32 ?mp 0 = ?off" "drop 4 ?mp = seg (200 * i) len man"
    using len by (simp_all add: chunk_pkt_def p svu_get32_le32)
  have u: "unat ?off = 200 * i" using i assms(3) by (intro unat_of_nat32) simp
  have l: "of_nat (length ?mp) - 4 = (of_nat len :: u32)" by (simp add: mp(1))
  have ul: "unat (of_nat len :: u32) = len" using len by (intro unat_of_nat32) simp
  have lt: "?off < man_bytes" using u i assms(4) by (simp add: word_less_nat_alt)
  then have sub: "unat (man_bytes - ?off) = length man - 200 * i"
    using u assms(4) by (simp add: unat_sub32 less_imp_le)
  have mod0: "?off mod 200 = 0" by (simp add: word_unat_eq_iff unat_mod32 u del: of_nat_mult)
  have idx: "unat (?off div 200) = i" by (simp add: unat_div32 u del: of_nat_mult)
  have guard: "?off < man_bytes \<and> ?off mod 200 = 0 \<and> of_nat len \<le> man_bytes - ?off"
    using lt mod0 sub lle by (simp add: word_le_nat_alt ul)
  have ih: "i < length (mn_have m)" using assms(1) i by (auto simp: man_ok_def)
  show ?thesis
  proof (cases "mn_have m ! i")
    case True
    then have "take_chunk man_bytes ?mp m = m" using guard idx mp len by (simp add: take_chunk_def Let_def l)
    moreover have "(mn_have m)[i := True] = mn_have m" using True ih by (metis list_update_id)
    ultimately show ?thesis using assms(1) by (simp add: p)
  next
    case False
    have "take_chunk man_bytes ?mp m = m\<lparr>mn_manifest := blit (200 * i) (seg (200 * i) len man) (mn_manifest m),
        mn_have := (mn_have m)[i := True], mn_got := mn_got m + of_nat len\<rparr>"
      using guard idx mp len False u by (simp add: take_chunk_def Let_def l del: of_nat_mult)
    then show ?thesis using man_ok_store [OF assms(1) i len(1) assms(3) False] by (simp add: p)
  qed
qed

lemma man_complete:
  assumes "man_ok man m" "length man = unat man_bytes" "\<not> mn_got m < man_bytes"
  shows "mn_manifest m = man"
proof -
  have sub: "man_have m (length man) \<subseteq> {..<length man}" by (auto simp: man_have_def)
  have "length man \<le> card (man_have m (length man))"
    using assms by (simp add: man_ok_def word_less_nat_alt)
  then have "man_have m (length man) = {..<length man}"
    using sub by (intro card_subset_eq) (auto intro: antisym card_mono [of "{..<length man}", simplified])
  then show ?thesis using assms(1) by (intro nth_equalityI) (auto simp: man_ok_def)
qed

lemma chunk_pkt_offset:
  assumes "chunk_pkt man q = chunk_pkt man p" "man_piece man p" "man_piece man q" "length man < 4294967296"
  shows "fst q = fst p"
proof -
  have "(of_nat (fst q) :: u32) = of_nat (fst p)"
    using arg_cong [OF assms(1), of "\<lambda>x. svu_get32 x 0"] by (simp add: chunk_pkt_def svu_get32_le32)
  then show ?thesis using assms(2-4) of_nat32_eq [of "fst q" "fst p"] by (simp del: of_nat_mult add: man_piece_def)
qed

text \<open>After a chunk was taken, what is still missing is still to come.\<close>

lemma chunks_to_come:
  assumes "man_ok man m" "man_piece man p" "length man < 4294967296" "mn_have m' = (mn_have m)[fst p div 200 := True]" "200 * i < length man"
    "mn_have m ! i \<or> (\<exists>q. fst q = 200 * i \<and> chunk_pkt man q \<in> set (chunk_pkt man p # pkts) \<and> man_piece man q)"
  shows "mn_have m' ! i \<or> (\<exists>q. fst q = 200 * i \<and> chunk_pkt man q \<in> set pkts \<and> man_piece man q)"
proof (cases "fst p = 200 * i \<or> mn_have m ! i")
  case True
  have "i < length (mn_have m)" using assms(1,5) by (auto simp: man_ok_def)
  then show ?thesis using True by (cases "i = fst p div 200") (auto simp: assms(4))
next
  case False
  then obtain q where q: "fst q = 200 * i" "chunk_pkt man q \<in> set (chunk_pkt man p # pkts)" "man_piece man q" using assms(6) by blast
  have "chunk_pkt man q \<noteq> chunk_pkt man p" using chunk_pkt_offset [OF _ assms(2) q(3) assms(3)] q(1) False by metis
  then have "chunk_pkt man q \<in> set pkts" using q(2) by simp
  then show ?thesis using q(1,3) by blast
qed

lemma read_manifest_pieces:
  assumes "length man < 4294967296" "length man = unat man_bytes"
  shows "man_ok man m \<Longrightarrow> \<forall>mp \<in> set pkts. \<exists>p. man_piece man p \<and> mp = chunk_pkt man p \<Longrightarrow>
    \<forall>i. 200 * i < length man \<longrightarrow> mn_have m ! i \<or> (\<exists>p. fst p = 200 * i \<and> chunk_pkt man p \<in> set pkts \<and> man_piece man p) \<Longrightarrow>
    \<exists>m'. read_manifest man_bytes pkts m = Some m' \<and> mn_manifest m' = man"
proof (induction pkts arbitrary: m)
  case Nil
  have "mn_have m ! (j div 200)" if "j < length man" for j
    using Nil.prems(3) that by (metis div_mult2_eq le_less_trans list.set(1) empty_iff mult.commute div_times_less_eq_dividend)
  then have "man_have m (length man) = {..<length man}" by (auto simp: man_have_def)
  then have "\<not> mn_got m < man_bytes"
    using Nil.prems(1) assms(2) by (simp add: man_ok_def word_less_nat_alt)
  then show ?case using man_complete [OF Nil.prems(1) assms(2)] by (subst read_manifest.simps) simp
next
  case (Cons mp pkts)
  show ?case
  proof (cases "mn_got m < man_bytes")
    case False
    then show ?thesis using man_complete [OF Cons.prems(1) assms(2)] by (subst read_manifest.simps) simp
  next
    case True
    obtain p where p: "man_piece man p" "mp = chunk_pkt man p" using Cons.prems(2) by auto
    let ?m = "take_chunk man_bytes mp m"
    have m: "man_ok man ?m" "mn_have ?m = (mn_have m)[fst p div 200 := True]"
      using take_chunk_piece [OF Cons.prems(1) p(1) assms] p(2) by auto
    have "\<forall>i. 200 * i < length man \<longrightarrow> mn_have ?m ! i \<or>
        (\<exists>p. fst p = 200 * i \<and> chunk_pkt man p \<in> set pkts \<and> man_piece man p)"
      using chunks_to_come [OF Cons.prems(1) p(1) assms(1) m(2)] Cons.prems(3) p(2) by blast
    from Cons.IH [OF m(1) _ this] Cons.prems(2) show ?thesis
      using True by (subst read_manifest.simps) simp
  qed
qed

lemma svu_get32_skip: "svu_get32 (a @ b) (length a + p) = svu_get32 b p"
  by (simp add: svu_get32_def nth_append add.assoc)

lemma svu_get32_at: "n = length a \<Longrightarrow> svu_get32 (a @ le32 v @ r) n = v"
  using svu_get32_skip [of a "le32 v @ r" 0] by (simp add: svu_get32_le32)

lemma header_words:
  "svu_get32 (resp_header ses tot block nblocks) 0 = SVU_MAGIC_RESP"
  "svu_get32 (resp_header ses tot block nblocks) 8 = tot"
  "svu_get32 (resp_header ses tot block nblocks) 12 = block"
  "svu_get32 (resp_header ses tot block nblocks) 16 = nblocks"
  using svu_get32_at [of 8 "le32 SVU_MAGIC_RESP @ le32 ses" tot "le32 block @ le32 nblocks"]
    svu_get32_at [of 12 "le32 SVU_MAGIC_RESP @ le32 ses @ le32 tot" block "le32 nblocks"]
    svu_get32_at [of 16 "le32 SVU_MAGIC_RESP @ le32 ses @ le32 tot @ le32 block" nblocks "[]"]
  by (simp_all add: resp_header_def svu_get32_le32)

lemma read_reply_ok:
  assumes "length man = unat nblocks * 32" "length man + 200 \<le> 4294967296"
    and "\<forall>mp \<in> set pkts. \<exists>p \<in> set (pieces 200 0 (length man)). mp = chunk_pkt man p"
    and "set (map (chunk_pkt man) (pieces 200 0 (length man))) \<subseteq> set pkts"
  shows "read_reply True (resp_header ses tot block nblocks # pkts) =
    Some \<lparr>mt_total = tot, mt_block = block, mt_nblocks = nblocks, mt_manifest = man\<rparr>"
proof -
  let ?h = "resp_header ses tot block nblocks"
  let ?mb = "nblocks * of_nat CI_SVU_HASH_LEN"
  have mb: "unat ?mb = length man" using assms(1,2) by (subst unat_hash_bytes) simp_all
  have nc: "unat ((?mb + 200 - 1) div 200) = (length man + 199) div 200"
  proof -
    have e: "?mb + 200 - 1 = ?mb + 199" by simp
    have u: "unat (?mb + 199) = length man + 199" using assms(2) by (subst unat_add32) (simp_all add: mb)
    show ?thesis unfolding e unat_div32 u by simp
  qed
  let ?m = "\<lparr>mn_manifest = replicate (length man) 0,
     mn_have = replicate ((length man + 199) div 200) False, mn_got = 0\<rparr>"
  have lh: "200 * i < length man \<Longrightarrow> i < (length man + 199) div 200" for i by auto
  have nh: "man_have ?m (length man) = {}"
  proof -
    have "j < length man \<Longrightarrow> j div 200 < (length man + 199) div 200" for j by auto
    then show ?thesis by (auto simp: man_have_def)
  qed
  have ok: "man_ok man ?m" by (simp add: man_ok_def nh)
  have ps: "\<forall>mp \<in> set pkts. \<exists>p. man_piece man p \<and> mp = chunk_pkt man p"
    using assms(3) pieces_man_piece by blast
  have "\<exists>p. fst p = 200 * i \<and> chunk_pkt man p \<in> set pkts \<and> man_piece man p" if "200 * i < length man" for i
    using man_piece_in [OF that] assms(4) pieces_man_piece by force
  then have all: "\<forall>i. 200 * i < length man \<longrightarrow> mn_have ?m ! i \<or>
      (\<exists>p. fst p = 200 * i \<and> chunk_pkt man p \<in> set pkts \<and> man_piece man p)" by blast
  have "length man < 4294967296" using assms(2) by simp
  from read_manifest_pieces [OF this mb [symmetric] ok ps all]
  obtain m' where m': "read_manifest ?mb pkts ?m = Some m'" "mn_manifest m' = man" by blast
  have h: "\<not> length ?h < SVU_RESP_HDR" "svu_get32 ?h 0 = SVU_MAGIC_RESP" "svu_get32 ?h 8 = tot"
    "svu_get32 ?h 12 = block" "svu_get32 ?h 16 = nblocks"
    using header_words [of ses tot block nblocks] by (auto simp: resp_header_def SVU_RESP_HDR_def)
  show ?thesis unfolding read_reply_def Let_def list.case h(2-5) nc mb using h(1) m' by simp
qed

section \<open>Soundness of the transfer\<close>

text \<open>The receiver of a transfer of \<open>src\<close>.\<close>

definition good_recv :: "bytes \<Rightarrow> ci_svu \<Rightarrow> bool" where
  "good_recv src r \<longleftrightarrow> svu_wf r \<and> expects r src"

text \<open>The manifest a control exchange delivered is the one of \<open>src\<close>.\<close>

definition attests :: "meta \<Rightarrow> bytes \<Rightarrow> bool" where
  "attests m src \<longleftrightarrow> length src = unat (mt_total m) \<and>
     unat (mt_nblocks m) * CI_SVU_HASH_LEN \<le> length (mt_manifest m) \<and>
     (\<forall>b < unat (mt_nblocks m). seg (b * CI_SVU_HASH_LEN) CI_SVU_HASH_LEN (mt_manifest m) =
        sha256 (blk (mt_block m) b src))"

text \<open>
  A link whose control channel only ever delivers the manifest of \<open>src\<close>. Nothing is said of
  its data packets.
\<close>

definition honest_ctrl :: "'e link \<Rightarrow> bytes \<Rightarrow> bool" where
  "honest_ctrl lk src \<longleftrightarrow> (\<forall>e q m.
     read_reply (ci_mem_ok (fst (lk_ctrl lk e q))) (ci_replies (fst (lk_ctrl lk e q))) = Some m \<longrightarrow> attests m src)"

lemma good_accept:
  assumes "good_recv src r"
  obtains r' where "snd (ci_svu_accept (Some r) off (Some d)) = Some r'" "good_recv src r'" "same_plan r r'"
  using accept_total [of r src off d] assms unfolding good_recv_def by metis

lemma drain_packet_good:
  assumes "rx_recv x = Some r" "good_recv src r"
  obtains r' where "rx_recv (fst (drain_packet hooks pkt (x, n))) = Some r'" "good_recv src r'" "same_plan r r'"
proof (cases "length pkt > SVU_DATA_HDR")
  case True
  obtain r' where "snd (ci_svu_accept (Some r) (svu_get32 pkt 0) (Some (drop SVU_DATA_HDR pkt))) = Some r'"
    "good_recv src r'" "same_plan r r'"
    by (rule good_accept [OF assms(2)])
  then show thesis using True assms(1) that by (simp add: drain_packet_def Let_def split_def)
next
  case False
  then show thesis using assms that [of r] by (simp add: drain_packet_def same_plan_def)
qed

lemma drain_data_good:
  assumes "rx_recv x = Some r" "good_recv src r"
  shows "\<exists>r'. rx_recv (fst (drain_data hooks pkts x)) = Some r' \<and> good_recv src r' \<and> same_plan r r'"
proof -
  have "rx_recv x = Some r \<Longrightarrow> good_recv src r \<Longrightarrow>
      \<exists>r'. rx_recv (fst (fold (drain_packet hooks) pkts (x, n))) = Some r' \<and> good_recv src r' \<and> same_plan r r'" for n
  proof (induction pkts arbitrary: x r n)
    case (Cons pkt pkts)
    obtain x' n' where x': "drain_packet hooks pkt (x, n) = (x', n')" by force
    obtain r1 where r1: "rx_recv x' = Some r1" "good_recv src r1" "same_plan r r1"
      by (rule drain_packet_good [OF Cons.prems, of hooks pkt n]) (simp add: x')
    from Cons.IH [OF r1(1,2), of n'] show ?case using r1(3) x' by (auto simp: same_plan_def)
  qed (simp add: same_plan_def)
  then show ?thesis using assms by (simp add: drain_data_def)
qed

definition drained :: "bytes \<Rightarrow> 'c rx_state \<Rightarrow> ci_svu_status_t \<Rightarrow> 'c rx_state \<Rightarrow> bool" where
  "drained src x st x' \<longleftrightarrow> (\<forall>r. rx_recv x = Some r \<and> good_recv src r \<longrightarrow>
     (\<exists>r'. rx_recv x' = Some r' \<and> good_recv src r' \<and> same_plan r r' \<and>
        (st = CI_SVU_COMPLETE_VERIFIED \<longrightarrow>
           fst (ci_svu_verify (Some r') None 0) = CI_SVU_COMPLETE_VERIFIED)))"

lemma verified_any_array:
  "svu_wf r \<Longrightarrow> fst (ci_svu_verify (Some r) out mx) = CI_SVU_COMPLETE_VERIFIED \<longleftrightarrow>
     fst (ci_svu_verify (Some r) out' mx') = CI_SVU_COMPLETE_VERIFIED"
  by (simp add: verified_iff)

lemma drain_rounds_drained:
  fixes lk :: "'e link" and hooks :: "'c svu_client_hooks option"
  assumes "drain_rounds lk hooks ivs x e = Some y"
  shows "drained src x (fst y) (fst (snd (snd (snd y))))"
proof (rule drain_rounds.raw_induct [where xa = "((((lk, hooks), ivs), x), e)" and
      P = "\<lambda>lk hooks ivs x e y. drained src x (fst y) (fst (snd (snd (snd y))))",
      unfolded prod.case, OF _ assms])
  fix loop and lk :: "'e link" and hooks :: "'c svu_client_hooks option" and ivs x e y
  assume ih: "\<And>lk hooks ivs x e y. loop lk hooks ivs x e = Some y \<Longrightarrow> drained src x (fst y) (fst (snd (snd (snd y))))"
    and eq: "(let (pkts, e) = lk_drain lk e; (x, got) = drain_data hooks pkts x;
          (st, out, nout) = ci_svu_verify (rx_recv x) (Some ivs) SVU_MAX_INTERVALS;
          ivs = case out of None \<Rightarrow> ivs | Some a \<Rightarrow> a
      in if st = CI_SVU_COMPLETE_VERIFIED \<or> got = 0 then Some (st, ivs, nout, x, e) else loop lk hooks ivs x e) = Some y"
  obtain pkts e1 where d: "lk_drain lk e = (pkts, e1)" by force
  obtain x1 got where x1: "drain_data hooks pkts x = (x1, got)" by force
  obtain st out nout where v: "ci_svu_verify (rx_recv x1) (Some ivs) SVU_MAX_INTERVALS = (st, out, nout)"
    by (metis prod.collapse)
  show "drained src x (fst y) (fst (snd (snd (snd y))))"
    unfolding drained_def
  proof (intro allI impI, elim conjE)
    fix r assume r: "rx_recv x = Some r" "good_recv src r"
    obtain r1 where r1: "rx_recv x1 = Some r1" "good_recv src r1" "same_plan r r1"
      using drain_data_good [OF r, of hooks pkts] x1 by auto
    show "\<exists>r'. rx_recv (fst (snd (snd (snd y)))) = Some r' \<and> good_recv src r' \<and> same_plan r r' \<and>
        (fst y = CI_SVU_COMPLETE_VERIFIED \<longrightarrow> fst (ci_svu_verify (Some r') None 0) = CI_SVU_COMPLETE_VERIFIED)"
    proof (cases "st = CI_SVU_COMPLETE_VERIFIED \<or> got = 0")
      case True
      then have y: "y = (st, case out of None \<Rightarrow> ivs | Some a \<Rightarrow> a, nout, x1, e1)"
        using eq by (simp add: d x1 v Let_def)
      have "st = CI_SVU_COMPLETE_VERIFIED \<longrightarrow> fst (ci_svu_verify (Some r1) None 0) = CI_SVU_COMPLETE_VERIFIED"
        using v r1(1,2) verified_any_array [of r1 "Some ivs" SVU_MAX_INTERVALS None 0]
        by (simp add: good_recv_def)
      then show ?thesis using r1 y by simp
    next
      case False
      then have "loop lk hooks (case out of None \<Rightarrow> ivs | Some a \<Rightarrow> a) x1 e1 = Some y"
        using eq by (simp add: d x1 v Let_def)
      from ih [OF this] r1 show ?thesis by (auto simp: drained_def same_plan_def)
    qed
  qed
qed

definition cl_ok :: "bytes \<Rightarrow> ('c, 'e) client \<Rightarrow> bool" where
  "cl_ok src cl \<longleftrightarrow> (\<forall>r. rx_recv (cl_rx cl) = Some r \<longrightarrow> good_recv src r \<and> s_total r = cl_total cl)"

definition cl_verified :: "bytes \<Rightarrow> ('c, 'e) client \<Rightarrow> bool" where
  "cl_verified src cl \<longleftrightarrow> (\<exists>r. rx_recv (cl_rx cl) = Some r \<and> good_recv src r \<and> s_total r = cl_total cl \<and>
     fst (ci_svu_verify (Some r) None 0) = CI_SVU_COMPLETE_VERIFIED)"

lemma ctrl_exchange_attests:
  "honest_ctrl lk src \<Longrightarrow> ctrl_exchange lk req e = (Some m, e') \<Longrightarrow> attests m src"
  by (auto simp: honest_ctrl_def ctrl_exchange_def split_def Let_def split: if_splits)

lemma ctrl_attempts_attests:
  "honest_ctrl lk src \<Longrightarrow> ctrl_attempts n lk req e = (Some m, e') \<Longrightarrow> attests m src"
proof (induction n arbitrary: req e)
  case (Suc n)
  then show ?case
    by (cases "ctrl_exchange lk req e"; cases "fst (ctrl_exchange lk req e)")
      (auto dest: ctrl_exchange_attests)
qed simp

lemma new_good:
  assumes "attests m src" "ci_svu_new oom (mt_total m) (mt_block m) (Some (mt_manifest m)) (mt_nblocks m) = Some r"
  shows "good_recv src r" "s_total r = mt_total m"
proof -
  have l: "unat (mt_nblocks m) * CI_SVU_HASH_LEN \<le> length (mt_manifest m)" using assms(1) by (simp add: attests_def)
  note n = new_ok [OF assms(2) l]
  show "s_total r = mt_total m" by (rule n)
  have "seg (b * CI_SVU_HASH_LEN) CI_SVU_HASH_LEN (take (unat (mt_nblocks m) * CI_SVU_HASH_LEN) (mt_manifest m)) =
      seg (b * CI_SVU_HASH_LEN) CI_SVU_HASH_LEN (mt_manifest m)" if "b < unat (mt_nblocks m)" for b
    using that by (simp add: seg_def take_drop min_absorb1 add.commute [of 32] CI_SVU_HASH_LEN_def)
  then show "good_recv src r" using n assms(1) by (simp add: good_recv_def expects_def attests_def)
qed

lemma setup_recv_ok:
  assumes "attests m src" "cl_ok src cl" "setup_recv oom hooks m cl = (b, cl')"
  shows "cl_ok src cl' \<and> (b \<longrightarrow> rx_recv (cl_rx cl') \<noteq> None)"
proof (cases "rx_recv (cl_rx cl)")
  case (Some r)
  then show ?thesis using assms(2,3) by (auto simp: setup_recv_def)
next
  case None
  show ?thesis
  proof (cases "ci_svu_new oom (mt_total m) (mt_block m) (Some (mt_manifest m)) (mt_nblocks m)")
    case None': None
    then show ?thesis using None assms(3) by (auto simp: setup_recv_def cl_ok_def)
  next
    case (Some r)
    note r = new_good [OF assms(1) Some]
    let ?r = "case cl_seed cl of Some (b, n) \<Rightarrow> if n = mt_total m
        then snd (ci_svu_accept (Some r) 0 (Some (take (unat (mt_total m)) b))) else Some r | None \<Rightarrow> Some r"
    have "\<exists>r'. ?r = Some r' \<and> good_recv src r' \<and> same_plan r r'"
    proof (cases "cl_seed cl")
      case (Some bn)
      obtain r1 where "snd (ci_svu_accept (Some r) 0 (Some (take (unat (mt_total m)) (fst bn)))) = Some r1"
        "good_recv src r1" "same_plan r r1" by (rule good_accept [OF r(1)])
      then show ?thesis using Some r(1) by (cases bn) (auto simp: same_plan_def)
    qed (use r in \<open>auto simp: same_plan_def\<close>)
    then show ?thesis using None Some assms(3) r(2)
      by (auto simp: setup_recv_def cl_ok_def Let_def split_def same_plan_def)
  qed
qed

lemma client_round_ok:
  assumes "honest_ctrl lk src" "cl_ok src cl" "client_round lk oom hooks bs mtu cl = Some (res, cl')"
  shows "cl_ok src cl' \<and> (res = Verified \<longrightarrow> cl_verified src cl')"
proof -
  let ?a = "ctrl_attempts 8 lk (make_req bs mtu (cl_nreq cl) (cl_ivs cl)) (cl_env cl)"
  obtain mo e where a: "?a = (mo, e)" by force
  show ?thesis
  proof (cases mo)
    case None
    then show ?thesis using assms(2,3) a by (auto simp: client_round_def cl_ok_def)
  next
    case (Some m)
    have m: "attests m src" using ctrl_attempts_attests [OF assms(1)] a Some by simp
    obtain b cl1 where s: "setup_recv oom hooks m (cl\<lparr>cl_env := e\<rparr>) = (b, cl1)" by force
    have "cl_ok src (cl\<lparr>cl_env := e\<rparr>)" using assms(2) by (simp add: cl_ok_def)
    note ok = setup_recv_ok [OF m this s]
    show ?thesis
    proof (cases b)
      case False
      then show ?thesis using assms(3) a Some s ok by (auto simp: client_round_def)
    next
      case True
      then obtain r where r: "rx_recv (cl_rx cl1) = Some r" "good_recv src r" "s_total r = cl_total cl1"
        using ok by (auto simp: cl_ok_def)
      obtain y where d: "drain_rounds lk hooks (cl_ivs cl1) (cl_rx cl1) (cl_env cl1) = Some y"
        using assms(3) a Some s True by (auto simp: client_round_def split: option.splits)
      obtain st ivs nout x e1 where y: "y = (st, ivs, nout, x, e1)" by (cases y)
      obtain r' where "rx_recv x = Some r'" "good_recv src r'" "same_plan r r'"
        "st = CI_SVU_COMPLETE_VERIFIED \<longrightarrow> fst (ci_svu_verify (Some r') None 0) = CI_SVU_COMPLETE_VERIFIED"
        using drain_rounds_drained [OF d, of src] r unfolding drained_def y by auto
      then show ?thesis using assms(3) a Some s True d y r(3)
        by (auto simp: client_round_def Let_def cl_ok_def cl_verified_def same_plan_def split: if_splits)
    qed
  qed
qed

lemma client_rounds_ok:
  "honest_ctrl lk src \<Longrightarrow> cl_ok src cl \<Longrightarrow> client_rounds n lk oom hooks bs mtu cl = Some (True, cl') \<Longrightarrow>
    cl_verified src cl'"
proof (induction n arbitrary: cl)
  case (Suc n)
  obtain res cl1 where c: "client_round lk oom hooks bs mtu cl = Some (res, cl1)"
    using Suc.prems(3) by (auto split: option.splits)
  note ok = client_round_ok [OF Suc.prems(1,2) c]
  then show ?case using Suc.prems(3) c Suc.IH [of cl1] Suc.prems(1) by (cases res) auto
qed simp

definition sha256_collision :: "bytes \<Rightarrow> bytes \<Rightarrow> bool" where
  "sha256_collision x y \<longleftrightarrow> x \<noteq> y \<and> sha256 x = sha256 y"

text \<open>
  The bytes \<open>d\<close> written for the file \<open>src\<close>: the file itself, or bytes of the same length, some block of
  which differs from the file's block at the same place and has the same SHA-256.
\<close>

definition delivered :: "bytes \<Rightarrow> bytes \<Rightarrow> bool" where
  "delivered src d \<longleftrightarrow> length d = length src \<and> (d = src \<or> (\<exists>k b. k \<noteq> 0 \<and> sha256_collision (blk k b d) (blk k b src)))"

lemma cl_verified_data:
  assumes "cl_verified src cl"
  obtains r where "rx_recv (cl_rx cl) = Some r" "length (s_data r) = unat (cl_total cl)" "delivered src (s_data r)"
proof -
  obtain r where r: "rx_recv (cl_rx cl) = Some r" "svu_wf r" "expects r src" "s_total r = cl_total cl"
    "fst (ci_svu_verify (Some r) None 0) = CI_SVU_COMPLETE_VERIFIED"
    using assms by (auto simp: cl_verified_def good_recv_def)
  have "\<forall>b < unat (s_nblocks r). sha256 (blk (s_block r) b (s_data r)) = sha256 (blk (s_block r) b src)"
    using verified_iff [OF r(2), of None 0] r(3,5) by (simp add: expects_def CI_SVU_HASH_LEN_def)
  then have "s_data r = src \<or> (\<exists>b. sha256_collision (blk (s_block r) b (s_data r)) (blk (s_block r) b src))"
    using blks_eq [OF r(2), of src] r(3) by (auto simp: expects_def sha256_collision_def)
  moreover have "s_block r \<noteq> 0" "length (s_data r) = length src" "length (s_data r) = unat (s_total r)"
    using r(2,3) by (auto simp: svu_wf_def expects_def ci_svu_nblocks_def)
  ultimately show thesis using that r(1,4) by (auto simp: delivered_def)
qed

lemma run_hooked_verified:
  assumes "honest_ctrl lk src"
    and "svu_client_run_hooked lk oom bs mtu mr out hooks c s e = Some (0, c', s', e')"
  obtains cl s1 where "cl_verified src cl" "write_out out cl = (True, s1)"
    "(c', s') = complete_hook hooks (rx_ctx (cl_rx cl)) s1"
    "client_rounds (unat mr) lk oom hooks bs mtu (svu_client_start hooks c s e) = Some (True, cl)"
proof -
  have "cl_ok src (svu_client_start hooks c s e)"
    by (simp add: cl_ok_def svu_client_start_def split_def Let_def)
  moreover obtain cl s1 where "client_rounds (unat mr) lk oom hooks bs mtu (svu_client_start hooks c s e) = Some (True, cl)"
    "write_out out cl = (True, s1)" "(c', s') = complete_hook hooks (rx_ctx (cl_rx cl)) s1"
    using assms(2) by (auto simp: svu_client_run_hooked_def split: option.splits bool.splits prod.splits)
  ultimately show thesis using client_rounds_ok [OF assms(1)] that by blast
qed

text \<open>What every packet and the setup preserve, the whole run preserves.\<close>

lemma drain_data_inv:
  assumes "\<And>pkt x n. J x \<Longrightarrow> J (fst (drain_packet hooks pkt (x, n)))" "J x"
  shows "J (fst (drain_data hooks pkts x))"
proof -
  have "J (fst xn) \<Longrightarrow> J (fst (fold (drain_packet hooks) pkts xn))" for xn
  proof (induction pkts arbitrary: xn)
    case (Cons pkt pkts)
    have "J (fst (drain_packet hooks pkt xn))" using assms(1) [of "fst xn" pkt "snd xn"] Cons.prems by simp
    then show ?case using Cons.IH by simp
  qed simp
  then show ?thesis using assms(2) by (simp add: drain_data_def)
qed

lemma drain_rounds_inv:
  fixes lk :: "'e link" and hooks :: "'c svu_client_hooks option"
  assumes "drain_rounds lk hooks ivs x e = Some y"
    and step: "\<And>hooks' pkt x n. hooks' = hooks \<Longrightarrow> J x \<Longrightarrow> J (fst (drain_packet hooks' pkt (x, n)))" and "J x"
  shows "J (fst (snd (snd (snd y))))"
proof -
  have "hooks = hooks \<longrightarrow> J x \<longrightarrow> J (fst (snd (snd (snd y))))"
  proof (rule drain_rounds.raw_induct [where xa = "((((lk, hooks), ivs), x), e)" and
        P = "\<lambda>lk hooks' ivs x e y. hooks' = hooks \<longrightarrow> J x \<longrightarrow> J (fst (snd (snd (snd y))))",
        unfolded prod.case, OF _ assms(1)])
    fix loop and lk :: "'e link" and hooks' :: "'c svu_client_hooks option" and ivs x e y
    assume ih: "\<And>lk hooks' ivs x e y. loop lk hooks' ivs x e = Some y \<Longrightarrow> hooks' = hooks \<longrightarrow> J x \<longrightarrow> J (fst (snd (snd (snd y))))"
      and eq: "(let (pkts, e) = lk_drain lk e; (x, got) = drain_data hooks' pkts x;
            (st, out, nout) = ci_svu_verify (rx_recv x) (Some ivs) SVU_MAX_INTERVALS;
            ivs = case out of None \<Rightarrow> ivs | Some a \<Rightarrow> a
        in if st = CI_SVU_COMPLETE_VERIFIED \<or> got = 0 then Some (st, ivs, nout, x, e) else loop lk hooks' ivs x e) = Some y"
    obtain pkts e1 where d: "lk_drain lk e = (pkts, e1)" by force
    obtain x1 got where x1: "drain_data hooks' pkts x = (x1, got)" by force
    obtain st out nout where v: "ci_svu_verify (rx_recv x1) (Some ivs) SVU_MAX_INTERVALS = (st, out, nout)"
      by (metis prod.collapse)
    have eq': "(if st = CI_SVU_COMPLETE_VERIFIED \<or> got = 0
        then Some (st, case out of None \<Rightarrow> ivs | Some a \<Rightarrow> a, nout, x1, e1)
        else loop lk hooks' (case out of None \<Rightarrow> ivs | Some a \<Rightarrow> a) x1 e1) = Some y"
      using eq by (simp add: d x1 v Let_def)
    show "hooks' = hooks \<longrightarrow> J x \<longrightarrow> J (fst (snd (snd (snd y))))"
    proof (intro impI)
      assume h: "hooks' = hooks" "J x"
      then have "J x1" using drain_data_inv [of J hooks' x pkts] step x1 by auto
      then show "J (fst (snd (snd (snd y))))"
        using eq' ih h(1) by (cases "st = CI_SVU_COMPLETE_VERIFIED \<or> got = 0") auto
    qed
  qed
  then show ?thesis using assms(3) by simp
qed

lemma client_round_inv:
  fixes J :: "'c rx_state \<Rightarrow> bool" and cl :: "('c, 'e) client"
  assumes "\<And>pkt x n. J x \<Longrightarrow> J (fst (drain_packet hooks pkt (x, n)))"
    and "\<And>m (cl :: ('c, 'e) client). J (cl_rx cl) \<Longrightarrow> J (cl_rx (snd (setup_recv oom hooks m cl)))"
    and "J (cl_rx cl)" "client_round lk oom hooks bs mtu cl = Some (res, cl')"
  shows "J (cl_rx cl')"
proof -
  obtain mo e where a: "ctrl_attempts 8 lk (make_req bs mtu (cl_nreq cl) (cl_ivs cl)) (cl_env cl) = (mo, e)" by force
  show ?thesis
  proof (cases mo)
    case None
    then show ?thesis using assms(3,4) a by (auto simp: client_round_def)
  next
    case (Some m)
    obtain b cl1 where s: "setup_recv oom hooks m (cl\<lparr>cl_env := e\<rparr>) = (b, cl1)" by force
    have J1: "J (cl_rx cl1)" using assms(2) [of "cl\<lparr>cl_env := e\<rparr>" m] assms(3) s by simp
    show ?thesis
    proof (cases b)
      case True
      then obtain y where d: "drain_rounds lk hooks (cl_ivs cl1) (cl_rx cl1) (cl_env cl1) = Some y"
        using assms(4) a Some s by (auto simp: client_round_def split: option.splits)
      have "J (fst (snd (snd (snd y))))" using drain_rounds_inv [OF d, of J] assms(1) J1 by blast
      then show ?thesis using assms(4) a Some s True d
        by (auto simp: client_round_def Let_def split: if_splits prod.splits)
    qed (use J1 assms(4) a Some s in \<open>auto simp: client_round_def\<close>)
  qed
qed

lemma client_rounds_inv:
  fixes J :: "'c rx_state \<Rightarrow> bool" and cl :: "('c, 'e) client"
  assumes "\<And>pkt x n. J x \<Longrightarrow> J (fst (drain_packet hooks pkt (x, n)))"
    and "\<And>m (cl :: ('c, 'e) client). J (cl_rx cl) \<Longrightarrow> J (cl_rx (snd (setup_recv oom hooks m cl)))"
  shows "J (cl_rx cl) \<Longrightarrow> client_rounds n lk oom hooks bs mtu cl = Some (b, cl') \<Longrightarrow> J (cl_rx cl')"
proof (induction n arbitrary: cl)
  case (Suc n)
  obtain res cl1 where c: "client_round lk oom hooks bs mtu cl = Some (res, cl1)"
    using Suc.prems(2) by (auto split: option.splits)
  have "J (cl_rx cl1)" using client_round_inv [of J hooks oom, OF assms Suc.prems(1) c] by blast
  then show ?case using Suc.prems(2) c Suc.IH [of cl1] by (cases res) auto
qed simp

section \<open>A transfer over a link that loses nothing\<close>

definition frag :: "bytes \<Rightarrow> u32 \<times> bytes" where
  "frag p = (svu_get32 p 0, drop SVU_DATA_HDR p)"

lemma drain_packet_recv:
  "rx_recv (fst (drain_packet hooks p (x, n))) =
     (if length p > SVU_DATA_HDR then snd (ci_svu_accept (rx_recv x) (fst (frag p)) (Some (snd (frag p)))) else rx_recv x)"
  by (simp add: drain_packet_def frag_def Let_def split_def)

lemma drain_data_recv:
  "rx_recv (fst (drain_data hooks pkts x)) =
     deliver (map frag (filter (\<lambda>p. length p > SVU_DATA_HDR) pkts)) (rx_recv x)"
proof -
  have "rx_recv (fst (fold (drain_packet hooks) pkts (x, n))) =
      deliver (map frag (filter (\<lambda>p. length p > SVU_DATA_HDR) pkts)) (rx_recv x)" for n
  proof (induction pkts arbitrary: x n)
    case (Cons p pkts)
    obtain x' n' where x': "drain_packet hooks p (x, n) = (x', n')" by force
    have "rx_recv x' = (if length p > SVU_DATA_HDR
        then snd (ci_svu_accept (rx_recv x) (fst (frag p)) (Some (snd (frag p)))) else rx_recv x)"
      using drain_packet_recv [of hooks p x n] x' by simp
    then show ?case using Cons.IH [of x' n'] x' by (simp add: deliver_def split_def)
  qed (simp add: deliver_def)
  then show ?thesis by (simp add: drain_data_def)
qed

lemma data_pkt_frag:
  assumes "0 < len" "off + len \<le> length src"
  shows "length (data_pkt ses src (off, len)) > SVU_DATA_HDR"
    "frag (data_pkt ses src (off, len)) = (of_nat off, seg off len src)"
  using assms by (simp_all add: data_pkt_def frag_def SVU_DATA_HDR_def svu_get32_le32)

text \<open>
  The ground's server at the other end of a link that delivers everything: the environment is the
  list of data packets sent and not yet drained.
\<close>

definition server_link :: "bytes \<Rightarrow> u32 \<Rightarrow> u32 \<Rightarrow> u16 \<Rightarrow> bytes list link" where
  "server_link src tot bs addr =
     (let nb = ci_svu_nblocks tot bs;
          man = the (snd (ci_svu_manifest (Some src) tot bs (Some (replicate (unat nb * CI_SVU_HASH_LEN) 0))))
      in \<lparr>lk_ctrl = (\<lambda>e q. case serve_conn (\<lambda>_. True) src tot bs nb man addr (Some q)
                                  \<lparr>tx_gets = 0, tx_conn = [], tx_data = []\<rparr> of
             Some (t, _) \<Rightarrow> (\<lparr>ci_conn_ok = True, ci_buf_ok = True, ci_replies = tx_conn t, ci_mem_ok = True\<rparr>,
                             e @ map snd (tx_data t))
           | None \<Rightarrow> (\<lparr>ci_conn_ok = False, ci_buf_ok = False, ci_replies = [], ci_mem_ok = True\<rparr>, e)),
          lk_drain = (\<lambda>e. (e, []))\<rparr>)"

text \<open>The conditions under which sizes and lengths fit their fields.\<close>

definition transfer_fits :: "bytes \<Rightarrow> u32 \<Rightarrow> u32 \<Rightarrow> u32 \<Rightarrow> bool" where
  "transfer_fits src tot bs mtu \<longleftrightarrow> length src = unat tot \<and> ci_svu_nblocks tot bs \<noteq> 0 \<and>
     unat (ci_svu_nblocks tot bs) * 32 + 200 \<le> 2 ^ 32 \<and> 8 < unat mtu \<and> unat mtu < 65536 \<and>
     unat tot + unat mtu \<le> 2 ^ 32"

lemma server_manifest:
  assumes "transfer_fits src tot bs mtu"
  obtains man where "ci_svu_manifest (Some src) tot bs (Some (replicate (unat (ci_svu_nblocks tot bs) * CI_SVU_HASH_LEN) 0)) =
      (ci_svu_nblocks tot bs, Some man)"
    "length man = unat (ci_svu_nblocks tot bs) * 32"
    "attests \<lparr>mt_total = tot, mt_block = bs, mt_nblocks = ci_svu_nblocks tot bs, mt_manifest = man\<rparr> src"
proof -
  obtain man where m: "ci_svu_manifest (Some src) tot bs (Some (replicate (unat (ci_svu_nblocks tot bs) * CI_SVU_HASH_LEN) 0)) =
      (ci_svu_nblocks tot bs, Some man)" "length man = unat (ci_svu_nblocks tot bs) * 32"
    "\<And>b. b < unat (ci_svu_nblocks tot bs) \<Longrightarrow> seg (b * CI_SVU_HASH_LEN) CI_SVU_HASH_LEN man = sha256 (blk bs b src)"
    using manifest_digests [of src tot bs "replicate (unat (ci_svu_nblocks tot bs) * CI_SVU_HASH_LEN) 0"] assms
    by (auto simp: transfer_fits_def CI_SVU_HASH_LEN_def)
  then show thesis using assms by (intro that) (auto simp: attests_def transfer_fits_def CI_SVU_HASH_LEN_def)
qed

lemma first_request:
  "svu_req_decode (Some (request_bytes (make_req bs mtu 0 ivs))) (length (request_bytes (make_req bs mtu 0 ivs))) =
     Some (make_req bs mtu 0 ivs)"
proof -
  let ?r = "make_req bs mtu 0 ivs"
  obtain k pkt where e: "svu_req_encode ?r (replicate 280 0) = (k, pkt)" by force
  have wf: "svu_req_wf ?r" "rq_magic ?r = SVU_MAGIC_REQ" "sent_intervals ?r = 0"
    by (simp_all add: svu_req_wf_def make_req_def svu_consts sent_intervals_def)
  note rt = req_roundtrip [OF wf(1,2) _ e]
  have k: "k = 24" using rt wf(3) by simp
  have "280 \<le> length pkt" using encode_length [OF _ e] by simp
  then have "length (take k pkt) = k" using k by simp
  moreover have "request_bytes ?r = take k pkt" by (simp add: request_bytes_def e k)
  ultimately show ?thesis using rt wf(3) k by (simp add: make_req_def)
qed

lemma make_req_fields [simp]:
  "rq_session_id (make_req bs mtu n ivs) = 1" "rq_mtu (make_req bs mtu n ivs) = mtu"
  "rq_nof_intervals (make_req bs mtu n ivs) = n"
  by (simp_all add: make_req_def)

lemma fits_mtu:
  assumes "transfer_fits src tot bs mtu"
  shows "req_mtu (make_req bs' mtu n ivs) = mtu" "unat (blast_pay mtu) = unat mtu - 8" "blast_pay mtu \<noteq> 0"
proof -
  have m: "(8 :: u32) < mtu" using assms by (simp add: transfer_fits_def word_less_nat_alt)
  show "req_mtu (make_req bs' mtu n ivs) = mtu" using m by (simp add: req_mtu_def SVU_DATA_HDR_def)
  show u: "unat (blast_pay mtu) = unat mtu - 8"
    using m by (simp add: blast_pay_def SVU_DATA_HDR_def unat_sub32 less_imp_le)
  have "unat (blast_pay mtu) \<noteq> 0" using u assms by (simp add: transfer_fits_def)
  then show "blast_pay mtu \<noteq> 0" by auto
qed

lemma server_first_round:
  assumes "transfer_fits src tot bs mtu"
    and "length man = unat (ci_svu_nblocks tot bs) * 32"
    and "ci_svu_manifest (Some src) tot bs (Some (replicate (unat (ci_svu_nblocks tot bs) * CI_SVU_HASH_LEN) 0)) =
      (ci_svu_nblocks tot bs, Some man)"
  shows "ctrl_exchange (server_link src tot bs addr) (make_req bs' mtu 0 ivs) [] =
    (Some \<lparr>mt_total = tot, mt_block = bs, mt_nblocks = ci_svu_nblocks tot bs, mt_manifest = man\<rparr>,
     map (data_pkt 1 src) (pieces (unat (blast_pay mtu)) 0 (unat tot)))"
proof -
  let ?req = "make_req bs' mtu 0 ivs" let ?nb = "ci_svu_nblocks tot bs"
  let ?q = "request_bytes ?req"
  note fit = assms(1) [unfolded transfer_fits_def]
  have pre: "length src = unat tot" "length man + 200 \<le> 4294967296"
    "unat tot + unat (blast_pay (req_mtu ?req)) \<le> 4294967296" "unat (blast_pay (req_mtu ?req)) + 8 < 65536"
    using fit assms(2) fits_mtu [OF assms(1)] by auto
  obtain t b new where t: "serve_conn (\<lambda>_. True) src tot bs ?nb man addr (Some ?q) \<lparr>tx_gets = 0, tx_conn = [], tx_data = []\<rparr> = Some (t, b)"
    "tx_data t = map (Pair addr) new" "new = range_pkts 1 mtu src (req_ranges ?req tot)"
    "tx_conn t = resp_header 1 tot bs ?nb # map (chunk_pkt man) (pieces 200 0 (length man))"
    using serve_conn_sends [OF pre(1) assms(2) pre(2) first_request pre(3,4), of "\<lambda>_. True" bs addr
        "\<lparr>tx_gets = 0, tx_conn = [], tx_data = []\<rparr>"] fits_mtu(1) [OF assms(1)]
    by auto
  have "new = map (data_pkt 1 src) (pieces (unat (blast_pay mtu)) 0 (unat tot))"
    unfolding t(3) by (simp add: range_pkts_def req_ranges_def)
  moreover have "read_reply True (tx_conn t) =
      Some \<lparr>mt_total = tot, mt_block = bs, mt_nblocks = ?nb, mt_manifest = man\<rparr>"
    unfolding t(4) by (rule read_reply_ok [OF assms(2) pre(2)]) auto
  ultimately show ?thesis
    using t(1,2) assms(3) by (simp add: ctrl_exchange_def server_link_def Let_def comp_def)
qed

lemma server_packets_deliver:
  assumes "transfer_fits src tot bs mtu" "svu_wf r" "expects r src" "cov_set r = {}" "s_total r = tot"
  shows "\<exists>r'. rx_recv (fst (drain_data hooks (map (data_pkt 1 src) (pieces (unat (blast_pay mtu)) 0 (unat tot)))
      (x\<lparr>rx_recv := Some r\<rparr>))) = Some r' \<and> s_data r' = src \<and> s_total r' = tot \<and>
    (\<forall>out mx. fst (ci_svu_verify (Some r') out mx) = CI_SVU_COMPLETE_VERIFIED)"
proof -
  let ?ps = "pieces (unat (blast_pay mtu)) 0 (unat tot)"
  let ?fr = "map (\<lambda>p. (of_nat (fst p) :: u32, seg (fst p) (snd p) src)) ?ps"
  have len: "length src = unat tot" "length src < 4294967296"
    using assms(1) unat_lt32 [of tot] by (auto simp: transfer_fits_def)
  have in_ps: "0 < snd p \<and> fst p + snd p \<le> length src" if "p \<in> set ?ps" for p
    using pieces_in [of "fst p" "snd p"] that len(1) by simp
  have f1: "filter (\<lambda>p. length p > SVU_DATA_HDR) (map (data_pkt 1 src) ?ps) = map (data_pkt 1 src) ?ps"
    using in_ps data_pkt_frag(1) by (auto intro!: filter_True)
  have f2: "map frag (map (data_pkt 1 src) ?ps) = ?fr"
    using in_ps data_pkt_frag(2) by (auto simp: comp_def)
  have rec: "rx_recv (fst (drain_data hooks (map (data_pkt 1 src) ?ps) (x\<lparr>rx_recv := Some r\<rparr>))) =
      deliver ?fr (Some r)"
    unfolding drain_data_recv f1 f2 by simp
  have u: "unat (of_nat (fst p) :: u32) = fst p" if "p \<in> set ?ps" for p
    using in_ps [OF that] len(2) by (intro unat_of_nat32) simp
  have sl: "length (seg (fst p) (snd p) src) = snd p" if "p \<in> set ?ps" for p
    using in_ps [OF that] by auto
  have "intact src (of_nat (fst p), seg (fst p) (snd p) src)" if "p \<in> set ?ps" for p
    using in_ps [OF that] u [OF that] sl [OF that] by (simp del: length_seg add: intact_def)
  then have it: "\<forall>f \<in> set ?fr. intact src f" by auto
  have "holds_src r src" using assms(4) by (simp add: holds_src_def)
  from deliver_intact [OF assms(2,3) this it] obtain r' where r': "deliver ?fr (Some r) = Some r'" "svu_wf r'"
    "expects r' src" "same_plan r r'" "holds_src r' src"
    "cov_set r' = cov_set r \<union> (\<Union>f \<in> set ?fr. {unat (fst f)..<unat (fst f) + length (snd f)})" by blast
  have "(\<Union>f \<in> set ?fr. {unat (fst f)..<unat (fst f) + length (snd f)}) = (\<Union>(off, len) \<in> set ?ps. {off..<off + len})"
    using u sl by (simp del: length_seg add: split_def)
  also have "\<dots> = {0..<unat tot}"
    using fits_mtu(3) [OF assms(1)] by (intro pieces_cover) (simp add: unat_gt_0)
  finally have "{..<unat (s_total r')} \<subseteq> cov_set r'" using r'(4,6) assms(5) by (auto simp: same_plan_def)
  from intact_verified [OF r'(2,3,5) this] show ?thesis
    using rec r'(1,4) assms(5) by (auto simp: same_plan_def)
qed

lemma drain_none_ctx:
  "rx_os (fst (drain_packet None p (x, n))) = rx_os x" "rx_ctx (fst (drain_packet None p (x, n))) = rx_ctx x"
  by (simp_all add: drain_packet_def Let_def split_def data_hook_def)

lemma drain_data_none: "rx_os (fst (drain_data None pkts x)) = rx_os x" "rx_ctx (fst (drain_data None pkts x)) = rx_ctx x"
  by (rule drain_data_inv [of "\<lambda>y. rx_os y = rx_os x"] drain_data_inv [of "\<lambda>y. rx_ctx y = rx_ctx x"];
      simp add: drain_none_ctx)+

lemma write_out_quiet:
  assumes "script (rx_os (cl_rx cl)) = []" "can_create (rx_os (cl_rx cl)) out" "rx_recv (cl_rx cl) = Some r"
    and "length (s_data r) = unat (cl_total cl)"
  shows "\<exists>s. write_out out cl = (True, s) \<and> contents s out = Some (s_data r) \<and>
    (\<forall>q. q \<noteq> out \<longrightarrow> contents s q = contents (rx_os (cl_rx cl)) q)"
  using assms
  by (auto simp: write_out_def fopen_w_def fwrite_def fclose_w_def fflush_def io_simps Let_def ci_svu_data_def)

lemma write_out_contents:
  assumes "script (rx_os (cl_rx cl)) = []" "write_out out cl = (True, s)" "rx_recv (cl_rx cl) = Some r"
    and "length (s_data r) = unat (cl_total cl)"
  shows "contents s out = Some (s_data r)"
proof -
  have "can_create (rx_os (cl_rx cl)) out"
    using assms(1,2) by (auto simp: write_out_def fopen_w_def io_simps split: if_splits)
  from write_out_quiet [OF assms(1) this assms(3,4)] show ?thesis using assms(2) by auto
qed

lemma start_none: "svu_client_start None c s e = \<lparr>cl_rx = \<lparr>rx_recv = None, rx_ctx = c, rx_os = s\<rparr>,
    cl_env = e, cl_seed = None, cl_total = 0, cl_ivs = replicate 32 zero_iv, cl_nreq = 0\<rparr>"
  by (simp add: svu_client_start_def restore_hook_def)

lemma one_round_rounds:
  assumes "transfer_fits src tot bs mtu" "n \<noteq> 0" "fst (restore_hook hooks c s) = None"
    and "attests \<lparr>mt_total = tot, mt_block = bs, mt_nblocks = ci_svu_nblocks tot bs, mt_manifest = man\<rparr> src"
    and "ctrl_exchange lk (make_req bs' mtu 0 (replicate 32 zero_iv)) e =
      (Some \<lparr>mt_total = tot, mt_block = bs, mt_nblocks = ci_svu_nblocks tot bs, mt_manifest = man\<rparr>, e1)"
    and "lk_drain lk e1 = (map (data_pkt 1 src) (pieces (unat (blast_pay mtu)) 0 (unat tot)), e2)"
  shows "\<exists>cl r. client_rounds n lk False hooks bs' mtu (svu_client_start hooks c s e) = Some (True, cl) \<and>
    rx_recv (cl_rx cl) = Some r \<and> s_data r = src \<and> cl_total cl = tot \<and> cl_env cl = e2"
proof -
  let ?nb = "ci_svu_nblocks tot bs"
  let ?m = "\<lparr>mt_total = tot, mt_block = bs, mt_nblocks = ?nb, mt_manifest = man\<rparr>"
  let ?cl = "svu_client_start hooks c s e"
  let ?pk = "map (data_pkt 1 src) (pieces (unat (blast_pay mtu)) 0 (unat tot))"
  have ce: "ctrl_attempts 8 lk (make_req bs' mtu 0 (replicate 32 zero_iv)) e = (Some ?m, e1)"
    using assms(5) by (simp add: numeral_eq_Suc)
  have c0: "cl_seed ?cl = None" "cl_nreq ?cl = 0" "cl_ivs ?cl = replicate 32 zero_iv" "cl_env ?cl = e" "rx_recv (cl_rx ?cl) = None"
    using assms(3) by (simp_all add: svu_client_start_def Let_def split_def)
  obtain r where r: "ci_svu_new False tot bs (Some man) ?nb = Some r"
    using assms(1) by (auto simp: ci_svu_new_def transfer_fits_def Let_def)
  have r0: "svu_wf r" "expects r src" "cov_set r = {}" "s_total r = tot"
    using new_good [OF assms(4), of False r] new_ok [OF r] r assms(4) by (auto simp: good_recv_def attests_def)
  obtain cl1 where cl1: "setup_recv False hooks ?m (?cl\<lparr>cl_env := e1\<rparr>) = (True, cl1)" "rx_recv (cl_rx cl1) = Some r"
    "cl_total cl1 = tot" "cl_ivs cl1 = replicate 32 zero_iv" "cl_env cl1 = e1"
    using c0 r by (auto simp: setup_recv_def Let_def split_def)
  have eta: "(cl_rx cl1)\<lparr>rx_recv := Some r\<rparr> = cl_rx cl1" using cl1(2) by (simp add: rx_state.equality)
  obtain x got where x: "drain_data hooks ?pk (cl_rx cl1) = (x, got)" by force
  obtain r' where r': "rx_recv x = Some r'" "s_data r' = src"
    "\<And>out mx. fst (ci_svu_verify (Some r') out mx) = CI_SVU_COMPLETE_VERIFIED"
    using server_packets_deliver [OF assms(1) r0, of hooks "cl_rx cl1"] x unfolding eta by auto
  obtain out' nout where v: "ci_svu_verify (rx_recv x) (Some (replicate 32 zero_iv)) SVU_MAX_INTERVALS =
      (CI_SVU_COMPLETE_VERIFIED, out', nout)"
    using r'(3) unfolding r'(1) by (metis prod.collapse)
  have dr: "\<exists>ivs. drain_rounds lk hooks (replicate 32 zero_iv) (cl_rx cl1) e1 = Some (CI_SVU_COMPLETE_VERIFIED, ivs, nout, x, e2)"
    by (subst drain_rounds.simps) (simp add: assms(6) Let_def x v)
  have "\<exists>cl. client_round lk False hooks bs' mtu ?cl = Some (Verified, cl) \<and> cl_rx cl = x \<and> cl_total cl = tot \<and> cl_env cl = e2"
    using dr cl1 by (auto simp: client_round_def c0 ce)
  moreover obtain k where "n = Suc k" using assms(2) by (cases n) auto
  ultimately show ?thesis using r'(1,2) by auto
qed

lemma one_round_run_hooked:
  assumes "transfer_fits src tot bs mtu" "mr \<noteq> 0" "script s = []" "can_create s out"
    and "attests \<lparr>mt_total = tot, mt_block = bs, mt_nblocks = ci_svu_nblocks tot bs, mt_manifest = man\<rparr> src"
    and "ctrl_exchange lk (make_req bs' mtu 0 (replicate 32 zero_iv)) e =
      (Some \<lparr>mt_total = tot, mt_block = bs, mt_nblocks = ci_svu_nblocks tot bs, mt_manifest = man\<rparr>, e1)"
    and "lk_drain lk e1 = (map (data_pkt 1 src) (pieces (unat (blast_pay mtu)) 0 (unat tot)), e2)"
  shows "\<exists>s'. svu_client_run_hooked lk False bs' mtu mr out None c s e = Some (0, c, s', e2) \<and> contents s' out = Some src"
proof -
  have "unat mr \<noteq> 0" using assms(2) by (simp add: unat_eq_zero)
  from one_round_rounds [OF assms(1) this, of None c s man lk bs' e e1 e2] assms(5-7) obtain cl r where
    cl: "client_rounds (unat mr) lk False None bs' mtu (svu_client_start None c s e) = Some (True, cl)"
    "rx_recv (cl_rx cl) = Some r" "s_data r = src" "cl_total cl = tot" "cl_env cl = e2"
    by (auto simp: restore_hook_def)
  have xs: "rx_os (cl_rx cl) = s \<and> rx_ctx (cl_rx cl) = c"
    by (rule client_rounds_inv [of "\<lambda>x. rx_os x = s \<and> rx_ctx x = c" None False, OF _ _ _ cl(1)])
      (auto simp: drain_none_ctx start_none setup_recv_def meta_hook_def Let_def split: option.splits)
  have "length src = unat tot" using assms(1) by (simp add: transfer_fits_def)
  then obtain s' where "write_out out cl = (True, s')" "contents s' out = Some src"
    using write_out_quiet [of cl out r] cl xs assms(3,4) by auto
  then show ?thesis using cl xs by (simp add: svu_client_run_hooked_def complete_hook_def)
qed

lemmas one_round_run = one_round_run_hooked [where c = "()", folded svu_client_run_def]

section \<open>Properties\<close>

text \<open>
  manifest chunks are idempotent. Whatever the order in which the chunks of a manifest arrive
  and however often each is repeated, as long as each arrives once, the control exchange assembles
  exactly the manifest the header announced.
\<close>

theorem svu_manifest_any_order:
  assumes "length man = unat nblocks * 32" "length man + 200 \<le> 4294967296"
    and "set pkts = set (map (chunk_pkt man) (pieces 200 0 (length man)))"
  shows "read_reply True (resp_header ses tot block nblocks # pkts) =
    Some \<lparr>mt_total = tot, mt_block = block, mt_nblocks = nblocks, mt_manifest = man\<rparr>"
  using assms by (intro read_reply_ok) auto

theorem svu_manifest_any_order_witness:
  "read_reply True (resp_header 1 2 2 1 # [chunk_pkt (replicate 32 7) (0, 32), chunk_pkt (replicate 32 7) (0, 32)]) =
    Some \<lparr>mt_total = 2, mt_block = 2, mt_nblocks = 1, mt_manifest = replicate 32 7\<rparr>"
  by (rule svu_manifest_any_order) (simp_all add: pieces_Cons)

text \<open>
  C17: the client never reports success on a wrong file. If the control channel delivers the
  manifest of the ground's file, then whatever happens to the data packets, a run of
  \<open>svu_client_run\<close> that returns 0, with a file system that does not fail, leaves exactly
  that file at the output path, or bytes of the same length in which some block, though different from
  the file's block at its place, has the same SHA-256.
\<close>

theorem svu_client_run_sound:
  assumes "honest_ctrl lk src" "script s = []"
    and "svu_client_run lk oom bs mtu mr out s e = Some (0, u, s', e')"
  shows "\<exists>d. contents s' out = Some d \<and> delivered src d"
proof -
  obtain cl s1 where cl: "cl_verified src cl" "write_out out cl = (True, s1)"
    "(u, s') = complete_hook None (rx_ctx (cl_rx cl)) s1"
    "client_rounds (unat mr) lk oom None bs mtu (svu_client_start None () s e) = Some (True, cl)"
    by (rule run_hooked_verified [OF assms(1) assms(3) [unfolded svu_client_run_def]])
  have os: "rx_os (cl_rx cl) = s"
    by (rule client_rounds_inv [of "\<lambda>x. rx_os x = s" None oom, OF _ _ _ cl(4)])
      (auto simp: drain_none_ctx start_none setup_recv_def meta_hook_def Let_def split: option.splits)
  obtain r where r: "rx_recv (cl_rx cl) = Some r" "length (s_data r) = unat (cl_total cl)" "delivered src (s_data r)"
    by (rule cl_verified_data [OF cl(1)])
  have "s' = s1" using cl(3) by (simp add: complete_hook_def)
  then have "contents s' out = Some (s_data r)"
    using write_out_contents [OF _ cl(2) r(1,2)] os assms(2) by simp
  then show ?thesis using r(3) by auto
qed

text \<open>
  server and client together. Against the ground's server over a link that loses nothing, one
  round is enough: for any file, block size and mtu whose sizes fit their fields and any output
  path that can be created, the run ends, returns 0 and the file at the output path is the
  ground's.
\<close>

theorem svu_transfer_lossless:
  assumes "transfer_fits src tot bs mtu" "mr \<noteq> 0" "script s = []" "can_create s out"
  shows "\<exists>s'. svu_client_run (server_link src tot bs addr) False bs' mtu mr out s [] = Some (0, (), s', []) \<and>
    contents s' out = Some src"
proof -
  obtain man where man: "ci_svu_manifest (Some src) tot bs (Some (replicate (unat (ci_svu_nblocks tot bs) * CI_SVU_HASH_LEN) 0)) =
      (ci_svu_nblocks tot bs, Some man)"
    "length man = unat (ci_svu_nblocks tot bs) * 32"
    "attests \<lparr>mt_total = tot, mt_block = bs, mt_nblocks = ci_svu_nblocks tot bs, mt_manifest = man\<rparr> src"
    by (rule server_manifest [OF assms(1)])
  show ?thesis
    by (rule one_round_run [OF assms man(3) server_first_round [OF assms(1) man(2,1)]])
      (simp add: server_link_def Let_def)
qed

definition tmp_os :: "outcome list \<Rightarrow> os" where
  "tmp_os xs = \<lparr>fs = [], dirs = [''/tmp''], script = xs,
     clock = \<lparr>tm_year = 2026, tm_mon = 1, tm_mday = 2, tm_hour = 3, tm_min = 4, tm_sec = 5\<rparr>, fs_log = []\<rparr>"

lemma tmp_os_create: "can_create (tmp_os xs) ''/tmp/f''" "script (tmp_os xs) = xs"
  by (simp_all add: tmp_os_def can_create_def dir_exists_def dirname_def)

lemma small_fits: "transfer_fits [5] 1 1 16"
  by (simp add: transfer_fits_def nblocks_1_1)

theorem svu_transfer_lossless_witness:
  "\<exists>s'. svu_client_run (server_link [5] 1 1 3) False 4096 16 24 ''/tmp/f'' (tmp_os []) [] = Some (0, (), s', []) \<and>
    contents s' ''/tmp/f'' = Some [5]"
  by (rule svu_transfer_lossless [OF small_fits]) (simp_all add: tmp_os_create)

definition replay_link :: "bytes list \<Rightarrow> bytes list link" where
  "replay_link rs = \<lparr>lk_ctrl = (\<lambda>e q. (\<lparr>ci_conn_ok = True, ci_buf_ok = True, ci_replies = rs, ci_mem_ok = True\<rparr>, e)),
     lk_drain = (\<lambda>e. (e, []))\<rparr>"

theorem svu_client_run_sound_witness:
  "\<exists>rs s'. honest_ctrl (replay_link rs) [5] \<and>
     svu_client_run (replay_link rs) False 4096 16 24 ''/tmp/f'' (tmp_os []) [data_pkt 1 [5] (0, 1)] = Some (0, (), s', []) \<and>
     (\<exists>d. contents s' ''/tmp/f'' = Some d \<and> delivered [5] d)"
proof -
  obtain man where man: "length man = unat (ci_svu_nblocks 1 1) * 32"
    "attests \<lparr>mt_total = 1, mt_block = 1, mt_nblocks = ci_svu_nblocks 1 1, mt_manifest = man\<rparr> [5]"
    by (rule server_manifest [OF small_fits])
  let ?lk = "replay_link (resp_header 1 1 1 (ci_svu_nblocks 1 1) # map (chunk_pkt man) (pieces 200 0 (length man)))"
  have rr: "read_reply True (resp_header 1 1 1 (ci_svu_nblocks 1 1) # map (chunk_pkt man) (pieces 200 0 (length man))) =
      Some \<lparr>mt_total = 1, mt_block = 1, mt_nblocks = ci_svu_nblocks 1 1, mt_manifest = man\<rparr>"
    using man(1) by (intro read_reply_ok) (auto simp: nblocks_1_1)
  then have h: "honest_ctrl ?lk [5]" using man(2) by (simp add: honest_ctrl_def replay_link_def)
  have "unat (blast_pay 16) = 8" by (simp add: blast_pay_def SVU_DATA_HDR_def)
  then have "\<exists>s'. svu_client_run ?lk False 4096 16 24 ''/tmp/f'' (tmp_os []) [data_pkt 1 [5] (0, 1)] = Some (0, (), s', []) \<and>
      contents s' ''/tmp/f'' = Some [5]"
    by (intro one_round_run [OF small_fits _ _ _ man(2)])
      (simp_all add: tmp_os_create ctrl_exchange_def replay_link_def rr pieces_Cons)
  then obtain s' where "svu_client_run ?lk False 4096 16 24 ''/tmp/f'' (tmp_os []) [data_pkt 1 [5] (0, 1)] = Some (0, (), s', [])"
    by blast
  from svu_client_run_sound [OF h _ this] this h show ?thesis by (metis tmp_os_create(2))
qed

text \<open>
  the client does not look at the results of \<open>fwrite\<close> and \<open>fclose\<close>. When
  the write of a verified buffer stops after \<open>k\<close> bytes, the output step still succeeds and
  the file holds only those bytes, so \<open>svu_client_run\<close> reports a verified transfer over a
  truncated file.
\<close>

theorem svu_write_failure_ignored:
  assumes "script (rx_os (cl_rx cl)) = [Good, Fail k]" "can_create (rx_os (cl_rx cl)) out"
    and "rx_recv (cl_rx cl) = Some r" "length (s_data r) = unat (cl_total cl)" "k < length (s_data r)"
  shows "\<exists>s. write_out out cl = (True, s) \<and> contents s out = Some (take k (s_data r))"
  using assms
  by (auto simp: write_out_def fopen_w_def fwrite_def fclose_w_def fflush_def io_simps Let_def ci_svu_data_def min_def)

theorem svu_write_failure_ignored_witness:
  "\<exists>s. write_out ''/tmp/f'' \<lparr>cl_rx = \<lparr>rx_recv = Some svu_fresh, rx_ctx = (), rx_os = tmp_os [Good, Fail 1]\<rparr>,
      cl_env = (), cl_seed = None, cl_total = 3, cl_ivs = [], cl_nreq = 0\<rparr> = (True, s) \<and>
    contents s ''/tmp/f'' = Some [0]"
proof -
  have "take 1 (s_data svu_fresh) = [0]" by (simp add: svu_fresh_def)
  then show ?thesis
    using svu_write_failure_ignored [of "\<lparr>cl_rx = \<lparr>rx_recv = Some svu_fresh, rx_ctx = (), rx_os = tmp_os [Good, Fail 1]\<rparr>,
      cl_env = (), cl_seed = None, cl_total = 3, cl_ivs = [], cl_nreq = 0\<rparr>" 1 "''/tmp/f''" svu_fresh]
    by (simp add: tmp_os_create) (simp add: svu_fresh_def)
qed

end
