(* ===== verification/Backup_Manager.thy ===== *)
theory Backup_Manager
  imports Sha256 Os
begin

text \<open>
  The agent's backup manager (\<open>satdeploy-agent/src/backup_manager.c\<close>): file checksums,
  recursive directory creation, file copies, and the creation, restoration, naming and listing
  of backups. A result 0 or -1 is the C return value; buffers of \<open>n\<close> bytes truncate as
  \<open>snprintf\<close> and \<open>strncpy\<close> do.

  The main results: a checksum that is reported is the SHA-256 of the file whatever calls fail;
  a directory that \<open>mkdir_p\<close> reports exists; a backup holds the bytes of its source and
  its name parses back to its time and hash.
\<close>

section \<open>Text conversions of the C library\<close>

definition bytes_of :: "string \<Rightarrow> bytes" where
  "bytes_of t = map of_char t"

definition string_of :: "bytes \<Rightarrow> string" where
  "string_of b = map (\<lambda>x. char_of (unat x)) b"

definition hex_digit :: "nat \<Rightarrow> char" where
  "hex_digit n = ''0123456789abcdef'' ! n"

text \<open>\<open>snprintf(out, 3, "%02x", b)\<close>\<close>

definition hex_byte :: "u8 \<Rightarrow> string" where
  "hex_byte b = [hex_digit (unat b div 16), hex_digit (unat b mod 16)]"

definition hex_string :: "bytes \<Rightarrow> string" where
  "hex_string d = concat (map hex_byte d)"

definition dec_digit :: "nat \<Rightarrow> char" where
  "dec_digit n = ''0123456789'' ! n"

text \<open>\<open>%0<n>d\<close> of a non-negative number, and of an integer (the sign counts in the width).\<close>

fun dec_digits :: "nat \<Rightarrow> string" where
  "dec_digits k = (if k < 10 then [dec_digit k] else dec_digits (k div 10) @ [dec_digit (k mod 10)])"

declare dec_digits.simps [simp del]

definition pad_left :: "nat \<Rightarrow> string \<Rightarrow> string" where
  "pad_left n t = replicate (n - length t) CHR ''0'' @ t"

definition pad_dec :: "nat \<Rightarrow> nat \<Rightarrow> string" where
  "pad_dec n k = pad_left n (dec_digits k)"

definition pad_int :: "nat \<Rightarrow> int \<Rightarrow> string" where
  "pad_int n i = (if i < 0 then CHR ''-'' # pad_dec (n - 1) (nat (- i)) else pad_dec n (nat i))"

text \<open>\<open>strftime\<close> with \<open>%Y%m%d-%H%M%S\<close>, and the ISO form printed elsewhere.\<close>

definition stamp :: "tm \<Rightarrow> string" where
  "stamp t = pad_dec 4 (tm_year t) @ pad_dec 2 (tm_mon t) @ pad_dec 2 (tm_mday t) @ ''-'' @
     pad_dec 2 (tm_hour t) @ pad_dec 2 (tm_min t) @ pad_dec 2 (tm_sec t)"

definition iso_of :: "int \<Rightarrow> int \<Rightarrow> int \<Rightarrow> int \<Rightarrow> int \<Rightarrow> int \<Rightarrow> string" where
  "iso_of y mo d h mi sec = pad_int 4 y @ ''-'' @ pad_int 2 mo @ ''-'' @ pad_int 2 d @ ''T'' @
     pad_int 2 h @ '':'' @ pad_int 2 mi @ '':'' @ pad_int 2 sec"

definition iso_tm :: "tm \<Rightarrow> string" where
  "iso_tm t = iso_of (int (tm_year t)) (int (tm_mon t)) (int (tm_mday t))
     (int (tm_hour t)) (int (tm_min t)) (int (tm_sec t))"

text \<open>The \<open>sscanf\<close> conversions \<open>%<n>d\<close> and \<open>%<n>s\<close> and a literal character.\<close>

definition is_space :: "char \<Rightarrow> bool" where
  "is_space c \<longleftrightarrow> c = CHR '' '' \<or> (9 \<le> (of_char c :: nat) \<and> (of_char c :: nat) \<le> 13)"

definition is_dec :: "char \<Rightarrow> bool" where
  "is_dec c \<longleftrightarrow> 48 \<le> (of_char c :: nat) \<and> (of_char c :: nat) \<le> 57"

definition dec_value :: "string \<Rightarrow> nat" where
  "dec_value t = foldl (\<lambda>a c. 10 * a + (of_char c - 48)) 0 t"

definition scan_nat :: "nat \<Rightarrow> string \<Rightarrow> (nat \<times> string) option" where
  "scan_nat n t = (let ds = takeWhile is_dec (take n t)
     in if ds = [] then None else Some (dec_value ds, drop (length ds) t))"

definition scan_int :: "nat \<Rightarrow> string \<Rightarrow> (int \<times> string) option" where
  "scan_int n t = (case dropWhile is_space t of
     c # r \<Rightarrow> if c = CHR ''-'' then map_option (\<lambda>(k, r). (- int k, r)) (scan_nat (n - 1) r)
             else if c = CHR ''+'' then map_option (\<lambda>(k, r). (int k, r)) (scan_nat (n - 1) r)
             else map_option (\<lambda>(k, r). (int k, r)) (scan_nat n (c # r))
   | [] \<Rightarrow> None)"

definition scan_char :: "char \<Rightarrow> string \<Rightarrow> string option" where
  "scan_char c t = (case t of [] \<Rightarrow> None | x # r \<Rightarrow> if x = c then Some r else None)"

definition scan_word :: "nat \<Rightarrow> string \<Rightarrow> string option" where
  "scan_word n t = (let w = takeWhile (\<lambda>c. \<not> is_space c) (take n (dropWhile is_space t))
     in if w = [] then None else Some w)"

section \<open>Definitions\<close>

definition BACKUP_DIR :: string where "BACKUP_DIR = ''/opt/satdeploy/backups''"
definition MAX_PATH_LEN :: nat where "MAX_PATH_LEN = 512"
definition MAX_APP_NAME_LEN :: nat where "MAX_APP_NAME_LEN = 64"
definition HASH_HEX_LEN :: nat where "HASH_HEX_LEN = 64"
definition HASH_BUF_LEN :: nat where "HASH_BUF_LEN = 65"

text \<open>The read loop of \<open>compute_file_checksum\<close>: the sticky error flag and the hash state.\<close>

function checksum_loop :: "bytes \<Rightarrow> bool \<Rightarrow> sha256_ctx \<Rightarrow> os \<Rightarrow> bool \<times> sha256_ctx \<times> os" where
  "checksum_loop r err ctx s =
     (case fread 8192 r s of
        (b, r', e, s) \<Rightarrow>
          if b = [] then (err \<or> e, ctx, s)
          else checksum_loop r' (err \<or> e) (sha256_update ctx b) s)"
  by pat_completeness auto

lemma fread_split: "fread n r s = (b, r', e, s') \<Longrightarrow> r = b @ r'"
  by (auto simp: fread_def split: prod.splits outcome.splits)

termination checksum_loop
  by (relation "measure (\<lambda>(r, err, ctx, s). length r)") (auto dest!: fread_split [OF sym])

declare checksum_loop.simps [simp del]

definition sha256_stack :: sha256_ctx where
  "sha256_stack = \<lparr>sha_data = replicate 64 0, sha_datalen = 0, sha_bitlen = 0, sha_state = replicate 8 0\<rparr>"

definition compute_file_checksum :: "string \<Rightarrow> nat \<Rightarrow> os \<Rightarrow> string option \<times> os" where
  "compute_file_checksum path hash_size s =
     (if hash_size < HASH_BUF_LEN then (None, s)
      else case fopen_r path s of
        (None, s) \<Rightarrow> (None, s)
      | (Some d, s) \<Rightarrow>
          (case checksum_loop d False (sha256_init sha256_stack) s of
             (err, ctx, s) \<Rightarrow> if err then (None, s) else (Some (hex_string (sha256_final ctx)), s)))"

text \<open>The directories \<open>mkdir_p\<close> makes: every proper prefix that ends before a slash, then the path.\<close>

definition dir_prefixes :: "string \<Rightarrow> string list" where
  "dir_prefixes t = map (\<lambda>i. take i t) (filter (\<lambda>i. t ! i = CHR ''/'') [1..<length t]) @ [t]"

fun mkdir_all :: "string list \<Rightarrow> os \<Rightarrow> int \<times> os" where
  "mkdir_all [] s = (0, s)"
| "mkdir_all (d # ds) s =
     (case mkdir d s of
        (Mkdir_error, s) \<Rightarrow> (-1, s)
      | (_, s) \<Rightarrow> mkdir_all ds s)"

definition mkdir_p :: "string \<Rightarrow> os \<Rightarrow> int \<times> os" where
  "mkdir_p path s =
     (let tmp = cstr MAX_PATH_LEN path;
          tmp = (if tmp \<noteq> [] \<and> last tmp = CHR ''/'' then butlast tmp else tmp)
      in mkdir_all (dir_prefixes tmp) s)"

function copy_loop :: "bytes \<Rightarrow> string \<Rightarrow> os \<Rightarrow> int \<times> os" where
  "copy_loop r dst s =
     (case fread 8192 r s of
        (b, r', _, s) \<Rightarrow>
          if b = [] then (0, s)
          else (case fwrite dst b s of
                  (n, s) \<Rightarrow> if n \<noteq> length b then (-1, s) else copy_loop r' dst s))"
  by pat_completeness auto
termination copy_loop
  by (relation "measure (\<lambda>(r, dst, s). length r)") (auto dest!: fread_split [OF sym])

declare copy_loop.simps [simp del]

definition copy_file :: "string \<Rightarrow> string \<Rightarrow> os \<Rightarrow> int \<times> os" where
  "copy_file src dst s =
     (case fopen_r src s of
        (None, s) \<Rightarrow> (-1, s)
      | (Some d, s) \<Rightarrow>
          let (_, s) = unlink dst s
          in (case fopen_w dst s of
                (False, s) \<Rightarrow> (-1, s)
              | (True, s) \<Rightarrow>
                  let (result, s) = copy_loop d dst s;
                      (_, s) = fclose_w dst s
                  in if result = 0 then
                       (case stat src s of
                          (Is_reg f, s) \<Rightarrow> (0, snd (chmod dst (f_mode f) s))
                        | (_, s) \<Rightarrow> (0, s))
                     else (result, s)))"

definition backup_dir_of :: "string \<Rightarrow> string" where
  "backup_dir_of app_name = cstr MAX_PATH_LEN (BACKUP_DIR @ ''/'' @ app_name)"

text \<open>
  \<open>out\<close> is the size of the caller's path buffer, 0 for a \<open>NULL\<close> one; the second
  component is what the buffer then holds. The name and the source are strings, so the tests for
  \<open>NULL\<close> arguments have no counterpart; every caller passes both.
\<close>

definition backup_create :: "string \<Rightarrow> string \<Rightarrow> nat \<Rightarrow> os \<Rightarrow> int \<times> string \<times> os" where
  "backup_create app_name src_path out s =
     (case stat src_path s of
        (No_entry, s) \<Rightarrow> (-1, [], s)
      | (_, s) \<Rightarrow>
          (case compute_file_checksum src_path HASH_BUF_LEN s of
             (None, s) \<Rightarrow> (-1, [], s)
           | (Some hash, s) \<Rightarrow>
               let backup_dir = backup_dir_of app_name;
                   (r1, s) = mkdir_p BACKUP_DIR s
               in if r1 \<noteq> 0 then (-1, [], s)
                  else let (r2, s) = mkdir_p backup_dir s
                  in if r2 \<noteq> 0 then (-1, [], s)
                  else let backup_path = cstr MAX_PATH_LEN
                             (backup_dir @ ''/'' @ stamp (clock s) @ ''-'' @ hash @ ''.bak'');
                           (dir, s) = opendir backup_dir s;
                           found = (case dir of None \<Rightarrow> None
                             | Some es \<Rightarrow> find (\<lambda>e. ends_with (''-'' @ hash @ ''.bak'') (fst e)) es)
                       in (case found of
                             Some e \<Rightarrow>
                               (0, cstr out (cstr MAX_PATH_LEN (backup_dir @ ''/'' @ fst e)), s)
                           | None \<Rightarrow>
                               (case copy_file src_path backup_path s of
                                  (r, s) \<Rightarrow> if r \<noteq> 0 then (-1, [], s)
                                            else (0, cstr out backup_path, s)))))"

definition backup_restore :: "string \<Rightarrow> string \<Rightarrow> os \<Rightarrow> int \<times> os" where
  "backup_restore backup_path dest_path s =
     (case stat backup_path s of
        (No_entry, s) \<Rightarrow> (-1, s)
      | (_, s) \<Rightarrow>
          (case copy_file backup_path dest_path s of
             (r, s) \<Rightarrow>
               if r \<noteq> 0 then (-1, s)
               else (case stat backup_path s of
                       (Is_reg f, s) \<Rightarrow> (0, snd (chmod dest_path (f_mode f) s))
                     | (_, s) \<Rightarrow> (0, snd (chmod dest_path 493 s)))))"

record backup_info =
  bi_version :: string
  bi_timestamp :: string
  bi_hash :: string
  bi_path :: string

definition scan_backup_name :: "string \<Rightarrow> (int \<times> int \<times> int \<times> int \<times> int \<times> int \<times> string) option" where
  "scan_backup_name name =
     (case scan_int 4 name of None \<Rightarrow> None | Some (year, r) \<Rightarrow>
     (case scan_int 2 r of None \<Rightarrow> None | Some (mon, r) \<Rightarrow>
     (case scan_int 2 r of None \<Rightarrow> None | Some (day, r) \<Rightarrow>
     (case scan_char CHR ''-'' r of None \<Rightarrow> None | Some r \<Rightarrow>
     (case scan_int 2 r of None \<Rightarrow> None | Some (hour, r) \<Rightarrow>
     (case scan_int 2 r of None \<Rightarrow> None | Some (mi, r) \<Rightarrow>
     (case scan_int 2 r of None \<Rightarrow> None | Some (sec, r) \<Rightarrow>
     (case scan_char CHR ''-'' r of None \<Rightarrow> None | Some r \<Rightarrow>
     (case scan_word 64 r of None \<Rightarrow> None | Some w \<Rightarrow>
        Some (year, mon, day, hour, mi, sec, w))))))))))"

text \<open>The buffers of \<open>backup_list\<close>: 96 bytes for the version, 32 for the time, 65 for the hash.\<close>

definition parse_backup_filename :: "string \<Rightarrow> string \<Rightarrow> os \<Rightarrow> backup_info option \<times> os" where
  "parse_backup_filename filename full_path s =
     (let len = length filename
      in if len < 5 \<or> \<not> ends_with ''.bak'' filename then (None, s)
         else let name = take (len - 4) filename
         in if len = 12 then
              (case stat full_path s of
                 (Is_reg f, s) \<Rightarrow> (Some \<lparr>bi_version = cstr 96 name, bi_timestamp = cstr 32 (iso_tm (f_mtime f)),
                                         bi_hash = cstr HASH_BUF_LEN name, bi_path = full_path\<rparr>, s)
               | (_, s) \<Rightarrow> (Some \<lparr>bi_version = cstr 96 name, bi_timestamp = ''unknown'',
                                   bi_hash = cstr HASH_BUF_LEN name, bi_path = full_path\<rparr>, s))
            else
              (case scan_backup_name name of
                 Some (y, mo, d, h, mi, sec, w) \<Rightarrow>
                   (Some \<lparr>bi_version = cstr 96 name, bi_timestamp = cstr 32 (iso_of y mo d h mi sec),
                          bi_hash = cstr HASH_BUF_LEN w, bi_path = full_path\<rparr>, s)
               | None \<Rightarrow> (None, s)))"

text \<open>The caller's callback gets its context and the operating system.\<close>

fun list_entries ::
  "(backup_info \<Rightarrow> 'u \<Rightarrow> os \<Rightarrow> 'u \<times> os) \<Rightarrow> string \<Rightarrow> (string \<times> bool) list \<Rightarrow> int \<Rightarrow> 'u \<Rightarrow> os \<Rightarrow> (int \<times> 'u) \<times> os" where
  "list_entries cb dir [] count u s = ((count, u), s)"
| "list_entries cb dir ((name, reg) # es) count u s =
     (if \<not> reg then list_entries cb dir es count u s
      else case parse_backup_filename name (cstr MAX_PATH_LEN (dir @ ''/'' @ name)) s of
             (Some b, s) \<Rightarrow> (case cb b u s of (u, s) \<Rightarrow> list_entries cb dir es (count + 1) u s)
           | (None, s) \<Rightarrow> list_entries cb dir es count u s)"

definition backup_list :: "(backup_info \<Rightarrow> 'u \<Rightarrow> os \<Rightarrow> 'u \<times> os) \<Rightarrow> string \<Rightarrow> 'u \<Rightarrow> os \<Rightarrow> (int \<times> 'u) \<times> os" where
  "backup_list cb app_name u s =
     (let backup_dir = backup_dir_of app_name
      in case opendir backup_dir s of
           (None, s) \<Rightarrow> ((0, u), s)
         | (Some es, s) \<Rightarrow> list_entries cb backup_dir es 0 u s)"

section \<open>Checksums\<close>

lemma fread_no_error: "fread n r s = (b, r', False, s') \<Longrightarrow> b = take n r \<and> r' = drop n r"
  by (auto simp: fread_def split: prod.splits outcome.splits)

lemma fread_quiet [io_simps]: "script s = [] \<Longrightarrow> fread n r s = (take n r, drop n r, False, s)"
  by (simp add: fread_def io_simps)

text \<open>Whatever fails on the way: no error reported means all bytes were hashed, in order.\<close>

lemma checksum_loop_all:
  "checksum_loop r err ctx s = (False, ctx', s') \<Longrightarrow>
    \<not> err \<and> (\<exists>ds. ctx' = fold (\<lambda>d c. sha256_update c d) ds ctx \<and> concat ds = r)"
proof (induction r err ctx s rule: checksum_loop.induct)
  case (1 r err ctx s)
  obtain b r' e s1 where f: "fread 8192 r s = (b, r', e, s1)" by (metis prod_cases4)
  show ?case
  proof (cases "b = []")
    case True
    then have "err \<or> e = False" "ctx' = ctx" using "1.prems" f by (auto simp: checksum_loop.simps [of r])
    moreover from this have "\<not> err" "\<not> e" using "1.prems" f True by (auto simp: checksum_loop.simps [of r])
    moreover have "r = []" using fread_no_error [of 8192 r s b r' s1] f True calculation(4) by auto
    ultimately show ?thesis by (intro conjI exI [of _ "[]"]) simp_all
  next
    case False
    then have "checksum_loop r' (err \<or> e) (sha256_update ctx b) s1 = (False, ctx', s')"
      using "1.prems" f by (simp add: checksum_loop.simps [of r])
    with "1.IH" [OF f [symmetric] refl refl False] obtain ds where
      "\<not> (err \<or> e)" "ctx' = fold (\<lambda>d c. sha256_update c d) ds (sha256_update ctx b)" "concat ds = r'" by blast
    moreover have "r = b @ r'" using fread_split [OF f] .
    ultimately show ?thesis by (intro conjI exI [of _ "b # ds"]) simp_all
  qed
qed

lemma sha256_stack_digest: "concat ds = m \<Longrightarrow>
  sha256_final (fold (\<lambda>d c. sha256_update c d) ds (sha256_init sha256_stack)) = sha256 m"
  using agent.digest_pieces [of sha256_stack ds] by (simp add: agent_wf_def sha256_stack_def)

lemma fopen_r_contents: "fopen_r p s = (Some d, s') \<Longrightarrow> contents s p = Some d"
  by (auto simp: fopen_r_def next_outcome_def split: list.splits outcome.splits)

lemma checksum_sound:
  assumes "compute_file_checksum p n s = (Some h, s')"
  shows "\<exists>d. contents s p = Some d \<and> h = hex_string (sha256 d)"
proof -
  obtain d s1 where d: "fopen_r p s = (Some d, s1)"
    using assms by (auto simp: compute_file_checksum_def split: if_splits prod.splits option.splits)
  obtain err ctx s2 where c: "checksum_loop d False (sha256_init sha256_stack) s1 = (err, ctx, s2)"
    by (metis prod_cases3)
  have "\<not> err" "h = hex_string (sha256_final ctx)"
    using assms d c by (auto simp: compute_file_checksum_def split: if_splits)
  then show ?thesis
    using checksum_loop_all [of d False "sha256_init sha256_stack" s1 ctx s2] c sha256_stack_digest [of _ d]
      fopen_r_contents [OF d] by auto
qed

lemma checksum_loop_quiet:
  "script s = [] \<Longrightarrow> \<exists>ctx'. checksum_loop r False ctx s = (False, ctx', s)"
proof (induction r False ctx s rule: checksum_loop.induct)
  case (1 r ctx s)
  then show ?case
    by (cases "r = []"; subst checksum_loop.simps) (auto simp: io_simps)
qed

lemma checksum_quiet:
  assumes "script s = []" "contents s p = Some d"
  shows "compute_file_checksum p HASH_BUF_LEN s = (Some (hex_string (sha256 d)), s)"
proof -
  obtain ctx where c: "checksum_loop d False (sha256_init sha256_stack) s = (False, ctx, s)"
    using checksum_loop_quiet [OF assms(1)] by blast
  then have "sha256_final ctx = sha256 d"
    using checksum_loop_all [OF c] sha256_stack_digest by blast
  then show ?thesis using assms c by (simp add: compute_file_checksum_def fopen_r_def io_simps)
qed

lemma length_hex_string: "length (hex_string d) = 2 * length d"
  by (induction d) (simp_all add: hex_string_def hex_byte_def)

context step_relation
begin

lemma checksum_loop_step:
  assumes "\<And>n r s. R s (snd (snd (snd (fread n r s))))"
  shows "R s (snd (snd (checksum_loop r err ctx s)))"
proof (induction r err ctx s rule: checksum_loop.induct)
  case (1 r err ctx s)
  obtain b r' e s1 where f: "fread 8192 r s = (b, r', e, s1)" by (metis prod_cases4)
  have "R s s1" using assms [of s 8192 r] f by simp
  then show ?case using 1 f
    by (cases "b = []") (auto simp: checksum_loop.simps [of r] intro: chain)
qed

lemma copy_loop_step:
  assumes "\<And>n r s. R s (snd (snd (snd (fread n r s))))" "\<And>b s. R s (snd (fwrite dst b s))"
  shows "R s (snd (copy_loop r dst s))"
  using assms(2)
proof (induction r dst s rule: copy_loop.induct)
  case (1 r dst s)
  obtain b r' e s1 where f: "fread 8192 r s = (b, r', e, s1)" by (metis prod_cases4)
  obtain n s2 where w: "fwrite dst b s1 = (n, s2)" by force
  have fr: "R s s1" "R s1 s2" using assms(1) [of s 8192 r] "1.prems" [of s1 b] f w by simp_all
  show ?case
  proof (cases "b = [] \<or> n \<noteq> length b")
    case True
    then show ?thesis using f w fr chain [OF fr] by (auto simp: copy_loop.simps [of r])
  next
    case False
    then have "R s2 (snd (copy_loop r' dst s2))" using "1.IH" f w "1.prems" by metis
    then show ?thesis using False f w chain [OF fr] chain [of s s2]
      by (auto simp: copy_loop.simps [of r])
  qed
qed

end

lemma checksum_loop_frame: "frame P s (snd (snd (checksum_loop r err ctx s)))"
  by (rule framing.checksum_loop_step) (rule frames)

lemma checksum_loop_quietly: "quietly D s (snd (snd (checksum_loop r err ctx s)))"
  by (rule quiet.checksum_loop_step) (rule quiets)

lemma checksum_frame [frames]: "frame P s (snd (compute_file_checksum p n s))"
proof -
  have "frame P s (snd (fopen_r p s))" by (rule frames)
  then show ?thesis
    using checksum_loop_frame frame_trans [of P s]
    by (auto simp: compute_file_checksum_def split_def intro: frames split: option.splits prod.splits)
qed

lemma checksum_quietly [quiets]: "quietly D s (snd (compute_file_checksum p n s))"
proof -
  have "quietly D s (snd (fopen_r p s))" by (rule quiets)
  then show ?thesis
    using checksum_loop_quietly quiet_trans [of D s]
    by (auto simp: compute_file_checksum_def split_def intro: quiets split: option.splits prod.splits)
qed

section \<open>Copies\<close>

lemma copy_loop_frame: "P dst \<Longrightarrow> frame P s (snd (copy_loop r dst s))"
  by (rule framing.copy_loop_step) (auto intro: frames)

lemma copy_loop_quietly: "quietly D s (snd (copy_loop r dst s))"
  by (rule quiet.copy_loop_step) (rule quiets)+

lemma copy_file_frame [frames]:
  assumes "P dst"
  shows "frame P s (snd (copy_file src dst s))"
  unfolding copy_file_def Let_def
  by (intro frame_steps frames copy_loop_frame) (rule assms)+

lemma copy_file_quietly [quiets]: "quietly D s (snd (copy_file src dst s))"
  unfolding copy_file_def Let_def by (intro quiet_steps quiets copy_loop_quietly)

lemma copy_loop_quiet:
  "script s = [] \<Longrightarrow> contents s dst = Some c \<Longrightarrow>
    \<exists>s'. copy_loop r dst s = (0, s') \<and> script s' = [] \<and> contents s' dst = Some (c @ r) \<and> dirs s' = dirs s \<and> clock s' = clock s"
proof (induction r dst s arbitrary: c rule: copy_loop.induct)
  case (1 r dst s)
  show ?case
  proof (cases "r = []")
    case True
    then show ?thesis using 1 by (subst copy_loop.simps) (auto simp: io_simps)
  next
    case False
    let ?s = "append_file dst (take 8192 r) s"
    have w: "fwrite dst (take 8192 r) s = (length (take 8192 r), ?s)"
      using "1.prems"(1) by (simp add: fwrite_def io_simps)
    have f: "fread 8192 r s = (take 8192 r, drop 8192 r, False, s)" using "1.prems"(1) by (simp add: io_simps)
    have "\<exists>s'. copy_loop (drop 8192 r) dst ?s = (0, s') \<and> script s' = [] \<and>
        contents s' dst = Some ((c @ take 8192 r) @ drop 8192 r) \<and> dirs s' = dirs ?s \<and> clock s' = clock ?s"
      using "1.IH" [OF f [symmetric] refl refl _ w [symmetric]] "1.prems" False by simp
    moreover have "copy_loop r dst s = copy_loop (drop 8192 r) dst ?s"
      using False by (subst copy_loop.simps) (simp add: f w)
    ultimately show ?thesis by simp
  qed
qed

lemma copy_file_quiet:
  assumes "script s = []" "contents s src = Some d" "can_create s dst"
  shows "\<exists>s'. copy_file src dst s = (0, s') \<and> contents s' dst = Some d \<and> script s' = [] \<and>
    dirs s' = dirs s \<and> clock s' = clock s"
proof -
  let ?s2 = "snd (unlink dst s)"
  have u: "script ?s2 = []" "can_create ?s2 dst" "dirs ?s2 = dirs s" "clock ?s2 = clock s"
    using assms by (simp_all add: unlink_def io_simps)
  then obtain s3 where 3: "fopen_w dst ?s2 = (True, s3)" "script s3 = []" "contents s3 dst = Some []"
    "dirs s3 = dirs s" "clock s3 = clock s"
    by (auto simp: fopen_w_def io_simps)
  from copy_loop_quiet [OF 3(2,3), of d] obtain s4 where 4: "copy_loop d dst s3 = (0, s4)" "script s4 = []"
    "contents s4 dst = Some d" "dirs s4 = dirs s" "clock s4 = clock s" using 3 by auto
  have 5: "fclose_w dst s4 = (True, s4)" using 4 by (simp add: fclose_w_def fflush_def io_simps)
  have 6: "snd (stat src s4) = s4" using 4 by (simp add: stat_def io_simps)
  have 7: "contents (snd (chmod dst m s4)) dst = Some d \<and> script (snd (chmod dst m s4)) = [] \<and>
      dirs (snd (chmod dst m s4)) = dirs s \<and> clock (snd (chmod dst m s4)) = clock s" for m
    using 4 by (auto simp: chmod_def io_simps contents_def split: option.splits)
  have "fopen_r src s = (Some d, s)" using assms by (simp add: fopen_r_def io_simps)
  then show ?thesis using 3 4 5 6 7
    by (auto simp: copy_file_def split_def Let_def split: stat_result.splits prod.splits)
qed

section \<open>Directories\<close>

lemma mkdir_files: "fs (snd (mkdir d s)) = fs s"
  by (auto simp: mkdir_def next_outcome_files split: outcome.splits prod.splits)

lemma mkdir_all_frame: "frame P s (snd (mkdir_all ds s))"
proof (induction ds s rule: mkdir_all.induct)
  case (2 d ds s)
  obtain r s1 where m: "mkdir d s = (r, s1)" by force
  have "frame P s s1" using frame_calls(10) [of P s d] m by simp
  then show ?case using 2 m by (cases r) (auto intro: frame_trans)
qed (simp add: frames)

lemma mkdir_p_frame [frames]: "frame P s (snd (mkdir_p path s))"
  by (simp add: mkdir_p_def Let_def mkdir_all_frame)

lemma mkdir_all_files: "fs (snd (mkdir_all ds s)) = fs s"
proof (induction ds s rule: mkdir_all.induct)
  case (2 d ds s)
  obtain r s1 where m: "mkdir d s = (r, s1)" by force
  then show ?case using 2 m mkdir_files [of d s] by (cases r) auto
qed simp

text \<open>An absolute path, by its components.\<close>

definition path_of :: "string list \<Rightarrow> string" where
  "path_of cs = concat (map (\<lambda>c. CHR ''/'' # c) cs)"

definition comps_ok :: "string list \<Rightarrow> bool" where
  "comps_ok cs \<longleftrightarrow> cs \<noteq> [] \<and> (\<forall>c \<in> set cs. c \<noteq> [] \<and> CHR ''/'' \<notin> set c)"

lemma path_of_snoc: "path_of (cs @ [c]) = path_of cs @ CHR ''/'' # c"
  by (simp add: path_of_def)

lemma dirname_snoc:
  assumes "CHR ''/'' \<notin> set n" "d \<noteq> []"
  shows "dirname (d @ CHR ''/'' # n) = d"
proof -
  have "dropWhile (\<lambda>c. c \<noteq> CHR ''/'') (rev n @ CHR ''/'' # rev d) = CHR ''/'' # rev d"
    using assms(1) by (subst dropWhile_append2) auto
  then show ?thesis using assms(2) by (simp add: dirname_def)
qed

lemma dirname_root: "CHR ''/'' \<notin> set n \<Longrightarrow> dirname (CHR ''/'' # n) = ''/''"
proof -
  assume "CHR ''/'' \<notin> set n"
  then have "dropWhile (\<lambda>c. c \<noteq> CHR ''/'') (rev n @ [CHR ''/'']) = [CHR ''/'']"
    by (subst dropWhile_append2) auto
  then show ?thesis by (simp add: dirname_def)
qed

lemma dir_prefixes_snoc:
  assumes "CHR ''/'' \<notin> set n" "d \<noteq> []"
  shows "dir_prefixes (d @ CHR ''/'' # n) = dir_prefixes d @ [d @ CHR ''/'' # n]"
proof -
  let ?t = "d @ CHR ''/'' # n"
  have split: "[1..<length ?t] = [1..<length d] @ [length d] @ [Suc (length d)..<length ?t]"
  proof -
    have "1 \<le> length d" using assms(2) by (cases d) auto
    then have "[1..<length d + Suc (length n)] = [1..<length d] @ [length d..<length d + Suc (length n)]"
      by (rule upt_add_eq_append)
    then show ?thesis by (simp add: upt_conv_Cons del: upt_Suc)
  qed
  have "filter (\<lambda>i. ?t ! i = CHR ''/'') [Suc (length d)..<length ?t] = []"
  proof -
    have "?t ! i \<noteq> CHR ''/''" if "Suc (length d) \<le> i" "i < length ?t" for i
    proof -
      have "?t ! i = n ! (i - Suc (length d))" "i - Suc (length d) < length n"
        using that by (simp_all add: nth_append)
      then show ?thesis using assms(1) by (metis nth_mem)
    qed
    then show ?thesis by (simp add: filter_empty_conv del: upt_Suc)
  qed
  moreover have "filter (\<lambda>i. ?t ! i = CHR ''/'') [1..<length d] = filter (\<lambda>i. d ! i = CHR ''/'') [1..<length d]"
    by (intro filter_cong) (auto simp: nth_append)
  ultimately have "filter (\<lambda>i. ?t ! i = CHR ''/'') [1..<length ?t] =
      filter (\<lambda>i. d ! i = CHR ''/'') [1..<length d] @ [length d]"
    unfolding split by simp
  then show ?thesis unfolding dir_prefixes_def by simp
qed

lemma dir_prefixes_root:
  assumes "CHR ''/'' \<notin> set n"
  shows "dir_prefixes (CHR ''/'' # n) = [CHR ''/'' # n]"
proof -
  have "(CHR ''/'' # n) ! i \<noteq> CHR ''/''" if "1 \<le> i" "i < Suc (length n)" for i
    using that assms by (cases i) (auto dest: nth_mem)
  then have "filter (\<lambda>i. (CHR ''/'' # n) ! i = CHR ''/'') [1..<length (CHR ''/'' # n)] = []"
    by (simp add: filter_empty_conv del: upt_Suc)
  then show ?thesis unfolding dir_prefixes_def by simp
qed

lemma path_of_Nil_iff [simp]: "path_of cs = [] \<longleftrightarrow> cs = []"
  by (cases cs) (auto simp: path_of_def)

lemma comps_ok_snoc: "comps_ok (cs @ [c]) \<Longrightarrow> c \<noteq> [] \<and> CHR ''/'' \<notin> set c \<and> (cs = [] \<or> comps_ok cs)"
  by (auto simp: comps_ok_def)

lemma mkdir_all_append:
  "mkdir_all (ds @ es) s = (case mkdir_all ds s of (r, s') \<Rightarrow> if r = 0 then mkdir_all es s' else (r, s'))"
  by (induction ds s rule: mkdir_all.induct) (auto split: prod.splits mkdir_result.splits)

lemma mkdir_quiet:
  assumes "script s = []" "d \<noteq> []" "dir_exists s (dirname d)" "lookup s d = None"
  shows "\<exists>s' r. mkdir d s = (r, s') \<and> r \<noteq> Mkdir_error \<and> script s' = [] \<and> fs s' = fs s \<and> clock s' = clock s \<and>
    fs_log s' = fs_log s \<and> set (dirs s') \<subseteq> insert d (set (dirs s)) \<and> set (dirs s) \<subseteq> set (dirs s') \<and> dir_exists s' d"
  using assms by (auto simp: mkdir_def io_simps dir_exists_def)

text \<open>Unless a file is in the way, all the directories of a path exist after \<open>mkdir_p\<close>.\<close>

lemma mkdir_all_path:
  assumes "script s = []" "comps_ok cs" "\<forall>d \<in> set (dir_prefixes (path_of cs)). lookup s d = None"
  shows "\<exists>s'. mkdir_all (dir_prefixes (path_of cs)) s = (0, s') \<and> script s' = [] \<and> fs s' = fs s \<and>
    clock s' = clock s \<and> fs_log s' = fs_log s \<and> set (dirs s) \<subseteq> set (dirs s') \<and>
    set (dirs s') \<subseteq> set (dirs s) \<union> set (dir_prefixes (path_of cs)) \<and> dir_exists s' (path_of cs)"
  using assms(2,3)
proof (induction cs rule: rev_induct)
  case (snoc c cs)
  note c = comps_ok_snoc [OF snoc.prems(1)]
  have one: "\<exists>s'. mkdir_all [d] t = (0, s') \<and> script s' = [] \<and> fs s' = fs t \<and> clock s' = clock t \<and>
      fs_log s' = fs_log t \<and> set (dirs s') \<subseteq> insert d (set (dirs t)) \<and> set (dirs t) \<subseteq> set (dirs s') \<and> dir_exists s' d"
    if "script t = []" "d \<noteq> []" "dir_exists t (dirname d)" "lookup t d = None" for d t
    using mkdir_quiet [OF that] by (auto split: mkdir_result.splits)
  show ?case
  proof (cases "cs = []")
    case True
    then have p: "path_of (cs @ [c]) = CHR ''/'' # c" by (simp add: path_of_def)
    have d: "dir_prefixes (CHR ''/'' # c) = [CHR ''/'' # c]" using c by (simp add: dir_prefixes_root)
    have "dir_exists s (dirname (CHR ''/'' # c))" using c by (simp add: dirname_root dir_exists_def)
    then show ?thesis using one [OF assms(1), of "CHR ''/'' # c"] snoc.prems(2) unfolding p d by fastforce
  next
    case False
    let ?p = "path_of cs @ CHR ''/'' # c"
    have d: "dir_prefixes ?p = dir_prefixes (path_of cs) @ [?p]"
      using c False by (simp add: dir_prefixes_snoc)
    from snoc.IH c False snoc.prems(2) obtain s1 where 1:
      "mkdir_all (dir_prefixes (path_of cs)) s = (0, s1)" "script s1 = []" "fs s1 = fs s"
      "clock s1 = clock s" "fs_log s1 = fs_log s" "set (dirs s) \<subseteq> set (dirs s1)"
      "set (dirs s1) \<subseteq> set (dirs s) \<union> set (dir_prefixes (path_of cs))" "dir_exists s1 (path_of cs)"
      unfolding path_of_snoc d by auto
    have "dirname ?p = path_of cs" using c False by (simp add: dirname_snoc)
    moreover have "lookup s1 ?p = None" using snoc.prems(2) 1(3) unfolding path_of_snoc d by (simp add: lookup_def)
    ultimately obtain s2 where 2: "mkdir_all [?p] s1 = (0, s2)" "script s2 = []" "fs s2 = fs s1" "clock s2 = clock s1"
      "fs_log s2 = fs_log s1" "set (dirs s2) \<subseteq> insert ?p (set (dirs s1))" "set (dirs s1) \<subseteq> set (dirs s2)"
      "dir_exists s2 ?p"
      using one [of s1 ?p] 1 by auto
    have "mkdir_all (dir_prefixes (path_of cs) @ [?p]) s = (0, s2)"
      using 1(1) 2(1) by (simp add: mkdir_all_append del: mkdir_all.simps)
    then show ?thesis unfolding path_of_snoc d using 1 2 by fastforce
  qed
qed (simp add: comps_ok_def)

lemma path_of_last: "comps_ok cs \<Longrightarrow> last (path_of cs) \<noteq> CHR ''/''"
proof (induction cs rule: rev_induct)
  case (snoc c cs)
  then have "c \<noteq> []" "CHR ''/'' \<notin> set c" using comps_ok_snoc by blast+
  then show ?case unfolding path_of_snoc by (metis last.simps last_appendR last_in_set list.distinct(1))
qed (simp add: comps_ok_def)

lemma mkdir_p_path:
  assumes "script s = []" "comps_ok cs" "length (path_of cs) < MAX_PATH_LEN"
    "\<forall>d \<in> set (dir_prefixes (path_of cs)). lookup s d = None"
  shows "\<exists>s'. mkdir_p (path_of cs) s = (0, s') \<and> script s' = [] \<and> fs s' = fs s \<and>
    clock s' = clock s \<and> fs_log s' = fs_log s \<and> set (dirs s) \<subseteq> set (dirs s') \<and>
    set (dirs s') \<subseteq> set (dirs s) \<union> set (dir_prefixes (path_of cs)) \<and> dir_exists s' (path_of cs)"
  using mkdir_all_path [OF assms(1,2,4)] path_of_last [OF assms(2)] assms(3)
  by (simp add: mkdir_p_def Let_def)

section \<open>The backup store\<close>

lemma dec_digit_plain: "n < 10 \<Longrightarrow> dec_digit n \<noteq> CHR ''/'' \<and> is_dec (dec_digit n) \<and> of_char (dec_digit n) = 48 + n"
proof -
  have "\<forall>k \<in> set [0..<10]. dec_digit k \<noteq> CHR ''/'' \<and> is_dec (dec_digit k) \<and> of_char (dec_digit k) = 48 + k"
    by (simp add: upt_rec dec_digit_def is_dec_def)
  then show "n < 10 \<Longrightarrow> ?thesis" by simp
qed

lemma hex_digit_plain: "n < 16 \<Longrightarrow> hex_digit n \<noteq> CHR ''/'' \<and> \<not> is_space (hex_digit n)"
proof -
  have "\<forall>k \<in> set [0..<16]. hex_digit k \<noteq> CHR ''/'' \<and> \<not> is_space (hex_digit k)"
    by (simp add: upt_rec hex_digit_def is_space_def)
  then show "n < 16 \<Longrightarrow> ?thesis" by simp
qed

lemma dec_digits_dec: "\<forall>c \<in> set (dec_digits k). is_dec c"
  by (induction k rule: dec_digits.induct) (subst dec_digits.simps, auto simp: dec_digit_plain)

lemma pad_dec_dec: "\<forall>c \<in> set (pad_dec n k). is_dec c"
  using dec_digits_dec [of k] by (auto simp: pad_dec_def pad_left_def is_dec_def)

lemma not_dec_slash: "\<not> is_dec CHR ''/''" "\<not> is_dec CHR ''-''"
  by (simp_all add: is_dec_def)

lemma stamp_plain: "CHR ''/'' \<notin> set (stamp t)"
  using pad_dec_dec not_dec_slash by (auto simp: stamp_def)

lemma hex_string_plain: "c \<in> set (hex_string d) \<Longrightarrow> c \<noteq> CHR ''/'' \<and> \<not> is_space c"
proof (induction d)
  case (Cons b d)
  have "unat b < 2 ^ 8" using unsigned_less [of b, where ?'a = nat] by simp
  then have "unat b div 16 < 16" "unat b mod 16 < 16" by auto
  then show ?case using Cons hex_digit_plain by (auto simp: hex_string_def hex_byte_def)
qed (simp add: hex_string_def)


text \<open>
  The hash a backup's name carries, and the promise of the store: the bytes of every file named
  like a backup hash to the hash in its name (a file name has at most 255 characters). A plain name is a non-empty file name that fits the
  agent's name buffer.
\<close>

definition name_hash :: "string \<Rightarrow> string" where
  "name_hash n = seg (length n - 68) 64 n"

definition is_backup_name :: "string \<Rightarrow> bool" where
  "is_backup_name n \<longleftrightarrow> 69 \<le> length n \<and> ends_with (''-'' @ name_hash n @ ''.bak'') n"

definition plain_name :: "string \<Rightarrow> bool" where
  "plain_name n \<longleftrightarrow> n \<noteq> [] \<and> CHR ''/'' \<notin> set n \<and> length n < MAX_APP_NAME_LEN"

definition backup_store :: "os \<Rightarrow> string \<Rightarrow> bool" where
  "backup_store s app \<longleftrightarrow>
     (\<forall>p \<in> set (map fst (fs s)). dirname p = backup_dir_of app \<longrightarrow> is_backup_name (after_last CHR ''/'' p) \<longrightarrow>
        (case contents s p of None \<Rightarrow> False | Some d \<Rightarrow> hex_string (sha256 d) = name_hash (after_last CHR ''/'' p) \<and>
            length (after_last CHR ''/'' p) \<le> 255)) \<and>
     (\<forall>p \<in> set (dirs s). dirname p = backup_dir_of app \<longrightarrow> \<not> is_backup_name (after_last CHR ''/'' p))"

text \<open>No file stands where a directory of the store is to be.\<close>

definition backup_dirs_free :: "os \<Rightarrow> string \<Rightarrow> bool" where
  "backup_dirs_free s app \<longleftrightarrow>
     (\<forall>d \<in> set [''/opt'', ''/opt/satdeploy'', BACKUP_DIR, backup_dir_of app]. lookup s d = None)"

lemma lookup_None_iff: "lookup s p = None \<longleftrightarrow> p \<notin> set (map fst (fs s))"
  unfolding lookup_def by (simp add: map_of_eq_None_iff)

lemma backup_store_files: "backup_store s app \<longleftrightarrow>
    (\<forall>p d. contents s p = Some d \<longrightarrow> dirname p = backup_dir_of app \<longrightarrow> is_backup_name (after_last CHR ''/'' p) \<longrightarrow>
       hex_string (sha256 d) = name_hash (after_last CHR ''/'' p) \<and> length (after_last CHR ''/'' p) \<le> 255) \<and>
    (\<forall>p \<in> set (dirs s). dirname p = backup_dir_of app \<longrightarrow> \<not> is_backup_name (after_last CHR ''/'' p))"
proof -
  have keys: "set (map fst (fs s)) = {p. \<exists>d. contents s p = Some d}"
  proof -
    have "p \<in> set (map fst (fs s)) \<longleftrightarrow> (\<exists>d. contents s p = Some d)" for p
      using lookup_None_iff [of s p] by (cases "lookup s p") (simp_all add: contents_def del: set_map)
    then show ?thesis by blast
  qed
  show ?thesis unfolding backup_store_def keys by auto
qed

lemma backup_name:
  assumes "length h = 64"
  shows "name_hash (a @ ''-'' @ h @ ''.bak'') = h" "is_backup_name (a @ ''-'' @ h @ ''.bak'')"
    "ends_with (''-'' @ h @ ''.bak'') n \<Longrightarrow> is_backup_name n \<and> name_hash n = h"
proof -
  show 1: "name_hash (a @ ''-'' @ h @ ''.bak'') = h" for a
    using assms by (simp add: name_hash_def seg_def)
  show 2: "is_backup_name (a @ ''-'' @ h @ ''.bak'')" for a
    unfolding is_backup_name_def 1 using assms ends_with_append by simp
  show "ends_with (''-'' @ h @ ''.bak'') n \<Longrightarrow> is_backup_name n \<and> name_hash n = h"
    using 1 2 ends_withD by metis
qed

lemma path_in_dir:
  assumes "dirname p = d" "d \<noteq> ''/''" "d \<noteq> ''.''"
  shows "p = d @ ''/'' @ after_last CHR ''/'' p"
proof -
  define r where "r = dropWhile (\<lambda>c. c \<noteq> CHR ''/'') (rev p)"
  have "rev p = takeWhile (\<lambda>c. c \<noteq> CHR ''/'') (rev p) @ r" unfolding r_def by simp
  then have p: "p = rev r @ after_last CHR ''/'' p" unfolding after_last_def by (metis rev_append rev_rev_ident)
  have "r \<noteq> []" "butlast (rev r) = d"
    using assms unfolding dirname_def r_def [symmetric] by (auto simp: Let_def split: if_splits)
  moreover have "hd r = CHR ''/''" using calculation(1) unfolding r_def using hd_dropWhile by blast
  ultimately have "rev r = d @ ''/''" by (metis append_butlast_last_id last_rev rev_is_Nil_conv)
  then show ?thesis using p by simp
qed


lemma backup_dir_plain:
  assumes "plain_name app"
  shows "backup_dir_of app = path_of [''opt'', ''satdeploy'', ''backups'', app]"
    "comps_ok [''opt'', ''satdeploy'', ''backups'', app]" "length (backup_dir_of app) < 88"
    "backup_dir_of app = BACKUP_DIR @ ''/'' @ app"
    "set (dir_prefixes (backup_dir_of app)) = set [''/opt'', ''/opt/satdeploy'', BACKUP_DIR, backup_dir_of app]"
proof -
  show eq: "backup_dir_of app = BACKUP_DIR @ ''/'' @ app"
    using assms by (simp add: plain_name_def backup_dir_of_def MAX_PATH_LEN_def MAX_APP_NAME_LEN_def BACKUP_DIR_def)
  then show p: "backup_dir_of app = path_of [''opt'', ''satdeploy'', ''backups'', app]"
    by (simp add: path_of_def BACKUP_DIR_def)
  show "comps_ok [''opt'', ''satdeploy'', ''backups'', app]"
    using assms by (simp add: comps_ok_def plain_name_def)
  show "length (backup_dir_of app) < 88"
    unfolding eq using assms by (simp add: plain_name_def MAX_APP_NAME_LEN_def BACKUP_DIR_def)
  have "dir_prefixes (BACKUP_DIR @ CHR ''/'' # app) = dir_prefixes BACKUP_DIR @ [BACKUP_DIR @ CHR ''/'' # app]"
    using assms by (intro dir_prefixes_snoc) (simp_all add: plain_name_def BACKUP_DIR_def)
  moreover have "dir_prefixes BACKUP_DIR = [''/opt'', ''/opt/satdeploy'', BACKUP_DIR]"
    by (simp add: BACKUP_DIR_def dir_prefixes_def upt_rec)
  ultimately show "set (dir_prefixes (backup_dir_of app)) =
      set [''/opt'', ''/opt/satdeploy'', BACKUP_DIR, backup_dir_of app]" unfolding eq by simp
qed

text \<open>Both \<open>mkdir_p\<close> calls of \<open>backup_create\<close>.\<close>

lemma backup_dirs_made:
  assumes "script s = []" "plain_name app" "backup_dirs_free s app"
  shows "\<exists>s1 s2. mkdir_p BACKUP_DIR s = (0, s1) \<and> mkdir_p (backup_dir_of app) s1 = (0, s2) \<and>
    script s2 = [] \<and> fs s2 = fs s \<and> clock s2 = clock s \<and> dir_exists s2 (backup_dir_of app) \<and>
    set (dirs s) \<subseteq> set (dirs s2) \<and>
    set (dirs s2) \<subseteq> set (dirs s) \<union> set [''/opt'', ''/opt/satdeploy'', BACKUP_DIR, backup_dir_of app]"
proof -
  let ?b = "[''opt'', ''satdeploy'', ''backups'']"
  have b: "BACKUP_DIR = path_of ?b" "comps_ok ?b" "length BACKUP_DIR < MAX_PATH_LEN"
    by (simp_all add: BACKUP_DIR_def path_of_def comps_ok_def MAX_PATH_LEN_def)
  have bp: "dir_prefixes BACKUP_DIR = [''/opt'', ''/opt/satdeploy'', BACKUP_DIR]"
    by (simp add: BACKUP_DIR_def dir_prefixes_def upt_rec)
  note p = backup_dir_plain [OF assms(2)]
  have free: "\<forall>d \<in> set (dir_prefixes BACKUP_DIR). lookup s d = None"
    "\<forall>d \<in> set (dir_prefixes (backup_dir_of app)). lookup s d = None"
    using assms(3) unfolding p(5) bp backup_dirs_free_def by simp_all
  from mkdir_p_path [of s ?b, folded b(1), OF assms(1) b(2,3) free(1)] obtain s1 where 1:
    "mkdir_p BACKUP_DIR s = (0, s1)" "script s1 = []" "fs s1 = fs s" "clock s1 = clock s"
    "set (dirs s) \<subseteq> set (dirs s1)" "set (dirs s1) \<subseteq> set (dirs s) \<union> set (dir_prefixes BACKUP_DIR)" by blast
  have "\<forall>d \<in> set (dir_prefixes (backup_dir_of app)). lookup s1 d = None"
    using free(2) 1(3) by (simp add: lookup_def)
  from mkdir_p_path [of s1 "[''opt'', ''satdeploy'', ''backups'', app]", folded p(1), OF 1(2) p(2) _ this]
  obtain s2 where "mkdir_p (backup_dir_of app) s1 = (0, s2)" "script s2 = []" "fs s2 = fs s1" "clock s2 = clock s1"
    "set (dirs s1) \<subseteq> set (dirs s2)" "set (dirs s2) \<subseteq> set (dirs s1) \<union> set (dir_prefixes (backup_dir_of app))"
    "dir_exists s2 (backup_dir_of app)"
    using p(3) by (auto simp: MAX_PATH_LEN_def)
  then show ?thesis using 1 unfolding p(5) bp by fastforce
qed


lemma stat_quiet: "script s = [] \<Longrightarrow> contents s p = Some d \<Longrightarrow> \<exists>r. stat p s = (r, s) \<and> r \<noteq> No_entry"
  by (auto simp: stat_def io_simps contents_def split: option.splits)

lemma opendir_quiet: "script s = [] \<Longrightarrow> dir_exists s d \<Longrightarrow> opendir d s = (Some (dir_entries s d), s)"
  by (simp add: opendir_def io_simps)

text \<open>The entry \<open>backup_create\<close> looks for in the store is a backup of the same hash.\<close>

lemma dir_entries_path:
  assumes "(n, r) \<in> set (dir_entries s d)"
  shows "\<exists>p. n = after_last CHR ''/'' p \<and> dirname p = d \<and> (p \<in> set (map fst (fs s)) \<or> p \<in> set (dirs s))"
proof -
  define keys where "keys = map fst (fs s)"
  show ?thesis using assms unfolding dir_entries_def keys_def [symmetric] by auto
qed

lemma backup_found:
  assumes "backup_store s app" "plain_name app" "length h = 64"
    "find (\<lambda>e. ends_with (''-'' @ h @ ''.bak'') (fst e)) (dir_entries s (backup_dir_of app)) = Some e"
  shows "\<exists>d. contents s (backup_dir_of app @ ''/'' @ fst e) = Some d \<and> hex_string (sha256 d) = h \<and>
    is_backup_name (fst e) \<and> name_hash (fst e) = h \<and> length (fst e) \<le> 255 \<and> CHR ''/'' \<notin> set (fst e)"
proof -
  let ?b = "backup_dir_of app"
  have e: "e \<in> set (dir_entries s ?b)" "ends_with (''-'' @ h @ ''.bak'') (fst e)"
    using assms(4) by (auto simp: find_Some_iff)
  note n = backup_name(3) [OF assms(3) e(2)]
  obtain p where p: "fst e = after_last CHR ''/'' p" "dirname p = ?b" "p \<in> set (map fst (fs s)) \<or> p \<in> set (dirs s)"
    using dir_entries_path [of "fst e" "snd e"] e(1) by (metis prod.collapse)
  have "p \<in> set (map fst (fs s))" using p n assms(1) unfolding backup_store_def by metis
  then obtain d where d: "contents s p = Some d" "hex_string (sha256 d) = h" "length (fst e) \<le> 255"
    using p(1,2) n assms(1) unfolding backup_store_def by (fastforce split: option.splits)
  have "?b \<noteq> ''/''" "?b \<noteq> ''.''" using backup_dir_plain(4) [OF assms(2)] by (simp_all add: BACKUP_DIR_def)
  then have "p = ?b @ ''/'' @ fst e" using path_in_dir [OF p(2)] p(1) by simp
  then show ?thesis using d n p(1) by auto
qed

lemma backup_not_found:
  assumes "find (\<lambda>e. ends_with (''-'' @ h @ ''.bak'') (fst e)) (dir_entries s d) = None" "dirname p = d"
    "ends_with (''-'' @ h @ ''.bak'') (after_last CHR ''/'' p)"
  shows "contents s p = None" "p \<notin> set (dirs s)"
proof -
  have "(after_last CHR ''/'' p, r) \<notin> set (dir_entries s d)" for r
    using assms(1,3) by (auto simp: find_None_iff)
  then have "p \<notin> set (map fst (fs s))" "p \<notin> set (dirs s)"
    using assms(2) by (auto simp: dir_entries_def image_iff)
  then show "contents s p = None" "p \<notin> set (dirs s)"
    using lookup_None_iff [of s p] by (simp_all add: contents_def)
qed

text \<open>Calendar fields within the ranges of \<open>struct tm\<close>, and a four-digit year.\<close>

definition tm_ok :: "tm \<Rightarrow> bool" where
  "tm_ok t \<longleftrightarrow> tm_year t < 10000 \<and> tm_mon t \<le> 12 \<and> tm_mday t \<le> 31 \<and> tm_hour t \<le> 23 \<and> tm_min t \<le> 59 \<and> tm_sec t \<le> 60"

lemma length_dec_digits: "0 < n \<Longrightarrow> k < 10 ^ n \<Longrightarrow> length (dec_digits k) \<le> n"
proof (induction k arbitrary: n rule: dec_digits.induct)
  case (1 k)
  show ?case
  proof (cases "k < 10")
    case False
    then obtain m where m: "n = Suc m" "0 < m" using "1.prems" by (cases n; cases "n - 1") auto
    then have "k div 10 < 10 ^ m" using "1.prems" by (simp add: less_mult_imp_div_less mult.commute)
    then show ?thesis using "1.IH" [OF False m(2)] m False by (simp add: dec_digits.simps [of k])
  qed (use 1 in \<open>simp add: dec_digits.simps [of k]\<close>)
qed

lemma length_pad_dec: "0 < n \<Longrightarrow> k < 10 ^ n \<Longrightarrow> length (pad_dec n k) = n"
  using length_dec_digits [of n k] by (simp add: pad_dec_def pad_left_def)

lemma length_stamp: "tm_ok t \<Longrightarrow> length (stamp t) = 15"
  by (simp add: stamp_def tm_ok_def length_pad_dec)

lemma backup_store_dirs:
  assumes "backup_store s app" "plain_name app" "fs s' = fs s"
    "set (dirs s') \<subseteq> set (dirs s) \<union> set [''/opt'', ''/opt/satdeploy'', BACKUP_DIR, backup_dir_of app]"
  shows "backup_store s' app"
proof -
  let ?b = "backup_dir_of app"
  note bp = backup_dir_plain [OF assms(2)]
  have "BACKUP_DIR \<noteq> []" by (simp add: BACKUP_DIR_def)
  then have "dirname ?b = BACKUP_DIR" unfolding bp(4) using assms(2) by (simp add: dirname_snoc plain_name_def)
  moreover have "length (dirname ''/opt'') < 23" "length (dirname ''/opt/satdeploy'') < 23"
    "length (dirname BACKUP_DIR) < 23" "length BACKUP_DIR = 22" by (simp_all add: dirname_def BACKUP_DIR_def)
  moreover have "23 \<le> length ?b" unfolding bp(4) by (simp add: BACKUP_DIR_def)
  ultimately have "dirname d \<noteq> ?b" if "d \<in> set [''/opt'', ''/opt/satdeploy'', BACKUP_DIR, ?b]" for d
    using that by auto
  moreover have "contents s' = contents s" using assms(3) by (simp add: contents_def lookup_def fun_eq_iff)
  ultimately show ?thesis using assms(1,4) unfolding backup_store_files by (simp only:) blast
qed

lemma backup_store_added:
  assumes "backup_store s app" "contents s' p = Some d" "\<And>q. q \<noteq> p \<Longrightarrow> contents s' q = contents s q"
    "dirs s' = dirs s" "name_hash (after_last CHR ''/'' p) = hex_string (sha256 d)"
    "length (after_last CHR ''/'' p) \<le> 255"
  shows "backup_store s' app"
  unfolding backup_store_files
proof (intro conjI allI impI)
  fix q x
  assume q: "contents s' q = Some x" "dirname q = backup_dir_of app" "is_backup_name (after_last CHR ''/'' q)"
  show "hex_string (sha256 x) = name_hash (after_last CHR ''/'' q)" "length (after_last CHR ''/'' q) \<le> 255"
    using q assms unfolding backup_store_files by (metis option.inject)+
qed (use assms(1,4) in \<open>simp add: backup_store_files\<close>)

text \<open>No archive has the hash yet: the file is copied under the time stamp.\<close>

lemma backup_copied:
  fixes d :: bytes
  defines "n t \<equiv> stamp t @ ''-'' @ hex_string (sha256 d) @ ''.bak''"
  assumes "script s = []" "plain_name app" "contents s src = Some d" "backup_store s app" "dir_exists s (backup_dir_of app)" "tm_ok (clock s)"
    "find (\<lambda>e. ends_with (''-'' @ hex_string (sha256 d) @ ''.bak'') (fst e)) (dir_entries s (backup_dir_of app)) = None"
    "p = backup_dir_of app @ ''/'' @ n (clock s)"
  obtains s' where "copy_file src p s = (0, s')" "contents s' p = Some d" "dirs s' = dirs s" "contents s p = None"
    "\<And>q. q \<noteq> p \<Longrightarrow> contents s' q = contents s q" "backup_store s' app" "length p < MAX_PATH_LEN" "CHR ''/'' \<notin> set (n (clock s))"
proof -
  let ?h = "hex_string (sha256 d)" and ?b = "backup_dir_of app" and ?n = "n (clock s)"
  have h: "length ?h = 64" by (simp add: length_hex_string)
  note bp = backup_dir_plain [OF assms(3)]
  have len: "length p < MAX_PATH_LEN" using bp(3) h length_stamp [OF assms(7)] by (simp add: assms(9) n_def MAX_PATH_LEN_def)
  have slash: "CHR ''/'' \<notin> set ?n" using stamp_plain hex_string_plain by (auto simp: n_def)
  have "?b \<noteq> []" unfolding bp(4) by (simp add: BACKUP_DIR_def)
  then have dn: "dirname p = ?b" "after_last CHR ''/'' p = ?n"
    using dirname_snoc [OF slash] after_last_append [OF slash, of ?b] by (simp_all add: assms(9))
  have new: "contents s p = None" "p \<notin> set (dirs s)"
    using backup_not_found [OF assms(8) dn(1)] unfolding dn(2) n_def by (metis append.assoc ends_with_append)+
  then have "can_create s p" using assms(6) dn(1) by (simp add: assms(9) can_create_def dir_exists_def bp(4) BACKUP_DIR_def)
  then obtain s' where c: "copy_file src p s = (0, s')" "contents s' p = Some d" "dirs s' = dirs s"
    using copy_file_quiet [OF assms(2), of src d p] assms(4) by auto
  have same: "contents s' q = contents s q" if "q \<noteq> p" for q
    using frame_contents [OF copy_file_frame [of "\<lambda>q. q = p" p s src]] that c(1) by simp
  have "backup_store s' app"
    by (rule backup_store_added [OF assms(5) c(2) _ c(3)])
      (use same dn(2) backup_name(1) [OF h] h length_stamp [OF assms(7)] in \<open>simp_all add: n_def\<close>)
  then show ?thesis using that c new(1) same len slash by blast
qed

lemma backup_create_result:
  assumes "script s = []" "plain_name app" "contents s src = Some d" "backup_store s app" "backup_dirs_free s app"
    "tm_ok (clock s)"
  shows "\<exists>name d' s'. backup_create app src MAX_PATH_LEN s = (0, backup_dir_of app @ ''/'' @ name, s') \<and>
    is_backup_name name \<and> name_hash name = hex_string (sha256 d) \<and>
    contents s' (backup_dir_of app @ ''/'' @ name) = Some d' \<and> hex_string (sha256 d') = hex_string (sha256 d) \<and>
    backup_store s' app \<and> (\<forall>p c. contents s p = Some c \<longrightarrow> contents s' p = Some c) \<and> dir_exists s' (backup_dir_of app) \<and> CHR ''/'' \<notin> set name \<and>
    (\<forall>q. contents s' q = contents s q \<or>
       q = backup_dir_of app @ ''/'' @ stamp (clock s) @ ''-'' @ hex_string (sha256 d) @ ''.bak'' \<and> contents s' q = Some d)"
proof -
  let ?h = "hex_string (sha256 d)" and ?b = "backup_dir_of app"
  have h: "length ?h = 64" by (simp add: length_hex_string)
  obtain r where st: "stat src s = (r, s)" "r \<noteq> No_entry" using stat_quiet [OF assms(1,3)] by blast
  have ck: "compute_file_checksum src HASH_BUF_LEN s = (Some ?h, s)" by (rule checksum_quiet [OF assms(1,3)])
  from backup_dirs_made [OF assms(1,2,5)] obtain s1 s2 where m: "mkdir_p BACKUP_DIR s = (0, s1)"
    "mkdir_p ?b s1 = (0, s2)" "script s2 = []" "fs s2 = fs s" "clock s2 = clock s" "dir_exists s2 ?b"
    "set (dirs s) \<subseteq> set (dirs s2)"
    "set (dirs s2) \<subseteq> set (dirs s) \<union> set [''/opt'', ''/opt/satdeploy'', BACKUP_DIR, ?b]" by blast
  note bp = backup_dir_plain [OF assms(2)]
  have c2: "contents s2 = contents s" using m(4) by (simp add: contents_def lookup_def fun_eq_iff)
  have st2: "backup_store s2 app" by (rule backup_store_dirs [OF assms(4,2) m(4,8)])
  have op: "opendir ?b s2 = (Some (dir_entries s2 ?b), s2)" by (rule opendir_quiet [OF m(3,6)])
  let ?find = "find (\<lambda>e. ends_with (''-'' @ ?h @ ''.bak'') (fst e)) (dir_entries s2 ?b)"
  show ?thesis
  proof (cases "?find")
    case (Some e)
    from backup_found [OF st2 assms(2) h Some] obtain d' where e: "contents s2 (?b @ ''/'' @ fst e) = Some d'"
      "hex_string (sha256 d') = ?h" "is_backup_name (fst e)" "name_hash (fst e) = ?h" "length (fst e) \<le> 255" by blast
    have "length (?b @ ''/'' @ fst e) < MAX_PATH_LEN" using bp(3) e(5) by (simp add: MAX_PATH_LEN_def)
    then have "backup_create app src MAX_PATH_LEN s = (0, ?b @ ''/'' @ fst e, s2)"
      using st ck m op Some by (cases r) (simp_all add: backup_create_def Let_def del: append.simps)
    moreover have "CHR ''/'' \<notin> set (fst e)"
    proof -
      have "e \<in> set (dir_entries s2 ?b)" using Some by (metis find_Some_iff nth_mem)
      then show ?thesis by (auto simp: dir_entries_def after_last_def dest: set_takeWhileD)
    qed
    ultimately show ?thesis using e st2 c2 m(6) by metis
  next
    case None
    let ?p = "?b @ ''/'' @ stamp (clock s) @ ''-'' @ ?h @ ''.bak''"
    have "contents s2 src = Some d" "tm_ok (clock s2)" using assms(3,6) c2 m(5) by simp_all
    from backup_copied [OF m(3) assms(2) this(1) st2 m(6) this(2) None refl] obtain s3 where
      c: "copy_file src ?p s2 = (0, s3)" "contents s3 ?p = Some d" "dirs s3 = dirs s2" "contents s2 ?p = None"
        "\<And>q. q \<noteq> ?p \<Longrightarrow> contents s3 q = contents s2 q" "backup_store s3 app" "length ?p < MAX_PATH_LEN"
        "CHR ''/'' \<notin> set (stamp (clock s) @ ''-'' @ ?h @ ''.bak'')" unfolding m(5) by blast
    have "backup_create app src MAX_PATH_LEN s = (0, ?p, s3)"
      using st ck m op None c(1,7) by (cases r) (simp_all add: backup_create_def Let_def del: append.simps)
    moreover have "contents s3 p = Some x" if "contents s p = Some x" for p x
      using that c(5) [of p] c2 c(4) by (cases "p = ?p") auto
    moreover have "dir_exists s3 ?b" using m(6) c(3) by (simp add: dir_exists_def)
    moreover have "contents s3 q = contents s q \<or> q = ?p \<and> contents s3 q = Some d" for q using c(5) [of q] c(2) c2 by (cases "q = ?p") auto
    ultimately show ?thesis using c(2,6,8) backup_name(1,2) [OF h] by blast
  qed
qed

text \<open>Whatever fails, \<open>backup_create\<close> only touches files below the backup directory.\<close>

definition in_backups :: "string \<Rightarrow> bool" where
  "in_backups p \<longleftrightarrow> take (length BACKUP_DIR + 1) p = BACKUP_DIR @ ''/''"

lemma in_backups_cstr: "in_backups (cstr MAX_PATH_LEN (backup_dir_of app @ t))"
  by (simp add: in_backups_def cstr_def backup_dir_of_def MAX_PATH_LEN_def BACKUP_DIR_def)

context step_relation
begin

lemma backup_create_step:
  assumes "\<And>s. R s (snd (stat src s))" "\<And>s. R s (snd (compute_file_checksum src HASH_BUF_LEN s))"
    "\<And>s. R s (snd (mkdir_p BACKUP_DIR s))" "\<And>s. R s (snd (mkdir_p (backup_dir_of app) s))"
    "\<And>s. R s (snd (opendir (backup_dir_of app) s))"
    "\<And>t t' d. R s t \<Longrightarrow> R t t' \<Longrightarrow> R t' (snd (copy_file src
       (cstr MAX_PATH_LEN (backup_dir_of app @ ''/'' @ stamp (clock t) @ ''-'' @ hex_string (sha256 d) @ ''.bak'')) t'))"
  shows "R s (snd (snd (backup_create app src out s)))"
proof -
  obtain st s1 where 1: "stat src s = (st, s1)" by force
  obtain h s2 where 2: "compute_file_checksum src HASH_BUF_LEN s1 = (h, s2)" by force
  obtain r1 s3 where 3: "mkdir_p BACKUP_DIR s2 = (r1, s3)" by force
  obtain r2 s4 where 4: "mkdir_p (backup_dir_of app) s3 = (r2, s4)" by force
  obtain es s5 where 5: "opendir (backup_dir_of app) s4 = (es, s5)" by force
  have f1: "R s s1" using assms(1) [of s] 1 by simp
  have f2: "R s s2" using chain [OF f1] assms(2) [of s1] 2 by simp
  have f3: "R s s3" using chain [OF f2] assms(3) [of s2] 3 by simp
  have f4: "R s s4" using chain [OF f3] assms(4) [of s3] 4 by simp
  have f5: "R s4 s5" using assms(5) [of s4] 5 by simp
  have f6: "R s (snd (copy_file src (cstr MAX_PATH_LEN (backup_dir_of app @ ''/'' @ stamp (clock s4) @ ''-'' @ x @ ''.bak'')) s5))"
    if hx: "h = Some x" for x
  proof -
    obtain d where "x = hex_string (sha256 d)" using checksum_sound [of src HASH_BUF_LEN s1 x s2] 2 hx by auto
    then show ?thesis using chain [OF chain [OF f4 f5] assms(6) [OF f4 f5, of d]] by simp
  qed
  show ?thesis
    using 1 2 3 4 5 f1 f2 f3 f4 chain [OF f4 f5] f6
    by (auto simp: backup_create_def Let_def split_def simp del: append.simps split: stat_result.splits option.splits)
qed

end

lemma backup_create_frame [frames]: "frame in_backups s (snd (snd (backup_create app src out s)))"
  by (rule framing.backup_create_step) (rule frames in_backups_cstr)+

text \<open>It makes no directory but those of the store.\<close>

lemma mkdir_all_quietly: "set ds \<subseteq> D \<Longrightarrow> quietly D s (snd (mkdir_all ds s))"
  by (induction ds arbitrary: s) (auto intro!: quiet_steps quiets)

lemma mkdir_p_quietly:
  assumes "length p < MAX_PATH_LEN" "p \<noteq> []" "last p \<noteq> CHR ''/''" "set (dir_prefixes p) \<subseteq> D"
  shows "quietly D s (snd (mkdir_p p s))"
  using assms mkdir_all_quietly by (simp add: mkdir_p_def Let_def)

definition store_dirs :: "string \<Rightarrow> string set" where
  "store_dirs app = set [''/opt'', ''/opt/satdeploy'', BACKUP_DIR, backup_dir_of app]"

lemma store_mkdirs:
  assumes "plain_name app"
  shows "quietly (store_dirs app) s (snd (mkdir_p BACKUP_DIR s))" "quietly (store_dirs app) s (snd (mkdir_p (backup_dir_of app) s))"
proof -
  note bp = backup_dir_plain [OF assms]
  have pre: "dir_prefixes BACKUP_DIR = [''/opt'', ''/opt/satdeploy'', BACKUP_DIR]"
    by (simp add: BACKUP_DIR_def dir_prefixes_def upt_rec)
  show "quietly (store_dirs app) s (snd (mkdir_p BACKUP_DIR s))"
    by (rule mkdir_p_quietly) (auto simp: pre store_dirs_def, auto simp: BACKUP_DIR_def MAX_PATH_LEN_def)
  have "app \<noteq> []" "last app \<noteq> CHR ''/''" using assms last_in_set [of app] unfolding plain_name_def by metis+
  then show "quietly (store_dirs app) s (snd (mkdir_p (backup_dir_of app) s))"
    using bp(3) by (intro mkdir_p_quietly) (simp_all add: bp(5) store_dirs_def MAX_PATH_LEN_def, simp_all add: bp(4))
qed

lemma backup_create_quietly:
  assumes "plain_name app"
  shows "quietly (store_dirs app) s (snd (snd (backup_create app src out s)))"
  by (rule quiet.backup_create_step) (rule quiets store_mkdirs [OF assms])+

text \<open>For a plain name and a calendar time it touches only entries of the application's directory.\<close>

definition backup_entry_of :: "string \<Rightarrow> string \<Rightarrow> bool" where
  "backup_entry_of app q \<longleftrightarrow> (\<exists>n. q = backup_dir_of app @ ''/'' @ n \<and> CHR ''/'' \<notin> set n)"

lemma backup_create_entries:
  assumes "plain_name app" "tm_ok (clock s)"
  shows "frame (backup_entry_of app) s (snd (snd (backup_create app src out s)))"
proof -
  let ?R = "\<lambda>s t. frame (backup_entry_of app) s t \<and> quietly (store_dirs app) s t"
  have R: "step_relation ?R" by unfold_locales (auto intro: frames quiets frame_trans quiet_trans)
  have "?R s (snd (snd (backup_create app src out s)))"
  proof (rule step_relation.backup_create_step [OF R], goal_cases)
    case (6 t t' d)
    let ?n = "stamp (clock t) @ ''-'' @ hex_string (sha256 d) @ ''.bak''"
    have "clock t = clock s" using 6(1) by (simp add: quietly_def)
    then have "length (backup_dir_of app @ ''/'' @ ?n) < MAX_PATH_LEN"
      using length_stamp [OF assms(2)] backup_dir_plain(3) [OF assms(1)] by (simp add: length_hex_string MAX_PATH_LEN_def)
    moreover have "CHR ''/'' \<notin> set ?n" using stamp_plain hex_string_plain by auto
    ultimately have "backup_entry_of app (cstr MAX_PATH_LEN (backup_dir_of app @ ''/'' @ ?n))"
      unfolding backup_entry_of_def by (subst cstr_id) blast+
    then show ?case by (auto intro: frames quiets)
  qed (auto intro: frames quiets store_mkdirs [OF assms(1)])
  then show ?thesis by blast
qed

section \<open>Names of backups\<close>

lemma dec_value_snoc: "dec_value (t @ [c]) = 10 * dec_value t + (of_char c - 48)"
  by (simp add: dec_value_def)

lemma dec_value_digits: "dec_value (dec_digits k) = k"
proof (induction k rule: dec_digits.induct)
  case (1 k)
  then show ?case
    by (cases "k < 10")
      (simp_all add: dec_digits.simps [of k] dec_value_snoc dec_digit_plain dec_value_def [of "[_]"])
qed

lemma dec_value_zeros: "dec_value (replicate n CHR ''0'' @ t) = dec_value t"
proof -
  have "foldl (\<lambda>a c. 10 * a + (of_char c - 48)) (0 :: nat) (replicate n CHR ''0'') = 0"
    by (induction n) simp_all
  then show ?thesis by (simp add: dec_value_def)
qed

lemma scan_int_pad:
  assumes "0 < n" "k < 10 ^ n"
  shows "scan_int n (pad_dec n k @ r) = Some (int k, r)"
proof -
  let ?p = "pad_dec n k"
  note len = length_pad_dec [OF assms]
  then obtain c t where p: "?p = c # t" using assms(1) by (cases ?p) auto
  have c: "is_dec c" using pad_dec_dec [of n k] p by simp
  then have "\<not> is_space c" "c \<noteq> CHR ''-''" "c \<noteq> CHR ''+''"
    using not_dec_slash by (auto simp: is_dec_def is_space_def)
  moreover have "takeWhile is_dec (take n (?p @ r)) = ?p"
    using len pad_dec_dec [of n k] by (simp add: takeWhile_all)
  moreover have "dec_value ?p = k"
    by (simp add: pad_dec_def pad_left_def dec_value_zeros dec_value_digits)
  ultimately show ?thesis unfolding scan_int_def scan_nat_def using p by simp
qed

lemma scan_word_hex:
  assumes "length d = 32"
  shows "scan_word 64 (hex_string d) = Some (hex_string d)"
proof -
  have ns: "\<forall>c \<in> set (hex_string d). \<not> is_space c" using hex_string_plain by blast
  have l: "length (hex_string d) = 64" using assms by (simp add: length_hex_string)
  have "dropWhile is_space (hex_string d) = hex_string d"
    using ns by (cases "hex_string d") simp_all
  then show ?thesis using ns l by (auto simp: scan_word_def takeWhile_all Let_def)
qed

lemma pad_int_pad: "pad_int n (int k) = pad_dec n k"
  by (simp add: pad_int_def)

lemma scan_backup_stamp:
  assumes "tm_ok t" "length d = 32"
  shows "scan_backup_name (stamp t @ ''-'' @ hex_string d) =
    Some (int (tm_year t), int (tm_mon t), int (tm_mday t), int (tm_hour t), int (tm_min t), int (tm_sec t), hex_string d)"
  using assms
  by (simp add: scan_backup_name_def stamp_def scan_int_pad tm_ok_def scan_char_def scan_word_hex)

text \<open>The name a backup gets parses back to its time stamp and hash.\<close>

lemma parse_stamp:
  assumes "tm_ok t" "length d = 32"
  shows "parse_backup_filename (stamp t @ ''-'' @ hex_string d @ ''.bak'') path s =
    (Some \<lparr>bi_version = stamp t @ ''-'' @ hex_string d, bi_timestamp = iso_tm t,
           bi_hash = hex_string d, bi_path = path\<rparr>, s)"
proof -
  let ?n = "stamp t @ ''-'' @ hex_string d"
  have l: "length (hex_string d) = 64" "length (stamp t) = 15"
    using assms by (simp_all add: length_hex_string length_stamp)
  have e: "ends_with ''.bak'' (?n @ ''.bak'')" by (rule ends_with_append)
  have "length (iso_tm t) < 32"
    using assms(1) by (simp add: iso_tm_def iso_of_def pad_int_pad length_pad_dec tm_ok_def)
  moreover have "iso_of (int (tm_year t)) (int (tm_mon t)) (int (tm_mday t))
      (int (tm_hour t)) (int (tm_min t)) (int (tm_sec t)) = iso_tm t" by (simp add: iso_tm_def)
  moreover have "take (length (?n @ ''.bak'') - 4) (?n @ ''.bak'') = ?n" using l by simp
  ultimately show ?thesis
    using l e scan_backup_stamp [OF assms]
    by (simp add: parse_backup_filename_def Let_def HASH_BUF_LEN_def)
qed


section \<open>Properties\<close>

text \<open>
  Whatever calls fail on the way, a checksum that \<open>compute_file_checksum\<close> reports is
  the SHA-256, in lower-case hex, of the whole file; and without failures it is always reported.
\<close>

theorem checksum_is_sha256:
  "(\<forall>h s'. compute_file_checksum p n s = (Some h, s') \<longrightarrow>
      (\<exists>d. contents s p = Some d \<and> h = hex_string (sha256 d))) \<and>
   (\<forall>d. script s = [] \<longrightarrow> contents s p = Some d \<longrightarrow>
      compute_file_checksum p HASH_BUF_LEN s = (Some (hex_string (sha256 d)), s))"
  using checksum_sound checksum_quiet by blast

definition a_time :: tm where
  "a_time = \<lparr>tm_year = 2026, tm_mon = 3, tm_mday = 9, tm_hour = 7, tm_min = 5, tm_sec = 0\<rparr>"

definition files_os :: "(string \<times> bytes) list \<Rightarrow> os" where
  "files_os xs = \<lparr>fs = map (\<lambda>(p, d). (p, \<lparr>f_data = d, f_mode = 420, f_mtime = a_time\<rparr>)) xs,
     dirs = [], script = [], clock = a_time, fs_log = []\<rparr>"

lemma files_os_fields [simp]: "script (files_os xs) = []" "dirs (files_os xs) = []" "clock (files_os xs) = a_time"
    "fs_log (files_os xs) = []" "contents (files_os xs) p = map_of xs p"
  by (induction xs) (auto simp: files_os_def contents_def lookup_def)

theorem checksum_is_sha256_witness:
  "compute_file_checksum ''/a'' HASH_BUF_LEN (files_os [(''/a'', [1, 2])]) =
     (Some (hex_string (sha256 [1, 2])), files_os [(''/a'', [1, 2])])"
  by (rule checksum_is_sha256 [THEN conjunct2, rule_format]) simp_all

text \<open>
  C26: Without failing calls, a backup succeeds and holds its source. For a plain application name and a store
  in which every backup's bytes match the hash in its name, when no call fails (a read error of
  \<open>copy_file\<close> goes unnoticed and can leave a shorter file under the full hash), \<open>backup_create\<close>
  returns 0 and reports a path in the application's backup directory whose name carries the SHA-256 of the source and whose bytes have
  that hash, the store keeps its promise, and no existing file, earlier backups included, changes.
\<close>

theorem backup_create_keeps_store:
  assumes "script s = []" "plain_name app" "contents s src = Some d" "backup_store s app" "backup_dirs_free s app"
    "tm_ok (clock s)"
  shows "\<exists>name d' s'. backup_create app src MAX_PATH_LEN s = (0, backup_dir_of app @ ''/'' @ name, s') \<and>
    is_backup_name name \<and> name_hash name = hex_string (sha256 d) \<and>
    contents s' (backup_dir_of app @ ''/'' @ name) = Some d' \<and> hex_string (sha256 d') = hex_string (sha256 d) \<and>
    backup_store s' app \<and> (\<forall>p c. contents s p = Some c \<longrightarrow> contents s' p = Some c)"
  using backup_create_result [OF assms] by blast

lemma files_os_store:
  "plain_name ''app'' \<and> backup_store (files_os [(''/a'', [1, 2])]) ''app'' \<and>
   backup_dirs_free (files_os [(''/a'', [1, 2])]) ''app'' \<and> tm_ok a_time"
  by (simp add: plain_name_def backup_store_def backup_dirs_free_def tm_ok_def a_time_def dirname_def files_os_def
      lookup_def backup_dir_of_def MAX_PATH_LEN_def MAX_APP_NAME_LEN_def BACKUP_DIR_def cstr_def)

theorem backup_create_keeps_store_witness:
  "\<exists>name d' s'. backup_create ''app'' ''/a'' MAX_PATH_LEN (files_os [(''/a'', [1, 2])]) =
      (0, backup_dir_of ''app'' @ ''/'' @ name, s') \<and>
    is_backup_name name \<and> name_hash name = hex_string (sha256 [1, 2]) \<and>
    contents s' (backup_dir_of ''app'' @ ''/'' @ name) = Some d' \<and>
    hex_string (sha256 d') = hex_string (sha256 [1, 2]) \<and> backup_store s' ''app''"
  using backup_create_keeps_store [of "files_os [(''/a'', [1, 2])]" "''app''" "''/a''" "[1, 2]"] files_os_store
  by auto

text \<open>
  The name \<open>backup_create\<close> gives a backup and the parser of \<open>backup_list\<close> agree: for
  any calendar time and any 32-byte digest, the listing shows the name without its extension as
  version, the time in ISO form and the full 64-character hash.
\<close>

theorem backup_name_roundtrip:
  assumes "tm_ok t" "length d = 32"
  shows "parse_backup_filename (stamp t @ ''-'' @ hex_string d @ ''.bak'') path s =
    (Some \<lparr>bi_version = stamp t @ ''-'' @ hex_string d, bi_timestamp = iso_tm t,
           bi_hash = hex_string d, bi_path = path\<rparr>, s)"
  by (rule parse_stamp [OF assms])

theorem backup_name_roundtrip_witness:
  "parse_backup_filename (stamp a_time @ ''-'' @ hex_string (replicate 32 7) @ ''.bak'') ''/b'' (files_os []) =
    (Some \<lparr>bi_version = stamp a_time @ ''-'' @ hex_string (replicate 32 7), bi_timestamp = iso_tm a_time,
           bi_hash = hex_string (replicate 32 7), bi_path = ''/b''\<rparr>, files_os [])"
  using backup_name_roundtrip [of a_time "replicate 32 7"] files_os_store by simp

lemma restore_quiet:
  assumes "script s = []" "contents s b = Some d" "can_create s dst"
  shows "\<exists>s'. backup_restore b dst s = (0, s') \<and> contents s' dst = Some d \<and> script s' = []"
proof -
  obtain r where r: "stat b s = (r, s)" "r \<noteq> No_entry" using stat_quiet [OF assms(1,2)] by blast
  from copy_file_quiet [OF assms] obtain s1 where c: "copy_file b dst s = (0, s1)" "contents s1 dst = Some d" "script s1 = []"
    by blast
  have st: "snd (stat b s1) = s1" using c(3) by (simp add: stat_def io_simps)
  have "contents (snd (chmod dst m s1)) dst = Some d \<and> script (snd (chmod dst m s1)) = []" for m
    using c by (auto simp: chmod_def io_simps contents_def split: option.splits)
  then show ?thesis using r c st
    by (cases r) (auto simp: backup_restore_def split: stat_result.splits prod.splits)
qed

lemma restore_frame [frames]: "P dst \<Longrightarrow> frame P s (snd (backup_restore b dst s))"
  unfolding backup_restore_def by (intro frame_steps frames; assumption)




text \<open>
  A read error is not noticed by \<open>copy_file\<close>: when reading the backup fails at once, a
  restore still reports success, having replaced the binary by an empty file.
\<close>

theorem restore_ignores_read_error:
  assumes "contents s b = Some d" "can_create s dst" "b \<noteq> dst"
    "script s = [Good, Good, Good, Good, Fail 0]"
  shows "\<exists>s'. backup_restore b dst s = (0, s') \<and> contents s' dst = Some []"
proof -
  let ?s1 = "s\<lparr>script := [Good, Good, Good, Fail 0]\<rparr>" and ?s2 = "s\<lparr>script := [Good, Good, Fail 0]\<rparr>"
  have st: "\<exists>r. stat b s = (r, ?s1) \<and> r \<noteq> No_entry"
    using assms by (auto simp: stat_def io_simps contents_def split: option.splits)
  have op: "fopen_r b ?s1 = (Some d, ?s2)" using assms(1) by (simp add: fopen_r_def io_simps)
  obtain s3 where s3: "snd (unlink dst ?s2) = s3" "script s3 = [Good, Fail 0]" "can_create s3 dst"
    using assms(2) by (auto simp: unlink_def io_simps)
  obtain s4 where s4: "fopen_w dst s3 = (True, s4)" "script s4 = [Fail 0]" "contents s4 dst = Some []"
    using s3 by (auto simp: fopen_w_def io_simps)
  obtain s5 where s5: "copy_loop d dst s4 = (0, s5)" "script s5 = []" "contents s5 dst = Some []"
    using s4 copy_loop.simps [of d dst s4] by (auto simp: fread_def io_simps)
  have cl: "snd (fclose_w dst s5) = s5" "snd (stat p s5) = s5" for p
    using s5(2) by (simp_all add: fclose_w_def fflush_def stat_def io_simps)
  have ch: "contents (snd (chmod dst m s)) dst = Some [] \<and> script (snd (chmod dst m s)) = []"
    if "contents s dst = Some []" "script s = []" for m s
    using that by (auto simp: chmod_def io_simps contents_def split: option.splits)
  have cs: "snd (stat p s) = s" if "script s = []" for p s using that by (simp add: stat_def io_simps)
  obtain s6 where "copy_file b dst ?s1 = (0, s6)" "contents s6 dst = Some []" "script s6 = []"
    using op s3(1) s4(1) s5 cl ch [OF s5(3,2)]
    by (cases "fst (stat b s5)") (auto simp: copy_file_def split_def Let_def)
  then show ?thesis using st ch cs [of s6 b]
    by (auto simp: backup_restore_def split_def split: stat_result.splits prod.splits)
qed

theorem restore_ignores_read_error_witness:
  "\<exists>s'. backup_restore ''/b'' ''/a'' (files_os [(''/a'', [1, 2]), (''/b'', [3])]\<lparr>script := [Good, Good, Good, Good, Fail 0]\<rparr>) =
     (0, s') \<and> contents s' ''/a'' = Some []"
  by (rule restore_ignores_read_error [of _ _ "[3]"]) (simp_all add: can_create_def dir_exists_def dirname_def)

end
