(* ===== verification/Session_State.thy ===== *)
theory Session_State
  imports Backup_Manager Svu_Proto
begin

unbundle bit_operations_syntax

text \<open>
  Cross-pass persistence of the DTP receive bitmap
  (\<open>satdeploy-agent/src/session_state.c\<close>): where an application's state file lives, the
  session id both ends derive, and the sidecar with its strict header. A save writes
  \<open>path.tmp\<close> and renames it; a load discards the file on any mismatch.

  The main results: a safe name never leaves the state directory; what a save wrote a load with
  the same parameters gives back; a load that resumes has found a matching header whatever
  happened before; and an interrupted save leaves the old file or a prefix of the new one, which
  a load refuses.
\<close>

section \<open>Definitions\<close>

definition SESSION_STATE_DIR :: string where "SESSION_STATE_DIR = ''/var/lib/satdeploy/state''"
definition SESSION_STATE_EXT :: string where "SESSION_STATE_EXT = ''.dtpstate''"
definition SESSION_SVU_EXT :: string where "SESSION_SVU_EXT = ''.svupart''"
definition SESSION_STATE_FORMAT_VERSION :: u32 where "SESSION_STATE_FORMAT_VERSION = 1"

text \<open>\<open>strstr(t, w) != NULL\<close>\<close>

fun has_substring :: "string \<Rightarrow> string \<Rightarrow> bool" where
  "has_substring w [] \<longleftrightarrow> w = []"
| "has_substring w (c # t) \<longleftrightarrow> take (length w) (c # t) = w \<or> has_substring w t"

definition app_name_is_safe :: "string \<Rightarrow> bool" where
  "app_name_is_safe app_name \<longleftrightarrow> app_name \<noteq> [] \<and> \<not> has_substring ''..'' app_name \<and>
     (\<forall>c \<in> set app_name. c \<noteq> CHR ''/'' \<and> c \<noteq> CHR 0x5C \<and> \<not> (of_char c :: nat) < 32)"

definition state_path :: "string \<Rightarrow> string \<Rightarrow> nat \<Rightarrow> string option" where
  "state_path ext app_name out_size =
     (let p = SESSION_STATE_DIR @ ''/'' @ app_name @ ext
      in if out_size = 0 \<or> \<not> app_name_is_safe app_name \<or> out_size \<le> length p then None else Some p)"

definition session_state_path :: "string \<Rightarrow> nat \<Rightarrow> string option" where
  "session_state_path = state_path SESSION_STATE_EXT"

definition session_state_svu_path :: "string \<Rightarrow> nat \<Rightarrow> string option" where
  "session_state_svu_path = state_path SESSION_SVU_EXT"

definition session_state_dir_ensure :: "os \<Rightarrow> int \<times> os" where
  "session_state_dir_ensure s =
     (case mkdir_p SESSION_STATE_DIR s of
        (r, s) \<Rightarrow> if r \<noteq> 0 then (-1, s) else let (_, s) = chmod SESSION_STATE_DIR 448 s in (0, s))"

definition session_state_compute_id :: "string \<Rightarrow> string \<Rightarrow> u32" where
  "session_state_compute_id app_name expected_hash =
     (let ctx = sha256_init sha256_stack;
          ctx = sha256_update ctx (bytes_of app_name);
          ctx = sha256_update ctx (bytes_of '':'');
          ctx = sha256_update ctx (bytes_of expected_hash);
          digest = sha256_final ctx;
          i = push_bit 24 (ucast (digest ! 0)) OR push_bit 16 (ucast (digest ! 1)) OR
              push_bit 8 (ucast (digest ! 2)) OR ucast (digest ! 3)
      in if i = 0 then 1 else i)"

definition session_state_exists :: "string \<Rightarrow> os \<Rightarrow> int \<times> os" where
  "session_state_exists path s = (case stat path s of
     (Is_reg f, s) \<Rightarrow> (1, s) | (_, s) \<Rightarrow> (0, s))"

definition session_state_unlink :: "string \<Rightarrow> os \<Rightarrow> unit \<times> os" where
  "session_state_unlink path s = (let (_, s) = unlink path s in ((), s))"

text \<open>Two-byte integers of the host, and the fixed hash buffer.\<close>

definition le16 :: "u16 \<Rightarrow> bytes" where
  "le16 v = [ucast v, ucast (drop_bit 8 v)]"

definition get16 :: "bytes \<Rightarrow> u16" where
  "get16 b = ucast (b ! 0) OR push_bit 8 (ucast (b ! 1))"

definition hash_field :: "string \<Rightarrow> bytes" where
  "hash_field h = (let b = bytes_of (cstr HASH_BUF_LEN h) in b @ replicate (HASH_BUF_LEN - length b) 0)"

text \<open>The C string in a buffer whose last byte has been set to 0.\<close>

definition c_string :: "bytes \<Rightarrow> string" where
  "c_string b = string_of (takeWhile (\<lambda>x. x \<noteq> 0) (butlast b))"

text \<open>A row of \<open>ok &= (fwrite(...) == 1)\<close>, and of \<open>ok &= (fread(...) == 1)\<close>.\<close>

fun write_all :: "string \<Rightarrow> bytes list \<Rightarrow> bool \<Rightarrow> os \<Rightarrow> bool \<times> os" where
  "write_all p [] ok s = (ok, s)"
| "write_all p (b # bs) ok s =
     (case fwrite p b s of (n, s) \<Rightarrow> write_all p bs (ok \<and> n = length b) s)"

fun read_all :: "nat list \<Rightarrow> bytes \<Rightarrow> bool \<Rightarrow> bytes list \<Rightarrow> os \<Rightarrow> (bool \<times> bytes list \<times> bytes) \<times> os" where
  "read_all [] r ok acc s = ((ok, acc, r), s)"
| "read_all (n # ns) r ok acc s =
     (case fread n r s of (b, r, _, s) \<Rightarrow> read_all ns r (ok \<and> length b = n) (acc @ [b]) s)"

definition session_header :: "u32 \<Rightarrow> string \<Rightarrow> u32 \<Rightarrow> u16 \<Rightarrow> bytes list" where
  "session_header expected_size expected_hash nof_packets effective_mtu =
     [le32 SESSION_STATE_FORMAT_VERSION, le32 expected_size, hash_field expected_hash,
      le32 nof_packets, le16 effective_mtu, le16 0]"

definition session_state_save ::
  "string \<Rightarrow> u32 \<Rightarrow> string \<Rightarrow> u32 \<Rightarrow> u16 \<Rightarrow> bytes \<Rightarrow> os \<Rightarrow> int \<times> os" where
  "session_state_save path expected_size expected_hash nof_packets effective_mtu bitmap s =
     (case session_state_dir_ensure s of (r, s) \<Rightarrow>
        if r \<noteq> 0 then (-1, s)
        else let tmp_path = path @ ''.tmp''
        in if 640 \<le> length tmp_path then (-1, s)
        else (case fopen_w tmp_path s of (opened, s) \<Rightarrow>
          if \<not> opened then (-1, s)
          else (case write_all tmp_path
                  (session_header expected_size expected_hash nof_packets effective_mtu @
                   (if bitmap \<noteq> [] then [bitmap] else [])) True s of (ok, s) \<Rightarrow>
            (case fflush tmp_path s of (fl, s) \<Rightarrow>
            (case fclose_w tmp_path s of (_, s) \<Rightarrow>
               if \<not> (ok \<and> fl) then let (_, s) = unlink tmp_path s in (-1, s)
               else (case rename tmp_path path s of (r, s) \<Rightarrow>
                 if \<not> r then let (_, s) = unlink tmp_path s in (-1, s)
                 else (0, s)))))))"

text \<open>\<open>bitmap_out\<close> is the caller's buffer; the result is the returned flag and that buffer.\<close>

definition session_state_load ::
  "string \<Rightarrow> u32 \<Rightarrow> string \<Rightarrow> u32 \<Rightarrow> u16 \<Rightarrow> bytes \<Rightarrow> os \<Rightarrow> (int \<times> bytes) \<times> os" where
  "session_state_load path expected_size expected_hash nof_packets effective_mtu bitmap_out s =
     (case fopen_r path s of
        (None, s) \<Rightarrow> ((0, bitmap_out), s)
      | (Some d, s) \<Rightarrow>
         (case read_all [4, 4, 65, 4, 2, 2] d True [] s of ((ok, flds, r), s) \<Rightarrow>
            if \<not> ok then let (_, s) = session_state_unlink path s in ((0, bitmap_out), s)
            else if svu_get32 (flds ! 0) 0 \<noteq> SESSION_STATE_FORMAT_VERSION then
              let (_, s) = session_state_unlink path s in ((0, bitmap_out), s)
            else if c_string (flds ! 2) \<noteq> expected_hash then
              let (_, s) = session_state_unlink path s in ((0, bitmap_out), s)
            else if svu_get32 (flds ! 1) 0 \<noteq> expected_size \<or> svu_get32 (flds ! 3) 0 \<noteq> nof_packets \<or>
                    get16 (flds ! 4) \<noteq> effective_mtu then
              let (_, s) = session_state_unlink path s in ((0, bitmap_out), s)
            else if bitmap_out \<noteq> [] then
              (case fread (length bitmap_out) r s of (b, _, _, s) \<Rightarrow>
                 if length b \<noteq> length bitmap_out then
                   let (_, s) = session_state_unlink path s in ((0, replicate (length bitmap_out) 0), s)
                 else ((1, b), s))
            else ((1, bitmap_out), s)))"

section \<open>Names and paths\<close>

lemma safe_nameD: "app_name_is_safe n \<Longrightarrow> n \<noteq> [] \<and> CHR ''/'' \<notin> set n"
  by (auto simp: app_name_is_safe_def)

lemma state_path_dir:
  assumes "state_path ext app n = Some p" "CHR ''/'' \<notin> set ext"
  shows "dirname p = SESSION_STATE_DIR" "after_last CHR ''/'' p = app @ ext" "length p < n"
proof -
  have p: "p = SESSION_STATE_DIR @ CHR ''/'' # (app @ ext)" "app_name_is_safe app" "length p < n"
    using assms by (auto simp: state_path_def Let_def split: if_splits)
  have "CHR ''/'' \<notin> set (app @ ext)" using safe_nameD [OF p(2)] assms(2) by simp
  moreover have "SESSION_STATE_DIR \<noteq> []" by (simp add: SESSION_STATE_DIR_def)
  ultimately show "dirname p = SESSION_STATE_DIR" "after_last CHR ''/'' p = app @ ext"
    unfolding p(1) using dirname_snoc after_last_append by blast+
  show "length p < n" by (rule p(3))
qed

lemma state_ext_plain: "CHR ''/'' \<notin> set SESSION_STATE_EXT" "CHR ''/'' \<notin> set SESSION_SVU_EXT"
  by (simp_all add: SESSION_STATE_EXT_def SESSION_SVU_EXT_def)

section \<open>Rows of writes and reads\<close>

lemma write_all_frame [frames]: "P p \<Longrightarrow> frame P s (snd (write_all p bs ok s))"
  by (induction bs arbitrary: ok s) (auto intro!: frame_steps frames)

lemma fwrite_full:
  assumes "fwrite p b s = (length b, s')" "contents s p = Some c"
  shows "contents s' p = Some (c @ b)"
proof (cases "next_outcome s")
  case (Pair r s1)
  then have "contents s1 p = Some c" using assms(2) next_outcome_files(2) by metis
  then show ?thesis using assms(1) Pair
    by (cases r; cases "b = []") (auto simp: fwrite_def Let_def)
qed

lemma fwrite_keeps: "contents s p = Some c \<Longrightarrow> \<exists>c'. contents (snd (fwrite p b s)) p = Some c'"
  using next_outcome_files(2) [of s "fst (next_outcome s)" "snd (next_outcome s)" p]
  by (auto simp: fwrite_def Let_def split_def split: outcome.splits)

text \<open>Whatever fails: all writes reported complete means all bytes are in the file.\<close>

lemma write_all_ok:
  "write_all p bs ok s = (True, s') \<Longrightarrow> contents s p = Some c \<Longrightarrow> ok \<and> contents s' p = Some (c @ concat bs)"
proof (induction p bs ok s arbitrary: c rule: write_all.induct)
  case (2 p b bs ok s)
  obtain n s1 where w: "fwrite p b s = (n, s1)" by force
  obtain c' where "contents s1 p = Some c'" using fwrite_keeps [OF "2.prems"(2), of b] w by auto
  then have n: "ok" "n = length b" using "2.IH" [OF w [symmetric]] "2.prems"(1) w by auto
  then have "contents s1 p = Some (c @ b)" using fwrite_full w "2.prems"(2) by blast
  then show ?case using "2.IH" [OF w [symmetric], of "c @ b"] "2.prems"(1) w n by simp
qed simp

lemma write_all_quiet:
  "script s = [] \<Longrightarrow> \<exists>s'. write_all p bs ok s = (ok, s') \<and> script s' = [] \<and> dirs s' = dirs s"
proof (induction p bs ok s rule: write_all.induct)
  case (2 p b bs ok s)
  have w: "fwrite p b s = (length b, append_file p b s)" using "2.prems" by (simp add: fwrite_def io_simps)
  then show ?case using "2.IH" [OF w [symmetric]] "2.prems" by simp
qed simp

lemma read_all_split:
  "read_all ns r ok acc s = ((True, flds, r'), s') \<Longrightarrow>
    ok \<and> (\<exists>gs. flds = acc @ gs \<and> map length gs = ns \<and> r = concat gs @ r')"
proof (induction ns r ok acc s rule: read_all.induct)
  case (2 n ns r ok acc s)
  obtain b r1 e s1 where f: "fread n r s = (b, r1, e, s1)" by (metis prod_cases4)
  then have "read_all ns r1 (ok \<and> length b = n) (acc @ [b]) s1 = ((True, flds, r'), s')"
    using "2.prems" by simp
  from "2.IH" [OF f [symmetric] refl refl this] obtain gs where
    "ok" "length b = n" "flds = (acc @ [b]) @ gs" "map length gs = ns" "r1 = concat gs @ r'" by blast
  moreover have "r = b @ r1" by (rule fread_split [OF f])
  ultimately show ?case by (intro conjI exI [of _ "b # gs"]) simp_all
qed simp

lemma read_all_frame [frames]: "frame P s (snd (read_all ns r ok acc s))"
proof (induction ns r ok acc s rule: read_all.induct)
  case (2 n ns r ok acc s)
  obtain b r1 e s1 where f: "fread n r s = (b, r1, e, s1)" by (metis prod_cases4)
  have "frame P s s1" using frame_calls(2) [of P s n r] f by simp
  then show ?case using "2.IH" [OF f [symmetric] refl refl] f by (auto intro: frame_trans)
qed (simp add: frames)

lemma read_all_quiet:
  "script s = [] \<Longrightarrow> sum_list ns \<le> length r \<Longrightarrow>
    \<exists>flds r'. read_all ns r ok acc s = ((ok, flds, r'), s)"
proof (induction ns r ok acc s rule: read_all.induct)
  case (2 n ns r ok acc s)
  have f: "fread n r s = (take n r, drop n r, False, s)" using "2.prems"(1) by (rule fread_quiet)
  show ?case using "2.IH" [OF f [symmetric] refl refl] "2.prems" f by simp
qed simp

text \<open>Fields of given lengths are determined by the bytes.\<close>

lemma concat_prefix_eq:
  "concat gs @ r = concat hs @ r' \<Longrightarrow> map length gs = map length hs \<Longrightarrow> gs = hs \<and> r = r'"
proof (induction gs arbitrary: hs)
  case (Cons g gs)
  then obtain h hs' where "hs = h # hs'" by (cases hs) auto
  then show ?case using Cons by auto
qed simp

section \<open>Encodings\<close>

lemma string_of_bytes_of [simp]: "string_of (bytes_of t) = t"
proof -
  have "char_of (unat (of_char c :: u8)) = c" for c :: char
  proof -
    have "unat (of_nat (of_char c) :: u8) = of_char c"
      by (simp only: unat_of_nat take_bit_eq_mod) simp
    then show ?thesis by (simp add: of_nat_of_char)
  qed
  then show ?thesis by (induction t) (simp_all add: string_of_def bytes_of_def)
qed


lemma bytes_of_nonzero: "CHR 0x00 \<notin> set t \<Longrightarrow> 0 \<notin> set (bytes_of t)"
proof -
  assume t: "CHR 0x00 \<notin> set t"
  have "c = CHR 0x00" if "(of_char c :: u8) = 0" for c
    using string_of_bytes_of [of "[c]"] that by (simp add: bytes_of_def string_of_def char_of_def)
  then show ?thesis using t by (auto simp: bytes_of_def dest!: sym [of 0])
qed

lemma length_bytes_of [simp]: "length (bytes_of t) = length t"
  by (simp add: bytes_of_def)

lemma length_hash_field [simp]: "length (hash_field h) = 65"
  by (simp add: hash_field_def Let_def cstr_def HASH_BUF_LEN_def)

lemma c_string_hash_field:
  assumes "length h \<le> 64" "CHR 0x00 \<notin> set h"
  shows "c_string (hash_field h) = h"
proof -
  have hf: "hash_field h = bytes_of h @ replicate (64 - length h) 0 @ [0]"
  proof -
    have "65 - length h = Suc (64 - length h)" using assms(1) by simp
    then show ?thesis using assms(1)
      by (simp add: hash_field_def HASH_BUF_LEN_def Let_def replicate_append_same)
  qed
  have "takeWhile (\<lambda>x. x \<noteq> 0) (bytes_of h @ replicate (64 - length h) 0) = bytes_of h"
    using bytes_of_nonzero [OF assms(2)] by (subst takeWhile_append2) (auto simp: takeWhile_replicate)
  then show ?thesis unfolding c_string_def hf by (simp add: butlast_append del: append_assoc flip: append_assoc)
qed

lemma length_le16 [simp]: "length (le16 v) = 2"
  by (simp add: le16_def)

lemma get16_le16 [simp]: "get16 (le16 v) = v"
proof (rule bit_word_eqI)
  fix n assume "n < LENGTH(16)"
  then consider "n < 8" | "8 \<le> n" "n < 16" by fastforce
  then show "bit (get16 (le16 v)) n = bit v n"
    by cases (auto simp: get16_def le16_def bit_simps)
qed

lemma le16_get16:
  assumes "length b = 2"
  shows "le16 (get16 b) = b"
proof -
  obtain x y where b: "b = [x, y]" using assms by (auto simp: length_Suc_conv eval_nat_numeral)
  show ?thesis unfolding b get16_def le16_def
    by (auto simp: bit_simps bit8 intro!: bit_word_eqI)
qed

lemma get32_le32 [simp]: "svu_get32 (le32 v) 0 = v"
  using le32_word [of v] by (simp add: svu_get32_def eval_nat_numeral)

section \<open>Loading\<close>

text \<open>Whatever fails: a resumed load has read a matching header and the whole bitmap.\<close>

lemma load_sound:
  assumes "session_state_load path sz h npk mtu buf s = ((1, b), s')"
  shows "\<exists>hf res rest. contents s path = Some (le32 SESSION_STATE_FORMAT_VERSION @ le32 sz @ hf @ le32 npk @
      le16 mtu @ res @ b @ rest) \<and> length hf = 65 \<and> c_string hf = h \<and> length res = 2 \<and> length b = length buf"
proof -
  obtain d s1 where d: "fopen_r path s = (Some d, s1)"
    using assms by (auto simp: session_state_load_def split: prod.splits option.splits)
  obtain ok flds r s2 where rd: "read_all [4, 4, 65, 4, 2, 2] d True [] s1 = ((ok, flds, r), s2)" by (metis prod_cases3 surj_pair)
  have ok: "ok" "svu_get32 (flds ! 0) 0 = SESSION_STATE_FORMAT_VERSION" "c_string (flds ! 2) = h"
    "svu_get32 (flds ! 1) 0 = sz" "svu_get32 (flds ! 3) 0 = npk" "get16 (flds ! 4) = mtu"
    using assms d rd by (auto simp: session_state_load_def Let_def split_def split: if_splits)
  have b: "length b = length buf \<and> (\<exists>rest. r = b @ rest)"
  proof (cases "buf = []")
    case True
    then show ?thesis using assms d rd ok by (auto simp: session_state_load_def)
  next
    case False
    obtain b' r2 e s3 where fr: "fread (length buf) r s2 = (b', r2, e, s3)" by (metis prod_cases4)
    have "b' = b" "length b' = length buf"
      using assms d rd ok fr False by (auto simp: session_state_load_def Let_def split_def split: if_splits)
    then show ?thesis using fread_split [OF fr] by blast
  qed
  have "map length flds = [4, 4, 65, 4, 2, 2]" "d = concat flds @ r"
    using read_all_split [of "[4, 4, 65, 4, 2, 2]" d True "[]" s1 flds r s2] rd ok(1)
    by (auto simp del: read_all.simps)
  then obtain f0 f1 f2 f3 f4 f5 where f: "flds = [f0, f1, f2, f3, f4, f5]" "length f0 = 4" "length f1 = 4"
    "length f2 = 65" "length f3 = 4" "length f4 = 2" "length f5 = 2" "d = f0 @ f1 @ f2 @ f3 @ f4 @ f5 @ r"
    by (auto simp: map_eq_Cons_conv)
  have "f0 = le32 SESSION_STATE_FORMAT_VERSION" "f1 = le32 sz" "f3 = le32 npk" "f4 = le16 mtu"
    using ok f le32_get32 [of f0] le32_get32 [of f1] le32_get32 [of f3] le16_get16 [of f4]
    by (auto simp: eval_nat_numeral)
  then show ?thesis using f ok(3) b fopen_r_contents [OF d] by (auto simp: eval_nat_numeral)
qed


lemma load_quiet:
  assumes "script s = []" "contents s path = Some (concat (session_header sz h npk mtu) @ bm)"
    "length h \<le> 64" "CHR 0x00 \<notin> set h" "length buf = length bm"
  shows "session_state_load path sz h npk mtu buf s = ((1, bm), s)"
proof -
  let ?hd = "session_header sz h npk mtu" and ?ns = "[4, 4, 65, 4, 2, 2]"
  have len: "map length ?hd = ?ns" by (simp add: session_header_def)
  have "sum_list ?ns \<le> length (concat ?hd @ bm)" by (simp add: session_header_def)
  from read_all_quiet [OF assms(1) this] obtain flds r where
    rd: "read_all ?ns (concat ?hd @ bm) True [] s = ((True, flds, r), s)" by blast
  from read_all_split [OF rd] have "concat flds @ r = concat ?hd @ bm" "map length flds = ?ns" by auto
  then have f: "flds = ?hd" "r = bm" using concat_prefix_eq len by metis+
  have op: "fopen_r path s = (Some (concat ?hd @ bm), s)" using assms by (simp add: fopen_r_def io_simps)
  have hd: "?hd ! 0 = le32 SESSION_STATE_FORMAT_VERSION" "?hd ! 1 = le32 sz" "?hd ! 2 = hash_field h"
    "?hd ! 3 = le32 npk" "?hd ! 4 = le16 mtu" by (simp_all add: session_header_def eval_nat_numeral)
  show ?thesis
    using op rd f hd c_string_hash_field [OF assms(3,4)] assms(1,5)
    by (cases "bm = []") (auto simp: session_state_load_def io_simps simp del: read_all.simps)
qed

section \<open>Saving\<close>

definition session_record :: "u32 \<Rightarrow> string \<Rightarrow> u32 \<Rightarrow> u16 \<Rightarrow> bytes \<Rightarrow> bytes" where
  "session_record sz h npk mtu bm = concat (session_header sz h npk mtu) @ bm"

lemma rename_result:
  assumes "rename p q s = (True, s')" "p \<noteq> q"
  shows "fs_log s' = fs s' # fs_log s" "lookup s' q = lookup s p" "lookup s p \<noteq> None" "lookup s' p = None"
    "x \<noteq> p \<Longrightarrow> x \<noteq> q \<Longrightarrow> lookup s' x = lookup s x"
  using assms next_outcome_files(5,6) [of s "fst (next_outcome s)" "snd (next_outcome s)"]
  by (auto simp: rename_def lookup_def put_fs_def split_def update_conv' delete_conv'
      split: outcome.splits option.splits if_splits)

lemma rename_fail: "rename p q s = (False, s') \<Longrightarrow> frame P s s'"
  using frame_outcome [of s "fst (next_outcome s)" "snd (next_outcome s)" P]
  by (auto simp: rename_def split_def split: outcome.splits option.splits if_splits)

lemma fclose_prefix:
  assumes "contents s p = Some c"
  shows "\<exists>k. contents (snd (fclose_w p s)) p = Some (take k c)"
proof -
  obtain r s1 where n: "next_outcome s = (r, s1)" by force
  then have "contents s1 p = Some c" using assms next_outcome_files(2) by metis
  then show ?thesis using n by (cases r) (auto simp: fclose_w_def fflush_def intro: exI [of _ "length c"])
qed

lemma fflush_ok: "fflush p s = (True, s') \<Longrightarrow> contents s' q = contents s q"
  using next_outcome_files(2) [of s "fst (next_outcome s)" "snd (next_outcome s)" q]
  by (auto simp: fflush_def split_def split: outcome.splits)

lemma fopen_w_empty: "fopen_w p s = (True, s') \<Longrightarrow> contents s' p = Some []"
  by (auto simp: fopen_w_def split_def split: outcome.splits if_splits)


lemma dir_ensure_frame [frames]: "P SESSION_STATE_DIR \<Longrightarrow> frame P s (snd (session_state_dir_ensure s))"
  unfolding session_state_dir_ensure_def Let_def by (intro frame_steps frames; assumption)

text \<open>
  The paths a save may touch before its rename, and its two outcomes: nothing but those has
  changed, or the rename of a temporary file that holds (a prefix of) the record has.
\<close>

definition save_scratch :: "string \<Rightarrow> string \<Rightarrow> bool" where
  "save_scratch path q \<longleftrightarrow> q = path @ ''.tmp'' \<or> q = SESSION_STATE_DIR"

lemma save_cases:
  assumes "session_state_save path sz h npk mtu bm s = (r, s')"
  obtains "r = -1" "frame (save_scratch path) s s'"
  | t k u where "r = 0" "frame (save_scratch path) s t" "rename (path @ ''.tmp'') path t = (True, s')"
    "contents t (path @ ''.tmp'') = Some (take k (session_record sz h npk mtu bm))"
    "frame (save_scratch path) s u" "contents u (path @ ''.tmp'') = Some (session_record sz h npk mtu bm)"
    "t = snd (fclose_w (path @ ''.tmp'') u)"
proof -
  let ?tmp = "path @ ''.tmp''" and ?P = "save_scratch path"
  define bs where "bs = session_header sz h npk mtu @ (if bm \<noteq> [] then [bm] else [])"
  have bs: "concat bs = session_record sz h npk mtu bm" by (simp add: bs_def session_record_def)
  have P: "?P ?tmp" "?P SESSION_STATE_DIR" by (simp_all add: save_scratch_def)
  obtain d s1 where 1: "session_state_dir_ensure s = (d, s1)" by force
  obtain w s2 where 2: "fopen_w ?tmp s1 = (w, s2)" by force
  obtain ok s3 where 3: "write_all ?tmp bs True s2 = (ok, s3)" by force
  obtain fl s4 where 4: "fflush ?tmp s3 = (fl, s4)" by force
  obtain c s5 where 5: "fclose_w ?tmp s4 = (c, s5)" by force
  obtain rn s6 where 6: "rename ?tmp path s5 = (rn, s6)" by force
  have f1: "frame ?P s s1" using dir_ensure_frame [of ?P s] P 1 by simp
  have f2: "frame ?P s s2" using frame_trans [OF f1] frame_calls(3) [of ?P ?tmp s1] P 2 by simp
  have f3: "frame ?P s s3" using frame_trans [OF f2] write_all_frame [of ?P ?tmp s2 bs True] P 3 by simp
  have f4: "frame ?P s s4" using frame_trans [OF f3] frame_calls(5) [of ?P ?tmp s3] P 4 by simp
  have f5: "frame ?P s s5" using frame_trans [OF f4] frame_calls(6) [of ?P ?tmp s4] P 5 by simp
  have un: "frame ?P t (snd (unlink ?tmp t))" for t using frame_calls(7) [of ?P ?tmp t] P by simp
  have sv: "session_state_save path sz h npk mtu bm s =
      (if d \<noteq> 0 then (-1, s1) else if 640 \<le> length ?tmp then (-1, s1) else if \<not> w then (-1, s2)
       else if \<not> (ok \<and> fl) then (-1, snd (unlink ?tmp s5)) else if \<not> rn then (-1, snd (unlink ?tmp s6)) else (0, s6))"
    unfolding session_state_save_def Let_def bs_def [symmetric] using 1 2 3 4 5 6 by (simp add: split_def)
  consider "r = -1" "s' \<in> {s1, s2, snd (unlink ?tmp s5)}" | "r = -1" "\<not> rn" "s' = snd (unlink ?tmp s6)"
    | "r = 0" "w" "ok" "fl" "rn" "s' = s6"
    using assms unfolding sv by (auto split: if_splits)
  then show ?thesis
  proof cases
    case 1
    then show ?thesis using that(1) f1 f2 f5 un frame_trans by blast
  next
    case 2
    then have "frame ?P s5 s6" using rename_fail [of ?tmp path s5 s6 ?P] 6 by simp
    then have "frame ?P s s'" using frame_trans [OF frame_trans [OF f5] un] 2(3) by simp
    then show ?thesis using that(1) 2(1) by blast
  next
    case 3
    have "contents s3 ?tmp = Some (session_record sz h npk mtu bm)"
      using write_all_ok [of ?tmp bs True s2 s3 "[]"] fopen_w_empty 2 \<open>write_all ?tmp bs True s2 = (ok, s3)\<close> 3
      by (simp add: bs)
    then have w: "contents s4 ?tmp = Some (session_record sz h npk mtu bm)" using fflush_ok [of ?tmp s3 s4 ?tmp] 4 3 by simp
    then obtain k where k: "contents s5 ?tmp = Some (take k (session_record sz h npk mtu bm))"
      using fclose_prefix [of s4 ?tmp] 5 by auto
    have "rename ?tmp path s5 = (True, s')" "s5 = snd (fclose_w ?tmp s4)" using 3(5,6) 5 6 by simp_all
    from that(2) [OF 3(1) f5 this(1) k f4 w this(2)] show ?thesis .
  qed
qed


lemma frame_logD:
  assumes "frame P s s'" "f \<in> set (fs s' # fs_log s')" "\<not> P q"
  shows "map_of f q = map_of (fs s) q \<or> f \<in> set (fs_log s)"
  using assms by (auto simp: frame_def)

text \<open>
  Every file system a save leaves behind has the old file at the path, or, when the save succeeds, the
  file of its end, which has a prefix of the record.
\<close>

lemma save_states:
  assumes "session_state_save path sz h npk mtu bm s = (r, s')" "f \<in> set (fs s' # fs_log s')" "f \<notin> set (fs_log s)"
    "path \<noteq> SESSION_STATE_DIR"
  shows "map_of f path = map_of (fs s) path \<or> r = 0 \<and> map_of f path = map_of (fs s') path \<and>
    (\<exists>i k. map_of f path = Some i \<and> f_data i = take k (session_record sz h npk mtu bm))"
proof -
  have np: "\<not> save_scratch path path" using assms(4) by (simp add: save_scratch_def)
  from assms(1) show ?thesis
  proof (cases rule: save_cases)
    case 1
    then show ?thesis using frame_logD [of "save_scratch path" s s' f path] assms(2,3) np by blast
  next
    case (2 t k u)
    note rn = rename_result [OF 2(3)]
    have fl: "fs_log s' = fs s' # fs_log t" using rn(1) by simp
    obtain i where i: "lookup t (path @ ''.tmp'') = Some i" "f_data i = take k (session_record sz h npk mtu bm)"
      using 2(4) by (auto simp: contents_def)
    have "lookup s' path = Some i" using rn(2) i(1) by simp
    then have "map_of (fs s') path = Some i" by (simp add: lookup_def)
    moreover have "f = fs s' \<or> f \<in> set (fs s' # fs_log t)" using assms(2) fl by auto
    ultimately show ?thesis using i(2) frame_logD [of "save_scratch path" s t f path] 2(1,2) np assms(3) by auto
  qed
qed

lemma length_session_record: "length (session_record sz h npk mtu bm) = 81 + length bm"
  by (simp add: session_record_def session_header_def)

text \<open>A load with the parameters of the save accepts the whole record only.\<close>

lemma load_prefix:
  assumes "session_state_load path sz h npk mtu buf s = ((1, b), s')" "length buf = length bm"
    "contents s path = Some (take k (session_record sz h npk mtu bm))"
  shows "b = bm"
proof -
  from load_sound [OF assms(1)] assms(2,3) obtain hf res rest where
    e: "take k (session_record sz h npk mtu bm) = (le32 SESSION_STATE_FORMAT_VERSION @ le32 sz @ hf @ le32 npk @
      le16 mtu @ res) @ b @ rest" and l: "length hf = 65" "length res = 2" "length b = length bm" by auto
  let ?hd = "concat (session_header sz h npk mtu)"
  have hl: "length ?hd = 81" by (simp add: session_header_def)
  have "length (take k (session_record sz h npk mtu bm)) = 81 + length bm + length rest" unfolding e using l by simp
  then have "length rest = 0" "81 + length bm \<le> k" unfolding length_take length_session_record by (simp_all add: min_def split: if_splits)
  then have "rest = []" "take k (session_record sz h npk mtu bm) = session_record sz h npk mtu bm"
    using length_session_record [of sz h npk mtu bm] by simp_all
  then have "?hd @ bm = (le32 SESSION_STATE_FORMAT_VERSION @ le32 sz @ hf @ le32 npk @ le16 mtu @ res) @ b"
    using e by (simp add: session_record_def)
  then show ?thesis using hl l by (subst (asm) append_eq_append_conv) simp_all
qed

lemma dir_ensure_quiet:
  assumes "script s = []" "\<forall>d \<in> set [''/var'', ''/var/lib'', ''/var/lib/satdeploy'', SESSION_STATE_DIR]. lookup s d = None"
  shows "\<exists>s'. session_state_dir_ensure s = (0, s') \<and> script s' = [] \<and> fs s' = fs s \<and> dir_exists s' SESSION_STATE_DIR \<and>
    set (dirs s') \<subseteq> set (dirs s) \<union> set [''/var'', ''/var/lib'', ''/var/lib/satdeploy'', SESSION_STATE_DIR]"
proof -
  let ?c = "[''var'', ''lib'', ''satdeploy'', ''state'']"
  have p: "SESSION_STATE_DIR = path_of ?c" "comps_ok ?c" "length SESSION_STATE_DIR < MAX_PATH_LEN"
    by (simp_all add: SESSION_STATE_DIR_def path_of_def comps_ok_def MAX_PATH_LEN_def)
  have dp: "dir_prefixes SESSION_STATE_DIR = [''/var'', ''/var/lib'', ''/var/lib/satdeploy'', SESSION_STATE_DIR]"
    by (simp add: SESSION_STATE_DIR_def dir_prefixes_def upt_rec)
  from mkdir_p_path [OF assms(1) p(2), folded p(1), OF p(3)] assms(2) obtain s1 where
    m: "mkdir_p SESSION_STATE_DIR s = (0, s1)" "script s1 = []" "fs s1 = fs s" "dir_exists s1 SESSION_STATE_DIR"
    "set (dirs s1) \<subseteq> set (dirs s) \<union> set (dir_prefixes SESSION_STATE_DIR)"
    unfolding dp by blast
  have "lookup s1 SESSION_STATE_DIR = None" using m(3) assms(2) by (simp add: lookup_def)
  then have "snd (chmod SESSION_STATE_DIR 448 s1) = s1" using m(2) by (simp add: chmod_def io_simps)
  then show ?thesis using m unfolding session_state_dir_ensure_def dp by (auto simp: split_def)
qed

lemma save_quiet:
  assumes "script s = []" "\<forall>d \<in> set [''/var'', ''/var/lib'', ''/var/lib/satdeploy'', SESSION_STATE_DIR]. lookup s d = None"
    "session_state_path app 636 = Some path" "\<forall>d \<in> set (dirs s). dirname d \<noteq> SESSION_STATE_DIR"
  shows "\<exists>s'. session_state_save path sz h npk mtu bm s = (0, s') \<and> script s' = [] \<and>
    contents s' path = Some (session_record sz h npk mtu bm)"
proof -
  let ?tmp = "path @ ''.tmp''"
  define bs where "bs = session_header sz h npk mtu @ (if bm \<noteq> [] then [bm] else [])"
  have bs: "concat bs = session_record sz h npk mtu bm" by (simp add: bs_def session_record_def)
  note sp = state_path_dir [OF assms(3) [unfolded session_state_path_def] state_ext_plain(1)]
  have p: "path = SESSION_STATE_DIR @ CHR ''/'' # after_last CHR ''/'' path"
    using path_in_dir [OF sp(1)] by (simp add: SESSION_STATE_DIR_def)
  have "?tmp = SESSION_STATE_DIR @ CHR ''/'' # (after_last CHR ''/'' path @ ''.tmp'')"
    by (subst p) simp
  moreover have "CHR ''/'' \<notin> set (after_last CHR ''/'' path @ ''.tmp'')" by simp
  moreover have "SESSION_STATE_DIR \<noteq> []" by (simp add: SESSION_STATE_DIR_def)
  ultimately have dn: "dirname ?tmp = SESSION_STATE_DIR" using dirname_snoc by metis
  from dir_ensure_quiet [OF assms(1,2)] obtain s1 where 1: "session_state_dir_ensure s = (0, s1)" "script s1 = []"
    "fs s1 = fs s" "dir_exists s1 SESSION_STATE_DIR"
    "set (dirs s1) \<subseteq> set (dirs s) \<union> set [''/var'', ''/var/lib'', ''/var/lib/satdeploy'', SESSION_STATE_DIR]" by blast
  have nd: "\<not> dir_exists s1 q" if "dirname q = SESSION_STATE_DIR" for q
  proof -
    have "dirname d \<noteq> SESSION_STATE_DIR" if "d \<in> set [''/var'', ''/var/lib'', ''/var/lib/satdeploy'', SESSION_STATE_DIR, ''/'', ''.'']" for d
      using that by (auto simp: SESSION_STATE_DIR_def dirname_def)
    then show ?thesis using that 1(5) assms(4) by (auto simp: dir_exists_def)
  qed
  have cc: "can_create s1 ?tmp" "can_create s1 path"
    using nd dn sp(1) 1(4) p by (auto simp: can_create_def)
  then obtain s2 where 2: "fopen_w ?tmp s1 = (True, s2)" "script s2 = []" "contents s2 ?tmp = Some []" "dirs s2 = dirs s1"
    using 1(2) by (auto simp: fopen_w_def io_simps)
  from write_all_quiet [OF 2(2), of ?tmp bs True] obtain s3 where
    3: "write_all ?tmp bs True s2 = (True, s3)" "script s3 = []" "dirs s3 = dirs s2" by blast
  have c3: "contents s3 ?tmp = Some (session_record sz h npk mtu bm)"
    using write_all_ok [OF 3(1) 2(3)] bs by simp
  have fl: "fflush ?tmp s3 = (True, s3)" "fclose_w ?tmp s3 = (True, s3)"
    using 3(2) by (simp_all add: fflush_def fclose_w_def io_simps)
  have "can_create s3 path" using cc(2) 3(3) 2(4) by (simp add: can_create_def dir_exists_def)
  then obtain s4 where 4: "rename ?tmp path s3 = (True, s4)" "script s4 = []"
    using c3 3(2) by (auto simp: rename_def io_simps contents_def put_fs_def)
  then have "contents s4 path = Some (session_record sz h npk mtu bm)"
    using rename_result(2) [OF 4(1)] c3 by (simp add: contents_def)
  moreover have "session_state_save path sz h npk mtu bm s = (0, s4)"
    unfolding session_state_save_def Let_def bs_def [symmetric] using 1(1) 2(1) 3(1) fl 4(1) sp(3) by simp
  ultimately show ?thesis using 4(2) by blast
qed


section \<open>Properties\<close>

text \<open>
  C29: A transfer interrupted between passes resumes from what was saved: with no failing call, a
  state file saved under a safe application name is there, and loading it with the same size,
  hash, packet count and MTU returns 1 and exactly the saved bitmap.
\<close>

theorem session_save_load:
  assumes "script s = []" "\<forall>d \<in> set [''/var'', ''/var/lib'', ''/var/lib/satdeploy'', SESSION_STATE_DIR]. lookup s d = None"
    "session_state_path app 636 = Some path" "\<forall>d \<in> set (dirs s). dirname d \<noteq> SESSION_STATE_DIR"
    "length h \<le> 64" "CHR 0x00 \<notin> set h" "length buf = length bm"
  shows "\<exists>s'. session_state_save path sz h npk mtu bm s = (0, s') \<and>
    session_state_load path sz h npk mtu buf s' = ((1, bm), s')"
proof -
  from save_quiet [OF assms(1-4)] obtain s' where "session_state_save path sz h npk mtu bm s = (0, s')" "script s' = []"
    "contents s' path = Some (session_record sz h npk mtu bm)" by blast
  then show ?thesis using load_quiet [of s' path sz h npk mtu bm buf] assms(5-7)
    by (auto simp: session_record_def)
qed

lemma app_state_path: "session_state_path ''app'' 636 = Some ''/var/lib/satdeploy/state/app.dtpstate''"
  by (simp add: session_state_path_def state_path_def app_name_is_safe_def SESSION_STATE_DIR_def SESSION_STATE_EXT_def)

theorem session_save_load_witness:
  "\<exists>s'. session_state_save ''/var/lib/satdeploy/state/app.dtpstate'' 10 ''ab'' 9 2 [7, 1] (files_os []) = (0, s') \<and>
    session_state_load ''/var/lib/satdeploy/state/app.dtpstate'' 10 ''ab'' 9 2 [0, 0] s' = ((1, [7, 1]), s')"
  by (rule session_save_load [OF _ _ app_state_path]) (simp_all add: lookup_def files_os_def)

text \<open>
  C28: A save is atomic under failures and power loss. For every pattern of failing calls, in every file
  system that exists at any moment of the save the path has the old file, untouched, or the file it has
  at the end of a save that returns 0: there is one switch and nothing in between. A save that returns
  0 has written the whole record into \<open>path.tmp\<close>, flushed it, and renamed that file after closing it;
  the result of the \<open>fclose\<close> is not looked at, and should it have lost bytes of the record, a load
  with the same parameters refuses the file: it returns the saved bitmap or takes the old file.
\<close>

theorem session_save_crash_safe:
  assumes "session_state_save path sz h npk mtu bm s = (r, s')" "f \<in> set (fs s' # fs_log s')" "f \<notin> set (fs_log s)"
    "path \<noteq> SESSION_STATE_DIR"
  shows "(map_of f path = map_of (fs s) path \<or> r = 0 \<and> map_of f path = map_of (fs s') path) \<and>
    (r = 0 \<longrightarrow> (\<exists>t. frame (save_scratch path) s t \<and> contents t (path @ ''.tmp'') = Some (session_record sz h npk mtu bm) \<and>
       rename (path @ ''.tmp'') path (snd (fclose_w (path @ ''.tmp'') t)) = (True, s'))) \<and>
    (\<forall>buf t b t'. length buf = length bm \<longrightarrow> session_state_load path sz h npk mtu buf (t\<lparr>fs := f\<rparr>) = ((1, b), t') \<longrightarrow>
       map_of f path = map_of (fs s) path \<or> b = bm)"
proof -
  note st = save_states [OF assms]
  have "\<exists>t. frame (save_scratch path) s t \<and> contents t (path @ ''.tmp'') = Some (session_record sz h npk mtu bm) \<and>
       rename (path @ ''.tmp'') path (snd (fclose_w (path @ ''.tmp'') t)) = (True, s')" if "r = 0"
    using assms(1) by (cases rule: save_cases) (use that in auto)
  moreover have "map_of f path = map_of (fs s) path \<or> b = bm"
    if "length buf = length bm" "session_state_load path sz h npk mtu buf (t\<lparr>fs := f\<rparr>) = ((1, b), t')" for buf t b t'
    using st
  proof (elim disjE conjE exE)
    fix i k assume "map_of f path = Some i" "f_data i = take k (session_record sz h npk mtu bm)"
    then have "contents (t\<lparr>fs := f\<rparr>) path = Some (take k (session_record sz h npk mtu bm))" by (simp add: contents_def lookup_def)
    then show ?thesis using load_prefix [OF that(2,1)] by blast
  qed simp
  ultimately show ?thesis using st by blast
qed

theorem session_save_crash_safe_witness:
  "\<exists>s' t. session_state_save ''/var/lib/satdeploy/state/app.dtpstate'' 10 ''ab'' 9 2 [7, 1] (files_os []) = (0, s') \<and>
     contents t ''/var/lib/satdeploy/state/app.dtpstate.tmp'' = Some (session_record 10 ''ab'' 9 2 [7, 1]) \<and>
     rename ''/var/lib/satdeploy/state/app.dtpstate.tmp'' ''/var/lib/satdeploy/state/app.dtpstate''
       (snd (fclose_w ''/var/lib/satdeploy/state/app.dtpstate.tmp'' t)) = (True, s')"
proof -
  let ?p = "''/var/lib/satdeploy/state/app.dtpstate''"
  from save_quiet [OF _ _ app_state_path, of "files_os []" 10 "''ab''" 9 2 "[7, 1]"] obtain s' where
    s: "session_state_save ?p 10 ''ab'' 9 2 [7, 1] (files_os []) = (0, s')" by (auto simp: lookup_def files_os_def)
  have "fs s' \<in> set (fs s' # fs_log s')" "fs s' \<notin> set (fs_log (files_os []))" "?p \<noteq> SESSION_STATE_DIR"
    by (simp_all add: SESSION_STATE_DIR_def)
  from session_save_crash_safe [OF s this] s show ?thesis by auto
qed

text \<open>
  C30: Strict rejection. Whatever calls fail and whatever the file holds, a load that resumes has
  found the current format version, the expected size, hash, packet count and MTU in the header
  and a complete bitmap of the caller's length behind it.
\<close>

theorem session_load_strict:
  assumes "session_state_load path sz h npk mtu buf s = ((1, b), s')"
  shows "\<exists>hf res rest. contents s path = Some (le32 SESSION_STATE_FORMAT_VERSION @ le32 sz @ hf @ le32 npk @
      le16 mtu @ res @ b @ rest) \<and> length hf = 65 \<and> c_string hf = h \<and> length res = 2 \<and> length b = length buf"
  by (rule load_sound [OF assms])

theorem session_load_strict_witness:
  "\<exists>hf res rest. contents (files_os [(''/p'', session_record 10 ''ab'' 9 2 [7, 1])]) ''/p'' =
      Some (le32 SESSION_STATE_FORMAT_VERSION @ le32 10 @ hf @ le32 9 @ le16 2 @ res @ [7, 1] @ rest) \<and>
      length hf = 65 \<and> c_string hf = ''ab'' \<and> length res = 2 \<and> length ([7, 1] :: bytes) = length ([0, 0] :: bytes)"
  by (rule session_load_strict [OF load_quiet]) (simp_all add: session_record_def)

text \<open>
  State files stay in the state directory. A path that \<open>session_state_path\<close> or
  \<open>session_state_svu_path\<close> accepts is a direct entry of \<open>/var/lib/satdeploy/state\<close>
  that fits the buffer, and no two applications, and not the two kinds of state, share one.
\<close>

theorem session_paths_confined:
  assumes "session_state_path a n = Some p" "session_state_svu_path b m = Some q"
  shows "dirname p = SESSION_STATE_DIR \<and> dirname q = SESSION_STATE_DIR \<and> length p < n \<and> length q < m \<and> p \<noteq> q \<and>
    (\<forall>a'. session_state_path a' n = Some p \<longrightarrow> a' = a) \<and> (\<forall>b'. session_state_svu_path b' m = Some q \<longrightarrow> b' = b)"
proof -
  note p = state_path_dir [OF assms(1) [unfolded session_state_path_def] state_ext_plain(1)]
  note q = state_path_dir [OF assms(2) [unfolded session_state_svu_path_def] state_ext_plain(2)]
  have "last (a @ SESSION_STATE_EXT) \<noteq> last (b @ SESSION_SVU_EXT)"
    by (simp add: SESSION_STATE_EXT_def SESSION_SVU_EXT_def)
  then have "p \<noteq> q" using p(2) q(2) by metis
  moreover have "a' = a" if "session_state_path a' n = Some p" for a'
    using state_path_dir(2) [OF that [unfolded session_state_path_def] state_ext_plain(1)] p(2) by simp
  moreover have "b' = b" if "session_state_svu_path b' m = Some q" for b'
    using state_path_dir(2) [OF that [unfolded session_state_svu_path_def] state_ext_plain(2)] q(2) by simp
  ultimately show ?thesis using p q by blast
qed

theorem session_paths_confined_witness:
  "dirname ''/var/lib/satdeploy/state/app.dtpstate'' = SESSION_STATE_DIR \<and>
   dirname ''/var/lib/satdeploy/state/x.svupart'' = SESSION_STATE_DIR"
proof -
  have "session_state_svu_path ''x'' 640 = Some ''/var/lib/satdeploy/state/x.svupart''"
    by (simp add: session_state_svu_path_def state_path_def app_name_is_safe_def SESSION_STATE_DIR_def SESSION_SVU_EXT_def)
  from session_paths_confined [OF app_state_path this] show ?thesis by blast
qed

text \<open>
  The session id is the first four bytes, big-endian, of the SHA-256 of
  \<open>app_name:expected_hash\<close>, with 0 replaced by 1; it is never 0, which the transport
  reserves.
\<close>

theorem session_id_spec:
  "session_state_compute_id app h =
     (let d = sha256 (bytes_of (app @ '':'' @ h));
          i = push_bit 24 (ucast (d ! 0)) OR push_bit 16 (ucast (d ! 1)) OR push_bit 8 (ucast (d ! 2)) OR ucast (d ! 3)
      in if i = 0 then 1 else i) \<and> session_state_compute_id app h \<noteq> 0"
proof -
  have "sha256_final (sha256_update (sha256_update (sha256_update (sha256_init sha256_stack) (bytes_of app))
      (bytes_of '':'')) (bytes_of h)) = sha256 (bytes_of (app @ '':'' @ h))"
    using sha256_stack_digest [of "[bytes_of app, bytes_of '':'', bytes_of h]"] by (simp add: bytes_of_def)
  then show ?thesis by (simp add: session_state_compute_id_def Let_def)
qed

end
