(* ===== verification/Svu_Transfer.thy ===== *)
theory Svu_Transfer
  imports Svu_Session Session_State
begin

unbundle bit_operations_syntax

text \<open>
  The agent's transfer layer on the self-verifying uploader
  (\<open>satdeploy-agent/src/svu_transfer.c\<close>): the cross-pass sidecar, a 16-byte big-endian
  header and the raw reassembly buffer written at fragment offsets, and
  \<open>svu_download_file\<close>, which runs the client with the sidecar as its hooks. This is the
  flight build (\<open>SATDEPLOY_NAIVE_BASELINE\<close> undefined).

  The main results: without failing calls the sidecar restores exactly the receiver's buffer
  after any fragments, over any number of rounds, with or without an earlier pass's data; and a
  download that reports success has the ground's file, whatever the sidecar held.
\<close>

section \<open>Definitions\<close>

definition SVU_BLOCK_SIZE :: u32 where "SVU_BLOCK_SIZE = 4096"
definition SVU_MAX_ROUNDS :: u32 where "SVU_MAX_ROUNDS = 24"
definition SVU_SIDECAR_MAGIC :: u32 where "SVU_SIDECAR_MAGIC = 0x53565550"
definition SVU_SIDECAR_VERSION :: u32 where "SVU_SIDECAR_VERSION = 1"
definition SVU_SIDECAR_HDR :: nat where "SVU_SIDECAR_HDR = 16"

text \<open>The descriptor is the path it is open on; \<open>None\<close> is -1, persistence off.\<close>

record svu_sidecar_t =
  sc_fd :: "string option"
  sc_total :: u32
  sc_path :: string

definition sidecar_put32 :: "u32 \<Rightarrow> bytes" where
  "sidecar_put32 v = [ucast (drop_bit 24 v), ucast (drop_bit 16 v), ucast (drop_bit 8 v), ucast v]"

definition sidecar_get32 :: "bytes \<Rightarrow> nat \<Rightarrow> u32" where
  "sidecar_get32 b p = push_bit 24 (ucast (b ! p)) OR push_bit 16 (ucast (b ! (p + 1))) OR
     push_bit 8 (ucast (b ! (p + 2))) OR ucast (b ! (p + 3))"

definition sidecar_header :: "u32 \<Rightarrow> u32 \<Rightarrow> bytes" where
  "sidecar_header tot block = sidecar_put32 SVU_SIDECAR_MAGIC @ sidecar_put32 SVU_SIDECAR_VERSION @
     sidecar_put32 tot @ sidecar_put32 block"

definition sidecar_write_header :: "string \<Rightarrow> u32 \<Rightarrow> u32 \<Rightarrow> os \<Rightarrow> int \<times> os" where
  "sidecar_write_header fd tot block s =
     (case pwrite fd (sidecar_header tot block) 0 s of
        (n, s) \<Rightarrow> (if n = SVU_SIDECAR_HDR then 0 else -1, s))"

text \<open>\<open>mem n\<close>: whether \<open>calloc(1, n)\<close> succeeds.\<close>

definition sidecar_restore ::
  "(u32 \<Rightarrow> bool) \<Rightarrow> svu_sidecar_t \<Rightarrow> os \<Rightarrow> (bytes \<times> u32) option \<times> svu_sidecar_t \<times> os" where
  "sidecar_restore mem sc s =
     (if sc_path sc = [] then (None, sc, s)
      else case open_rw (sc_path sc) s of
        (None, s) \<Rightarrow> (None, sc, s)
      | (Some fd, s) \<Rightarrow>
          (case pread fd SVU_SIDECAR_HDR 0 s of (h, s) \<Rightarrow>
             let hdr = (case h of Some x \<Rightarrow> x | None \<Rightarrow> [])
             in if length hdr \<noteq> SVU_SIDECAR_HDR \<or> sidecar_get32 hdr 0 \<noteq> SVU_SIDECAR_MAGIC \<or>
                   sidecar_get32 hdr 4 \<noteq> SVU_SIDECAR_VERSION \<or> sidecar_get32 hdr 8 = 0
                then let (_, s) = unlink (sc_path sc) s in (None, sc, s)
                else let tot = sidecar_get32 hdr 8
                in if \<not> mem tot then (None, sc, s)
                else (case pread fd (unat tot) SVU_SIDECAR_HDR s of
                        (None, s) \<Rightarrow> let (_, s) = unlink (sc_path sc) s in (None, sc, s)
                      | (Some got, s) \<Rightarrow>
                          (Some (got @ replicate (unat tot - length got) 0, tot),
                           sc\<lparr>sc_fd := Some fd, sc_total := tot\<rparr>, s))))"

definition sidecar_shape :: "u32 \<Rightarrow> u32 \<Rightarrow> string \<Rightarrow> svu_sidecar_t \<Rightarrow> os \<Rightarrow> svu_sidecar_t \<times> os" where
  "sidecar_shape tot block fd sc s =
     (let sc = sc\<lparr>sc_fd := Some fd, sc_total := tot\<rparr>
      in case sidecar_write_header fd tot block s of
           (r, s) \<Rightarrow> if r \<noteq> 0 then (sc\<lparr>sc_fd := None\<rparr>, s) else (sc, s))"

definition sidecar_meta :: "u32 \<Rightarrow> u32 \<Rightarrow> svu_sidecar_t \<Rightarrow> os \<Rightarrow> svu_sidecar_t \<times> os" where
  "sidecar_meta tot block sc s =
     (case sc_fd sc of
        None \<Rightarrow>
          if sc_path sc = [] then (sc, s)
          else (case open_creat (sc_path sc) 384 s of
                  (None, s) \<Rightarrow> (sc, s)
                | (Some fd, s) \<Rightarrow> sidecar_shape tot block fd sc s)
      | Some fd \<Rightarrow>
          if sc_total sc \<noteq> tot
          then let (_, s) = ftruncate0 fd s in sidecar_shape tot block fd sc s
          else sidecar_shape tot block fd sc s)"

definition sidecar_data :: "u32 \<Rightarrow> bytes \<Rightarrow> svu_sidecar_t \<Rightarrow> os \<Rightarrow> svu_sidecar_t \<times> os" where
  "sidecar_data offset buf sc s =
     (case sc_fd sc of
        None \<Rightarrow> (sc, s)
      | Some fd \<Rightarrow>
          if offset > sc_total sc \<or> length buf > unat (sc_total sc - offset) then (sc, s)
          else (case pwrite fd buf (SVU_SIDECAR_HDR + unat offset) s of
                  (n, s) \<Rightarrow>
                    if n \<noteq> length buf
                    then let (_, s) = unlink (sc_path sc) s in (sc\<lparr>sc_fd := None\<rparr>, s)
                    else (sc, s)))"

definition sidecar_complete :: "svu_sidecar_t \<Rightarrow> os \<Rightarrow> svu_sidecar_t \<times> os" where
  "sidecar_complete sc s =
     (if sc_path sc \<noteq> []
      then let (_, s) = unlink (sc_path sc) s in (sc\<lparr>sc_fd := None\<rparr>, s)
      else (sc\<lparr>sc_fd := None\<rparr>, s))"

definition sidecar_hooks :: "(u32 \<Rightarrow> bool) \<Rightarrow> svu_sidecar_t svu_client_hooks" where
  "sidecar_hooks mem = \<lparr>hk_restore = Some (sidecar_restore mem), hk_meta = Some sidecar_meta,
     hk_data = Some sidecar_data, hk_complete = Some sidecar_complete\<rparr>"

definition no_sidecar :: svu_sidecar_t where
  "no_sidecar = \<lparr>sc_fd = None, sc_total = 0, sc_path = []\<rparr>"

text \<open>The choice of hooks: a usable name and state directory, or none.\<close>

definition sidecar_setup ::
  "(u32 \<Rightarrow> bool) \<Rightarrow> string option \<Rightarrow> os \<Rightarrow> svu_sidecar_t svu_client_hooks option \<times> svu_sidecar_t \<times> os" where
  "sidecar_setup mem app_name s =
     (case app_name of
        None \<Rightarrow> (None, no_sidecar, s)
      | Some a \<Rightarrow>
          (case session_state_dir_ensure s of (r, s) \<Rightarrow>
             if r \<noteq> 0 then (None, no_sidecar, s)
             else (case session_state_svu_path a 640 of
                     None \<Rightarrow> (None, no_sidecar, s)
                   | Some p \<Rightarrow> (Some (sidecar_hooks mem), no_sidecar\<lparr>sc_path := p\<rparr>, s))))"

text \<open>
  The link stands for the server node. \<open>None\<close>: the client does not return. (A destination
  that is a directory cannot get past the client's \<open>fopen\<close>.)
\<close>

definition svu_download_file ::
  "'e link \<Rightarrow> bool \<Rightarrow> (u32 \<Rightarrow> bool) \<Rightarrow> u32 \<Rightarrow> string \<Rightarrow> u32 \<Rightarrow> string option \<Rightarrow> u16 \<Rightarrow> os \<Rightarrow> 'e \<Rightarrow>
     (int \<times> os \<times> 'e) option" where
  "svu_download_file lk oom mem server_node dest_path expected_size app_name mtu s e =
     (if dest_path = [] then Some (-1, s, e)
      else if server_node > 65535 then Some (-1, s, e)
      else let use_mtu = (if mtu \<noteq> 0 then ucast mtu else 1024);
               (hooks, sc, s) = sidecar_setup mem app_name s
           in (case svu_client_run_hooked lk oom SVU_BLOCK_SIZE use_mtu SVU_MAX_ROUNDS dest_path hooks sc s e of
                 None \<Rightarrow> None
               | Some (rc, sc, s, e) \<Rightarrow>
                   if rc \<noteq> 0 then Some (-1, s, e)
                   else if expected_size \<noteq> 0 then
                     (case stat dest_path s of
                        (Is_reg f, s) \<Rightarrow> if of_nat (length (f_data f)) \<noteq> expected_size then Some (-1, s, e)
                                        else Some (0, s, e)
                      | (_, s) \<Rightarrow> Some (-1, s, e))
                   else Some (0, s, e)))"

section \<open>The sidecar file\<close>

lemma length_sidecar_put32 [simp]: "length (sidecar_put32 v) = 4"
  by (simp add: sidecar_put32_def)

lemma length_sidecar_header [simp]: "length (sidecar_header t b) = 16"
  by (simp add: sidecar_header_def)

lemma sidecar_get_put [simp]: "sidecar_get32 (sidecar_put32 v) 0 = v"
proof (rule bit_word_eqI)
  fix n assume n: "n < LENGTH(32)"
  then consider "n < 8" | "8 \<le> n" "n < 16" | "16 \<le> n" "n < 24" | "24 \<le> n" "n < 32"
    by fastforce
  then show "bit (sidecar_get32 (sidecar_put32 v) 0) n = bit v n"
    by cases (auto simp: sidecar_put32_def sidecar_get32_def bit_simps nth_Cons_numeral)
qed

lemma sidecar_get_append:
  "p + 4 \<le> length a \<Longrightarrow> sidecar_get32 (a @ b) p = sidecar_get32 a p"
  "sidecar_get32 (a @ b) (length a + p) = sidecar_get32 b p"
  by (simp_all add: sidecar_get32_def nth_append)

definition header_ok :: "bytes \<Rightarrow> u32 \<Rightarrow> bool" where
  "header_ok h tot \<longleftrightarrow> length h = 16 \<and> sidecar_get32 h 0 = SVU_SIDECAR_MAGIC \<and>
     sidecar_get32 h 4 = SVU_SIDECAR_VERSION \<and> sidecar_get32 h 8 = tot"

lemma sidecar_header_ok: "header_ok (sidecar_header t b) t"
proof -
  have "sidecar_get32 (sidecar_header t b) 4 = sidecar_get32 (sidecar_put32 SVU_SIDECAR_VERSION) 0"
    using sidecar_get_append(2) [of "sidecar_put32 SVU_SIDECAR_MAGIC" _ 0]
    by (simp add: sidecar_header_def sidecar_get_append(1))
  moreover have "sidecar_get32 (sidecar_header t b) 8 = sidecar_get32 (sidecar_put32 t) 0"
    using sidecar_get_append(2) [of "sidecar_put32 SVU_SIDECAR_MAGIC @ sidecar_put32 SVU_SIDECAR_VERSION" _ 0]
    by (simp add: sidecar_header_def sidecar_get_append(1))
  ultimately show ?thesis by (simp add: header_ok_def sidecar_header_def sidecar_get_append(1))
qed

text \<open>What \<open>sidecar_restore\<close> makes of the bytes behind the header: cut or zero-filled.\<close>

definition pad :: "nat \<Rightarrow> bytes \<Rightarrow> bytes" where
  "pad n f = take n f @ replicate (n - length f) 0"

lemma length_pad [simp]: "length (pad n f) = n"
  by (simp add: pad_def)

lemma nth_pad: "i < n \<Longrightarrow> pad n f ! i = (if i < length f then f ! i else 0)"
  by (simp add: pad_def nth_append)

lemma pad_seg: "seg 0 n f @ replicate (n - length (seg 0 n f)) 0 = pad n f"
  by (auto simp: pad_def seg_def min_def)

lemma nth_pwrite:
  assumes "i < max (off + length b) (length f)" "b \<noteq> []"
  shows "pwrite_bytes off b f ! i =
    (if off \<le> i \<and> i < off + length b then b ! (i - off) else if i < length f then f ! i else 0)"
  using assms by (auto simp: pwrite_bytes_def nth_append min_def)

lemma length_pwrite: "b \<noteq> [] \<Longrightarrow> length (pwrite_bytes off b f) = max (off + length b) (length f)"
  by (auto simp: pwrite_bytes_def)

lemma pad_pwrite:
  assumes "off + length b \<le> n" "b \<noteq> []"
  shows "pad n (pwrite_bytes off b f) = blit off b (pad n f)"
proof (rule nth_equalityI)
  fix i assume "i < length (pad n (pwrite_bytes off b f))"
  then show "pad n (pwrite_bytes off b f) ! i = blit off b (pad n f) ! i"
    using assms by (auto simp: nth_pad nth_blit length_pwrite nth_pwrite)
qed (use assms in simp)

lemma pwrite_behind: "length h = k \<Longrightarrow> pwrite_bytes (k + off) b (h @ f) = h @ pwrite_bytes off b f"
  by (auto simp: pwrite_bytes_def)

lemma pwrite_over: "length b = length h \<Longrightarrow> pwrite_bytes 0 b (h @ f) = b @ f"
  by (auto simp: pwrite_bytes_def)


section \<open>The sidecar mirrors the receiver\<close>

definition sidecar_file :: "os \<Rightarrow> string \<Rightarrow> u32 \<Rightarrow> bytes \<Rightarrow> bool" where
  "sidecar_file s p tot d \<longleftrightarrow>
     (\<exists>h f. contents s p = Some (h @ f) \<and> header_ok h tot \<and> d = pad (unat tot) f)"

lemma restore_sidecar_file:
  assumes "script s = []" "sidecar_file s p tot d" "mem tot" "tot \<noteq> 0" "p \<noteq> []" "sc_path sc = p"
  shows "sidecar_restore mem sc s = (Some (d, tot), sc\<lparr>sc_fd := Some p, sc_total := tot\<rparr>, s)"
proof -
  obtain h f where hf: "contents s p = Some (h @ f)" "header_ok h tot" "d = pad (unat tot) f"
    using assms(2) by (auto simp: sidecar_file_def)
  have h: "length h = 16" "seg 0 16 (h @ f) = h" "seg 16 n (h @ f) = seg 0 n f" for n
    using hf(2) by (simp_all add: header_ok_def seg_def)
  have lk: "lookup s p \<noteq> None" using hf(1) by (auto simp: contents_def)
  show ?thesis
    using assms hf h lk pad_seg [of "unat tot" f]
    by (auto simp: sidecar_restore_def open_rw_def pread_def io_simps SVU_SIDECAR_HDR_def header_ok_def Let_def)
qed

lemma restore_quiet_cases:
  assumes "script s = []" "sidecar_restore mem sc s = (r, sc', s')" "sc_path sc \<noteq> []" "sc_fd sc = None"
  shows "script s' = [] \<and> dirs s' = dirs s \<and> sc_path sc' = sc_path sc \<and>
    (case r of None \<Rightarrow> sc_fd sc' = None
     | Some (b, n) \<Rightarrow> sc_fd sc' = Some (sc_path sc) \<and> sc_total sc' = n \<and> n \<noteq> 0 \<and> sidecar_file s' (sc_path sc) n b)"
proof (cases "r")
  case None
  then show ?thesis
    using assms by (auto simp: sidecar_restore_def open_rw_def pread_def unlink_def io_simps Let_def
        split: if_splits option.splits)
next
  case (Some bn)
  let ?p = "sc_path sc"
  obtain d where d: "contents s ?p = Some d"
    using assms Some by (auto simp: sidecar_restore_def open_rw_def io_simps contents_def split: if_splits)
  let ?h = "seg 0 16 d"
  have h: "length ?h = 16" "sidecar_get32 ?h 0 = SVU_SIDECAR_MAGIC" "sidecar_get32 ?h 4 = SVU_SIDECAR_VERSION"
    "sidecar_get32 ?h 8 \<noteq> 0"
    and r: "r = Some (seg 16 (unat (sidecar_get32 ?h 8)) d @
        replicate (unat (sidecar_get32 ?h 8) - length (seg 16 (unat (sidecar_get32 ?h 8)) d)) 0, sidecar_get32 ?h 8)"
      "sc' = sc\<lparr>sc_fd := Some ?p, sc_total := sidecar_get32 ?h 8\<rparr>" "s' = s"
    using assms Some d by (auto simp: sidecar_restore_def open_rw_def pread_def unlink_def io_simps Let_def SVU_SIDECAR_HDR_def
        split: if_splits)
  have "d = ?h @ drop 16 d" "seg 16 n d = seg 0 n (drop 16 d)" for n by (simp_all add: seg_def)
  then have "sidecar_file s ?p (sidecar_get32 ?h 8) (fst bn)"
    using h r(1) Some d pad_seg [of _ "drop 16 d"] unfolding sidecar_file_def header_ok_def
    by (intro exI [of _ ?h] exI [of _ "drop 16 d"]) auto
  then show ?thesis using r h Some assms(1) by auto
qed

lemma shape_quiet:
  assumes "script s = []" "contents s p = Some d" "d = [] \<or> (\<exists>h. header_ok h t' \<and> d = h @ f)" "d = [] \<longrightarrow> f = []"
  shows "\<exists>s'. sidecar_shape tot block p sc s = (sc\<lparr>sc_fd := Some p, sc_total := tot\<rparr>, s') \<and> script s' = [] \<and>
    dirs s' = dirs s \<and> sidecar_file s' p tot (pad (unat tot) f)"
proof -
  let ?h = "sidecar_header tot block"
  obtain i where i: "lookup s p = Some i" "f_data i = d" using assms(2) by (auto simp: contents_def)
  define s' where "s' = store p (i\<lparr>f_data := pwrite_bytes 0 ?h d, f_mtime := clock s\<rparr>) s"
  have w: "pwrite p ?h 0 s = (16, s')" using assms(1) i by (simp add: pwrite_def io_simps s'_def)
  have "pwrite_bytes 0 ?h d = ?h @ f"
  proof (cases "d = []")
    case True
    then show ?thesis using assms(4) by (simp add: pwrite_bytes_def)
  next
    case False
    then obtain h where "header_ok h t'" "d = h @ f" using assms(3) by blast
    then show ?thesis by (simp add: pwrite_over header_ok_def)
  qed
  then have "contents s' p = Some (?h @ f)" by (simp add: s'_def)
  then have "sidecar_file s' p tot (pad (unat tot) f)"
    unfolding sidecar_file_def using sidecar_header_ok by blast
  moreover have "script s' = []" "dirs s' = dirs s" using assms(1) by (simp_all add: s'_def)
  ultimately show ?thesis using w
    by (simp add: sidecar_shape_def sidecar_write_header_def SVU_SIDECAR_HDR_def)
qed

text \<open>
  \<open>mirror p x\<close>: the sidecar at \<open>p\<close> is open and holds the receiver's buffer;
  \<open>fresh p cl\<close>: before the first manifest, it holds the data to be resumed, if any.
\<close>

definition mirror :: "string \<Rightarrow> svu_sidecar_t rx_state \<Rightarrow> bool" where
  "mirror p x \<longleftrightarrow> script (rx_os x) = [] \<and> sc_fd (rx_ctx x) = Some p \<and> sc_path (rx_ctx x) = p \<and>
     (\<exists>r. rx_recv x = Some r \<and> length (s_data r) = unat (s_total r) \<and> s_total r \<noteq> 0 \<and> sc_total (rx_ctx x) = s_total r \<and>
        sidecar_file (rx_os x) p (s_total r) (s_data r))"

definition fresh :: "string \<Rightarrow> (svu_sidecar_t, 'e) client \<Rightarrow> bool" where
  "fresh p cl \<longleftrightarrow> script (rx_os (cl_rx cl)) = [] \<and> sc_path (rx_ctx (cl_rx cl)) = p \<and> p \<noteq> [] \<and>
     can_create (rx_os (cl_rx cl)) p \<and> rx_recv (cl_rx cl) = None \<and>
     (case cl_seed cl of
        None \<Rightarrow> sc_fd (rx_ctx (cl_rx cl)) = None
      | Some (b, n) \<Rightarrow> sc_fd (rx_ctx (cl_rx cl)) = Some p \<and> sc_total (rx_ctx (cl_rx cl)) = n \<and> n \<noteq> 0 \<and>
          sidecar_file (rx_os (cl_rx cl)) p n b)"

lemma meta_fresh:
  assumes "script s = []" "can_create s p" "p \<noteq> []" "sc_path sc = p" "sc_fd sc = None"
  shows "\<exists>s'. sidecar_meta tot block sc s = (sc\<lparr>sc_fd := Some p, sc_total := tot\<rparr>, s') \<and> script s' = [] \<and>
    sidecar_file s' p tot (replicate (unat tot) 0)"
proof -
  obtain s1 where s1: "open_creat p 384 s = (Some p, s1)" "script s1 = []" "contents s1 p = Some []"
    using assms(1,2) by (auto simp: open_creat_def io_simps)
  from shape_quiet [OF s1(2,3), of tot "[]" tot block sc] show ?thesis
    using assms(3-5) s1(1) by (auto simp: sidecar_meta_def pad_def)
qed

lemma meta_resumed:
  assumes "script s = []" "sc_path sc = p" "sc_fd sc = Some p" "sidecar_file s p (sc_total sc) b"
  shows "\<exists>s'. sidecar_meta tot block sc s = (sc\<lparr>sc_fd := Some p, sc_total := tot\<rparr>, s') \<and> script s' = [] \<and>
    sidecar_file s' p tot (if sc_total sc = tot then b else replicate (unat tot) 0)"
proof -
  obtain h f where hf: "contents s p = Some (h @ f)" "header_ok h (sc_total sc)" "b = pad (unat (sc_total sc)) f"
    using assms(4) by (auto simp: sidecar_file_def)
  show ?thesis
  proof (cases "sc_total sc = tot")
    case True
    have "h @ f \<noteq> []" using hf(2) by (auto simp: header_ok_def)
    then obtain s' where "sidecar_shape tot block p sc s = (sc\<lparr>sc_fd := Some p, sc_total := tot\<rparr>, s')" "script s' = []"
      "sidecar_file s' p tot (pad (unat tot) f)"
      using shape_quiet [OF assms(1) hf(1), of "sc_total sc" f tot block sc] hf(2) by blast
    then show ?thesis using True hf(3) assms(3) by (auto simp: sidecar_meta_def)
  next
    case False
    let ?s = "truncate_file p 0 s"
    have t: "ftruncate0 p s = (True, ?s)" using assms(1) by (simp add: ftruncate0_def io_simps)
    have c: "script ?s = []" "contents ?s p = Some []" using assms(1) hf(1) by simp_all
    from shape_quiet [OF c, of tot "[]" tot block sc] show ?thesis
      using False t assms(3) by (auto simp: sidecar_meta_def pad_def)
  qed
qed

lemma cover_bytes_data: "s_data (fold cover_byte xs r) = s_data r \<and> s_total (fold cover_byte xs r) = s_total r"
  by (induction xs arbitrary: r) (simp_all add: cover_byte_def)

lemma accept_data:
  assumes "length (s_data r) = unat (s_total r)"
  obtains "unat (s_total r) < unat off + length d" "ci_svu_accept (Some r) off (Some d) = (-1, Some r)"
  | r' where "unat off + length d \<le> unat (s_total r)" "ci_svu_accept (Some r) off (Some d) = (0, Some r')"
      "s_total r' = s_total r" "s_data r' = blit (unat off) d (s_data r)"
proof (cases "unat off + length d \<le> unat (s_total r)")
  case True
  let ?c = "fold cover_byte [unat off..<unat off + length d] r"
  let ?r = "if length d > 0 then ?c\<lparr>s_data := blit (unat off) d (s_data ?c)\<rparr> else ?c"
  have "ci_svu_accept (Some r) off (Some d) = (0, Some ?r)"
    using True by (simp add: ci_svu_accept_def Let_def)
  moreover have "s_total ?r = s_total r" "s_data ?r = blit (unat off) d (s_data r)"
    using cover_bytes_data [of "[unat off..<unat off + length d]" r] by (simp_all add: blit_def)
  ultimately show thesis using that(2) True by blast
next
  case False
  then show thesis using that(1) by (simp add: ci_svu_accept_def)
qed

lemma setup_mirror:
  assumes "fresh p cl" "setup_recv oom (Some (sidecar_hooks mem)) m cl = (True, cl')"
  shows "mirror p (cl_rx cl')"
proof -
  let ?x = "cl_rx cl" and ?t = "mt_total m"
  obtain r where r: "ci_svu_new oom ?t (mt_block m) (Some (mt_manifest m)) (mt_nblocks m) = Some r"
    using assms by (auto simp: setup_recv_def fresh_def split: option.splits)
  have wf: "s_total r = ?t" "s_data r = replicate (unat ?t) 0" "?t \<noteq> 0"
    using r by (auto simp: ci_svu_new_def ci_svu_nblocks_def Let_def split: if_splits)
  note defs = setup_recv_def fresh_def mirror_def meta_hook_def sidecar_hooks_def
  show ?thesis
  proof (cases "cl_seed cl")
    case None
    from assms(1) None obtain s' where
      "sidecar_meta ?t (mt_block m) (rx_ctx ?x) (rx_os ?x) = (rx_ctx ?x\<lparr>sc_fd := Some p, sc_total := ?t\<rparr>, s')"
      "script s' = []" "sidecar_file s' p ?t (replicate (unat ?t) 0)"
      using meta_fresh [of "rx_os ?x" p "rx_ctx ?x" ?t "mt_block m"] by (auto simp: fresh_def)
    then show ?thesis using assms None r wf by (auto simp: defs)
  next
    case (Some bn)
    obtain b n where bn: "bn = (b, n)" by force
    have f: "script (rx_os ?x) = []" "sc_path (rx_ctx ?x) = p" "sc_fd (rx_ctx ?x) = Some p"
      "sc_total (rx_ctx ?x) = n" "sidecar_file (rx_os ?x) p n b" "rx_recv ?x = None"
      using assms(1) Some bn by (auto simp: fresh_def)
    then have lb: "length b = unat n" by (auto simp: sidecar_file_def)
    from meta_resumed [OF f(1-3)] f(4,5) obtain s' where m:
      "sidecar_meta ?t (mt_block m) (rx_ctx ?x) (rx_os ?x) = (rx_ctx ?x\<lparr>sc_fd := Some p, sc_total := ?t\<rparr>, s')"
      "script s' = []" "sidecar_file s' p ?t (if n = ?t then b else replicate (unat ?t) 0)" by metis
    show ?thesis
    proof (cases "n = ?t")
      case True
      from accept_data [of r 0 b] obtain r' where "ci_svu_accept (Some r) 0 (Some b) = (0, Some r')"
        "s_total r' = ?t" "s_data r' = blit 0 b (s_data r)"
        using wf lb True by auto
      moreover have "blit 0 b (s_data r) = b" using wf(2) lb True by (simp add: blit_def)
      ultimately show ?thesis using assms(2) Some bn f m r wf True lb by (auto simp: defs)
    next
      case False
      then show ?thesis using assms(2) Some bn f m r wf by (auto simp: defs)
    qed
  qed
qed

lemma drain_mirror:
  assumes "mirror p x"
  shows "mirror p (fst (drain_packet (Some (sidecar_hooks mem)) pkt (x, n)))"
proof (cases "length pkt > SVU_DATA_HDR")
  case True
  let ?off = "svu_get32 pkt 0" and ?d = "drop SVU_DATA_HDR pkt"
  obtain r where r: "rx_recv x = Some r" "length (s_data r) = unat (s_total r)" "s_total r \<noteq> 0"
    "sc_total (rx_ctx x) = s_total r" "sidecar_file (rx_os x) p (s_total r) (s_data r)"
    using assms by (auto simp: mirror_def)
  have x: "script (rx_os x) = []" "sc_fd (rx_ctx x) = Some p" "sc_path (rx_ctx x) = p"
    using assms by (auto simp: mirror_def)
  show ?thesis
  proof (rule accept_data [OF r(2), of ?off ?d])
    assume "ci_svu_accept (Some r) ?off (Some ?d) = (-1, Some r)"
    then show ?thesis using True r x by (auto simp: drain_packet_def Let_def mirror_def)
  next
    fix r' assume a: "unat ?off + length ?d \<le> unat (s_total r)" "ci_svu_accept (Some r) ?off (Some ?d) = (0, Some r')"
      "s_total r' = s_total r" "s_data r' = blit (unat ?off) ?d (s_data r)"
    obtain h f i where hf: "lookup (rx_os x) p = Some i" "f_data i = h @ f" "header_ok h (s_total r)"
      "s_data r = pad (unat (s_total r)) f"
      using r(5) by (auto simp: sidecar_file_def contents_def)
    define s' where "s' = store p (i\<lparr>f_data := pwrite_bytes (16 + unat ?off) ?d (h @ f), f_mtime := clock (rx_os x)\<rparr>) (rx_os x)"
    have "\<not> ?off > s_total r" "\<not> length ?d > unat (s_total r - ?off)"
      using a(1) by (auto simp: word_less_nat_alt unat_sub32 word_le_nat_alt)
    moreover have "pwrite p ?d (16 + unat ?off) (rx_os x) = (length ?d, s')"
      using x hf by (simp add: pwrite_def io_simps s'_def)
    ultimately have dh: "sidecar_data ?off ?d (rx_ctx x) (rx_os x) = (rx_ctx x, s')"
      using x r(4) by (simp add: sidecar_data_def SVU_SIDECAR_HDR_def)
    have "pwrite_bytes (16 + unat ?off) ?d (h @ f) = h @ pwrite_bytes (unat ?off) ?d f"
      using hf(3) by (intro pwrite_behind) (simp add: header_ok_def)
    moreover have "pad (unat (s_total r)) (pwrite_bytes (unat ?off) ?d f) = s_data r'"
      unfolding a(4) hf(4) using a(1) True by (intro pad_pwrite) (auto simp: SVU_DATA_HDR_def)
    ultimately have "sidecar_file s' p (s_total r) (s_data r')"
      using hf(3) unfolding sidecar_file_def s'_def
      by (intro exI [of _ h] exI [of _ "pwrite_bytes (unat ?off) ?d f"]) simp
    moreover have "length (s_data r') = unat (s_total r)" unfolding a(4) using a(1) r(2) by simp
    moreover have "script s' = []" using x(1) by (simp add: s'_def)
    ultimately show ?thesis
      using True r x a(2,3) dh by (auto simp: drain_packet_def Let_def mirror_def data_hook_def sidecar_hooks_def)
  qed
qed (use assms in \<open>simp add: drain_packet_def\<close>)


lemma setup_keeps:
  assumes "setup_recv oom hooks m cl = (b, cl')"
  shows "\<not> b \<Longrightarrow> cl_rx cl' = cl_rx cl \<and> cl_seed cl' = cl_seed cl" "rx_recv (cl_rx cl) \<noteq> None \<Longrightarrow> b \<and> cl' = cl"
  using assms by (auto simp: setup_recv_def split: option.splits prod.splits)

lemma round_mirror:
  assumes "fresh p cl \<or> mirror p (cl_rx cl)" "client_round lk oom (Some (sidecar_hooks mem)) bs mtu cl = Some (res, cl')"
  shows "fresh p cl' \<or> mirror p (cl_rx cl')"
proof -
  let ?hk = "Some (sidecar_hooks mem)"
  obtain mo e where a: "ctrl_attempts 8 lk (make_req bs mtu (cl_nreq cl) (cl_ivs cl)) (cl_env cl) = (mo, e)" by force
  have k: "fresh p (cl\<lparr>cl_env := e\<rparr>) \<or> mirror p (cl_rx (cl\<lparr>cl_env := e\<rparr>))"
    using assms(1) by (auto simp: fresh_def split: option.splits)
  show ?thesis
  proof (cases mo)
    case None
    then show ?thesis using k assms(2) a by (auto simp: client_round_def)
  next
    case (Some m)
    obtain b cl1 where s: "setup_recv oom ?hk m (cl\<lparr>cl_env := e\<rparr>) = (b, cl1)" by force
    show ?thesis
    proof (cases b)
      case False
      then have "cl' = cl1" using assms(2) a Some s by (auto simp: client_round_def)
      then show ?thesis using k setup_keeps(1) [OF s False] by (auto simp: fresh_def split: option.splits)
    next
      case True
      have m1: "mirror p (cl_rx cl1)"
        using k setup_mirror [of p "cl\<lparr>cl_env := e\<rparr>"] s True setup_keeps(2) [OF s] by (auto simp: mirror_def)
      from True obtain y where d: "drain_rounds lk ?hk (cl_ivs cl1) (cl_rx cl1) (cl_env cl1) = Some y"
        using assms(2) a Some s by (auto simp: client_round_def split: option.splits)
      have "mirror p (fst (snd (snd (snd y))))"
        using drain_rounds_inv [OF d, of "mirror p"] drain_mirror m1 by blast
      then show ?thesis using assms(2) a Some s True d
        by (auto simp: client_round_def Let_def split: if_splits prod.splits)
    qed
  qed
qed

lemma rounds_mirror:
  "fresh p cl \<or> mirror p (cl_rx cl) \<Longrightarrow>
    client_rounds n lk oom (Some (sidecar_hooks mem)) bs mtu cl = Some (b, cl') \<Longrightarrow> fresh p cl' \<or> mirror p (cl_rx cl')"
proof (induction n arbitrary: cl)
  case (Suc n)
  obtain res cl1 where c: "client_round lk oom (Some (sidecar_hooks mem)) bs mtu cl = Some (res, cl1)"
    using Suc.prems(2) by (auto split: option.splits)
  show ?case using Suc.prems(2) c Suc.IH [of cl1] round_mirror [OF Suc.prems(1) c] by (cases res) auto
qed simp

lemma start_fresh:
  assumes "script s = []" "can_create s p" "p \<noteq> []"
  shows "fresh p (svu_client_start (Some (sidecar_hooks mem)) (no_sidecar\<lparr>sc_path := p\<rparr>) s e)"
proof -
  obtain r sc' s' where r: "sidecar_restore mem (no_sidecar\<lparr>sc_path := p\<rparr>) s = (r, sc', s')" by (metis prod_cases3)
  from restore_quiet_cases [OF assms(1) r] assms(3) have
    q: "script s' = [] \<and> dirs s' = dirs s \<and> sc_path sc' = p \<and>
    (case r of None \<Rightarrow> sc_fd sc' = None
     | Some (b, n) \<Rightarrow> sc_fd sc' = Some p \<and> sc_total sc' = n \<and> n \<noteq> 0 \<and> sidecar_file s' p n b)"
    by (auto simp: no_sidecar_def split: option.splits)
  then have "can_create s' p" using assms(2) by (simp add: can_create_def dir_exists_def)
  then show ?thesis using q r assms(3)
    by (cases r) (auto simp: fresh_def svu_client_start_def restore_hook_def sidecar_hooks_def)
qed

section \<open>Downloads\<close>

lemma sidecar_script:
  assumes "script s = []"
  shows "script (snd (sidecar_meta t b sc s)) = []" "script (snd (sidecar_data off d sc s)) = []"
    "script (snd (sidecar_complete sc s)) = []" "script (snd (snd (sidecar_restore mem sc s))) = []"
  using assms
  by (auto simp: sidecar_meta_def sidecar_data_def sidecar_complete_def sidecar_restore_def sidecar_shape_def
      sidecar_write_header_def Let_def split_def split: option.splits)

lemma sidecar_path:
  "sc_path (fst (sidecar_meta t b sc s)) = sc_path sc" "sc_path (fst (sidecar_data off d sc s)) = sc_path sc"
  "sc_path (fst (snd (sidecar_restore mem sc s))) = sc_path sc"
  by (auto simp: sidecar_meta_def sidecar_data_def sidecar_restore_def sidecar_shape_def
      sidecar_write_header_def Let_def split_def split: option.splits)


text \<open>The hooks leave the script empty and the path alone.\<close>

definition tame :: "string \<Rightarrow> svu_sidecar_t rx_state \<Rightarrow> bool" where
  "tame p x \<longleftrightarrow> script (rx_os x) = [] \<and> sc_path (rx_ctx x) = p"

definition hooks_ok :: "svu_sidecar_t svu_client_hooks option \<Rightarrow> bool" where
  "hooks_ok hooks \<longleftrightarrow> hooks = None \<or> (\<exists>mem. hooks = Some (sidecar_hooks mem))"

lemma tame_hooks:
  assumes "hooks_ok hooks"
  shows "tame p x \<Longrightarrow> tame p (fst (drain_packet hooks pkt (x, n)))"
    "tame p (cl_rx cl) \<Longrightarrow> tame p (cl_rx (snd (setup_recv oom hooks m cl)))"
    "script s = [] \<Longrightarrow> tame (sc_path c) (cl_rx (svu_client_start hooks c s e))"
proof -
  note defs = tame_def sidecar_hooks_def drain_packet_def data_hook_def setup_recv_def meta_hook_def
    svu_client_start_def restore_hook_def
  show "tame p x \<Longrightarrow> tame p (fst (drain_packet hooks pkt (x, n)))"
    "tame p (cl_rx cl) \<Longrightarrow> tame p (cl_rx (snd (setup_recv oom hooks m cl)))"
    "script s = [] \<Longrightarrow> tame (sc_path c) (cl_rx (svu_client_start hooks c s e))"
    using assms sidecar_script sidecar_path
    by (auto simp: hooks_ok_def defs Let_def split_def split: option.splits)
qed

lemma rounds_tame:
  assumes "hooks_ok hooks" "script s = []"
    "client_rounds n lk oom hooks bs mtu (svu_client_start hooks c s e) = Some (b, cl)"
  shows "tame (sc_path c) (cl_rx cl)"
  by (rule client_rounds_inv [of "tame (sc_path c)", OF _ _ _ assms(3)]) (auto intro: tame_hooks assms(1,2))

text \<open>A run with sidecar hooks that returns 0 leaves the file, given the true manifest.\<close>

lemma run_sidecar_sound:
  assumes "honest_ctrl lk src" "hooks_ok hooks" "script s = []" "sc_path c \<noteq> out"
    and "svu_client_run_hooked lk oom bs mtu mr out hooks c s e = Some (0, c', s', e')"
  shows "\<exists>d. contents s' out = Some d \<and> delivered src d" "script s' = []"
proof -
  obtain cl s1 where cl: "cl_verified src cl" "write_out out cl = (True, s1)"
    "(c', s') = complete_hook hooks (rx_ctx (cl_rx cl)) s1"
    "client_rounds (unat mr) lk oom hooks bs mtu (svu_client_start hooks c s e) = Some (True, cl)"
    by (rule run_hooked_verified [OF assms(1) assms(5)])
  have t: "script (rx_os (cl_rx cl)) = []" "sc_path (rx_ctx (cl_rx cl)) = sc_path c"
    using rounds_tame [OF assms(2,3) cl(4)] by (simp_all add: tame_def)
  obtain r where r: "rx_recv (cl_rx cl) = Some r" "length (s_data r) = unat (cl_total cl)" "delivered src (s_data r)"
    by (rule cl_verified_data [OF cl(1)])
  have w: "contents s1 out = Some (s_data r)" by (rule write_out_contents [OF t(1) cl(2) r(1,2)])
  have s1: "script s1 = []"
    using cl(2) t(1) by (auto simp: write_out_def Let_def split_def split: prod.splits bool.splits)
  have "contents s' out = contents s1 out \<and> script s' = []"
    using cl(3) assms(2,4) t s1 frame_contents [OF frame_calls(7) [of "\<lambda>q. q = sc_path c" "sc_path c" s1], of out]
    by (auto simp: hooks_ok_def complete_hook_def sidecar_hooks_def sidecar_complete_def Let_def split_def split: if_splits)
  then show "\<exists>d. contents s' out = Some d \<and> delivered src d" "script s' = []"
    using w r(3) by auto
qed


lemma setup_hooks:
  assumes "script s = []" "sidecar_setup mem app s = (hooks, sc, s')"
  shows "hooks_ok hooks" "script s' = []"
    "sc_path sc = [] \<or> (\<exists>a. app = Some a \<and> session_state_svu_path a 640 = Some (sc_path sc))"
proof -
  have m: "script (snd (mkdir_all ds t)) = []" if "script t = []" for ds t
    using that
  proof (induction ds t rule: mkdir_all.induct)
    case (2 d ds t)
    obtain r t1 where "mkdir d t = (r, t1)" by force
    then show ?case using 2 quiet_calls(10) [OF "2.prems", of d] by (cases r) auto
  qed simp
  then have "script (snd (session_state_dir_ensure s)) = []"
    using assms(1) by (simp add: session_state_dir_ensure_def mkdir_p_def Let_def split_def)
  then show "hooks_ok hooks" "script s' = []"
    "sc_path sc = [] \<or> (\<exists>a. app = Some a \<and> session_state_svu_path a 640 = Some (sc_path sc))"
    using assms
    by (auto simp: sidecar_setup_def hooks_ok_def no_sidecar_def split: option.splits prod.splits if_splits)
qed

lemma stat_contents: "script s = [] \<Longrightarrow> stat p s = (Is_reg f, s') \<Longrightarrow> s' = s \<and> contents s p = Some (f_data f)"
  by (auto simp: stat_def io_simps contents_def split: if_splits option.splits)

text \<open>
  C18: A download that reports success has the file. With the true manifest on the control channel
  and no failing call, when \<open>svu_download_file\<close> returns 0 the destination holds the
  ground's file (or bytes of its length in which some block differs from the file's but has the same
  SHA-256), of the expected size when one is given, whatever was lost or corrupted on the data channel and whatever an earlier pass, of this or
  another artifact, left in the sidecar.
\<close>

theorem svu_download_sound:
  assumes "honest_ctrl lk src" "script s = []"
    "\<forall>a. app = Some a \<longrightarrow> session_state_svu_path a 640 \<noteq> Some dest"
    "svu_download_file lk oom mem node dest expected_size app mtu s e = Some (0, s', e')"
  shows "\<exists>d. contents s' dest = Some d \<and> delivered src d \<and> (expected_size \<noteq> 0 \<longrightarrow> of_nat (length d) = expected_size)"
proof -
  obtain hooks sc s1 where st: "sidecar_setup mem app s = (hooks, sc, s1)" by (metis prod_cases3)
  note h = setup_hooks [OF assms(2) st]
  let ?mtu = "if mtu \<noteq> 0 then ucast mtu else 1024"
  have d: "dest \<noteq> []" "\<not> node > 65535" using assms(4) by (auto simp: svu_download_file_def split: if_splits)
  obtain c' s2 e2 where run: "svu_client_run_hooked lk oom SVU_BLOCK_SIZE ?mtu SVU_MAX_ROUNDS dest hooks sc s1 e = Some (0, c', s2, e2)"
    and rest: "expected_size = 0 \<and> s' = s2 \<or>
      (\<exists>f. stat dest s2 = (Is_reg f, s') \<and> of_nat (length (f_data f)) = expected_size)"
    using assms(4) d st by (auto simp: svu_download_file_def split: option.splits if_splits stat_result.splits prod.splits)
  have "sc_path sc \<noteq> dest" using h(3) assms(3) d(1) by auto
  note snd = run_sidecar_sound [OF assms(1) h(1,2) this run]
  obtain d where d: "contents s2 dest = Some d" "delivered src d" using snd(1) by blast
  from rest show ?thesis
  proof
    assume "\<exists>f. stat dest s2 = (Is_reg f, s') \<and> of_nat (length (f_data f)) = expected_size"
    then obtain f where f: "stat dest s2 = (Is_reg f, s')" "of_nat (length (f_data f)) = expected_size" by blast
    from stat_contents [OF snd(2) f(1)] show ?thesis using d f(2) by simp
  qed (use d in simp)
qed

text \<open>
  C19: Cross-pass resume loses nothing. Without failing calls, after any number of rounds of a
  client with sidecar hooks, over any link and from any earlier sidecar, restoring the sidecar as
  the next pass would gives exactly the receiver's buffer and size: the file refines the
  receiver's memory.
\<close>

theorem sidecar_refines_receiver:
  assumes "script s = []" "can_create s p" "p \<noteq> []"
    "client_rounds n lk oom (Some (sidecar_hooks mem)) bs mtu
       (svu_client_start (Some (sidecar_hooks mem)) (no_sidecar\<lparr>sc_path := p\<rparr>) s e) = Some (b, cl)"
    "rx_recv (cl_rx cl) = Some r" "mem' (s_total r)"
  shows "fst (sidecar_restore mem' (no_sidecar\<lparr>sc_path := p\<rparr>) (rx_os (cl_rx cl))) = Some (s_data r, s_total r)"
proof -
  have "fresh p cl \<or> mirror p (cl_rx cl)"
    by (rule rounds_mirror [OF disjI1 [OF start_fresh [OF assms(1-3)]] assms(4)])
  then have m: "mirror p (cl_rx cl)" using assms(5) by (auto simp: fresh_def)
  then have "sidecar_file (rx_os (cl_rx cl)) p (s_total r) (s_data r)" "s_total r \<noteq> 0" "script (rx_os (cl_rx cl)) = []"
    using assms(5) by (auto simp: mirror_def)
  then show ?thesis
    using restore_sidecar_file [of "rx_os (cl_rx cl)" p "s_total r" "s_data r" mem' "no_sidecar\<lparr>sc_path := p\<rparr>"] assms(3,6)
    by simp
qed


text \<open>
  A pass that resumes: the sidecar of an earlier one holds the whole file, and the manifest arrives but
  no data.
\<close>

lemma resumed_rounds:
  assumes "attests m src" "mt_nblocks m = ci_svu_nblocks (mt_total m) (mt_block m)" "mt_nblocks m \<noteq> 0" "mt_total m \<noteq> 0"
    "\<And>q. ctrl_attempts 8 lk q e = (Some m, e1)" "lk_drain lk e1 = ([], e2)"
    "script s = []" "sidecar_file s p (mt_total m) src" "mem (mt_total m)" "p \<noteq> []"
  shows "\<exists>cl r. client_rounds (Suc n) lk False (Some (sidecar_hooks mem)) bs mtu
      (svu_client_start (Some (sidecar_hooks mem)) (no_sidecar\<lparr>sc_path := p\<rparr>) s e) = Some (True, cl) \<and> cl_env cl = e2 \<and>
    rx_recv (cl_rx cl) = Some r \<and> length (s_data r) = unat (cl_total cl) \<and> script (rx_os (cl_rx cl)) = [] \<and> dirs (rx_os (cl_rx cl)) = dirs s"
proof -
  let ?t = "mt_total m" and ?hk = "Some (sidecar_hooks mem)"
  let ?sc = "no_sidecar\<lparr>sc_path := p, sc_fd := Some p, sc_total := ?t\<rparr>"
  let ?cl = "svu_client_start ?hk (no_sidecar\<lparr>sc_path := p\<rparr>) s e"
  have len: "length src = unat ?t" using assms(1) by (simp add: attests_def)
  have cl: "?cl = \<lparr>cl_rx = \<lparr>rx_recv = None, rx_ctx = ?sc, rx_os = s\<rparr>, cl_env = e, cl_seed = Some (src, ?t), cl_total = 0,
      cl_ivs = replicate 32 zero_iv, cl_nreq = 1\<rparr>"
    using restore_sidecar_file [where mem = mem and sc = "no_sidecar\<lparr>sc_path := p\<rparr>", OF assms(7,8,9,4,10)]
    by (simp add: svu_client_start_def restore_hook_def sidecar_hooks_def)
  obtain r where r: "ci_svu_new False ?t (mt_block m) (Some (mt_manifest m)) (mt_nblocks m) = Some r"
    using assms(2-4) by (auto simp: ci_svu_new_def Let_def)
  note g = new_good [OF assms(1) r]
  have n: "cov_set r = {}" using new_ok [OF r] assms(1) by (simp add: attests_def)
  have "intact src (0, src)" by (simp add: intact_def seg_def)
  then have "\<forall>f \<in> set [(0, src)]. intact src f" by simp
  moreover have "svu_wf r" "expects r src" "holds_src r src" using g(1) n by (simp_all add: good_recv_def holds_src_def)
  ultimately obtain r' where r': "deliver [(0, src)] (Some r) = Some r'" "svu_wf r'" "expects r' src" "same_plan r r'" "holds_src r' src"
    "cov_set r' = {0..<length src}" using deliver_intact [of r src "[(0, src)]"] n by force
  have t': "s_total r' = ?t" using r'(4) g(2) by (simp only: same_plan_def)
  then have "{..<unat (s_total r')} \<subseteq> cov_set r'" using len unfolding r'(6) by (simp add: atLeast0LessThan)
  note v = intact_verified [OF r'(2,3,5) this, THEN conjunct2]
  obtain h f where hf: "contents s p = Some (h @ f)" "header_ok h ?t" using assms(8) by (auto simp: sidecar_file_def)
  obtain s1 where s1: "sidecar_shape ?t (mt_block m) p ?sc s = (?sc, s1)" "script s1 = []" "dirs s1 = dirs s"
    using shape_quiet [OF assms(7) hf(1), of ?t f ?t "mt_block m" ?sc] hf(2) by (auto simp: header_ok_def)
  let ?cl1 = "?cl\<lparr>cl_env := e1, cl_total := ?t, cl_seed := None, cl_rx := \<lparr>rx_recv = Some r', rx_ctx = ?sc, rx_os = s1\<rparr>\<rparr>"
  have mh: "meta_hook ?hk ?t (mt_block m) ?sc s = (?sc, s1)" using s1(1) by (simp add: meta_hook_def sidecar_hooks_def sidecar_meta_def)
  have su: "setup_recv False ?hk m (?cl\<lparr>cl_env := e1\<rparr>) = (True, ?cl1)"
    using r r'(1) mh len by (simp add: deliver_def setup_recv_def cl)
  obtain out nout where vf: "ci_svu_verify (Some r') (Some (replicate 32 zero_iv)) SVU_MAX_INTERVALS = (CI_SVU_COMPLETE_VERIFIED, out, nout)"
    using v [of "Some (replicate 32 zero_iv)" SVU_MAX_INTERVALS] by (metis prod.collapse)
  have "\<exists>ivs. drain_rounds lk ?hk (replicate 32 zero_iv) (cl_rx ?cl1) e1 = Some (CI_SVU_COMPLETE_VERIFIED, ivs, nout, cl_rx ?cl1, e2)"
    by (subst drain_rounds.simps) (simp add: assms(6) drain_data_def vf)
  then obtain ivs where dr: "drain_rounds lk ?hk (replicate 32 zero_iv) (cl_rx ?cl1) e1 =
      Some (CI_SVU_COMPLETE_VERIFIED, ivs, nout, cl_rx ?cl1, e2)" by blast
  have "client_round lk False ?hk bs mtu ?cl = Some (Verified, ?cl1\<lparr>cl_env := e2, cl_ivs := ivs\<rparr>)"
    using su dr assms(5) by (simp add: client_round_def cl)
  then show ?thesis using s1(2,3) r'(2) t' by (simp add: svu_wf_def)
qed

definition resume_os :: os where
  "resume_os = \<lparr>fs = [(''/var/lib/satdeploy/state/app.svupart'', \<lparr>f_data = sidecar_header 1 1 @ [5], f_mode = 384, f_mtime = a_time\<rparr>)],
     dirs = [''/var'', ''/var/lib'', ''/var/lib/satdeploy'', SESSION_STATE_DIR, ''/tmp''], script = [], clock = a_time, fs_log = []\<rparr>"

lemma resume_setup:
  "sidecar_setup mem (Some ''app'') resume_os = (Some (sidecar_hooks mem), no_sidecar\<lparr>sc_path := ''/var/lib/satdeploy/state/app.svupart''\<rparr>, resume_os)"
  "session_state_svu_path ''app'' 640 = Some ''/var/lib/satdeploy/state/app.svupart''"
proof -
  have dp: "dir_prefixes SESSION_STATE_DIR = [''/var'', ''/var/lib'', ''/var/lib/satdeploy'', SESSION_STATE_DIR]"
    by (simp add: SESSION_STATE_DIR_def dir_prefixes_def upt_rec)
  have q: "script resume_os = []" by (simp add: resume_os_def)
  have "mkdir d resume_os = (Exists, resume_os)" if "d \<in> set (dir_prefixes SESSION_STATE_DIR)" for d
    using that by (auto simp: dp mkdir_def io_simps q dir_exists_def resume_os_def)
  then have m: "mkdir_all (dir_prefixes SESSION_STATE_DIR) resume_os = (0, resume_os)" by (simp add: dp)
  have "cstr MAX_PATH_LEN SESSION_STATE_DIR = SESSION_STATE_DIR" "last SESSION_STATE_DIR \<noteq> CHR ''/''"
    by (simp_all add: SESSION_STATE_DIR_def cstr_def MAX_PATH_LEN_def)
  then have "mkdir_p SESSION_STATE_DIR resume_os = (0, resume_os)" using m by (simp add: mkdir_p_def)
  moreover have "lookup resume_os SESSION_STATE_DIR = None" by (simp add: resume_os_def lookup_def SESSION_STATE_DIR_def)
  ultimately have "session_state_dir_ensure resume_os = (0, resume_os)"
    by (simp add: session_state_dir_ensure_def chmod_def io_simps q)
  moreover show p: "session_state_svu_path ''app'' 640 = Some ''/var/lib/satdeploy/state/app.svupart''"
    by (simp add: session_state_svu_path_def state_path_def app_name_is_safe_def SESSION_STATE_DIR_def SESSION_SVU_EXT_def)
  ultimately show "sidecar_setup mem (Some ''app'') resume_os =
      (Some (sidecar_hooks mem), no_sidecar\<lparr>sc_path := ''/var/lib/satdeploy/state/app.svupart''\<rparr>, resume_os)"
    by (simp add: sidecar_setup_def)
qed

theorem svu_download_sound_witness:
  "\<exists>rs s'. honest_ctrl (replay_link rs) [5] \<and> contents resume_os ''/var/lib/satdeploy/state/app.svupart'' = Some (sidecar_header 1 1 @ [5]) \<and>
     svu_download_file (replay_link rs) False (\<lambda>_. True) 3 ''/tmp/f'' 0 (Some ''app'') 16 resume_os [] = Some (0, s', []) \<and>
     (\<exists>d. contents s' ''/tmp/f'' = Some d \<and> delivered [5] d)"
proof -
  let ?p = "''/var/lib/satdeploy/state/app.svupart''" and ?nb = "ci_svu_nblocks 1 1"
  obtain man where man: "length man = unat ?nb * 32"
    "attests \<lparr>mt_total = 1, mt_block = 1, mt_nblocks = ?nb, mt_manifest = man\<rparr> [5]" (is "attests ?m _")
    by (rule server_manifest [OF small_fits])
  let ?rs = "resp_header 1 1 1 ?nb # map (chunk_pkt man) (pieces 200 0 (length man))"
  have rr: "read_reply True ?rs = Some ?m" using man(1) by (intro read_reply_ok) (auto simp: nblocks_1_1)
  then have h: "honest_ctrl (replay_link ?rs) [5]" using man(2) by (simp add: honest_ctrl_def replay_link_def)
  have ce: "ctrl_attempts 8 (replay_link ?rs) q [] = (Some ?m, [])" for q
    using rr by (simp add: numeral_eq_Suc ctrl_exchange_def replay_link_def)
  have c: "contents resume_os ?p = Some (sidecar_header 1 1 @ [5])" by (simp add: resume_os_def contents_def lookup_def)
  then have "sidecar_file resume_os ?p 1 [5]"
    unfolding sidecar_file_def using sidecar_header_ok [of 1 1]
    by (intro exI [of _ "sidecar_header 1 1"] exI [of _ "[5]"]) (simp add: pad_def)
  then obtain cl r where cl: "client_rounds (Suc 23) (replay_link ?rs) False (Some (sidecar_hooks (\<lambda>_. True))) SVU_BLOCK_SIZE 16
      (svu_client_start (Some (sidecar_hooks (\<lambda>_. True))) (no_sidecar\<lparr>sc_path := ?p\<rparr>) resume_os []) = Some (True, cl)" "cl_env cl = []"
      "rx_recv (cl_rx cl) = Some r" "length (s_data r) = unat (cl_total cl)" "script (rx_os (cl_rx cl)) = []" "dirs (rx_os (cl_rx cl)) = dirs resume_os"
    using resumed_rounds [OF man(2) _ _ _ ce, of "[]" resume_os ?p "\<lambda>_. True" 23 SVU_BLOCK_SIZE 16]
    by (auto simp: nblocks_1_1 replay_link_def resume_os_def)
  have "can_create (rx_os (cl_rx cl)) ''/tmp/f''"
    using cl(6) by (simp add: can_create_def dir_exists_def resume_os_def dirname_def SESSION_STATE_DIR_def)
  from write_out_quiet [OF cl(5) this cl(3,4)] obtain s1 where w: "write_out ''/tmp/f'' cl = (True, s1)" by blast
  obtain c2 s2 where ch: "complete_hook (Some (sidecar_hooks (\<lambda>_. True))) (rx_ctx (cl_rx cl)) s1 = (c2, s2)" by force
  have "unat SVU_MAX_ROUNDS = Suc 23" by (simp add: SVU_MAX_ROUNDS_def)
  then have d: "svu_download_file (replay_link ?rs) False (\<lambda>_. True) 3 ''/tmp/f'' 0 (Some ''app'') 16 resume_os [] = Some (0, s2, [])"
    using cl(1,2) w ch resume_setup(1) by (simp add: svu_download_file_def svu_client_run_hooked_def del: client_rounds.simps)
  have "script resume_os = []" "\<forall>a. Some ''app'' = Some a \<longrightarrow> session_state_svu_path a 640 \<noteq> Some ''/tmp/f''"
    using resume_setup(2) by (simp_all add: resume_os_def)
  from svu_download_sound [OF h this d] d h c show ?thesis by blast
qed


text \<open>One round on a link that carries the manifest but no data.\<close>

lemma manifest_round:
  assumes "length man = unat nb * 32" "length man + 200 \<le> 4294967296" "ci_svu_nblocks tot bs = nb" "nb \<noteq> 0"
    "cl_env cl = []" "fresh p cl"
  shows "\<exists>b cl' r. client_rounds (Suc 0) (replay_link (resp_header 1 tot bs nb # map (chunk_pkt man) (pieces 200 0 (length man))))
      False (Some (sidecar_hooks mem)) bs' mtu cl = Some (b, cl') \<and> rx_recv (cl_rx cl') = Some r"
proof -
  let ?lk = "replay_link (resp_header 1 tot bs nb # map (chunk_pkt man) (pieces 200 0 (length man)))"
  let ?m = "\<lparr>mt_total = tot, mt_block = bs, mt_nblocks = nb, mt_manifest = man\<rparr>"
  let ?hk = "Some (sidecar_hooks mem)"
  have "read_reply True (resp_header 1 tot bs nb # map (chunk_pkt man) (pieces 200 0 (length man))) = Some ?m"
    using assms(1,2) by (intro read_reply_ok) auto
  then have ce: "ctrl_attempts 8 ?lk q [] = (Some ?m, [])" for q
    by (simp add: numeral_eq_Suc ctrl_exchange_def replay_link_def)
  obtain b cl1 where s: "setup_recv False ?hk ?m (cl\<lparr>cl_env := []\<rparr>) = (b, cl1)" by force
  have b: "b" "rx_recv (cl_rx cl1) \<noteq> None" "cl_env cl1 = []"
    using s assms(3-6) by (auto simp: setup_recv_def fresh_def ci_svu_new_def ci_svu_accept_def Let_def split_def split: option.splits)
  obtain st out nout where v: "ci_svu_verify (rx_recv (cl_rx cl1)) (Some (cl_ivs cl1)) SVU_MAX_INTERVALS = (st, out, nout)"
    by (metis prod_cases3)
  have "\<exists>ivs. drain_rounds ?lk ?hk (cl_ivs cl1) (cl_rx cl1) [] = Some (st, ivs, nout, cl_rx cl1, [])"
    by (subst drain_rounds.simps) (simp add: replay_link_def drain_data_def Let_def v)
  then show ?thesis using b s ce assms(5)
    by (cases "st = CI_SVU_COMPLETE_VERIFIED") (auto simp: client_round_def Let_def)
qed

theorem sidecar_refines_receiver_witness:
  "\<exists>b cl r. client_rounds (Suc 0) (replay_link (resp_header 1 2 2 1 # map (chunk_pkt (replicate 32 7)) (pieces 200 0 32)))
      False (Some (sidecar_hooks (\<lambda>_. True))) 4096 16
      (svu_client_start (Some (sidecar_hooks (\<lambda>_. True))) (no_sidecar\<lparr>sc_path := ''/tmp/f''\<rparr>) (tmp_os []) []) = Some (b, cl) \<and>
    rx_recv (cl_rx cl) = Some r \<and>
    fst (sidecar_restore (\<lambda>_. True) (no_sidecar\<lparr>sc_path := ''/tmp/f''\<rparr>) (rx_os (cl_rx cl))) = Some (s_data r, s_total r)"
proof -
  let ?cl = "svu_client_start (Some (sidecar_hooks (\<lambda>_. True))) (no_sidecar\<lparr>sc_path := ''/tmp/f''\<rparr>) (tmp_os []) []"
  have f: "fresh ''/tmp/f'' ?cl" by (rule start_fresh) (simp_all add: tmp_os_create)
  have nb: "ci_svu_nblocks 2 2 = 1" by (simp add: ci_svu_nblocks_def)
  have "cl_env ?cl = []" by (simp add: svu_client_start_def split_def Let_def)
  from manifest_round [OF _ _ nb _ this f, of "replicate 32 7" "\<lambda>_. True" 4096 16] obtain b cl r where
    c: "client_rounds (Suc 0) (replay_link (resp_header 1 2 2 1 # map (chunk_pkt (replicate 32 7)) (pieces 200 0 32)))
      False (Some (sidecar_hooks (\<lambda>_. True))) 4096 16 ?cl = Some (b, cl)" "rx_recv (cl_rx cl) = Some r" by auto
  from sidecar_refines_receiver [OF _ tmp_os_create(1) _ c, of "\<lambda>_. True"] c show ?thesis by (auto simp: tmp_os_create)
qed

end
