(* ===== verification/App_Metadata.thy ===== *)
theory App_Metadata
  imports Session_State
begin

text \<open>
  The agent's record of deployed applications (\<open>satdeploy-agent/src/app_metadata.c\<close>): a
  cache of at most 64 entries, filled from and written to a JSON file. The file-scope variables
  are a state record; the list is the first \<open>app_count\<close> elements of the array. The parser
  works on the C string read from the file; a dereferenced null pointer is the result
  \<open>None\<close>, which ends the process.

  The main results: the cache behaves as a finite map of bounded size, an entry saved is found
  again after a restart, and the two faults the code has: a non-string value crashes the agent,
  and a failed write is reported as success.
\<close>

section \<open>Definitions\<close>

definition METADATA_FILE :: string where "METADATA_FILE = ''/opt/satdeploy/apps.json''"
definition METADATA_DIR :: string where "METADATA_DIR = ''/opt/satdeploy''"
definition MAX_APPS :: nat where "MAX_APPS = 64"

record app_entry_t =
  ae_app_name :: string
  ae_remote_path :: string
  ae_file_hash :: string
  ae_deployed_at :: string

definition zero_entry :: app_entry_t where
  "zero_entry = \<lparr>ae_app_name = [], ae_remote_path = [], ae_file_hash = [], ae_deployed_at = []\<rparr>"

record app_meta =
  am_cache :: "app_entry_t list"
  am_loaded :: bool

definition ensure_dir :: "string \<Rightarrow> os \<Rightarrow> int \<times> os" where
  "ensure_dir path s =
     (case stat path s of
        (Is_dir, s) \<Rightarrow> (0, s)
      | (Is_reg f, s) \<Rightarrow> (-1, s)
      | (No_entry, s) \<Rightarrow> (case mkdir path s of (r, s) \<Rightarrow> if r = Made then (0, s) else (-1, s)))"

definition is_ws :: "char \<Rightarrow> bool" where
  "is_ws c \<longleftrightarrow> c = CHR '' '' \<or> c = CHR 0x09 \<or> c = CHR 0x0A \<or> c = CHR 0x0D"

definition skip_ws :: "string \<Rightarrow> string" where
  "skip_ws p = dropWhile is_ws p"

definition at :: "char \<Rightarrow> string \<Rightarrow> bool" where
  "at c p \<longleftrightarrow> p \<noteq> [] \<and> hd p = c"

text \<open>The copying loop of \<open>parse_string\<close>; the number is the room left in the buffer.\<close>

fun parse_chars :: "nat \<Rightarrow> string \<Rightarrow> string \<times> string" where
  "parse_chars 0 p = ([], p)"
| "parse_chars (Suc k) [] = ([], [])"
| "parse_chars (Suc k) (c # p) =
     (if c = CHR 0x22 then ([], c # p)
      else if c = CHR 0x5C \<and> p \<noteq> [] then
        (case parse_chars k (tl p) of (w, r) \<Rightarrow> (hd p # w, r))
      else (case parse_chars k p of (w, r) \<Rightarrow> (c # w, r)))"

definition parse_string :: "nat \<Rightarrow> string \<Rightarrow> (string \<times> string) option" where
  "parse_string out_size p =
     (let p = skip_ws p
      in if \<not> at CHR 0x22 p then None
         else case parse_chars (out_size - 1) (tl p) of
                (w, r) \<Rightarrow> Some (w, if at CHR 0x22 r then tl r else r))"

definition set_field :: "string \<Rightarrow> string \<Rightarrow> app_entry_t \<Rightarrow> app_entry_t" where
  "set_field key v e =
     (if key = ''remote_path'' then e\<lparr>ae_remote_path := cstr MAX_PATH_LEN v\<rparr>
      else if key = ''file_hash'' then e\<lparr>ae_file_hash := cstr HASH_BUF_LEN v\<rparr>
      else if key = ''deployed_at'' then e\<lparr>ae_deployed_at := cstr 32 v\<rparr>
      else e)"

lemma parse_chars_rest: "length (snd (parse_chars k p)) \<le> length p"
proof (induction k p rule: parse_chars.induct)
  case (3 k c p)
  then show ?case by (cases p) (auto simp: split_def le_SucI)
qed simp_all

lemma skip_ws_length: "length (skip_ws p) \<le> length p"
  by (simp add: skip_ws_def length_dropWhile_le)

lemma parse_string_rest: "parse_string n p = Some (w, r) \<Longrightarrow> length r < length p"
proof -
  assume a: "parse_string n p = Some (w, r)"
  let ?q = "skip_ws p"
  have q: "?q \<noteq> []" and r: "length r \<le> length (snd (parse_chars (n - 1) (tl ?q)))"
    using a by (auto simp: parse_string_def Let_def at_def split_def split: if_splits)
  have "length (snd (parse_chars (n - 1) (tl ?q))) \<le> length (tl ?q)" by (rule parse_chars_rest)
  moreover have "length (tl ?q) < length ?q" using q by (cases ?q) auto
  ultimately show ?thesis using r skip_ws_length [of p] by linarith
qed

text \<open>The field loop: the entry, and where \<open>p\<close> points, \<open>None\<close> for a null pointer.\<close>

function parse_fields :: "string \<Rightarrow> app_entry_t \<Rightarrow> app_entry_t \<times> string option" where
  "parse_fields p e =
     (if p = [] \<or> at CHR ''}'' p then (e, Some p)
      else if at CHR '','' (skip_ws p) then parse_fields (tl (skip_ws p)) e
      else if at CHR ''}'' (skip_ws p) then (e, Some (skip_ws p))
      else case parse_string 64 (skip_ws p) of
             None \<Rightarrow> (e, None)
           | Some (key, p1) \<Rightarrow>
               if \<not> at CHR '':'' (skip_ws p1) then (e, Some (skip_ws p1))
               else case parse_string MAX_PATH_LEN (tl (skip_ws p1)) of
                      None \<Rightarrow> (e, None)
                    | Some (v, p2) \<Rightarrow> parse_fields p2 (set_field key v e))"
  by pat_completeness auto

lemma at_tl_length: "at c p \<Longrightarrow> length (tl p) < length p"
  by (cases p) (auto simp: at_def)

termination parse_fields
proof (relation "measure (\<lambda>(p, e). length p)", goal_cases)
  case (2 p e)
  then show ?case using at_tl_length [of "CHR '',''" "skip_ws p"] skip_ws_length [of p] by simp
next
  case (3 p e a key p1 b v p2)
  then have "length p1 < length (skip_ws p)" "length p2 < length (tl (skip_ws p1))"
    by (auto dest!: parse_string_rest)
  then show ?case using skip_ws_length [of p] skip_ws_length [of p1] by simp
qed simp

declare parse_fields.simps [simp del]

lemma parse_fields_rest: "parse_fields p e = (e', Some r) \<Longrightarrow> length r \<le> length p"
proof (induction p e rule: parse_fields.induct)
  case (1 p e)
  let ?q = "skip_ws p"
  have q: "length ?q \<le> length p" by (rule skip_ws_length)
  consider "p = [] \<or> at CHR ''}'' p" | "p \<noteq> []" "\<not> at CHR ''}'' p" "at CHR '','' ?q"
    | "p \<noteq> []" "\<not> at CHR ''}'' p" "\<not> at CHR '','' ?q" "at CHR ''}'' ?q"
    | "p \<noteq> []" "\<not> at CHR ''}'' p" "\<not> at CHR '','' ?q" "\<not> at CHR ''}'' ?q" by blast
  then show ?case
  proof cases
    case 2
    then show ?thesis using 1(1) "1.prems" at_tl_length [of _ ?q] q by (fastforce simp: parse_fields.simps [of p])
  next
    case 4
    then obtain key p1 where k: "parse_string 64 ?q = Some (key, p1)"
      using "1.prems" by (auto simp: parse_fields.simps [of p] split: option.splits)
    have p1: "length p1 < length ?q" "length (skip_ws p1) \<le> length p1" using parse_string_rest [OF k] skip_ws_length by auto
    show ?thesis
    proof (cases "at CHR '':'' (skip_ws p1)")
      case True
      then obtain v p2 where v: "parse_string MAX_PATH_LEN (tl (skip_ws p1)) = Some (v, p2)"
        using "1.prems" 4 k by (auto simp: parse_fields.simps [of p] split: option.splits)
      have "length r \<le> length p2" using 1(2) "1.prems" 4 k v True by (fastforce simp: parse_fields.simps [of p])
      then show ?thesis using parse_string_rest [OF v] p1 q by simp
    next
      case False
      then show ?thesis using "1.prems" 4 k p1 q by (auto simp: parse_fields.simps [of p])
    qed
  qed (use "1.prems" q in \<open>auto simp: parse_fields.simps [of p]\<close>)
qed

text \<open>The application loop: the entries, or \<open>None\<close> when the null pointer is dereferenced.\<close>

function parse_apps :: "string \<Rightarrow> app_entry_t list \<Rightarrow> app_entry_t list option" where
  "parse_apps p acc =
     (if p = [] \<or> MAX_APPS \<le> length acc then Some acc
      else if at CHR ''}'' (skip_ws p) then Some acc
      else if at CHR '','' (skip_ws p) then parse_apps (tl (skip_ws p)) acc
      else case parse_string MAX_APP_NAME_LEN (skip_ws p) of
             None \<Rightarrow> Some acc
           | Some (name, p1) \<Rightarrow>
               if \<not> at CHR '':'' (skip_ws p1) then Some acc
               else if \<not> at CHR ''{'' (skip_ws (tl (skip_ws p1))) then Some acc
               else case parse_fields (tl (skip_ws (tl (skip_ws p1)))) (zero_entry\<lparr>ae_app_name := name\<rparr>) of
                      (e, None) \<Rightarrow> None
                    | (e, Some p2) \<Rightarrow> parse_apps (if at CHR ''}'' p2 then tl p2 else p2) (acc @ [e]))"
  by pat_completeness auto

termination parse_apps
proof (relation "measure (\<lambda>(p, e). length p)", goal_cases)
  case (2 p acc)
  then show ?case using at_tl_length [of "CHR '',''" "skip_ws p"] skip_ws_length [of p] by simp
next
  case (3 p acc a name p1 b e p2)
  then have n: "length p1 < length (skip_ws p)" by (auto dest!: parse_string_rest)
  have p2: "length p2 \<le> length (tl (skip_ws (tl (skip_ws p1))))"
    using 3 by (metis parse_fields_rest)
  have "length (if at CHR ''}'' p2 then tl p2 else p2) \<le> length p2" by simp
  then show ?case using n p2 skip_ws_length [of p] skip_ws_length [of p1] skip_ws_length [of "tl (skip_ws p1)"]
    by simp
qed simp

declare parse_apps.simps [simp del]

definition load_metadata :: "app_meta \<Rightarrow> os \<Rightarrow> (int \<times> app_meta) option \<times> os" where
  "load_metadata m s =
     (if am_loaded m then (Some (0, m), s)
      else let m = \<lparr>am_cache = [], am_loaded = True\<rparr>
      in case fopen_r METADATA_FILE s of
           (None, s) \<Rightarrow> (Some (0, m), s)
         | (Some d, s) \<Rightarrow>
             if d = [] \<or> length d > 1024 * 1024 then (Some (-1, m), s)
             else (case malloc s of (ok, s) \<Rightarrow>
               if \<not> ok then (Some (-1, m), s)
               else (case fread (length d) d s of (b, _, _, s) \<Rightarrow>
                 if length b \<noteq> length d then (Some (-1, m), s)
                 else let p = skip_ws (string_of (takeWhile (\<lambda>x. x \<noteq> 0) b))
                 in if \<not> at CHR ''{'' p then (Some (-1, m), s)
                 else (case parse_apps (tl p) [] of
                         None \<Rightarrow> (None, s)
                       | Some es \<Rightarrow> (Some (0, m\<lparr>am_cache := es\<rparr>), s)))))"

text \<open>The \<open>fprintf\<close> calls of \<open>save_metadata\<close>, in order.\<close>

definition quoted :: "string \<Rightarrow> string" where
  "quoted t = CHR 0x22 # t @ [CHR 0x22]"

definition nl :: string where "nl = [CHR 0x0A]"

fun json_entries :: "app_entry_t list \<Rightarrow> string list" where
  "json_entries [] = []"
| "json_entries (e # es) =
     [''  '' @ quoted (ae_app_name e) @ '': {'' @ nl,
      ''    '' @ quoted ''remote_path'' @ '': '' @ quoted (ae_remote_path e) @ '','' @ nl,
      ''    '' @ quoted ''file_hash'' @ '': '' @ quoted (ae_file_hash e) @ '','' @ nl,
      ''    '' @ quoted ''deployed_at'' @ '': '' @ quoted (ae_deployed_at e) @ nl,
      ''  }'' @ (if es \<noteq> [] then '','' else []) @ nl] @ json_entries es"

definition metadata_json :: "app_entry_t list \<Rightarrow> string list" where
  "metadata_json es = [''{'' @ nl] @ json_entries es @ [''}'' @ nl]"

definition save_metadata :: "app_meta \<Rightarrow> os \<Rightarrow> int \<times> os" where
  "save_metadata m s =
     (case ensure_dir METADATA_DIR s of (r, s) \<Rightarrow>
        if r \<noteq> 0 then (-1, s)
        else (case fopen_w METADATA_FILE s of (opened, s) \<Rightarrow>
          if \<not> opened then (-1, s)
          else (case write_all METADATA_FILE (map bytes_of (metadata_json (am_cache m))) True s of (_, s) \<Rightarrow>
            (case fclose_w METADATA_FILE s of (_, s) \<Rightarrow> (0, s)))))"

definition find_app :: "string \<Rightarrow> app_meta \<Rightarrow> os \<Rightarrow> (app_entry_t option \<times> app_meta) option \<times> os" where
  "find_app app_name m s =
     (case load_metadata m s of
        (None, s) \<Rightarrow> (None, s)
      | (Some (_, m), s) \<Rightarrow> (Some (find (\<lambda>e. ae_app_name e = app_name) (am_cache m), m), s))"

text \<open>Writing through the pointer \<open>find_app\<close> returned: the first entry of that name.\<close>

fun update_entry :: "string \<Rightarrow> (app_entry_t \<Rightarrow> app_entry_t) \<Rightarrow> app_entry_t list \<Rightarrow> app_entry_t list" where
  "update_entry app_name f [] = []"
| "update_entry app_name f (e # es) =
     (if ae_app_name e = app_name then f e # es else e # update_entry app_name f es)"

definition app_metadata_save ::
  "string \<Rightarrow> string \<Rightarrow> string \<Rightarrow> app_meta \<Rightarrow> os \<Rightarrow> (int \<times> app_meta) option \<times> os" where
  "app_metadata_save app_name remote_path file_hash m s =
     (case load_metadata m s of
        (None, s) \<Rightarrow> (None, s)
      | (Some (_, m), s) \<Rightarrow>
          (case find_app app_name m s of
             (None, s) \<Rightarrow> (None, s)
           | (Some (entry, m), s) \<Rightarrow>
               let fill = (\<lambda>e. e\<lparr>ae_remote_path := cstr MAX_PATH_LEN remote_path,
                                  ae_file_hash := cstr HASH_BUF_LEN file_hash,
                                  ae_deployed_at := cstr 32 (iso_tm (clock s))\<rparr>)
               in (case entry of
                     None \<Rightarrow>
                       if MAX_APPS \<le> length (am_cache m) then (Some (-1, m), s)
                       else let m = m\<lparr>am_cache := am_cache m @
                                [fill (zero_entry\<lparr>ae_app_name := cstr MAX_APP_NAME_LEN app_name\<rparr>)]\<rparr>;
                                (r, s) = save_metadata m s
                            in (Some (r, m), s)
                   | Some e \<Rightarrow>
                       let m = m\<lparr>am_cache := update_entry app_name fill (am_cache m)\<rparr>;
                           (r, s) = save_metadata m s
                       in (Some (r, m), s))))"

text \<open>The sizes of the caller's buffers; the strings copied to them.\<close>

definition app_metadata_get ::
  "string \<Rightarrow> nat \<Rightarrow> nat \<Rightarrow> nat \<Rightarrow> app_meta \<Rightarrow> os \<Rightarrow> ((string \<times> string \<times> string) option \<times> app_meta) option \<times> os" where
  "app_metadata_get app_name path_size hash_size time_size m s =
     (case find_app app_name m s of
        (None, s) \<Rightarrow> (None, s)
      | (Some (None, m), s) \<Rightarrow> (Some (None, m), s)
      | (Some (Some e, m), s) \<Rightarrow>
          (Some (Some (cstr path_size (ae_remote_path e), cstr hash_size (ae_file_hash e),
                       cstr time_size (ae_deployed_at e)), m), s))"

fun meta_calls :: "(app_entry_t \<Rightarrow> 'u \<Rightarrow> os \<Rightarrow> 'u \<times> os) \<Rightarrow> app_entry_t list \<Rightarrow> 'u \<Rightarrow> os \<Rightarrow> 'u \<times> os" where
  "meta_calls cb [] u s = (u, s)"
| "meta_calls cb (e # es) u s = (case cb e u s of (u, s) \<Rightarrow> meta_calls cb es u s)"

definition app_metadata_list ::
  "(app_entry_t \<Rightarrow> 'u \<Rightarrow> os \<Rightarrow> 'u \<times> os) \<Rightarrow> 'u \<Rightarrow> app_meta \<Rightarrow> os \<Rightarrow> (int \<times> 'u \<times> app_meta) option \<times> os" where
  "app_metadata_list cb u m s =
     (case load_metadata m s of
        (None, s) \<Rightarrow> (None, s)
      | (Some (_, m), s) \<Rightarrow>
          (case meta_calls cb (am_cache m) u s of
             (u, s) \<Rightarrow> (Some (int (length (am_cache m)), u, m), s)))"

definition app_metadata_reload :: "app_meta \<Rightarrow> app_meta" where
  "app_metadata_reload m = \<lparr>am_cache = [], am_loaded = False\<rparr>"

section \<open>Printing and parsing\<close>

text \<open>A value that needs no escaping and fits a buffer of \<open>n\<close> bytes.\<close>

definition clean :: "nat \<Rightarrow> string \<Rightarrow> bool" where
  "clean n t \<longleftrightarrow> length t < n \<and> (\<forall>c \<in> set t. c \<noteq> CHR 0x22 \<and> c \<noteq> CHR 0x5C \<and> c \<noteq> CHR 0x00)"

definition clean_entry :: "app_entry_t \<Rightarrow> bool" where
  "clean_entry e \<longleftrightarrow> clean MAX_APP_NAME_LEN (ae_app_name e) \<and> clean MAX_PATH_LEN (ae_remote_path e) \<and>
     clean HASH_BUF_LEN (ae_file_hash e) \<and> clean 32 (ae_deployed_at e)"

lemma parse_chars_clean:
  "\<forall>c \<in> set v. c \<noteq> CHR 0x22 \<and> c \<noteq> CHR 0x5C \<Longrightarrow> length v \<le> k \<Longrightarrow>
    parse_chars k (v @ CHR 0x22 # r) = (v, CHR 0x22 # r)"
proof (induction v arbitrary: k)
  case Nil
  then show ?case by (cases k) auto
next
  case (Cons c v)
  then show ?case by (cases k) auto
qed

lemma skip_ws_all: "\<forall>c \<in> set w. is_ws c \<Longrightarrow> skip_ws (w @ p) = skip_ws p"
  by (simp add: skip_ws_def dropWhile_append2)

lemma skip_ws_quoted [simp]: "skip_ws (quoted t @ r) = quoted t @ r"
  by (simp add: skip_ws_def quoted_def is_ws_def)

lemma skip_ws_cons [simp]: "\<not> is_ws c \<Longrightarrow> skip_ws (c # r) = c # r"
  by (simp add: skip_ws_def)

lemma at_cons [simp]: "at c (d # r) \<longleftrightarrow> d = c" "\<not> at c []" "at c (quoted t @ r) \<longleftrightarrow> c = CHR 0x22"
  by (auto simp: at_def quoted_def)

lemma ws_chars: "is_ws CHR '' ''" "is_ws CHR 0x0A" "\<not> is_ws CHR '':''" "\<not> is_ws CHR '',''" "\<not> is_ws CHR ''{''"
    "\<not> is_ws CHR ''}''" "\<not> is_ws CHR 0x22"
  by (simp_all add: is_ws_def)

lemma parse_string_quoted:
  assumes "\<forall>c \<in> set w. is_ws c" "clean n v"
  shows "parse_string n (w @ quoted v @ r) = Some (v, r)"
proof -
  have c: "length v < n" "\<forall>c \<in> set v. c \<noteq> CHR 0x22 \<and> c \<noteq> CHR 0x5C" using assms(2) by (simp_all add: clean_def)
  have "parse_chars (n - 1) (v @ CHR 0x22 # r) = (v, CHR 0x22 # r)"
    using c by (intro parse_chars_clean) simp_all
  then show ?thesis unfolding parse_string_def Let_def skip_ws_all [OF assms(1)] by (simp add: quoted_def ws_chars)
qed

lemma parse_fields_field:
  assumes "\<forall>c \<in> set w. is_ws c" "w \<noteq> []" "clean 64 key" "clean MAX_PATH_LEN v"
  shows "parse_fields (w @ quoted key @ '': '' @ quoted v @ r) e = parse_fields r (set_field key v e)"
proof -
  let ?p = "w @ quoted key @ '': '' @ quoted v @ r"
  obtain c w' where w: "w = c # w'" "is_ws c" using assms(1,2) by (cases w) auto
  have sk: "skip_ws ?p = quoted key @ '': '' @ quoted v @ r"
    unfolding skip_ws_all [OF assms(1)] by (rule skip_ws_quoted)
  have ne: "?p \<noteq> []" "\<not> at CHR ''}'' ?p" using w by (auto simp: is_ws_def)
  have k: "parse_string 64 (quoted key @ '': '' @ quoted v @ r) = Some (key, '': '' @ quoted v @ r)"
    using parse_string_quoted [of "[]" 64 key "'': '' @ quoted v @ r"] assms(3) by simp
  have v: "parse_string MAX_PATH_LEN ('' '' @ quoted v @ r) = Some (v, r)"
    by (rule parse_string_quoted) (simp_all add: assms(4) is_ws_def)
  show ?thesis
    by (subst parse_fields.simps) (use ne sk k v in \<open>simp add: ws_chars\<close>)
qed

lemma parse_fields_comma: "parse_fields (CHR '','' # r) e = parse_fields r e"
  by (subst parse_fields.simps) (simp add: ws_chars)

lemma parse_fields_close:
  "\<forall>c \<in> set w. is_ws c \<Longrightarrow> parse_fields (w @ CHR ''}'' # r) e = (e, Some (CHR ''}'' # r))"
proof -
  assume w: "\<forall>c \<in> set w. is_ws c"
  have "skip_ws (w @ CHR ''}'' # r) = CHR ''}'' # r" unfolding skip_ws_all [OF w] by (simp add: ws_chars)
  moreover have "\<not> at CHR '','' (CHR ''}'' # r)" by simp
  ultimately show ?thesis using w by (subst parse_fields.simps) (cases w; auto simp: is_ws_def)
qed

definition entry_body :: "app_entry_t \<Rightarrow> string" where
  "entry_body e = nl @ ''    '' @ quoted ''remote_path'' @ '': '' @ quoted (ae_remote_path e) @ '','' @ nl @
     ''    '' @ quoted ''file_hash'' @ '': '' @ quoted (ae_file_hash e) @ '','' @ nl @
     ''    '' @ quoted ''deployed_at'' @ '': '' @ quoted (ae_deployed_at e) @ nl @ ''  }''"

lemma clean_mono: "clean n t \<Longrightarrow> n \<le> m \<Longrightarrow> clean m t"
  by (auto simp: clean_def)

lemma parse_body:
  assumes "clean_entry e"
  shows "parse_fields (entry_body e @ r) (zero_entry\<lparr>ae_app_name := ae_app_name e\<rparr>) = (e, Some (CHR ''}'' # r))"
proof -
  let ?w = "nl @ ''    ''"
  have w: "\<forall>c \<in> set ?w. is_ws c" "?w \<noteq> []" "\<forall>c \<in> set (nl @ ''  ''). is_ws c" by (auto simp: nl_def is_ws_def)
  have cl: "clean MAX_PATH_LEN (ae_remote_path e)" "clean MAX_PATH_LEN (ae_file_hash e)" "clean MAX_PATH_LEN (ae_deployed_at e)"
    "clean 65 (ae_file_hash e)" "clean 32 (ae_deployed_at e)"
    using assms by (auto simp: clean_entry_def MAX_PATH_LEN_def HASH_BUF_LEN_def intro: clean_mono)
  have keys: "clean 64 ''remote_path''" "clean 64 ''file_hash''" "clean 64 ''deployed_at''" by (simp_all add: clean_def)
  have "entry_body e @ r = ?w @ quoted ''remote_path'' @ '': '' @ quoted (ae_remote_path e) @ CHR '','' #
      (?w @ quoted ''file_hash'' @ '': '' @ quoted (ae_file_hash e) @ CHR '','' #
      (?w @ quoted ''deployed_at'' @ '': '' @ quoted (ae_deployed_at e) @ ((nl @ ''  '') @ CHR ''}'' # r)))"
    by (simp add: entry_body_def)
  then show ?thesis
    using cl
    by (simp only: parse_fields_field [OF w(1,2) keys(1) cl(1)] parse_fields_field [OF w(1,2) keys(2) cl(2)]
        parse_fields_field [OF w(1,2) keys(3) cl(3)] parse_fields_comma parse_fields_close [OF w(3)])
      (simp add: set_field_def zero_entry_def clean_def MAX_PATH_LEN_def HASH_BUF_LEN_def)
qed

lemma parse_apps_entry:
  assumes "clean_entry e" "length acc < MAX_APPS" "\<forall>c \<in> set w. is_ws c"
  shows "parse_apps (w @ quoted (ae_app_name e) @ '': {'' @ entry_body e @ r) acc = parse_apps r (acc @ [e])"
proof -
  let ?p = "w @ quoted (ae_app_name e) @ '': {'' @ entry_body e @ r"
  have sk: "skip_ws ?p = quoted (ae_app_name e) @ '': {'' @ entry_body e @ r"
    unfolding skip_ws_all [OF assms(3)] by (rule skip_ws_quoted)
  have k: "parse_string MAX_APP_NAME_LEN (quoted (ae_app_name e) @ '': {'' @ entry_body e @ r) =
      Some (ae_app_name e, '': {'' @ entry_body e @ r)"
    using parse_string_quoted [of "[]"] assms(1) by (simp add: clean_entry_def)
  have s2: "skip_ws ('' {'' @ entry_body e @ r) = ''{'' @ entry_body e @ r"
    by (simp add: skip_ws_def is_ws_def)
  have ne: "?p \<noteq> []" by (simp add: quoted_def)
  show ?thesis
    by (subst parse_apps.simps)
      (use ne sk k s2 parse_body [OF assms(1), of r] assms(2) in \<open>simp add: ws_chars not_le\<close>)
qed


lemma parse_apps_ws:
  assumes "\<forall>c \<in> set w. is_ws c" "length acc < MAX_APPS"
  shows "parse_apps (w @ CHR ''}'' # r) acc = Some acc" "parse_apps (CHR '','' # r) acc = parse_apps r acc"
proof -
  have "skip_ws (w @ CHR ''}'' # r) = CHR ''}'' # r" unfolding skip_ws_all [OF assms(1)] by (simp add: ws_chars)
  then show "parse_apps (w @ CHR ''}'' # r) acc = Some acc" by (subst parse_apps.simps) simp
  show "parse_apps (CHR '','' # r) acc = parse_apps r acc"
    by (subst parse_apps.simps) (use assms(2) in \<open>simp add: ws_chars not_le\<close>)
qed

lemma parse_apps_full: "MAX_APPS \<le> length acc \<Longrightarrow> parse_apps p acc = Some acc"
  by (subst parse_apps.simps) simp

lemma json_entry: "concat (json_entries (e # es)) =
    ''  '' @ quoted (ae_app_name e) @ '': {'' @ entry_body e @ (if es \<noteq> [] then '','' else []) @ nl @ concat (json_entries es)"
  by (simp add: entry_body_def nl_def)

declare json_entries.simps(2) [simp del]

lemma parse_json:
  "\<forall>e \<in> set es. clean_entry e \<Longrightarrow> length acc + length es \<le> MAX_APPS \<Longrightarrow>
    parse_apps (nl @ concat (json_entries es) @ ''}'' @ nl) acc = Some (acc @ es)"
proof (induction es arbitrary: acc)
  case Nil
  show ?case
  proof (cases "length acc < MAX_APPS")
    case True
    then show ?thesis using parse_apps_ws(1) [of nl acc nl] by (simp add: nl_def ws_chars)
  qed (simp add: parse_apps_full)
next
  case (Cons e es)
  let ?sep = "if es \<noteq> [] then '','' else []" and ?r = "concat (json_entries es) @ ''}'' @ nl"
  have w: "\<forall>c \<in> set (nl @ ''  ''). is_ws c" by (auto simp: nl_def is_ws_def)
  have eq: "nl @ concat (json_entries (e # es)) @ ''}'' @ nl =
      (nl @ ''  '') @ quoted (ae_app_name e) @ '': {'' @ entry_body e @ (?sep @ nl @ ?r)"
    unfolding json_entry by simp
  have 1: "parse_apps (nl @ concat (json_entries (e # es)) @ ''}'' @ nl) acc = parse_apps (?sep @ nl @ ?r) (acc @ [e])"
    unfolding eq by (rule parse_apps_entry [OF _ _ w]) (use Cons.prems in simp_all)
  have IH: "parse_apps (nl @ ?r) (acc @ [e]) = Some ((acc @ [e]) @ es)" using Cons by auto
  show ?case
  proof (cases "es = []")
    case False
    then have "length (acc @ [e]) < MAX_APPS" using Cons.prems(2) by (cases es) auto
    then have "parse_apps (?sep @ nl @ ?r) (acc @ [e]) = parse_apps (nl @ ?r) (acc @ [e])"
      using False parse_apps_ws(2) [of "[]"] by simp
    then show ?thesis using 1 IH by simp
  qed (use 1 IH in simp)
qed

lemma json_size:
  assumes "\<forall>e \<in> set es. clean_entry e"
  shows "length (concat (json_entries es)) \<le> length es * 1000"
  using assms
proof (induction es)
  case (Cons e es)
  let ?e = "''  '' @ quoted (ae_app_name e) @ '': {'' @ entry_body e @ (if es \<noteq> [] then '','' else []) @ nl"
  have "length ?e \<le> length (ae_app_name e) + length (ae_remote_path e) + length (ae_file_hash e) + length (ae_deployed_at e) + 120"
    by (simp add: entry_body_def quoted_def nl_def)
  moreover have "length (ae_app_name e) < 64" "length (ae_remote_path e) < 512" "length (ae_file_hash e) < 65"
    "length (ae_deployed_at e) < 32"
    using Cons.prems by (simp_all add: clean_entry_def clean_def MAX_PATH_LEN_def MAX_APP_NAME_LEN_def HASH_BUF_LEN_def)
  ultimately have "length ?e \<le> 1000" by linarith
  moreover have "length (concat (json_entries es)) \<le> length es * 1000" using Cons by simp
  moreover have "concat (json_entries (e # es)) = ?e @ concat (json_entries es)" unfolding json_entry by simp
  ultimately show ?case by (simp del: append_assoc)
qed simp

lemma clean_no_nul: "clean n t \<Longrightarrow> CHR 0x00 \<notin> set t"
  unfolding clean_def by blast

lemma json_no_nul:
  assumes "\<forall>e \<in> set es. clean_entry e"
  shows "CHR 0x00 \<notin> set (concat (json_entries es))"
  using assms
proof (induction es)
  case (Cons e es)
  have "CHR 0x00 \<notin> set (ae_app_name e)" "CHR 0x00 \<notin> set (ae_remote_path e)" "CHR 0x00 \<notin> set (ae_file_hash e)"
    "CHR 0x00 \<notin> set (ae_deployed_at e)" using Cons.prems clean_no_nul unfolding clean_entry_def by (meson list.set_intros(1))+
  then show ?case unfolding json_entry using Cons by (simp add: entry_body_def quoted_def nl_def)
qed simp

text \<open>What \<open>save_metadata\<close> writes, \<open>load_metadata\<close> reads back.\<close>

lemma load_json:
  assumes "\<forall>e \<in> set es. clean_entry e" "length es \<le> MAX_APPS" "script s = []"
    "contents s METADATA_FILE = Some (bytes_of (concat (metadata_json es)))" "\<not> am_loaded m"
  shows "load_metadata m s = (Some (0, \<lparr>am_cache = es, am_loaded = True\<rparr>), s)"
proof -
  define j where "j = concat (metadata_json es)"
  have t: "j = ''{'' @ nl @ concat (json_entries es) @ ''}'' @ nl" by (simp add: j_def metadata_json_def)
  have "CHR 0x00 \<notin> set j" unfolding t using json_no_nul [OF assms(1)] by (simp add: nl_def)
  then have "0 \<notin> set (bytes_of j)" by (rule bytes_of_nonzero)
  then have "takeWhile (\<lambda>x. x \<noteq> 0) (bytes_of j) = bytes_of j" by (intro takeWhile_all) auto
  then have str: "string_of (takeWhile (\<lambda>x. x \<noteq> 0) (bytes_of j)) = j" by (simp only: string_of_bytes_of)
  have len: "length (bytes_of j) \<le> 1024 * 1024" "bytes_of j \<noteq> []"
    unfolding t using json_size [OF assms(1)] assms(2) by (simp_all add: nl_def MAX_APPS_def bytes_of_def)
  have sk: "skip_ws j = j" "at CHR ''{'' j" "tl j = nl @ concat (json_entries es) @ ''}'' @ nl"
    unfolding t by (simp_all add: ws_chars)
  have pj: "parse_apps (tl j) [] = Some es" unfolding sk(3) using parse_json [OF assms(1), of "[]"] assms(2) by simp
  have op: "fopen_r METADATA_FILE s = (Some (bytes_of j), s)" using assms(3,4) by (simp add: fopen_r_def io_simps j_def)
  show ?thesis
    unfolding load_metadata_def Let_def op
    using assms(3,5) len sk(1,2) pj by (simp add: fread_quiet malloc_quiet str del: length_bytes_of)
qed

section \<open>The cache as a bounded map\<close>

text \<open>What the deploy handlers rely on: a finite map that may refuse a new key, never a known one.\<close>

locale bounded_map =
  fixes ok :: "'k \<Rightarrow> bool" and get :: "'s \<Rightarrow> 'k \<Rightarrow> 'v option" and put :: "'k \<Rightarrow> 'v \<Rightarrow> 's \<Rightarrow> 's option"
  assumes put_same: "ok k \<Longrightarrow> put k v s = Some s' \<Longrightarrow> get s' k = Some v"
    and put_other: "ok k \<Longrightarrow> k' \<noteq> k \<Longrightarrow> put k v s = Some s' \<Longrightarrow> get s' k' = get s k'"
    and put_known: "get s k \<noteq> None \<Longrightarrow> put k v s \<noteq> None"
begin

lemma put_map: "ok k \<Longrightarrow> put k v s = Some s' \<Longrightarrow> get s' = (get s)(k \<mapsto> v)"
  using put_same put_other by (intro ext) auto

lemma put_again: "ok k \<Longrightarrow> put k v s = Some s' \<Longrightarrow> \<exists>s''. put k w s' = Some s'' \<and> get s'' = (get s)(k \<mapsto> w)"
  using put_map put_known [of s' k w] put_same by fastforce

end

definition cache_get :: "app_entry_t list \<Rightarrow> string \<Rightarrow> (string \<times> string \<times> string) option" where
  "cache_get es n = map_option (\<lambda>e. (ae_remote_path e, ae_file_hash e, ae_deployed_at e))
     (find (\<lambda>e. ae_app_name e = n) es)"

definition fill_entry :: "string \<times> string \<times> string \<Rightarrow> app_entry_t \<Rightarrow> app_entry_t" where
  "fill_entry v e = (case v of (p, h, t) \<Rightarrow> e\<lparr>ae_remote_path := p, ae_file_hash := h, ae_deployed_at := t\<rparr>)"

definition cache_put :: "string \<Rightarrow> string \<times> string \<times> string \<Rightarrow> app_entry_t list \<Rightarrow> app_entry_t list option" where
  "cache_put n v es =
     (if find (\<lambda>e. ae_app_name e = n) es \<noteq> None then Some (update_entry n (fill_entry v) es)
      else if MAX_APPS \<le> length es then None
      else Some (es @ [fill_entry v (zero_entry\<lparr>ae_app_name := cstr MAX_APP_NAME_LEN n\<rparr>)]))"

lemma fill_entry_sel [simp]: "ae_app_name (fill_entry v e) = ae_app_name e"
    "ae_remote_path (fill_entry v e) = fst v" "ae_file_hash (fill_entry v e) = fst (snd v)"
    "ae_deployed_at (fill_entry v e) = snd (snd v)"
  by (simp_all add: fill_entry_def split_def)

lemma find_update_entry:
  "find (\<lambda>e. ae_app_name e = k) (update_entry n (fill_entry v) es) =
    (if k = n then map_option (fill_entry v) (find (\<lambda>e. ae_app_name e = n) es) else find (\<lambda>e. ae_app_name e = k) es)"
  by (induction es) auto

lemma find_append: "find P (xs @ ys) = (case find P xs of None \<Rightarrow> find P ys | Some x \<Rightarrow> Some x)"
  by (induction xs) auto

interpretation apps: bounded_map "\<lambda>n. length n < MAX_APP_NAME_LEN" cache_get cache_put
proof (unfold_locales, goal_cases)
  case (1 k v s s')
  then show ?case
    by (auto simp: cache_put_def cache_get_def find_update_entry find_append zero_entry_def split: if_splits option.splits)
next
  case (2 k k' v s s')
  then show ?case
    by (auto simp: cache_put_def cache_get_def find_update_entry find_append zero_entry_def split: if_splits option.splits)
next
  case (3 s k v)
  then show ?case by (auto simp: cache_put_def cache_get_def)
qed

lemma length_cache_put: "cache_put n v es = Some es' \<Longrightarrow> length es \<le> MAX_APPS \<Longrightarrow> length es' \<le> MAX_APPS"
proof -
  have "length (update_entry n f es) = length es" for f by (induction es) auto
  then show "cache_put n v es = Some es' \<Longrightarrow> length es \<le> MAX_APPS \<Longrightarrow> length es' \<le> MAX_APPS"
    by (auto simp: cache_put_def split: if_splits)
qed

lemma save_is_put:
  assumes "am_loaded m" "app_metadata_save n p h m s = (Some (r, m'), s')"
  shows "case cache_put n (cstr MAX_PATH_LEN p, cstr HASH_BUF_LEN h, cstr 32 (iso_tm (clock s))) (am_cache m) of
      None \<Rightarrow> r = -1 \<and> m' = m \<and> s' = s
    | Some es \<Rightarrow> m' = m\<lparr>am_cache := es\<rparr> \<and> save_metadata m' s = (r, s')"
proof -
  have fe: "(\<lambda>e. e\<lparr>ae_remote_path := a, ae_file_hash := b, ae_deployed_at := c\<rparr>) = fill_entry (a, b, c)" for a b c
    by (simp add: fill_entry_def fun_eq_iff)
  have l: "load_metadata m t = (Some (0, m), t)" for t using assms(1) by (simp add: load_metadata_def)
  let ?m = "\<lambda>es. m\<lparr>am_cache := es\<rparr>"
  have "app_metadata_save n p h m s =
      (case cache_put n (cstr MAX_PATH_LEN p, cstr HASH_BUF_LEN h, cstr 32 (iso_tm (clock s))) (am_cache m) of
         None \<Rightarrow> (Some (-1, m), s)
       | Some es \<Rightarrow> (Some (fst (save_metadata (?m es) s), ?m es), snd (save_metadata (?m es) s)))"
    by (simp add: app_metadata_save_def find_app_def l fe cache_put_def Let_def split_def split: option.split)
  then show ?thesis using assms(2) by (auto split: option.splits)
qed

lemma save_total:
  assumes "am_loaded m"
  shows "\<exists>r m' s'. app_metadata_save n p h m s = (Some (r, m'), s') \<and> am_loaded m'"
  using assms by (auto simp: app_metadata_save_def find_app_def load_metadata_def Let_def split_def split: option.splits)

section \<open>Persistence\<close>

lemma iso_clean:
  assumes "tm_ok t"
  shows "clean 32 (iso_tm t)"
proof -
  have "length (iso_tm t) < 32"
    using assms by (simp add: iso_tm_def iso_of_def pad_int_pad length_pad_dec tm_ok_def)
  moreover have "is_dec c \<or> c \<in> set ''-T:''" if "c \<in> set (iso_tm t)" for c
    using that pad_dec_dec by (auto simp: iso_tm_def iso_of_def pad_int_pad)
  moreover have "c \<noteq> CHR 0x22 \<and> c \<noteq> CHR 0x5C \<and> c \<noteq> CHR 0x00" if "is_dec c \<or> c \<in> set ''-T:''" for c
    using that by (auto simp: is_dec_def)
  ultimately show ?thesis by (simp add: clean_def)
qed

lemma clean_cstr: "clean n t \<Longrightarrow> cstr n t = t"
  by (simp add: clean_def)

lemma clean_put:
  assumes "\<forall>e \<in> set es. clean_entry e" "clean MAX_APP_NAME_LEN n" "clean MAX_PATH_LEN p" "clean HASH_BUF_LEN h" "clean 32 t"
    "cache_put n (p, h, t) es = Some es'"
  shows "\<forall>e \<in> set es'. clean_entry e"
proof -
  have f: "clean_entry (fill_entry (p, h, t) e)" if "clean MAX_APP_NAME_LEN (ae_app_name e)" for e
    using that assms(3-5) by (simp add: clean_entry_def)
  have g: "clean_entry (fill_entry (p, h, t) e)" if "clean_entry e" for e
    using that f [of e] unfolding clean_entry_def by blast
  have "\<forall>e \<in> set (update_entry n (fill_entry (p, h, t)) es). clean_entry e"
    using assms(1) by (induction es) (simp_all add: g)
  then show ?thesis using assms f clean_cstr [OF assms(2)] by (auto simp: cache_put_def zero_entry_def split: if_splits)
qed

lemma save_metadata_quiet:
  assumes "script s = []" "dir_exists s METADATA_DIR" "\<not> dir_exists s METADATA_FILE"
  shows "\<exists>s'. save_metadata m s = (0, s') \<and> script s' = [] \<and>
    contents s' METADATA_FILE = Some (bytes_of (concat (metadata_json (am_cache m))))"
proof -
  let ?f = METADATA_FILE
  have en: "ensure_dir METADATA_DIR s = (0, s)" using assms(1,2) by (simp add: ensure_dir_def stat_def io_simps)
  have "dirname ?f = METADATA_DIR" by (simp add: METADATA_FILE_def METADATA_DIR_def dirname_def)
  then have "can_create s ?f" using assms by (simp add: can_create_def METADATA_FILE_def)
  then obtain s1 where o: "fopen_w ?f s = (True, s1)" "script s1 = []" "contents s1 ?f = Some []"
    using assms(1) by (auto simp: fopen_w_def io_simps)
  from write_all_quiet [OF o(2)] obtain s2 where
    w: "write_all ?f (map bytes_of (metadata_json (am_cache m))) True s1 = (True, s2)" "script s2 = []" by blast
  have "contents s2 ?f = Some (concat (map bytes_of (metadata_json (am_cache m))))"
    using write_all_ok [OF w(1) o(3)] by simp
  moreover have "concat (map bytes_of ts) = bytes_of (concat ts)" for ts by (induction ts) (simp_all add: bytes_of_def)
  ultimately show ?thesis using en o(1) w
    by (simp add: save_metadata_def fclose_w_def fflush_def io_simps)
qed


section \<open>Properties\<close>

text \<open>
  C31: The metadata is a bounded map. Whatever calls fail, saving under a name that fits the buffer
  either is refused, with -1 and nothing changed, because 64 other applications are recorded, or
  makes exactly that name's record the new path, hash and time and leaves all other records as
  they were; never more than 64 are kept.
\<close>

theorem app_metadata_is_map:
  assumes "am_loaded m" "length (am_cache m) \<le> MAX_APPS" "length n < MAX_APP_NAME_LEN"
    "app_metadata_save n p h m s = (Some (r, m'), s')"
  shows "length (am_cache m') \<le> MAX_APPS \<and>
    (r = -1 \<and> m' = m \<and> s' = s \<and> cache_get (am_cache m) n = None \<and> length (am_cache m) = MAX_APPS \<or>
     cache_get (am_cache m') =
       (cache_get (am_cache m))(n \<mapsto> (cstr MAX_PATH_LEN p, cstr HASH_BUF_LEN h, cstr 32 (iso_tm (clock s)))))"
proof -
  let ?v = "(cstr MAX_PATH_LEN p, cstr HASH_BUF_LEN h, cstr 32 (iso_tm (clock s)))"
  show ?thesis
  proof (cases "cache_put n ?v (am_cache m)")
    case None
    then have "cache_get (am_cache m) n = None" "MAX_APPS \<le> length (am_cache m)"
      by (auto simp: cache_put_def cache_get_def split: if_splits)
    then show ?thesis using save_is_put [OF assms(1,4)] None assms(2) by auto
  next
    case (Some es)
    have "cache_get es = (cache_get (am_cache m))(n \<mapsto> ?v)" by (rule apps.put_map [OF assms(3) Some])
    moreover have "length es \<le> MAX_APPS" by (rule length_cache_put [OF Some assms(2)])
    ultimately show ?thesis using save_is_put [OF assms(1,4)] Some by simp
  qed
qed

theorem app_metadata_is_map_witness:
  "\<exists>r m' s'. app_metadata_save ''app'' ''/a'' ''00'' \<lparr>am_cache = [], am_loaded = True\<rparr> (files_os []) = (Some (r, m'), s') \<and>
     length (am_cache m') \<le> MAX_APPS \<and> cache_get (am_cache m') ''app'' = Some (''/a'', ''00'', cstr 32 (iso_tm a_time))"
proof -
  obtain r m' s' where s: "app_metadata_save ''app'' ''/a'' ''00'' \<lparr>am_cache = [], am_loaded = True\<rparr> (files_os []) = (Some (r, m'), s')"
    using save_total [of "\<lparr>am_cache = [], am_loaded = True\<rparr>"] by force
  from app_metadata_is_map [OF _ _ _ s] show ?thesis
    using s by (auto simp: MAX_APPS_def MAX_APP_NAME_LEN_def MAX_PATH_LEN_def HASH_BUF_LEN_def)
qed

text \<open>
  C32: Records survive a restart. With no failing call and values that need no JSON escaping and
  fit their buffers, a saved record is on disk: after dropping the cache, the next load gives the
  whole cache back and the lookup returns the saved path, hash and time.
\<close>

theorem app_metadata_persists:
  assumes "script s = []" "dir_exists s METADATA_DIR" "\<not> dir_exists s METADATA_FILE" "tm_ok (clock s)"
    "am_loaded m" "length (am_cache m) < MAX_APPS" "\<forall>e \<in> set (am_cache m). clean_entry e"
    "clean MAX_APP_NAME_LEN n" "clean MAX_PATH_LEN p" "clean HASH_BUF_LEN h"
  shows "\<exists>m' s'. app_metadata_save n p h m s = (Some (0, m'), s') \<and>
    load_metadata (app_metadata_reload m') s' = (Some (0, m'), s') \<and>
    app_metadata_get n MAX_PATH_LEN HASH_BUF_LEN 32 (app_metadata_reload m') s' = (Some (Some (p, h, iso_tm (clock s)), m'), s')"
proof -
  let ?v = "(p, h, iso_tm (clock s))"
  note tc = iso_clean [OF assms(4)]
  have v: "(cstr MAX_PATH_LEN p, cstr HASH_BUF_LEN h, cstr 32 (iso_tm (clock s))) = ?v"
    using clean_cstr assms(9,10) tc by metis
  have "cache_put n ?v (am_cache m) \<noteq> None" using assms(6) by (simp add: cache_put_def)
  then obtain es where es: "cache_put n ?v (am_cache m) = Some es" by blast
  note ce = clean_put [OF assms(7-10) tc es]
  obtain r m' s' where sv: "app_metadata_save n p h m s = (Some (r, m'), s')" using save_total [OF assms(5)] by blast
  have m': "m' = m\<lparr>am_cache := es\<rparr>" "save_metadata m' s = (r, s')"
    using save_is_put [OF assms(5) sv] unfolding v es by auto
  obtain s'' where q: "save_metadata m' s = (0, s'')" "script s'' = []"
    "contents s'' METADATA_FILE = Some (bytes_of (concat (metadata_json (am_cache m'))))"
    using save_metadata_quiet [OF assms(1-3)] by blast
  have r: "r = 0" "s'' = s'" using q(1) m'(2) by simp_all
  have "length es \<le> MAX_APPS" using length_cache_put [OF es] assms(6) by simp
  then have ld: "load_metadata (app_metadata_reload m') s' = (Some (0, m'), s')"
    using load_json [of es s' "app_metadata_reload m'"] ce q r m' assms(5) by (simp add: app_metadata_reload_def)
  have "length n < MAX_APP_NAME_LEN" using assms(8) by (simp add: clean_def)
  then have "cache_get (am_cache m') n = Some ?v" using apps.put_same [OF _ es] m' by simp
  then obtain e where e: "find (\<lambda>e. ae_app_name e = n) (am_cache m') = Some e" "ae_remote_path e = p" "ae_file_hash e = h"
    "ae_deployed_at e = iso_tm (clock s)" by (auto simp: cache_get_def)
  then have "app_metadata_get n MAX_PATH_LEN HASH_BUF_LEN 32 (app_metadata_reload m') s' = (Some (Some ?v, m'), s')"
    using ld v by (simp add: app_metadata_get_def find_app_def)
  then show ?thesis using sv r(1) ld by blast
qed

theorem app_metadata_persists_witness:
  "\<exists>m' s'. app_metadata_save ''app'' ''/a'' ''00'' \<lparr>am_cache = [], am_loaded = True\<rparr>
       (files_os []\<lparr>dirs := [METADATA_DIR]\<rparr>) = (Some (0, m'), s') \<and>
    app_metadata_get ''app'' MAX_PATH_LEN HASH_BUF_LEN 32 (app_metadata_reload m') s' =
      (Some (Some (''/a'', ''00'', iso_tm a_time), m'), s')"
proof -
  have "tm_ok a_time" using files_os_store by blast
  then show ?thesis
    using app_metadata_persists [of "files_os []\<lparr>dirs := [METADATA_DIR]\<rparr>" "\<lparr>am_cache = [], am_loaded = True\<rparr>" "''app''" "''/a''" "''00''"]
    by (simp add: dir_exists_def METADATA_DIR_def METADATA_FILE_def MAX_APPS_def clean_def MAX_APP_NAME_LEN_def
        MAX_PATH_LEN_def HASH_BUF_LEN_def) blast
qed


lemma parse_fields_null:
  assumes "clean 64 k" "\<not> is_ws c" "c \<noteq> CHR 0x22"
  shows "parse_fields (quoted k @ '':'' @ c # r) e = (e, None)"
proof -
  have k: "parse_string 64 (quoted k @ '':'' @ c # r) = Some (k, '':'' @ c # r)"
    using parse_string_quoted [of "[]" 64 k "'':'' @ c # r"] assms(1) by simp
  have v: "parse_string MAX_PATH_LEN (c # r) = None" using assms(2,3) by (simp add: parse_string_def Let_def)
  have "quoted k @ '':'' @ c # r \<noteq> []" by (simp add: quoted_def)
  then show ?thesis
    by (subst parse_fields.simps) (use k v in \<open>simp add: ws_chars\<close>)
qed

text \<open>
  A record whose value is not a string kills the agent. When the field of an application in
  \<open>apps.json\<close> is a number, or anything but a quoted string, the parser's null pointer is
  dereferenced after the field loop: the load ends in the crash result instead of rejecting the
  file.
\<close>

theorem metadata_nonstring_crashes:
  assumes "\<not> am_loaded m" "script s = []" "clean MAX_APP_NAME_LEN n" "clean 64 k"
    "\<not> is_ws c" "c \<noteq> CHR 0x22" "CHR 0x00 \<notin> set (c # r)" "length r \<le> 1000000"
    "contents s METADATA_FILE = Some (bytes_of (''{'' @ quoted n @ '':{'' @ quoted k @ '':'' @ c # r))"
  shows "load_metadata m s = (None, s)"
proof -
  define f where "f = quoted k @ '':'' @ c # r"
  define j where "j = ''{'' @ quoted n @ '':{'' @ f"
  have pf: "parse_fields f e = (e, None)" for e unfolding f_def by (rule parse_fields_null [OF assms(4-6)])
  have "parse_string MAX_APP_NAME_LEN (quoted n @ '':{'' @ f) = Some (n, '':{'' @ f)"
    using parse_string_quoted [of "[]" MAX_APP_NAME_LEN n "'':{'' @ f"] assms(3) by simp
  moreover have "quoted n @ '':{'' @ f \<noteq> []" by (simp add: quoted_def)
  ultimately have pa: "parse_apps (quoted n @ '':{'' @ f) [] = None"
    by (subst parse_apps.simps) (use pf in \<open>simp add: ws_chars MAX_APPS_def\<close>)
  have nz: "CHR 0x00 \<notin> set j"
    using assms(7) clean_no_nul [OF assms(3)] clean_no_nul [OF assms(4)] by (auto simp: j_def f_def quoted_def)
  then have "takeWhile (\<lambda>x. x \<noteq> 0) (bytes_of j) = bytes_of j"
    using bytes_of_nonzero [OF nz] by (intro takeWhile_all) auto
  then have str: "string_of (takeWhile (\<lambda>x. x \<noteq> 0) (bytes_of j)) = j" by (simp only: string_of_bytes_of)
  have len: "\<not> length (bytes_of j) > 1024 * 1024" "bytes_of j \<noteq> []"
    using assms(3,4,8) by (simp_all add: j_def f_def quoted_def clean_def MAX_APP_NAME_LEN_def bytes_of_def)
  have op: "fopen_r METADATA_FILE s = (Some (bytes_of j), s)"
    using assms(2,9) by (simp add: fopen_r_def io_simps j_def f_def)
  have sk: "skip_ws j = j" "at CHR ''{'' j" "tl j = quoted n @ '':{'' @ f" by (simp_all add: j_def ws_chars)
  show ?thesis
    unfolding load_metadata_def Let_def op
    using assms(1,2) len sk pa by (simp add: fread_quiet malloc_quiet str del: length_bytes_of)
qed

theorem metadata_nonstring_crashes_witness:
  "load_metadata \<lparr>am_cache = [], am_loaded = False\<rparr>
     (files_os [(METADATA_FILE, bytes_of (''{'' @ quoted ''a'' @ '':{'' @ quoted ''size'' @ '':1}}''))]) =
   (None, files_os [(METADATA_FILE, bytes_of (''{'' @ quoted ''a'' @ '':{'' @ quoted ''size'' @ '':1}}''))])"
  by (rule metadata_nonstring_crashes [where n = "''a''" and k = "''size''" and c = "CHR ''1''" and r = "''}}''"])
    (simp_all add: clean_def MAX_APP_NAME_LEN_def is_ws_def)

lemma write_all_fail:
  "script s = replicate (length bs) (Fail 0) \<Longrightarrow>
    script (snd (write_all p bs ok s)) = [] \<and> contents (snd (write_all p bs ok s)) p = contents s p"
proof (induction bs arbitrary: ok s)
  case (Cons b bs)
  let ?s = "append_file p [] (s\<lparr>script := replicate (length bs) (Fail 0)\<rparr>)"
  have w: "fwrite p b s = (0, ?s)" using Cons.prems by (simp add: fwrite_def io_simps)
  have "contents ?s p = contents s p" by (cases "contents s p") simp_all
  then show ?case using Cons.IH [of ?s "ok \<and> 0 = length b"] w by (simp add: split_def)
qed simp

text \<open>
  Losing the metadata is reported as success. When the disk is full, so that every write of
  \<open>save_metadata\<close> stores nothing, it still returns 0, and \<open>apps.json\<close>, truncated on
  opening, is empty: all records are gone on the next start.
\<close>

theorem metadata_write_failure_ignored:
  assumes "dir_exists s METADATA_DIR" "\<not> dir_exists s METADATA_FILE"
    "script s = [Good, Good] @ replicate (length (metadata_json (am_cache m))) (Fail 0)"
  shows "\<exists>s'. save_metadata m s = (0, s') \<and> contents s' METADATA_FILE = Some []"
proof -
  let ?f = METADATA_FILE and ?bs = "map bytes_of (metadata_json (am_cache m))"
  let ?s1 = "s\<lparr>script := Good # replicate (length ?bs) (Fail 0)\<rparr>"
  have en: "ensure_dir METADATA_DIR s = (0, ?s1)" using assms by (simp add: ensure_dir_def stat_def io_simps)
  have "dirname ?f = METADATA_DIR" by (simp add: METADATA_FILE_def METADATA_DIR_def dirname_def)
  then have "can_create ?s1 ?f" using assms by (simp add: can_create_def METADATA_FILE_def)
  then obtain s2 where o: "fopen_w ?f ?s1 = (True, s2)" "script s2 = replicate (length ?bs) (Fail 0)" "contents s2 ?f = Some []"
    by (auto simp: fopen_w_def io_simps)
  have w: "script (snd (write_all ?f ?bs True s2)) = []" "contents (snd (write_all ?f ?bs True s2)) ?f = Some []"
    using write_all_fail [OF o(2), of ?f True] o(3) by simp_all
  have "fclose_w ?f (snd (write_all ?f ?bs True s2)) = (True, snd (write_all ?f ?bs True s2))"
    using w(1) by (simp add: fclose_w_def fflush_def io_simps)
  then show ?thesis using en o(1) w(2) by (simp add: save_metadata_def split_def)
qed

theorem metadata_write_failure_ignored_witness:
  "\<exists>s'. save_metadata \<lparr>am_cache = [], am_loaded = True\<rparr>
      (files_os []\<lparr>dirs := [METADATA_DIR], script := [Good, Good, Fail 0, Fail 0]\<rparr>) = (0, s') \<and>
     contents s' METADATA_FILE = Some []"
  by (rule metadata_write_failure_ignored)
    (simp_all add: dir_exists_def METADATA_DIR_def METADATA_FILE_def metadata_json_def)

end
