(* ===== verification/Deploy_Handler.thy ===== *)
theory Deploy_Handler
  imports Svu_Transfer App_Metadata
begin

text \<open>
  The agent's command handler (\<open>satdeploy-agent/src/deploy_handler.c\<close>) with the messages
  it exchanges (\<open>proto/deploy.pb-c.h\<close>): status, logs, version lists, rollback, the pull
  deploy over SVU, the direct upload session, the dispatcher and the accept loop. This theory
  holds the definitions; \<open>Deploy_Safety\<close>, \<open>Upload_Safety\<close> and \<open>Rollback\<close> hold what is proved of them.

  The file-scope variables (the upload session, the metadata cache) and the state of the other
  end of the network are the record \<open>agent\<close>. A handler returns the response and the new
  state, or, on the left, why the process did not return: a null pointer, a write past an array,
  a transfer that never ends. The other end of each link, \<open>system\<close> and \<open>popen\<close>,
  and the protobuf library's \<open>unpack\<close> and \<open>pack\<close> are parameters.
\<close>

section \<open>Messages\<close>

datatype deploy_command =
    CMD_UNKNOWN | CMD_STATUS | CMD_DEPLOY | CMD_ROLLBACK | CMD_LIST_VERSIONS | CMD_LOGS
  | CMD_UPLOAD_START | CMD_UPLOAD_CHUNK | CMD_UPLOAD_END | CMD_OTHER int

datatype deploy_error =
    ERR_NONE | ERR_UNKNOWN_COMMAND | ERR_APP_NOT_FOUND | ERR_PARAM_SET_FAILED | ERR_BACKUP_FAILED
  | ERR_DTP_DOWNLOAD_FAILED | ERR_CHECKSUM_MISMATCH | ERR_INSTALL_FAILED | ERR_NO_BACKUPS
  | ERR_BACKUP_NOT_FOUND | ERR_RESTORE_FAILED | ERR_UPLOAD_IN_PROGRESS | ERR_NO_UPLOAD_IN_PROGRESS
  | ERR_CHUNK_OUT_OF_ORDER | ERR_FILE_WRITE_FAILED | ERR_LOGS_FAILED

text \<open>A \<open>char *\<close> may be \<open>NULL\<close>; \<open>size_bytes\<close> is unbounded here.\<close>

record deploy_request =
  dr_command :: deploy_command
  dr_app_name :: "string option"
  dr_param_name :: "string option"
  dr_appsys_node :: u32
  dr_run_node :: u32
  dr_remote_path :: "string option"
  dr_dtp_server_node :: u32
  dr_dtp_server_port :: u32
  dr_payload_id :: u32
  dr_expected_size :: u32
  dr_expected_checksum :: "string option"
  dr_rollback_hash :: "string option"
  dr_chunk_seq :: u32
  dr_total_chunks :: u32
  dr_chunk_data :: bytes
  dr_log_lines :: u32
  dr_file_mode :: u32
  dr_dtp_mtu :: u32
  dr_dtp_throughput :: u32
  dr_dtp_timeout :: u32

definition req_init :: deploy_request where
  "req_init = \<lparr>dr_command = CMD_UNKNOWN, dr_app_name = Some [], dr_param_name = Some [], dr_appsys_node = 0, dr_run_node = 0,
     dr_remote_path = Some [], dr_dtp_server_node = 0, dr_dtp_server_port = 0, dr_payload_id = 0, dr_expected_size = 0,
     dr_expected_checksum = Some [], dr_rollback_hash = Some [], dr_chunk_seq = 0, dr_total_chunks = 0, dr_chunk_data = [],
     dr_log_lines = 0, dr_file_mode = 0, dr_dtp_mtu = 0, dr_dtp_throughput = 0, dr_dtp_timeout = 0\<rparr>"

record backup_entry =
  be_version :: string
  be_timestamp :: string
  be_hash :: string
  be_path :: string
  be_size_bytes :: nat

record app_status_entry =
  st_app_name :: string
  st_running :: bool
  st_file_hash :: string
  st_remote_path :: string

record deploy_response =
  rs_success :: bool
  rs_error_code :: deploy_error
  rs_error_message :: string
  rs_apps :: "app_status_entry list"
  rs_backups :: "backup_entry list"
  rs_log_output :: string
  rs_backup_path :: string

definition resp_init :: deploy_response where
  "resp_init = \<lparr>rs_success = False, rs_error_code = ERR_NONE, rs_error_message = [], rs_apps = [],
     rs_backups = [], rs_log_output = [], rs_backup_path = []\<rparr>"

definition resp_fail :: "deploy_error \<Rightarrow> string \<Rightarrow> deploy_response" where
  "resp_fail e msg = resp_init\<lparr>rs_success := False, rs_error_code := e, rs_error_message := msg\<rparr>"

section \<open>State\<close>

text \<open>\<open>us_temp_file\<close>: whether the stream on \<open>us_temp_path\<close> is open.\<close>

record upload_session_t =
  us_active :: bool
  us_app_name :: string
  us_remote_path :: string
  us_temp_path :: string
  us_expected_checksum :: string
  us_expected_size :: u32
  us_received_size :: u32
  us_next_chunk :: u32
  us_total_chunks :: u32
  us_file_mode :: u32
  us_temp_file :: bool

definition no_session :: upload_session_t where
  "no_session = \<lparr>us_active = False, us_app_name = [], us_remote_path = [], us_temp_path = [],
     us_expected_checksum = [], us_expected_size = 0, us_received_size = 0, us_next_chunk = 0,
     us_total_chunks = 0, us_file_mode = 0, us_temp_file = False\<rparr>"

record 'e agent =
  ag_upload :: upload_session_t
  ag_meta :: app_meta
  ag_env :: 'e

text \<open>
  What is outside the agent: the link to each node, allocation in the client, \<open>system\<close> and
  \<open>popen\<close> (the command's output and \<open>pclose\<close>'s status), the protobuf library's
  \<open>unpack\<close> and \<open>pack\<close>, and whether \<open>csp_buffer_get\<close> has a buffer of a size.
\<close>

record 'e env =
  ev_link :: "u32 \<Rightarrow> 'e link"
  ev_oom :: bool
  ev_mem :: "u32 \<Rightarrow> bool"
  ev_system :: "string \<Rightarrow> 'e \<Rightarrow> int \<times> 'e"
  ev_popen :: "string \<Rightarrow> 'e \<Rightarrow> (bytes \<times> int) option \<times> 'e"
  ev_unpack :: "bytes \<Rightarrow> deploy_request option"
  ev_pack :: "deploy_response \<Rightarrow> bytes"
  ev_buffer :: "nat \<Rightarrow> bool"

datatype stop = Null_deref | Overrun | No_return

type_synonym 'e handled = "(stop + deploy_response \<times> 'e agent) \<times> os"

section \<open>Status and logs\<close>

definition MAX_BACKUP_ENTRIES :: nat where "MAX_BACKUP_ENTRIES = 64"
definition MAX_DIAL_ENTRIES :: nat where "MAX_DIAL_ENTRIES = 32"

definition present :: "string option \<Rightarrow> bool" where
  "present t \<longleftrightarrow> (case t of None \<Rightarrow> False | Some x \<Rightarrow> x \<noteq> [])"

definition status_metadata_callback ::
  "'e env \<Rightarrow> app_entry_t \<Rightarrow> app_status_entry list \<times> 'e \<Rightarrow> os \<Rightarrow> (app_status_entry list \<times> 'e) \<times> os" where
  "status_metadata_callback ev a = (\<lambda>(entries, e) s.
     if 32 \<le> length entries then ((entries, e), s)
     else (case compute_file_checksum (ae_remote_path a) HASH_BUF_LEN s of
             (None, s) \<Rightarrow> ((entries, e), s)
           | (Some h, s) \<Rightarrow>
               let cmd = cstr 320 (''pgrep -f '' @ [CHR 0x27] @ ''[/]'' @ tl (ae_remote_path a) @ [CHR 0x27] @
                           '' > /dev/null 2>&1'');
                   (rc, e) = ev_system ev cmd e
               in ((entries @ [\<lparr>st_app_name = ae_app_name a, st_running = (rc = 0), st_file_hash = h,
                                  st_remote_path = ae_remote_path a\<rparr>], e), s)))"

definition handle_status :: "'e env \<Rightarrow> deploy_request \<Rightarrow> 'e agent \<Rightarrow> os \<Rightarrow> 'e handled" where
  "handle_status ev req ag s =
     (case app_metadata_list (status_metadata_callback ev) ([], ag_env ag) (ag_meta ag) s of
        (None, s) \<Rightarrow> (Inl Null_deref, s)
      | (Some (_, (entries, e), m), s) \<Rightarrow>
          (Inr (resp_init\<lparr>rs_success := True, rs_apps := entries\<rparr>, ag\<lparr>ag_meta := m, ag_env := e\<rparr>), s))"

definition logs_char_ok :: "char \<Rightarrow> bool" where
  "logs_char_ok c \<longleftrightarrow> (let n = (of_char c :: nat) in (97 \<le> n \<and> n \<le> 122) \<or> (65 \<le> n \<and> n \<le> 90) \<or> (48 \<le> n \<and> n \<le> 57)) \<or>
     c = CHR ''_'' \<or> c = CHR ''-'' \<or> c = CHR ''.''"

definition show_int :: "int \<Rightarrow> string" where
  "show_int i = (if i < 0 then CHR ''-'' # dec_digits (nat (- i)) else dec_digits (nat i))"

definition logs_command :: "string \<Rightarrow> u32 \<Rightarrow> string" where
  "logs_command app_name log_lines =
     (let service_name = cstr 128 (app_name @ ''.service'');
          lines = (if log_lines > 0 then log_lines else 100)
      in cstr 256 (''journalctl -u '' @ service_name @ '' -n '' @ dec_digits (unat lines) @ '' --no-pager 2>&1''))"

definition handle_logs :: "'e env \<Rightarrow> deploy_request \<Rightarrow> 'e agent \<Rightarrow> os \<Rightarrow> 'e handled" where
  "handle_logs ev req ag s =
     (if \<not> present (dr_app_name req) then (Inr (resp_fail ERR_APP_NOT_FOUND ''No app_name specified'', ag), s)
      else let app = the (dr_app_name req)
      in if \<not> list_all logs_char_ok app then
           (Inr (resp_fail ERR_APP_NOT_FOUND
              ''Invalid app_name: only alphanumeric, underscore, hyphen, dot allowed'', ag), s)
         else (case ev_popen ev (logs_command app (dr_log_lines req)) (ag_env ag) of
             (None, e) \<Rightarrow> (Inr (resp_fail ERR_LOGS_FAILED ''Failed to execute journalctl'', ag\<lparr>ag_env := e\<rparr>), s)
           | (Some (out, rc), e) \<Rightarrow>
               let log_buf = string_of (takeWhile (\<lambda>x. x \<noteq> 0) (take 8191 out)); ag = ag\<lparr>ag_env := e\<rparr>
               in if rc \<noteq> 0 then
                    let trimmed = (if log_buf \<noteq> [] then log_buf else ''(no output from journalctl)'');
                        code = (if rc mod 128 = 0 then (rc div 256) mod 256 else -1)
                    in (Inr (resp_fail ERR_LOGS_FAILED
                          (cstr 8256 (''journalctl exited '' @ show_int code @ '' on target: '' @ trimmed)), ag), s)
                  else (Inr (resp_init\<lparr>rs_success := True, rs_log_output := log_buf\<rparr>, ag), s)))"

section \<open>Listing versions\<close>

definition size_of :: "stat_result \<Rightarrow> nat" where
  "size_of r = (case r of Is_reg f \<Rightarrow> length (f_data f) | _ \<Rightarrow> 0)"

text \<open>A monotone count of seconds for \<open>st_mtime\<close>; 0 when \<open>stat\<close> fails.\<close>

definition time_of :: "tm \<Rightarrow> nat" where
  "time_of t = ((((tm_year t * 13 + tm_mon t) * 32 + tm_mday t) * 24 + tm_hour t) * 60 + tm_min t) * 61 + tm_sec t"

definition mtime_of :: "stat_result \<Rightarrow> nat" where
  "mtime_of r = (case r of Is_reg f \<Rightarrow> time_of (f_mtime f) | _ \<Rightarrow> 0)"

definition backup_collect_callback :: "backup_info \<Rightarrow> backup_entry list \<Rightarrow> os \<Rightarrow> backup_entry list \<times> os" where
  "backup_collect_callback b col s =
     (if MAX_BACKUP_ENTRIES \<le> length col then (col, s)
      else if \<exists>e \<in> set col. be_hash e = bi_hash b then (col, s)
      else (case malloc s of (ok, s) \<Rightarrow>
        if \<not> ok then (col, s)
        else (case stat (bi_path b) s of (r, s) \<Rightarrow>
          (col @ [\<lparr>be_version = bi_version b, be_timestamp = bi_timestamp b, be_hash = bi_hash b,
                   be_path = bi_path b, be_size_bytes = size_of r\<rparr>], s))))"

text \<open>The loop over \<open>j\<close> for one \<open>i\<close>: the element left at \<open>i\<close> and the rest.\<close>

fun sort_pass :: "backup_entry \<Rightarrow> backup_entry list \<Rightarrow> os \<Rightarrow> (backup_entry \<times> backup_entry list) \<times> os" where
  "sort_pass x [] s = ((x, []), s)"
| "sort_pass x (y # ys) s =
     (case stat (be_path x) s of (ri, s) \<Rightarrow>
     (case stat (be_path y) s of (rj, s) \<Rightarrow>
        if mtime_of rj > mtime_of ri
        then (case sort_pass y ys s of ((z, zs), s) \<Rightarrow> ((z, x # zs), s))
        else (case sort_pass x ys s of ((z, zs), s) \<Rightarrow> ((z, y # zs), s))))"

lemma sort_pass_length: "length (snd (fst (sort_pass x ys s))) = length ys"
  by (induction ys arbitrary: x s) (auto simp: split_def)

function sort_versions :: "backup_entry list \<Rightarrow> os \<Rightarrow> backup_entry list \<times> os" where
  "sort_versions [] s = ([], s)"
| "sort_versions (x # xs) s =
     (case sort_pass x xs s of ((z, zs), s) \<Rightarrow> (case sort_versions zs s of (r, s) \<Rightarrow> (z # r, s)))"
  by pat_completeness auto
termination sort_versions
proof (relation "measure (\<lambda>(xs, s). length xs)", goal_cases)
  case (2 x xs s a s' z zs)
  then show ?case using sort_pass_length [of x xs s] by (metis case_prod_conv fst_conv in_measure length_Cons lessI snd_conv)
qed simp

text \<open>The currently installed version: marked among the backups, or added behind them.\<close>

fun mark_current :: "string \<Rightarrow> backup_entry list \<Rightarrow> backup_entry list" where
  "mark_current h [] = []"
| "mark_current h (e # es) =
     (if be_hash e = h then e\<lparr>be_version := ''current''\<rparr> # es else e # mark_current h es)"

definition add_current ::
  "string \<Rightarrow> string \<Rightarrow> string \<Rightarrow> backup_entry list \<Rightarrow> os \<Rightarrow> (stop + backup_entry list) \<times> os" where
  "add_current remote_path actual_hash deployed_at col s =
     (if \<exists>e \<in> set col. be_hash e = actual_hash then (Inr (mark_current actual_hash col), s)
      else (case malloc s of (ok, s) \<Rightarrow>
        if \<not> ok then (Inr col, s)
        else (case stat remote_path s of (r, s) \<Rightarrow>
          if MAX_BACKUP_ENTRIES \<le> length col then (Inl Overrun, s)
          else (Inr (col @ [\<lparr>be_version = ''current'', be_timestamp = deployed_at, be_hash = actual_hash,
                             be_path = remote_path, be_size_bytes = size_of r\<rparr>]), s))))"

definition handle_list_versions :: "deploy_request \<Rightarrow> 'e agent \<Rightarrow> os \<Rightarrow> 'e handled" where
  "handle_list_versions req ag s =
     (if \<not> present (dr_app_name req) then (Inr (resp_fail ERR_APP_NOT_FOUND ''No app_name specified'', ag), s)
      else let app = the (dr_app_name req)
      in (case malloc s of (ok, s) \<Rightarrow>
        if \<not> ok then (Inr (resp_fail ERR_BACKUP_FAILED ''Memory allocation failed'', ag), s)
        else (case backup_list backup_collect_callback app [] s of ((result, col), s) \<Rightarrow>
          (case app_metadata_get app MAX_PATH_LEN HASH_BUF_LEN 32 (ag_meta ag) s of
             (None, s) \<Rightarrow> (Inl Null_deref, s)
           | (Some (found, m), s) \<Rightarrow>
               let ag = ag\<lparr>ag_meta := m\<rparr>
               in (case (case found of
                       None \<Rightarrow> (Inr col, s)
                     | Some (remote_path, file_hash, deployed_at) \<Rightarrow>
                         (case compute_file_checksum remote_path HASH_BUF_LEN s of
                            (None, s) \<Rightarrow> (Inr col, s)
                          | (Some h, s) \<Rightarrow> add_current remote_path h deployed_at col s)) of
                   (Inl x, s) \<Rightarrow> (Inl x, s)
                 | (Inr col, s) \<Rightarrow>
                     if result < 0 then (Inr (resp_fail ERR_BACKUP_FAILED ''Failed to list backups'', ag), s)
                     else (case sort_versions col s of (col, s) \<Rightarrow>
                       (Inr (resp_init\<lparr>rs_success := True, rs_backups := col\<rparr>, ag), s)))))))"

section \<open>Rollback\<close>

record dial_entry =
  de_hash :: string
  de_path :: string
  de_mtime :: nat

definition rollback_collect_callback :: "backup_info \<Rightarrow> dial_entry list \<Rightarrow> os \<Rightarrow> dial_entry list \<times> os" where
  "rollback_collect_callback b entries s =
     (if MAX_DIAL_ENTRIES \<le> length entries then (entries, s)
      else if \<exists>e \<in> set entries. de_hash e = bi_hash b then (entries, s)
      else (case stat (bi_path b) s of (r, s) \<Rightarrow>
        (entries @ [\<lparr>de_hash = cstr HASH_BUF_LEN (bi_hash b), de_path = cstr MAX_PATH_LEN (bi_path b),
                     de_mtime = mtime_of r\<rparr>], s)))"

text \<open>The exchange sort on the stored times, newest first.\<close>

fun dial_pass :: "dial_entry \<Rightarrow> dial_entry list \<Rightarrow> dial_entry \<times> dial_entry list" where
  "dial_pass x [] = (x, [])"
| "dial_pass x (y # ys) =
     (if de_mtime y > de_mtime x then (case dial_pass y ys of (z, zs) \<Rightarrow> (z, x # zs))
      else (case dial_pass x ys of (z, zs) \<Rightarrow> (z, y # zs)))"

lemma dial_pass_length: "length (snd (dial_pass x ys)) = length ys"
  by (induction ys arbitrary: x) (auto simp: split_def)

function dial_sort :: "dial_entry list \<Rightarrow> dial_entry list" where
  "dial_sort [] = []"
| "dial_sort (x # xs) = (case dial_pass x xs of (z, zs) \<Rightarrow> z # dial_sort zs)"
  by pat_completeness auto
termination dial_sort
  by (relation "measure length") (auto, metis dial_pass_length lessI snd_conv)

text \<open>The first index with the hash; \<open>None\<close> is -1.\<close>

fun dial_index :: "string \<Rightarrow> dial_entry list \<Rightarrow> nat option" where
  "dial_index h [] = None"
| "dial_index h (e # es) = (if de_hash e = h then Some 0 else map_option Suc (dial_index h es))"

text \<open>The entry to restore and the list in its final order, or no match for a requested hash.\<close>

definition dial_select :: "string option \<Rightarrow> string \<Rightarrow> dial_entry list \<Rightarrow> (dial_entry \<times> dial_entry list) option" where
  "dial_select rollback_hash current_hash entries =
     (if present rollback_hash
      then map_option (\<lambda>e. (e, entries)) (find (\<lambda>e. de_hash e = the rollback_hash) entries)
      else let es = dial_sort entries;
               next_idx = (case (if current_hash = [] then None else dial_index current_hash es) of
                             None \<Rightarrow> 0 | Some i \<Rightarrow> (i + 1) mod length es)
           in Some (es ! next_idx, es))"

definition rollback_restore ::
  "string \<Rightarrow> string \<Rightarrow> string \<Rightarrow> dial_entry \<times> dial_entry list \<Rightarrow> 'e agent \<Rightarrow> os \<Rightarrow> 'e handled" where
  "rollback_restore app remote_path current_hash sel ag s =
     (let (selected, es) = sel;
          s = (if current_hash \<noteq> [] \<and> \<not> (\<exists>e \<in> set es. de_hash e = current_hash)
               then (case backup_create app remote_path MAX_PATH_LEN s of (_, _, s) \<Rightarrow> s) else s)
      in (case backup_restore (de_path selected) remote_path s of (r, s) \<Rightarrow>
           if r \<noteq> 0 then (Inr (resp_fail ERR_RESTORE_FAILED ''Failed to restore backup'', ag), s)
           else (case app_metadata_save app remote_path (de_hash selected) (ag_meta ag) s of
                   (None, s) \<Rightarrow> (Inl Null_deref, s)
                 | (Some (_, m), s) \<Rightarrow>
                     (Inr (resp_init\<lparr>rs_success := True, rs_backup_path := de_path selected\<rparr>, ag\<lparr>ag_meta := m\<rparr>), s))))"

definition rollback_to :: "deploy_request \<Rightarrow> string \<Rightarrow> 'e agent \<Rightarrow> os \<Rightarrow> 'e handled" where
  "rollback_to req remote_path ag s =
     (let app = the (dr_app_name req)
      in (case compute_file_checksum remote_path HASH_BUF_LEN s of (h, s) \<Rightarrow>
         let current_hash = (case h of None \<Rightarrow> [] | Some h \<Rightarrow> h)
         in (case backup_list rollback_collect_callback app [] s of ((count, entries), s) \<Rightarrow>
           if count < 0 then (Inr (resp_fail ERR_BACKUP_FAILED ''Failed to list backups'', ag), s)
           else if entries = [] then (Inr (resp_fail ERR_NO_BACKUPS ''No backups available'', ag), s)
           else (case dial_select (dr_rollback_hash req) current_hash entries of
                   None \<Rightarrow> (Inr (resp_fail ERR_BACKUP_NOT_FOUND ''Backup with specified hash not found'', ag), s)
                 | Some sel \<Rightarrow> rollback_restore app remote_path current_hash sel ag s))))"

definition handle_rollback :: "deploy_request \<Rightarrow> 'e agent \<Rightarrow> os \<Rightarrow> 'e handled" where
  "handle_rollback req ag s =
     (if \<not> present (dr_app_name req) then (Inr (resp_fail ERR_APP_NOT_FOUND ''No app_name specified'', ag), s)
      else if present (dr_remote_path req) then rollback_to req (the (dr_remote_path req)) ag s
      else (case app_metadata_get (the (dr_app_name req)) MAX_PATH_LEN 0 0 (ag_meta ag) s of
              (None, s) \<Rightarrow> (Inl Null_deref, s)
            | (Some (found, m), s) \<Rightarrow>
                let ag = ag\<lparr>ag_meta := m\<rparr>
                in (case found of
                      Some (p, _, _) \<Rightarrow>
                        if p \<noteq> [] then rollback_to req p ag s
                        else (Inr (resp_fail ERR_APP_NOT_FOUND ''No remote_path specified and app not in metadata'', ag), s)
                    | None \<Rightarrow> (Inr (resp_fail ERR_APP_NOT_FOUND ''No remote_path specified and app not in metadata'', ag), s))))"

section \<open>Deploy\<close>

text \<open>The bytes of the dash in the source are the UTF-8 encoding of U+2014.\<close>

definition skew_message :: string where
  "skew_message = ''version skew: APM is older than agent '' @ [CHR 0xE2, CHR 0x80, CHR 0x94] @
     '' both must use full 64-hex SHA256 wire format (see CHANGELOG v0.4.0)''"

definition checksum_len_ok :: "string option \<Rightarrow> bool" where
  "checksum_len_ok c \<longleftrightarrow> (case c of None \<Rightarrow> False | Some x \<Rightarrow> length x = HASH_HEX_LEN)"

definition request_mode :: "u32 \<Rightarrow> nat" where
  "request_mode m = (if m \<noteq> 0 then unat m else 493)"

text \<open>From the rename on: install, permissions, archive copy, metadata.\<close>

definition deploy_install ::
  "string \<Rightarrow> string \<Rightarrow> string \<Rightarrow> string \<Rightarrow> u32 \<Rightarrow> string \<Rightarrow> 'e agent \<Rightarrow> os \<Rightarrow> 'e handled" where
  "deploy_install app remote_path temp_path checksum file_mode backup_path_buf ag s =
     (case rename temp_path remote_path s of (ok, s) \<Rightarrow>
        if \<not> ok then
          let (_, s) = unlink temp_path s
          in (Inr (resp_fail ERR_INSTALL_FAILED ''Failed to install file'', ag), s)
        else
          let (_, s) = chmod remote_path (request_mode file_mode) s;
              (_, _, s) = backup_create app remote_path 0 s
          in (case app_metadata_save app remote_path checksum (ag_meta ag) s of
                (None, s) \<Rightarrow> (Inl Null_deref, s)
              | (Some (_, m), s) \<Rightarrow>
                  (Inr (resp_init\<lparr>rs_success := True, rs_backup_path := backup_path_buf\<rparr>, ag\<lparr>ag_meta := m\<rparr>), s)))"

text \<open>The checksum gate before it. (\<open>expected_checksum\<close> has 64 characters here, so the gate is on.)\<close>

definition deploy_verify ::
  "string \<Rightarrow> string \<Rightarrow> string \<Rightarrow> string \<Rightarrow> u32 \<Rightarrow> string \<Rightarrow> 'e agent \<Rightarrow> os \<Rightarrow> 'e handled" where
  "deploy_verify app remote_path temp_path checksum file_mode backup_path_buf ag s =
     (case compute_file_checksum temp_path HASH_BUF_LEN s of
        (None, s) \<Rightarrow>
          let (_, s) = unlink temp_path s
          in (Inr (resp_fail ERR_CHECKSUM_MISMATCH ''Failed to compute checksum'', ag), s)
      | (Some actual, s) \<Rightarrow>
          if actual \<noteq> checksum then
            let (_, s) = unlink temp_path s
            in (Inr (resp_fail ERR_CHECKSUM_MISMATCH ''Checksum mismatch'', ag), s)
          else deploy_install app remote_path temp_path checksum file_mode backup_path_buf ag s)"

text \<open>Backup of the present file: the path buffer, or the failure of \<open>backup_create\<close>.\<close>

definition backup_present :: "string \<Rightarrow> string \<Rightarrow> os \<Rightarrow> string option \<times> os" where
  "backup_present app remote_path s =
     (case access_ok remote_path s of (there, s) \<Rightarrow>
        if \<not> there then (Some [], s)
        else (case backup_create app remote_path MAX_PATH_LEN s of
                (r, p, s) \<Rightarrow> if r \<noteq> 0 then (None, s) else (Some p, s)))"

definition handle_deploy :: "'e env \<Rightarrow> deploy_request \<Rightarrow> 'e agent \<Rightarrow> os \<Rightarrow> 'e handled" where
  "handle_deploy ev req ag s =
     (if \<not> present (dr_app_name req) then (Inr (resp_fail ERR_APP_NOT_FOUND ''No app_name specified'', ag), s)
      else if \<not> present (dr_remote_path req) then (Inr (resp_fail ERR_APP_NOT_FOUND ''No remote_path specified'', ag), s)
      else if dr_dtp_server_node req = 0 then
        (Inr (resp_fail ERR_DTP_DOWNLOAD_FAILED ''No DTP server node specified'', ag), s)
      else if \<not> checksum_len_ok (dr_expected_checksum req) then
        (Inr (resp_fail ERR_CHECKSUM_MISMATCH skew_message, ag), s)
      else
        let app = the (dr_app_name req); remote_path = the (dr_remote_path req);
            checksum = the (dr_expected_checksum req)
        in (case backup_present app remote_path s of
              (None, s) \<Rightarrow> (Inr (resp_fail ERR_BACKUP_FAILED ''Failed to backup current file'', ag), s)
            | (Some backup_path_buf, s) \<Rightarrow>
                let temp_path = cstr MAX_PATH_LEN (remote_path @ ''.tmp'')
                in (case svu_download_file (ev_link ev (dr_dtp_server_node req)) (ev_oom ev) (ev_mem ev)
                           (dr_dtp_server_node req) temp_path (dr_expected_size req) (Some app)
                           (ucast (dr_dtp_mtu req)) s (ag_env ag) of
                      None \<Rightarrow> (Inl No_return, s)
                    | Some (rc, s, e) \<Rightarrow>
                        let ag = ag\<lparr>ag_env := e\<rparr>
                        in if rc \<noteq> 0 then
                             (Inr (resp_fail ERR_DTP_DOWNLOAD_FAILED ''SVU transfer did not verify'', ag), s)
                           else deploy_verify app remote_path temp_path checksum (dr_file_mode req) backup_path_buf ag s)))"

section \<open>Direct upload\<close>

definition upload_session_reset :: "'e agent \<Rightarrow> os \<Rightarrow> 'e agent \<times> os" where
  "upload_session_reset ag s =
     (let u = ag_upload ag;
          s = (if us_temp_file u then snd (fclose_w (us_temp_path u) s) else s);
          s = (if us_temp_path u \<noteq> [] then snd (unlink (us_temp_path u) s) else s)
      in (ag\<lparr>ag_upload := no_session\<rparr>, s))"

definition upload_fail :: "deploy_error \<Rightarrow> string \<Rightarrow> 'e agent \<Rightarrow> os \<Rightarrow> 'e handled" where
  "upload_fail e msg ag s = (case upload_session_reset ag s of (ag, s) \<Rightarrow> (Inr (resp_fail e msg, ag), s))"

definition handle_upload_start :: "deploy_request \<Rightarrow> 'e agent \<Rightarrow> os \<Rightarrow> 'e handled" where
  "handle_upload_start req ag s =
     (case (if us_active (ag_upload ag) then upload_session_reset ag s else (ag, s)) of (ag, s) \<Rightarrow>
        if \<not> present (dr_app_name req) then (Inr (resp_fail ERR_APP_NOT_FOUND ''No app_name specified'', ag), s)
        else if \<not> present (dr_remote_path req) then (Inr (resp_fail ERR_APP_NOT_FOUND ''No remote_path specified'', ag), s)
        else if \<not> checksum_len_ok (dr_expected_checksum req) then
          (Inr (resp_fail ERR_CHECKSUM_MISMATCH skew_message, ag), s)
        else
          let app = the (dr_app_name req);
              u = (ag_upload ag)\<lparr>us_active := True, us_app_name := cstr MAX_APP_NAME_LEN app,
                    us_remote_path := cstr MAX_PATH_LEN (the (dr_remote_path req)),
                    us_temp_path := cstr MAX_PATH_LEN (''/tmp/satdeploy-'' @ app @ ''.tmp''),
                    us_expected_checksum := cstr HASH_BUF_LEN (the (dr_expected_checksum req)),
                    us_expected_size := dr_expected_size req, us_total_chunks := dr_total_chunks req,
                    us_file_mode := dr_file_mode req, us_received_size := 0, us_next_chunk := 0\<rparr>
          in (case fopen_w (us_temp_path u) s of (ok, s) \<Rightarrow>
                let ag = ag\<lparr>ag_upload := u\<lparr>us_temp_file := ok\<rparr>\<rparr>
                in if \<not> ok then upload_fail ERR_FILE_WRITE_FAILED ''Failed to create temp file'' ag s
                   else (Inr (resp_init\<lparr>rs_success := True\<rparr>, ag), s)))"

text \<open>
  Writing appends to the file of \<open>us_temp_path\<close>: the stream of an active session is open on it, which is the
  invariant shown in \<open>Upload_Safety\<close>, so the crash on a \<open>NULL\<close> stream is not a branch here or in
  \<open>handle_upload_end\<close>. Bytes reach the file when they are written; stdio's buffer is not modelled.
\<close>

definition handle_upload_chunk :: "deploy_request \<Rightarrow> 'e agent \<Rightarrow> os \<Rightarrow> 'e handled" where
  "handle_upload_chunk req ag s =
     (let u = ag_upload ag
      in if \<not> us_active u then (Inr (resp_fail ERR_NO_UPLOAD_IN_PROGRESS ''No upload in progress'', ag), s)
         else if dr_chunk_seq req \<noteq> us_next_chunk u then
           (Inr (resp_fail ERR_CHUNK_OUT_OF_ORDER ''Chunk out of order'', ag), s)
         else if dr_chunk_data req = [] then (Inr (resp_fail ERR_FILE_WRITE_FAILED ''Empty chunk data'', ag), s)
         else (case fwrite (us_temp_path u) (dr_chunk_data req) s of (written, s) \<Rightarrow>
           if written \<noteq> length (dr_chunk_data req) then
             upload_fail ERR_FILE_WRITE_FAILED ''Failed to write chunk'' ag s
           else (Inr (resp_init\<lparr>rs_success := True\<rparr>,
                   ag\<lparr>ag_upload := u\<lparr>us_received_size := us_received_size u + of_nat (length (dr_chunk_data req)),
                                      us_next_chunk := us_next_chunk u + 1\<rparr>\<rparr>), s)))"

text \<open>
  \<open>dirname\<close> of \<open>libgen.h\<close>: trailing slashes do not count, the slashes before the
  last component go too, and exactly two leading ones are kept.
\<close>

definition strip_slashes :: "string \<Rightarrow> string" where
  "strip_slashes p = rev (dropWhile (\<lambda>c. c = CHR ''/'') (rev p))"

definition libgen_dirname :: "string \<Rightarrow> string" where
  "libgen_dirname p =
     (let q = strip_slashes p;
          d = (if q = [] then p else rev (dropWhile (\<lambda>c. c \<noteq> CHR ''/'') (rev q)))
      in if d = [] then ''.''
         else if strip_slashes d = [] then (if length d = 2 then ''//'' else ''/'')
         else strip_slashes d)"

definition ensure_parent_dir :: "string \<Rightarrow> os \<Rightarrow> int \<times> os" where
  "ensure_parent_dir path s =
     (case malloc s of (ok, s) \<Rightarrow> if \<not> ok then (-1, s) else mkdir_p (libgen_dirname path) s)"

text \<open>From the backup on.\<close>

definition upload_install :: "'e agent \<Rightarrow> os \<Rightarrow> 'e handled" where
  "upload_install ag s =
     (let u = ag_upload ag
      in case backup_present (us_app_name u) (us_remote_path u) s of
           (None, s) \<Rightarrow> upload_fail ERR_BACKUP_FAILED ''Failed to backup current file'' ag s
         | (Some backup_path_buf, s) \<Rightarrow>
             (case ensure_parent_dir (us_remote_path u) s of (r, s) \<Rightarrow>
                if r \<noteq> 0 then upload_fail ERR_INSTALL_FAILED ''Failed to create directory'' ag s
                else (case copy_file (us_temp_path u) (us_remote_path u) s of (r, s) \<Rightarrow>
                  if r \<noteq> 0 then upload_fail ERR_INSTALL_FAILED ''Failed to install file'' ag s
                  else
                    let (_, s) = unlink (us_temp_path u) s;
                        (_, s) = chmod (us_remote_path u) (request_mode (us_file_mode u)) s;
                        (_, _, s) = backup_create (us_app_name u) (us_remote_path u) 0 s
                    in (case app_metadata_save (us_app_name u) (us_remote_path u) (us_expected_checksum u) (ag_meta ag) s of
                          (None, s) \<Rightarrow> (Inl Null_deref, s)
                        | (Some (_, m), s) \<Rightarrow>
                            (Inr (resp_init\<lparr>rs_success := True, rs_backup_path := backup_path_buf\<rparr>,
                               ag\<lparr>ag_meta := m, ag_upload := u\<lparr>us_active := False, us_temp_path := []\<rparr>\<rparr>), s)))))"

definition handle_upload_end :: "deploy_request \<Rightarrow> 'e agent \<Rightarrow> os \<Rightarrow> 'e handled" where
  "handle_upload_end req ag s =
     (if \<not> us_active (ag_upload ag) then
        (Inr (resp_fail ERR_NO_UPLOAD_IN_PROGRESS ''No upload in progress'', ag), s)
      else
        let (_, s) = fclose_w (us_temp_path (ag_upload ag)) s;
            u = (ag_upload ag)\<lparr>us_temp_file := False\<rparr>;
            ag = ag\<lparr>ag_upload := u\<rparr>
        in if us_expected_size u > 0 \<and> us_received_size u \<noteq> us_expected_size u then
             upload_fail ERR_CHECKSUM_MISMATCH ''Size mismatch'' ag s
           else if us_expected_checksum u \<noteq> [] then
             (case compute_file_checksum (us_temp_path u) HASH_BUF_LEN s of
                (None, s) \<Rightarrow> upload_fail ERR_CHECKSUM_MISMATCH ''Failed to compute checksum'' ag s
              | (Some actual, s) \<Rightarrow>
                  if actual \<noteq> us_expected_checksum u then upload_fail ERR_CHECKSUM_MISMATCH ''Checksum mismatch'' ag s
                  else upload_install ag s)
           else upload_install ag s)"

section \<open>Dispatch\<close>

definition dispatch :: "'e env \<Rightarrow> deploy_request \<Rightarrow> 'e agent \<Rightarrow> os \<Rightarrow> 'e handled" where
  "dispatch ev req ag s =
     (case dr_command req of
        CMD_STATUS \<Rightarrow> handle_status ev req ag s
      | CMD_LOGS \<Rightarrow> handle_logs ev req ag s
      | CMD_LIST_VERSIONS \<Rightarrow> handle_list_versions req ag s
      | CMD_ROLLBACK \<Rightarrow> handle_rollback req ag s
      | CMD_DEPLOY \<Rightarrow> handle_deploy ev req ag s
      | CMD_UPLOAD_START \<Rightarrow> handle_upload_start req ag s
      | CMD_UPLOAD_CHUNK \<Rightarrow> handle_upload_chunk req ag s
      | CMD_UPLOAD_END \<Rightarrow> handle_upload_end req ag s
      | _ \<Rightarrow> (Inr (resp_fail ERR_UNKNOWN_COMMAND ''Unknown command'', ag), s))"

text \<open>One connection: the packet read (or a timeout), the reply sent (or none).\<close>

definition handle_connection ::
  "'e env \<Rightarrow> bytes option \<Rightarrow> 'e agent \<Rightarrow> os \<Rightarrow> (stop + bytes option \<times> 'e agent) \<times> os" where
  "handle_connection ev packet ag s =
     (case packet of
        None \<Rightarrow> (Inr (None, ag), s)
      | Some b \<Rightarrow>
          (case ev_unpack ev b of
             None \<Rightarrow> (Inr (None, ag), s)
           | Some req \<Rightarrow>
               (case dispatch ev req ag s of
                  (Inl x, s) \<Rightarrow> (Inl x, s)
                | (Inr (resp, ag), s) \<Rightarrow>
                    let out = ev_pack ev resp
                    in (Inr (if ev_buffer ev (length out) then Some out else None, ag), s))))"

definition deploy_handler_init :: "int \<Rightarrow> int \<Rightarrow> int" where
  "deploy_handler_init csp_bind_rc csp_listen_rc =
     (if csp_bind_rc \<noteq> 0 then -1 else if csp_listen_rc \<noteq> 0 then -1 else 0)"

text \<open>
  The accept loop over what \<open>csp_accept\<close> gives until \<open>running\<close> is cleared:
  \<open>None\<close> for a timeout, else what \<open>csp_read\<close> gives on the connection. The replies are
  kept in order.
\<close>

fun deploy_handler_loop ::
  "'e env \<Rightarrow> bytes option option list \<Rightarrow> bytes option list \<Rightarrow> 'e agent \<Rightarrow> os \<Rightarrow> (stop + bytes option list \<times> 'e agent) \<times> os" where
  "deploy_handler_loop ev [] sent ag s = (Inr (sent, ag), s)"
| "deploy_handler_loop ev (None # conns) sent ag s = deploy_handler_loop ev conns sent ag s"
| "deploy_handler_loop ev (Some packet # conns) sent ag s =
     (case handle_connection ev packet ag s of
        (Inl x, s) \<Rightarrow> (Inl x, s)
      | (Inr (reply, ag), s) \<Rightarrow> deploy_handler_loop ev conns (sent @ [reply]) ag s)"

end
