(* ===== verification/History.thy ===== *)
theory History
  imports Deploy_Handler
begin

text \<open>
  The ground's deployment history, \<open>satdeploy-apm/src/history.c\<close> and \<open>history.h\<close>: the
  path of the database, the last successful deploy of an application, the schema and its migration, and
  recording a deploy. The database is \<open>SQLite\<close>, a record of the calls the code makes; its state
  is a type parameter. Where the code prints on standard error, the line is part of the result. Shown: a migration of a table with any set of columns gives it every column that
  the insert statement names.
\<close>

section \<open>Definitions\<close>

text \<open>
  \<open>SQLite\<close> as the code uses it: opening a database file (read only or not), executing a statement,
  and preparing, binding and stepping one. A query gives its rows, \<open>None\<close> when the statement
  cannot be prepared; an update gives the status of its step. \<open>sq_errmsg\<close> is \<open>sqlite3_errmsg\<close> and
  \<open>sq_err\<close> the message that a failed \<open>sqlite3_exec\<close> leaves behind its last argument, if any.
\<close>

datatype sq_value = SQ_null | SQ_text string | SQ_int int

record 'd sqlite =
  sq_open :: "string \<Rightarrow> bool \<Rightarrow> 'd \<Rightarrow> bool \<times> 'd"
  sq_exec :: "string \<Rightarrow> 'd \<Rightarrow> bool \<times> 'd"
  sq_query :: "string \<Rightarrow> sq_value list \<Rightarrow> 'd \<Rightarrow> sq_value list list option \<times> 'd"
  sq_update :: "string \<Rightarrow> sq_value list \<Rightarrow> 'd \<Rightarrow> int option \<times> 'd"
  sq_done :: int
  sq_busy :: int
  sq_errmsg :: "'d \<Rightarrow> string"
  sq_err :: "'d \<Rightarrow> string option"

text \<open>\<open>sqlite3_column_text\<close>: \<open>NULL\<close> for an SQL null; an integer is given in decimal.\<close>

definition column_text :: "sq_value list \<Rightarrow> nat \<Rightarrow> string option" where
  "column_text row i = (if length row \<le> i then None else
     (case row ! i of SQ_null \<Rightarrow> None | SQ_text t \<Rightarrow> Some t | SQ_int k \<Rightarrow> Some (show_int k)))"

text \<open>\<open>sqlite3_column_int\<close>; the text columns of the query are not read this way.\<close>

definition column_int :: "sq_value list \<Rightarrow> nat \<Rightarrow> int" where
  "column_int row i = (if length row \<le> i then 0 else (case row ! i of SQ_int k \<Rightarrow> k | _ \<Rightarrow> 0))"

definition HISTORY_MAX_HASH :: nat where "HISTORY_MAX_HASH = 65"
definition HISTORY_MAX_PROV :: nat where "HISTORY_MAX_PROV = 128"
definition HISTORY_MAX_PATH :: nat where "HISTORY_MAX_PATH = 256"

record satdeploy_deploy_record_t =
  hr_app :: string
  hr_file_hash :: string
  hr_git_hash :: string
  hr_remote_path :: string
  hr_success :: int
  hr_valid :: bool

definition no_record :: satdeploy_deploy_record_t where
  "no_record = \<lparr>hr_app = [], hr_file_hash = [], hr_git_hash = [], hr_remote_path = [], hr_success = 0, hr_valid = False\<rparr>"

record satdeploy_history_write_t =
  hw_module :: "string option"
  hw_app :: "string option"
  hw_file_hash :: "string option"
  hw_remote_path :: "string option"
  hw_action :: "string option"
  hw_success :: int
  hw_git_hash :: "string option"
  hw_backup_path :: "string option"
  hw_error_message :: "string option"
  hw_transport :: "string option"

definition get_history_db_path :: "string option \<Rightarrow> nat \<Rightarrow> string option" where
  "get_history_db_path home path_size =
     (case home of
        None \<Rightarrow> None
      | Some h \<Rightarrow> let p = h @ ''/.satdeploy/history.db'' in if path_size \<le> length p then None else Some p)"

definition history_last_sql :: string where
  "history_last_sql = ''SELECT app, file_hash, git_hash, remote_path, success FROM deployments WHERE app = ? AND success = 1 '' @
     ''ORDER BY timestamp DESC LIMIT 1''"

definition wal_mode :: "'d sqlite \<Rightarrow> 'd \<Rightarrow> 'd" where
  "wal_mode q d = snd (sq_exec q ''PRAGMA busy_timeout=5000'' (snd (sq_exec q ''PRAGMA journal_mode=WAL'' d)))"

definition satdeploy_history_get_last ::
  "'d sqlite \<Rightarrow> string option \<Rightarrow> string \<Rightarrow> 'd \<Rightarrow> int \<times> satdeploy_deploy_record_t \<times> 'd" where
  "satdeploy_history_get_last q home app_name d =
     (case get_history_db_path home 256 of
        None \<Rightarrow> (-1, no_record, d)
      | Some path \<Rightarrow>
          (case sq_open q path True d of (ok, d) \<Rightarrow>
             if \<not> ok then (-1, no_record, d)
             else (case sq_query q history_last_sql [SQ_text app_name] (wal_mode q d) of
                     (None, d) \<Rightarrow> (-1, no_record, d)
                   | (Some [], d) \<Rightarrow> (0, no_record, d)
                   | (Some (row # _), d) \<Rightarrow>
                       let field = (\<lambda>n i. case column_text row i of None \<Rightarrow> [] | Some t \<Rightarrow> cstr n t)
                       in (0, \<lparr>hr_app = field 64 0, hr_file_hash = field HISTORY_MAX_HASH 1, hr_git_hash = field HISTORY_MAX_PROV 2,
                               hr_remote_path = field HISTORY_MAX_PATH 3, hr_success = column_int row 4, hr_valid = True\<rparr>, d))))"

definition CREATE_TABLE_SQL :: string where
  "CREATE_TABLE_SQL = ''CREATE TABLE IF NOT EXISTS deployments (    id INTEGER PRIMARY KEY,    module TEXT NOT NULL DEFAULT '' @
     [CHR 0x27] @ ''default'' @ [CHR 0x27] @ '',    app TEXT NOT NULL,    timestamp TEXT NOT NULL,    git_hash TEXT,'' @
     ''    file_hash TEXT NOT NULL,    remote_path TEXT NOT NULL,    backup_path TEXT,    action TEXT NOT NULL,'' @
     ''    success INTEGER NOT NULL,    error_message TEXT,    service_hash TEXT,    vmem_cleared INTEGER NOT NULL DEFAULT 0,'' @
     ''    provenance_source TEXT,    transport TEXT)''"

text \<open>The columns a migration adds when they are missing, in order, with their types.\<close>

definition migrated_columns :: "(string \<times> string) list" where
  "migrated_columns =
     [(''module'', ''module TEXT NOT NULL DEFAULT '' @ [CHR 0x27] @ ''default'' @ [CHR 0x27]), (''service_hash'', ''service_hash TEXT''),
      (''vmem_cleared'', ''vmem_cleared INTEGER NOT NULL DEFAULT 0''), (''git_hash'', ''git_hash TEXT''),
      (''provenance_source'', ''provenance_source TEXT''), (''transport'', ''transport TEXT'')]"

definition migrate_schema :: "'d sqlite \<Rightarrow> 'd \<Rightarrow> 'd" where
  "migrate_schema q d =
     (case sq_query q ''PRAGMA table_info(deployments)'' [] d of
        (None, d) \<Rightarrow> d
      | (Some rows, d) \<Rightarrow>
          let cols = List.map_filter (\<lambda>row. column_text row 1) rows
          in fold (\<lambda>(c, decl) d. if c \<in> set cols then d
                                  else snd (sq_exec q (''ALTER TABLE deployments ADD COLUMN '' @ decl) d)) migrated_columns d)"

definition ensure_db_dir :: "string option \<Rightarrow> os \<Rightarrow> int \<times> os" where
  "ensure_db_dir home s =
     (case home of
        None \<Rightarrow> (-1, s)
      | Some h \<Rightarrow>
          let dir = cstr 256 (h @ ''/.satdeploy'')
          in (case stat dir s of (r, s) \<Rightarrow>
                if r \<noteq> No_entry then (0, s)
                else (case mkdir dir s of (Made, s) \<Rightarrow> (0, s) | (_, s) \<Rightarrow> (-1, s))))"

text \<open>Whether there is a connection, and what was written to standard error.\<close>

definition open_db_for_write :: "'d sqlite \<Rightarrow> string option \<Rightarrow> os \<Rightarrow> 'd \<Rightarrow> bool \<times> string list \<times> os \<times> 'd" where
  "open_db_for_write q home s d =
     (case get_history_db_path home 256 of
        None \<Rightarrow> (False, [], s, d)
      | Some path \<Rightarrow>
          (case ensure_db_dir home s of (r, s) \<Rightarrow>
             if r < 0 then (False, [], s, d)
             else (case sq_open q path False d of (ok, d) \<Rightarrow>
               if \<not> ok then (False, [''satdeploy: cannot open history.db: '' @ sq_errmsg q d], s, d)
               else (case sq_exec q CREATE_TABLE_SQL (wal_mode q d) of (ok, d) \<Rightarrow>
                 if \<not> ok
                 then (False, [''satdeploy: schema creation failed: '' @ (case sq_err q d of Some e \<Rightarrow> e | None \<Rightarrow> ''unknown'')], s, d)
                 else (True, [], s, migrate_schema q d)))))"

definition history_insert_sql :: string where
  "history_insert_sql = ''INSERT INTO deployments (module, app, timestamp, git_hash, file_hash, remote_path, '' @
     '' backup_path, action, success, error_message,  service_hash, vmem_cleared, provenance_source, transport) '' @
     ''VALUES (?, ?, ?, ?, ?, ?, ?, ?, ?, ?, NULL, 0, NULL, ?)''"

definition text_or_null :: "string option \<Rightarrow> sq_value" where
  "text_or_null t = (case t of None \<Rightarrow> SQ_null | Some x \<Rightarrow> SQ_text x)"

definition history_bindings :: "satdeploy_history_write_t \<Rightarrow> string \<Rightarrow> sq_value list" where
  "history_bindings r timestamp =
     [SQ_text (case hw_module r of None \<Rightarrow> ''default'' | Some m \<Rightarrow> m), text_or_null (hw_app r), SQ_text timestamp,
      text_or_null (hw_git_hash r), text_or_null (hw_file_hash r), text_or_null (hw_remote_path r), text_or_null (hw_backup_path r),
      text_or_null (hw_action r), SQ_int (hw_success r), text_or_null (hw_error_message r),
      SQ_text (case hw_transport r of None \<Rightarrow> ''csp'' | Some t \<Rightarrow> t)]"

text \<open>The result, and what was written to standard error.\<close>

definition satdeploy_history_record ::
  "'d sqlite \<Rightarrow> string option \<Rightarrow> satdeploy_history_write_t option \<Rightarrow> os \<Rightarrow> 'd \<Rightarrow> int \<times> string list \<times> os \<times> 'd" where
  "satdeploy_history_record q home rcd s d =
     (case rcd of
        None \<Rightarrow> (-1, [], s, d)
      | Some r \<Rightarrow>
          if hw_app r = None \<or> hw_file_hash r = None \<or> hw_remote_path r = None \<or> hw_action r = None then (-1, [], s, d)
          else (case open_db_for_write q home s d of (ok, err, s, d) \<Rightarrow>
            if \<not> ok then (-1, err, s, d)
            else (case sq_update q history_insert_sql (history_bindings r (cstr 64 (iso_tm (clock s)))) d of
                    (None, d) \<Rightarrow> (-1, [''satdeploy: history INSERT prepare failed: '' @ sq_errmsg q d], s, d)
                  | (Some rc, d) \<Rightarrow>
                      if rc \<noteq> sq_done q
                      then (-1, [''satdeploy: history INSERT failed: '' @
                                   (if rc = sq_busy q then ''database locked (concurrent writer)'' else ''unknown error'')], s, d)
                      else (0, [], s, d))))"

section \<open>The schema\<close>

text \<open>The columns the table has, as the pragma lists them.\<close>

definition table_columns :: "'d sqlite \<Rightarrow> 'd \<Rightarrow> string list option" where
  "table_columns q d = map_option (List.map_filter (\<lambda>row. column_text row 1)) (fst (sq_query q ''PRAGMA table_info(deployments)'' [] d))"

text \<open>
  What is used of \<open>SQLite\<close>: reading the columns changes nothing, and adding one adds its name; adding
  a column the table has is an error.
\<close>

definition alters_columns :: "'d sqlite \<Rightarrow> bool" where
  "alters_columns q \<longleftrightarrow> (\<forall>d. snd (sq_query q ''PRAGMA table_info(deployments)'' [] d) = d) \<and>
     (\<forall>d cols c decl. table_columns q d = Some cols \<longrightarrow> (c, decl) \<in> set migrated_columns \<longrightarrow> c \<notin> set cols \<longrightarrow>
        table_columns q (snd (sq_exec q (''ALTER TABLE deployments ADD COLUMN '' @ decl) d)) = Some (cols @ [c]))"

lemma migrate_fold:
  assumes "alters_columns q" "table_columns q d = Some (cols0 @ added)" "set cs \<subseteq> set migrated_columns" "distinct (map fst cs)"
    "set added \<inter> fst ` set cs = {}"
  shows "table_columns q (fold (\<lambda>(c, decl) d. if c \<in> set cols0 then d
      else snd (sq_exec q (''ALTER TABLE deployments ADD COLUMN '' @ decl) d)) cs d) =
    Some (cols0 @ added @ filter (\<lambda>c. c \<notin> set cols0) (map fst cs))"
  using assms(2-5)
proof (induction cs arbitrary: d added)
  case (Cons x cs)
  obtain c decl where x: "x = (c, decl)" by force
  show ?case
  proof (cases "c \<in> set cols0")
    case True
    then show ?thesis using Cons x by auto
  next
    case False
    let ?d = "snd (sq_exec q (''ALTER TABLE deployments ADD COLUMN '' @ decl) d)"
    have "table_columns q ?d = Some ((cols0 @ added) @ [c])"
      using assms(1) Cons.prems x False unfolding alters_columns_def by auto
    then have "table_columns q ?d = Some (cols0 @ (added @ [c]))" by simp
    from Cons.IH [OF this] Cons.prems x False show ?thesis by auto
  qed
qed simp

text \<open>
  A migration gives the table every column the code writes. Whatever columns an existing table has,
  it keeps them and gets exactly those that are missing, each added once.
\<close>

theorem migration_completes:
  assumes "alters_columns q" "table_columns q d = Some cols"
  shows "table_columns q (migrate_schema q d) = Some (cols @ filter (\<lambda>c. c \<notin> set cols) (map fst migrated_columns))"
proof -
  obtain rows where r: "sq_query q ''PRAGMA table_info(deployments)'' [] d = (Some rows, d)" "cols = List.map_filter (\<lambda>row. column_text row 1) rows"
    using assms by (cases "sq_query q ''PRAGMA table_info(deployments)'' [] d") (auto simp: table_columns_def alters_columns_def dest: spec [of _ d])
  have "distinct (map fst migrated_columns)" by (simp add: migrated_columns_def)
  from migrate_fold [OF assms(1), of d cols "[]" migrated_columns] assms(2) this
  show ?thesis unfolding migrate_schema_def using r by simp
qed

section \<open>Witnesses\<close>

text \<open>A database that is its list of columns.\<close>

definition a_sqlite :: "string list sqlite" where
  "a_sqlite = \<lparr>sq_open = (\<lambda>_ _ d. (True, d)),
     sq_exec = (\<lambda>sql d. case find (\<lambda>(c, decl). sql = ''ALTER TABLE deployments ADD COLUMN '' @ decl) migrated_columns of
        Some (c, _) \<Rightarrow> if c \<in> set d then (False, d) else (True, d @ [c]) | None \<Rightarrow> (True, d)),
     sq_query = (\<lambda>_ _ d. (Some (map (\<lambda>c. [SQ_int 0, SQ_text c]) d), d)), sq_update = (\<lambda>_ _ d. (Some 101, d)), sq_done = 101, sq_busy = 5,
     sq_errmsg = (\<lambda>_. ''not an error''), sq_err = (\<lambda>_. None)\<rparr>"

lemma a_sqlite_alters: "alters_columns a_sqlite" "table_columns a_sqlite d = Some d"
proof -
  have m: "List.map_filter (\<lambda>row. column_text row 1) (map (\<lambda>c. [SQ_int 0, SQ_text c]) d) = d" for d
    by (induction d) (simp_all add: column_text_def List.map_filter_def)
  then show t: "table_columns a_sqlite d = Some d" for d by (simp add: table_columns_def a_sqlite_def)
  have "find (\<lambda>(c, decl). ''ALTER TABLE deployments ADD COLUMN '' @ dec = ''ALTER TABLE deployments ADD COLUMN '' @ decl) migrated_columns = Some (c, dec)"
    if "(c, dec) \<in> set migrated_columns" for c dec
    using that by (auto simp: migrated_columns_def)
  then have "snd (sq_exec a_sqlite (''ALTER TABLE deployments ADD COLUMN '' @ dec) d) = d @ [c]"
    if "(c, dec) \<in> set migrated_columns" "c \<notin> set d" for c dec d
    using that by (simp add: a_sqlite_def del: append.simps)
  then show "alters_columns a_sqlite" unfolding alters_columns_def t by (simp add: a_sqlite_def)
qed

theorem migration_completes_witness:
  "table_columns a_sqlite (migrate_schema a_sqlite [''app'', ''git_hash'']) =
    Some [''app'', ''git_hash'', ''module'', ''service_hash'', ''vmem_cleared'', ''provenance_source'', ''transport'']"
  using migration_completes [OF a_sqlite_alters] by (simp add: migrated_columns_def)

end
