(* ===== verification/Deploy_Safety.thy ===== *)
theory Deploy_Safety
  imports Deploy_Handler
begin

text \<open>
  What a pull deploy can do to the file it installs. The footprints of the metadata, of the
  transfer's hooks and of the whole download give the set of paths \<open>handle_deploy\<close> touches
  before its rename; \<open>moves\<close> then follows the installed file through the rename, the mode
  change, the archive copy and the metadata. The result, for every pattern of failing calls and
  every behaviour of the link: \<open>deploy_old_or_new\<close>.
\<close>

section \<open>Footprints\<close>

lemma load_metadata_frame [frames]: "frame P s (snd (load_metadata m s))"
proof -
  have f: "frame P s (snd (case fread n d s of (b, r, e, s) \<Rightarrow> (g b, s)))" for n d s and g :: "bytes \<Rightarrow> 'g"
    using frame_calls(2) [of P s n d] by (simp add: split_def)
  have *: "(case fread n d s of (b, _, _, s) \<Rightarrow>
       if length b \<noteq> length d then (Some (-1, m), s)
       else let p = skip_ws (string_of (takeWhile (\<lambda>x. x \<noteq> 0) b))
       in if \<not> at CHR ''{'' p then (Some (-1, m), s)
       else (case parse_apps (tl p) [] of None \<Rightarrow> (None, s) | Some es \<Rightarrow> (Some (0, m\<lparr>am_cache := es\<rparr>), s))) =
     (case fread n d s of (b, r, e, s) \<Rightarrow>
       (if length b \<noteq> length d then Some (-1 :: int, m)
        else let p = skip_ws (string_of (takeWhile (\<lambda>x. x \<noteq> 0) b))
        in if \<not> at CHR ''{'' p then Some (-1, m)
        else (case parse_apps (tl p) [] of None \<Rightarrow> None | Some es \<Rightarrow> Some (0, m\<lparr>am_cache := es\<rparr>)), s))"
    for n d s and m :: app_meta
    by (auto simp: Let_def split: prod.splits option.splits)
  show ?thesis unfolding load_metadata_def Let_def [of "\<lparr>am_cache = [], am_loaded = True\<rparr>"] *
    by (intro frame_steps frames f)
qed

lemma find_app_frame [frames]: "frame P s (snd (find_app n m s))"
  using load_metadata_frame [of P s m] by (auto simp: find_app_def split: prod.splits option.splits)

lemma app_metadata_get_frame [frames]: "frame P s (snd (app_metadata_get n a b c m s))"
  using find_app_frame [of P s n m] by (auto simp: app_metadata_get_def split: prod.splits option.splits)

lemma save_metadata_frame [frames]: "P METADATA_FILE \<Longrightarrow> frame P s (snd (save_metadata m s))"
  unfolding save_metadata_def ensure_dir_def by (intro frame_steps frames; assumption)

lemma app_metadata_save_frame [frames]:
  assumes "P METADATA_FILE"
  shows "frame P s (snd (app_metadata_save n p h m s))"
proof -
  obtain a s1 where 1: "load_metadata m s = (a, s1)" by force
  have f1: "frame P s s1" using load_metadata_frame [of P s m] 1 by simp
  have f2: "frame P s (snd (find_app n m' s1))" for m' using frame_trans [OF f1 find_app_frame] .
  have f3: "frame P s (snd (save_metadata m'' (snd (find_app n m' s1))))" for m' m''
    using frame_trans [OF f2 save_metadata_frame] assms by blast
  show ?thesis using 1 f1 f2 f3
    by (auto simp: app_metadata_save_def Let_def split_def split: option.splits)
qed

text \<open>The client's hooks touch the sidecar, and the whole download the destination, the state directory and the sidecar.\<close>

definition fd_ok :: "svu_sidecar_t \<Rightarrow> bool" where
  "fd_ok sc \<longleftrightarrow> sc_fd sc = None \<or> sc_fd sc = Some (sc_path sc)"

lemma frame_unlink_of: "P p \<Longrightarrow> frame P s t \<Longrightarrow> frame P s (snd (unlink p t))"
  using frame_trans frame_calls(7) by blast

lemma open_fd: "fst (open_rw p s) = Some fd \<Longrightarrow> fd = p" "fst (open_creat p m s) = Some fd \<Longrightarrow> fd = p"
  by (auto simp: open_rw_def open_creat_def split: prod.splits outcome.splits if_splits)

lemma shape_frame:
  assumes "P fd"
  shows "frame P s (snd (sidecar_shape t b fd sc s))"
  using frame_calls(15) [of P fd s "sidecar_header t b" 0] assms
  by (auto simp: sidecar_shape_def sidecar_write_header_def Let_def split_def)

lemma shape_fd: "fd = sc_path sc \<Longrightarrow> fd_ok (fst (sidecar_shape t b fd sc s))"
  by (auto simp: sidecar_shape_def fd_ok_def Let_def split_def)

lemma sidecar_frames:
  assumes "P (sc_path sc)" "fd_ok sc"
  shows "frame P s (snd (sidecar_meta t b sc s)) \<and> fd_ok (fst (sidecar_meta t b sc s))"
    "frame P s (snd (sidecar_data off d sc s)) \<and> fd_ok (fst (sidecar_data off d sc s))"
    "frame P s (snd (sidecar_complete sc s))"
proof -
  have "frame P s (snd (sidecar_meta t b sc s)) \<and> fd_ok (fst (sidecar_meta t b sc s))"
  proof (cases "sc_fd sc")
    case None
    obtain r s1 where o: "open_creat (sc_path sc) 384 s = (r, s1)" by force
    have "frame P s s1" using frame_calls(13) [of P "sc_path sc" s 384] assms(1) o by simp
    then show ?thesis using None o assms open_fd(2) [of "sc_path sc" 384 s] shape_frame [of P "sc_path sc" s1 t b sc] shape_fd
      by (auto simp: sidecar_meta_def frames intro: frame_trans split: option.splits)
  next
    case (Some fd)
    then have fd: "fd = sc_path sc" using assms(2) by (simp add: fd_ok_def)
    have "frame P s (snd (ftruncate0 fd s))" using frame_calls(16) [of P fd s] assms(1) fd by simp
    then show ?thesis using Some fd assms(1) shape_frame [of P fd _ t b sc] shape_fd [OF fd]
      by (auto simp: sidecar_meta_def Let_def split_def intro: frame_trans)
  qed
  then show "frame P s (snd (sidecar_meta t b sc s)) \<and> fd_ok (fst (sidecar_meta t b sc s))" .
  show "frame P s (snd (sidecar_data off d sc s)) \<and> fd_ok (fst (sidecar_data off d sc s))"
  proof (cases "sc_fd sc")
    case (Some fd)
    then have fd: "fd = sc_path sc" using assms(2) by (simp add: fd_ok_def)
    have "frame P s (snd (pwrite fd d n s))" for n using frame_calls(15) [of P fd s d n] assms(1) fd by simp
    then show ?thesis using Some fd assms frame_unlink_of [of P "sc_path sc", OF assms(1)]
      by (auto simp: sidecar_data_def Let_def split_def fd_ok_def frames)
  qed (use assms(2) in \<open>auto simp: sidecar_data_def frames\<close>)
  show "frame P s (snd (sidecar_complete sc s))"
    using frame_unlink_of [of P "sc_path sc", OF assms(1) frame_refl] by (auto simp: sidecar_complete_def Let_def split_def frames)
qed

lemma sidecar_restore_frame:
  assumes "P (sc_path sc)" "fd_ok sc"
  shows "frame P s (snd (snd (sidecar_restore mem sc s))) \<and> fd_ok (fst (snd (sidecar_restore mem sc s)))"
proof -
  obtain fd s1 where 1: "open_rw (sc_path sc) s = (fd, s1)" by force
  have fd: "fd = None \<or> fd = Some (sc_path sc)" using open_fd(1) [of "sc_path sc" s] 1 by (cases fd) auto
  have f1: "frame P s s1" using frame_calls(12) [of P s "sc_path sc"] 1 by simp
  have f2: "frame P s (snd (pread p n k s1))" for p n k using frame_trans [OF f1 frame_calls(14)] .
  have f3: "frame P s (snd (pread p n k (snd (pread p' n' k' s1))))" for p n k p' n' k'
    using frame_trans [OF f2 frame_calls(14)] .
  show ?thesis using 1 f1 f2 f3 fd assms frame_unlink_of [of P "sc_path sc", OF assms(1)]
    by (auto simp: sidecar_restore_def Let_def split_def fd_ok_def frames split: option.splits)
qed

definition download_touches :: "string \<Rightarrow> string \<Rightarrow> string \<Rightarrow> bool" where
  "download_touches app dest q \<longleftrightarrow> q = dest \<or> q = SESSION_STATE_DIR \<or> session_state_svu_path app 640 = Some q"

definition within :: "(string \<Rightarrow> bool) \<Rightarrow> os \<Rightarrow> svu_sidecar_t svu_client_hooks option \<Rightarrow> svu_sidecar_t rx_state \<Rightarrow> bool" where
  "within P s hooks x \<longleftrightarrow> frame P s (rx_os x) \<and> (hooks \<noteq> None \<longrightarrow> P (sc_path (rx_ctx x)) \<and> fd_ok (rx_ctx x))"

lemma within_hooks:
  assumes "hooks_ok hooks"
  shows "within P s hooks x \<Longrightarrow> within P s hooks (fst (drain_packet hooks pkt (x, n)))"
    "within P s hooks (cl_rx cl) \<Longrightarrow> within P s hooks (cl_rx (snd (setup_recv oom hooks m cl)))"
    "hooks \<noteq> None \<longrightarrow> P (sc_path c) \<and> fd_ok c \<Longrightarrow> within P s hooks (cl_rx (svu_client_start hooks c s e))"
proof -
  note defs = within_def sidecar_hooks_def drain_packet_def data_hook_def setup_recv_def meta_hook_def
    svu_client_start_def restore_hook_def
  show "within P s hooks x \<Longrightarrow> within P s hooks (fst (drain_packet hooks pkt (x, n)))"
    "within P s hooks (cl_rx cl) \<Longrightarrow> within P s hooks (cl_rx (snd (setup_recv oom hooks m cl)))"
    "hooks \<noteq> None \<longrightarrow> P (sc_path c) \<and> fd_ok c \<Longrightarrow> within P s hooks (cl_rx (svu_client_start hooks c s e))"
    using assms sidecar_frames(1,2) [of P] sidecar_restore_frame [of P]
    by (auto simp: hooks_ok_def defs Let_def split_def sidecar_path intro: frame_trans [of P s] frame_refl split: option.splits)
qed

lemma rounds_within:
  assumes "hooks_ok hooks" "hooks \<noteq> None \<longrightarrow> P (sc_path c) \<and> fd_ok c"
    "client_rounds n lk oom hooks bs mtu (svu_client_start hooks c s e) = Some (b, cl)"
  shows "within P s hooks (cl_rx cl)"
  by (rule client_rounds_inv [of "within P s hooks", OF _ _ _ assms(3)])
    (auto intro: within_hooks [OF assms(1)] within_hooks(3) [of hooks P c, OF assms(1,2)])

lemma run_hooked_frame:
  assumes "hooks_ok hooks" "hooks \<noteq> None \<longrightarrow> P (sc_path c) \<and> fd_ok c" "P out"
    "svu_client_run_hooked lk oom bs mtu mr out hooks c s e = Some (rc, c', s', e')"
  shows "frame P s s'"
proof -
  obtain b cl where cl: "client_rounds (unat mr) lk oom hooks bs mtu (svu_client_start hooks c s e) = Some (b, cl)"
    using assms(4) by (auto simp: svu_client_run_hooked_def split: option.splits)
  have w: "within P s hooks (cl_rx cl)" by (rule rounds_within [of hooks P c, OF assms(1,2) cl])
  have "frame P (rx_os (cl_rx cl)) (snd (write_out out cl))"
    unfolding write_out_def Let_def by (intro frame_steps frames) (rule assms(3))+
  then have o: "frame P s (snd (write_out out cl))" using w frame_trans by (auto simp: within_def)
  have "frame P t (snd (complete_hook hooks (rx_ctx (cl_rx cl)) t))" for t
    using w assms(1) sidecar_frames(3) [of P "rx_ctx (cl_rx cl)" t]
    by (auto simp: within_def hooks_ok_def complete_hook_def sidecar_hooks_def frames)
  then show ?thesis using assms(4) cl w o frame_trans [OF o]
    by (cases b; cases "write_out out cl")
      (auto simp: svu_client_run_hooked_def Let_def split_def within_def split: bool.splits)
qed

lemma download_frame:
  assumes "svu_download_file lk oom mem node dest sz (Some app) mtu s e = Some (rc, s', e')"
  shows "frame (download_touches app dest) s s'"
proof -
  let ?P = "download_touches app dest"
  obtain hooks sc s1 where st: "sidecar_setup mem (Some app) s = (hooks, sc, s1)" by (metis prod_cases3)
  have f: "frame ?P s (snd (session_state_dir_ensure s))" by (rule frames) (simp add: download_touches_def)
  have h: "hooks_ok hooks" "hooks \<noteq> None \<longrightarrow> ?P (sc_path sc) \<and> fd_ok sc" "frame ?P s s1"
    using st f by (auto simp: sidecar_setup_def hooks_ok_def no_sidecar_def fd_ok_def download_touches_def
        split: prod.splits if_splits option.splits)
  show ?thesis
  proof (cases "dest = [] \<or> node > 65535")
    case True
    then show ?thesis using assms by (cases "dest = []") (auto simp: svu_download_file_def frames)
  next
    case False
    let ?mtu = "if mtu \<noteq> 0 then ucast mtu else 1024"
    obtain rc' c' s2 e2 where run: "svu_client_run_hooked lk oom SVU_BLOCK_SIZE ?mtu SVU_MAX_ROUNDS dest hooks sc s1 e =
        Some (rc', c', s2, e2)"
      using assms False st by (auto simp: svu_download_file_def split: option.splits)
    have f2: "frame ?P s s2"
      by (rule frame_trans [OF h(3) run_hooked_frame [of hooks ?P, OF h(1,2) _ run]]) (simp add: download_touches_def)
    then have "frame ?P s (snd (stat dest s2))" using frame_trans frame_calls(9) by blast
    then show ?thesis using assms False st run f2
      by (auto simp: svu_download_file_def split: prod.splits if_splits stat_result.splits)
  qed
qed

definition holds :: "string \<Rightarrow> fsys \<Rightarrow> string \<Rightarrow> bool" where
  "holds h f p \<longleftrightarrow> (\<exists>i. map_of f p = Some i \<and> hex_string (sha256 (f_data i)) = h)"

lemma holds_contents: "holds h (fs s) p \<longleftrightarrow> (\<exists>d. contents s p = Some d \<and> hex_string (sha256 d) = h)"
  by (auto simp: holds_def contents_def lookup_def)

text \<open>
  \<open>moves ok p s s'\<close>: from \<open>s\<close> to \<open>s'\<close>, every file system on the way has at \<open>p\<close>
  a file satisfying \<open>ok\<close>, given that the first one does.
\<close>

definition moves :: "(inode option \<Rightarrow> bool) \<Rightarrow> string \<Rightarrow> os \<Rightarrow> os \<Rightarrow> bool" where
  "moves ok p s s' \<longleftrightarrow> (\<exists>new. fs_log s' = new @ fs_log s \<and>
     (ok (map_of (fs s) p) \<longrightarrow> (\<forall>f \<in> set (fs s' # new). ok (map_of f p))))"

lemma moves_trans [trans]: "moves ok p s t \<Longrightarrow> moves ok p t u \<Longrightarrow> moves ok p s u"
proof -
  assume "moves ok p s t" "moves ok p t u"
  then obtain n n' where n: "fs_log t = n @ fs_log s" "fs_log u = n' @ fs_log t" and
    "ok (map_of (fs s) p) \<longrightarrow> (\<forall>f \<in> set (fs t # n). ok (map_of f p))"
    "ok (map_of (fs t) p) \<longrightarrow> (\<forall>f \<in> set (fs u # n'). ok (map_of f p))"
    unfolding moves_def by blast
  then have "ok (map_of (fs s) p) \<longrightarrow> (\<forall>f \<in> set (fs u # n' @ n). ok (map_of f p))"
    by (metis Un_iff list.set_intros set_ConsD set_append)
  moreover have "fs_log u = (n' @ n) @ fs_log s" using n by simp
  ultimately show "moves ok p s u" unfolding moves_def by blast
qed

lemma frame_moves: "frame P s t \<Longrightarrow> \<not> P p \<Longrightarrow> moves ok p s t"
proof -
  assume f: "frame P s t" and p: "\<not> P p"
  from f obtain new where n: "fs_log t = new @ fs_log s" "\<forall>f \<in> set (fs t # new). \<forall>q. \<not> P q \<longrightarrow> map_of f q = map_of (fs s) q"
    unfolding frame_def by blast
  have "ok (map_of f p)" if "ok (map_of (fs s) p)" "f \<in> set (fs t # new)" for f
    using n(2) p that by metis
  then show "moves ok p s t" unfolding moves_def using n(1) by blast
qed

lemma moves_store: "(\<And>i. map_of (fs s) p = Some i \<Longrightarrow> ok (Some i) \<Longrightarrow> ok (Some (g i))) \<Longrightarrow> lookup s p = Some i \<Longrightarrow> moves ok p s (store p (g i) s)"
  unfolding moves_def by (rule exI [of _ "[fs (store p (g i) s)]"]) (auto simp: store_def put_fs_def lookup_def update_conv')

lemma moves_logD:
  assumes "moves ok p s s'" "ok (map_of (fs s) p)" "f \<in> set (fs s' # fs_log s')" "f \<notin> set (fs_log s)"
  shows "ok (map_of f p)"
  using assms by (auto simp: moves_def)

lemma outcome_moves: "next_outcome s = (r, s') \<Longrightarrow> moves ok p s s'"
  by (rule frame_moves [OF frame_outcome, where P = "\<lambda>_. False"]) auto

lemma rename_moves:
  assumes "ok (lookup s p)"
  shows "moves ok q s (snd (rename p q s))"
proof -
  obtain r s1 where n: "next_outcome s = (r, s1)" by force
  have m: "moves ok q s s1" by (rule outcome_moves [OF n])
  have l: "lookup s1 p = lookup s p" using next_outcome_files(1) [OF n] .
  have "moves ok q s1 (put_fs (AList.update q f (AList.delete p (fs s1))) s1)" if "lookup s p = Some f" for f
    using that assms unfolding moves_def
    by (intro exI [of _ "[AList.update q f (AList.delete p (fs s1))]"]) (auto simp: put_fs_def update_conv')
  then show ?thesis using n m l
    by (auto simp: rename_def intro: moves_trans split: outcome.splits option.splits)
qed

lemma chmod_moves:
  assumes "\<And>i. ok (Some i) \<Longrightarrow> ok (Some (i\<lparr>f_mode := m\<rparr>))"
  shows "moves ok p s (snd (chmod p m s))"
proof -
  obtain r s1 where n: "next_outcome s = (r, s1)" by force
  have mv: "moves ok p s s1" by (rule outcome_moves [OF n])
  have "moves ok p s1 (store p (i\<lparr>f_mode := m\<rparr>) s1)" if "lookup s1 p = Some i" for i
    by (rule moves_store [of s1 p ok "\<lambda>i. i\<lparr>f_mode := m\<rparr>", OF assms that])
  then show ?thesis using n mv
    by (auto simp: chmod_def intro: moves_trans split: outcome.splits option.splits)
qed

text \<open>From the checksum gate on, the destination only ever goes from what it was to the verified file.\<close>

definition old_or_new :: "inode option \<Rightarrow> string \<Rightarrow> inode option \<Rightarrow> bool" where
  "old_or_new old h x \<longleftrightarrow> x = old \<or> (\<exists>i. x = Some i \<and> hex_string (sha256 (f_data i)) = h)"

definition verified :: "string \<Rightarrow> inode option \<Rightarrow> bool" where
  "verified h x \<longleftrightarrow> (\<exists>i. x = Some i \<and> hex_string (sha256 (f_data i)) = h)"

definition after_install :: "string \<Rightarrow> bool" where
  "after_install q \<longleftrightarrow> in_backups q \<or> q = METADATA_FILE"

lemma after_install_frames:
  "frame after_install s (snd (snd (backup_create app p n s)))"
  "frame after_install s (snd (app_metadata_save a b c m s))"
  using frame_mono [OF backup_create_frame, of after_install]
    app_metadata_save_frame [of after_install s a b c m] by (auto simp: after_install_def)

lemma install_rest:
  assumes "\<not> after_install remote"
    "\<And>i m. ok (Some i) \<Longrightarrow> ok (Some (i\<lparr>f_mode := m\<rparr>))"
  shows "moves ok remote t (snd (app_metadata_save a b c m (snd (snd (backup_create app remote n (snd (chmod remote k t)))))))"
  by (rule moves_trans [OF chmod_moves [of ok, OF assms(2)]
        frame_moves [of after_install, OF frame_trans [OF after_install_frames] assms(1)]])

lemma moves_weaken:
  assumes "moves ok p s t" "ok (map_of (fs s) p)" "\<And>x. ok x \<Longrightarrow> ok' x"
  shows "moves ok' p s t"
  using assms unfolding moves_def by blast

definition deploy_scratch :: "string \<Rightarrow> string \<Rightarrow> string \<Rightarrow> bool" where
  "deploy_scratch app temp q \<longleftrightarrow> in_backups q \<or> download_touches app temp q"

lemma backup_present_frame:
  assumes "\<And>q. in_backups q \<Longrightarrow> P q"
  shows "frame P s (snd (backup_present app p s))"
proof -
  obtain there t where a: "access_ok p s = (there, t)" by force
  have "frame P s t" using frame_access [of P s p] a by simp
  moreover have "frame P t (snd (snd (backup_create app p MAX_PATH_LEN t)))"
    by (rule frame_mono [OF backup_create_frame assms])
  ultimately show ?thesis using a by (auto simp: backup_present_def split: prod.splits intro: frame_trans)
qed

lemma scratch_frames:
  "frame (deploy_scratch app temp) s (snd (backup_present app' p s))"
  "svu_download_file lk oom mem node temp sz (Some app) mtu s e = Some (rc, s', e') \<Longrightarrow> frame (deploy_scratch app temp) s s'"
  "frame (deploy_scratch app temp) s (snd (unlink temp s))"
proof -
  show "frame (deploy_scratch app temp) s (snd (backup_present app' p s))"
    by (rule backup_present_frame) (simp add: deploy_scratch_def)
  show "svu_download_file lk oom mem node temp sz (Some app) mtu s e = Some (rc, s', e') \<Longrightarrow> frame (deploy_scratch app temp) s s'"
    by (rule frame_mono [OF download_frame]) (auto simp: deploy_scratch_def)
  show "frame (deploy_scratch app temp) s (snd (unlink temp s))"
    by (rule frame_calls(7)) (simp add: deploy_scratch_def download_touches_def)
qed

lemma fail_fields [simp]: "rs_success (resp_fail e m) = False" "rs_success (resp_init\<lparr>rs_success := True, rs_backup_path := b\<rparr>)"
  by (simp_all add: resp_fail_def)

text \<open>A deploy fails having touched only backups, sidecar and temporary file, or reaches the rename with a verified temporary file.\<close>

lemma verify_cases:
  assumes "deploy_verify app remote temp h mode buf ag s = (Inr (resp, ag'), s')"
  obtains "\<not> rs_success resp" "frame (deploy_scratch app temp) s s'"
  | t where "frame (deploy_scratch app temp) s t" "verified h (lookup t temp)"
    "deploy_install app remote temp h mode buf ag t = (Inr (resp, ag'), s')"
proof -
  obtain c s1 where c: "compute_file_checksum temp HASH_BUF_LEN s = (c, s1)" by force
  have f: "frame P s s1" for P using checksum_frame [of P s temp HASH_BUF_LEN] c by simp
  show ?thesis
  proof (cases "c = Some h")
    case True
    obtain d where d: "contents s temp = Some d" "h = hex_string (sha256 d)" using checksum_sound c True by blast
    then have "contents s1 temp = Some d" using frame_contents [OF f, of "\<lambda>_. False"] by simp
    then have "verified h (lookup s1 temp)" using d(2) by (auto simp: verified_def contents_def)
    then show ?thesis using that(2) [OF f] assms c True by (simp add: deploy_verify_def)
  next
    case False
    then have "\<not> rs_success resp" "s' = snd (unlink temp s1)"
      using assms c by (auto simp: deploy_verify_def split: option.splits prod.splits if_splits)
    then show ?thesis using that(1) frame_trans [OF f scratch_frames(3)] by simp
  qed
qed

lemma deploy_cases:
  assumes "handle_deploy ev req ag s = (Inr (resp, ag'), s')"
    and "temp = cstr MAX_PATH_LEN (the (dr_remote_path req) @ ''.tmp'')" "app = the (dr_app_name req)"
  obtains "\<not> rs_success resp" "frame (deploy_scratch app temp) s s'"
  | t buf ag1 where "frame (deploy_scratch app temp) s t" "verified (the (dr_expected_checksum req)) (lookup t temp)"
    "deploy_install app (the (dr_remote_path req)) temp (the (dr_expected_checksum req)) (dr_file_mode req) buf ag1 t =
      (Inr (resp, ag'), s')"
proof -
  let ?P = "deploy_scratch app temp" and ?r = "the (dr_remote_path req)" and ?h = "the (dr_expected_checksum req)"
  let ?dl = "\<lambda>s. svu_download_file (ev_link ev (dr_dtp_server_node req)) (ev_oom ev) (ev_mem ev) (dr_dtp_server_node req) temp
    (dr_expected_size req) (Some app) (ucast (dr_dtp_mtu req)) s (ag_env ag)"
  obtain b s1 where b: "backup_present app ?r s = (b, s1)" by force
  have f1: "frame ?P s s1" using scratch_frames(1) [of app temp s app ?r] b by simp
  consider "\<not> rs_success resp" "s' = s \<or> s' = s1"
    | rc s2 e buf where "b = Some buf" "?dl s1 = Some (rc, s2, e)" "rc \<noteq> 0" "\<not> rs_success resp" "s' = s2"
    | s2 e buf where "b = Some buf" "?dl s1 = Some (0, s2, e)"
      "deploy_verify app ?r temp ?h (dr_file_mode req) buf (ag\<lparr>ag_env := e\<rparr>) s2 = (Inr (resp, ag'), s')"
    using assms(1) b unfolding handle_deploy_def Let_def assms(2,3) [symmetric]
    by (auto split: if_splits option.splits prod.splits)
  then show ?thesis
  proof cases
    case 1
    then show ?thesis using that(1) f1 frame_refl by metis
  next
    case 2
    then show ?thesis using that(1) frame_trans [OF f1 scratch_frames(2)] by metis
  next
    case 3
    have f2: "frame ?P s s2" by (rule frame_trans [OF f1 scratch_frames(2) [OF 3(2)]])
    show ?thesis using 3(3)
    proof (cases rule: verify_cases)
      case 1
      then show ?thesis using that(1) frame_trans [OF f2] by blast
    next
      case (2 t)
      then show ?thesis using that(2) frame_trans [OF f2] by blast
    qed
  qed
qed

lemma rename_lookup: "rename p q s = (True, s') \<Longrightarrow> lookup s' q = lookup s p"
  using next_outcome_files(1) [of s "fst (next_outcome s)" "snd (next_outcome s)"]
  by (auto simp: rename_def lookup_def put_fs_def split_def update_conv' split: outcome.splits option.splits if_splits)

lemma install_cases:
  assumes "deploy_install app remote temp h mode buf ag t = (Inr (resp, ag'), s')"
  obtains t1 where "rename temp remote t = (False, t1)" "\<not> rs_success resp" "s' = snd (unlink temp t1)"
  | t1 where "rename temp remote t = (True, t1)" "rs_success resp" "rs_backup_path resp = buf"
    "s' = snd (app_metadata_save app remote h (ag_meta ag)
       (snd (snd (backup_create app remote 0 (snd (chmod remote (request_mode mode) t1))))))"
proof -
  obtain ok t1 where "rename temp remote t = (ok, t1)" by force
  then show ?thesis using assms that
    by (cases ok) (auto simp: deploy_install_def Let_def split_def split: option.splits)
qed

lemma verified_mode: "verified h (Some i) \<Longrightarrow> verified h (Some (i\<lparr>f_mode := m\<rparr>))"
  by (simp add: verified_def)

text \<open>The installed file keeps its hash through permissions, archive copy and metadata.\<close>

lemma installed_moves:
  assumes "\<not> after_install remote" "verified h (lookup t1 remote)"
    "s' = snd (app_metadata_save a b c m (snd (snd (backup_create app remote n (snd (chmod remote k t1))))))"
  shows "moves (verified h) remote t1 s'" "verified h (lookup s' remote)"
proof -
  show mv: "moves (verified h) remote t1 s'"
    unfolding assms(3) by (rule install_rest [of remote "verified h", OF assms(1) verified_mode])
  then show "verified h (lookup s' remote)" using assms(2) unfolding moves_def lookup_def by auto
qed

definition deploy_target :: "string \<Rightarrow> string \<Rightarrow> bool" where
  "deploy_target app p \<longleftrightarrow> length p < 508 \<and> \<not> in_backups p \<and> p \<noteq> METADATA_FILE \<and> p \<noteq> SESSION_STATE_DIR \<and>
     session_state_svu_path app 640 \<noteq> Some p"

lemma deploy_target_temp:
  assumes "deploy_target app p"
  shows "cstr MAX_PATH_LEN (p @ ''.tmp'') = p @ ''.tmp''" "\<not> deploy_scratch app (p @ ''.tmp'') p" "\<not> after_install p"
  using assms by (auto simp: deploy_target_def deploy_scratch_def download_touches_def after_install_def MAX_PATH_LEN_def)

lemma deploy_old_or_new:
  assumes "handle_deploy ev req ag s = (Inr (resp, ag'), s')" "deploy_target (the (dr_app_name req)) remote"
    "the (dr_remote_path req) = remote"
  shows "moves (old_or_new (lookup s remote) (the (dr_expected_checksum req))) remote s s'"
    "if rs_success resp then verified (the (dr_expected_checksum req)) (lookup s' remote) else lookup s' remote = lookup s remote"
proof -
  let ?h = "the (dr_expected_checksum req)" and ?temp = "remote @ ''.tmp''" and ?app = "the (dr_app_name req)"
  let ?ok = "old_or_new (lookup s remote) ?h"
  note tg = deploy_target_temp [OF assms(2)]
  have weak: "verified ?h x \<Longrightarrow> ?ok x" for x by (simp add: verified_def old_or_new_def)
  have fr: "moves ?ok remote s t" "lookup t remote = lookup s remote" if "frame (deploy_scratch ?app ?temp) s t" for t
    using frame_moves [OF that tg(2)] frame_lookup [OF that tg(2)] by simp_all
  have temp: "?temp = cstr MAX_PATH_LEN (the (dr_remote_path req) @ ''.tmp'')" using tg(1) assms(3) by simp
  have "moves ?ok remote s s' \<and> (if rs_success resp then verified ?h (lookup s' remote) else lookup s' remote = lookup s remote)"
    using assms(1) temp refl
  proof (cases rule: deploy_cases)
    case 1
    then show ?thesis using fr by simp
  next
    case (2 t buf ag1)
    note t = fr [OF 2(1)]
    from 2(3) [unfolded assms(3)] show ?thesis
    proof (cases rule: install_cases)
      case (1 t1)
      have "frame (deploy_scratch ?app ?temp) t s'"
        using frame_trans [OF rename_fail [OF 1(1)] scratch_frames(3)] 1(3) by simp
      from frame_trans [OF 2(1) this] show ?thesis using 1(2) fr by simp
    next
      case (2 t1)
      have l: "lookup t1 remote = lookup t ?temp" by (rule rename_lookup [OF 2(1)])
      note v = \<open>verified ?h (lookup t ?temp)\<close>
      note i = installed_moves [OF tg(3) v [folded l] 2(4)]
      have "moves ?ok remote t t1" using rename_moves [of ?ok t ?temp remote] weak [OF v] 2(1) by simp
      moreover have "moves ?ok remote t1 s'"
        by (rule moves_weaken [OF i(1) _ weak]) (use l v in \<open>simp add: lookup_def\<close>)
      ultimately show ?thesis using i(2) 2(2) moves_trans [OF t(1)] moves_trans by metis
    qed
  qed
  then show "moves ?ok remote s s'"
    "if rs_success resp then verified ?h (lookup s' remote) else lookup s' remote = lookup s remote" by blast+
qed

end
