(* ===== verification/Deploy_Transfer.thy ===== *)
theory Deploy_Transfer
  imports Deploy_Safety
begin

text \<open>
  The pull deploy together with the ground's server and the backup store: over a link that loses
  nothing the whole chain of download with sidecar, checksum gate, rename, archive copy and
  metadata succeeds; over any link a successful deploy leaves the replaced version in the store.
\<close>

section \<open>A deploy against the ground's server\<close>

definition state_dirs :: "string set" where
  "state_dirs = set [''/var'', ''/var/lib'', ''/var/lib/satdeploy'', SESSION_STATE_DIR]"

lemma dir_ensure_quietly: "quietly state_dirs s (snd (session_state_dir_ensure s))"
proof -
  have "quietly state_dirs s (snd (mkdir_p SESSION_STATE_DIR s))"
    by (rule mkdir_p_quietly)
      (simp_all add: SESSION_STATE_DIR_def state_dirs_def MAX_PATH_LEN_def dir_prefixes_def upt_rec)
  then show ?thesis unfolding session_state_dir_ensure_def Let_def
    by (intro quiet_steps quiets)
qed

lemma sidecar_quietly:
  "quietly D s (snd (sidecar_meta t b sc s))" "quietly D s (snd (sidecar_data off d sc s))"
  "quietly D s (snd (sidecar_complete sc s))" "quietly D s (snd (snd (sidecar_restore mem sc s)))"
proof -
  have sh: "quietly D s (snd (sidecar_shape t b fd sc s))" for fd s sc
    unfolding sidecar_shape_def sidecar_write_header_def Let_def by (intro quiet_steps quiets)
  show "quietly D s (snd (sidecar_meta t b sc s))"
    unfolding sidecar_meta_def Let_def by (intro quiet_steps quiets sh)
  show "quietly D s (snd (sidecar_data off d sc s))"
    unfolding sidecar_data_def Let_def by (intro quiet_steps quiets)
  show "quietly D s (snd (sidecar_complete sc s))"
    unfolding sidecar_complete_def Let_def by (intro quiet_steps quiets)
  obtain fd s1 where 1: "open_rw (sc_path sc) s = (fd, s1)" by force
  have f1: "quietly D s s1" using quietly_calls(11) [of D s "sc_path sc"] 1 by simp
  have f2: "quietly D s (snd (pread p n k s1))" for p n k using quiet_trans [OF f1 quietly_calls(13)] .
  have f3: "quietly D s (snd (pread p n k (snd (pread p' n' k' s1))))" for p n k p' n' k'
    using quiet_trans [OF f2 quietly_calls(13)] .
  have u: "quietly D s t \<Longrightarrow> quietly D s (snd (unlink p t))" for t p using quiet_trans quietly_calls(7) by blast
  show "quietly D s (snd (snd (sidecar_restore mem sc s)))"
    using 1 f1 f2 f3 u by (auto simp: sidecar_restore_def Let_def split_def quiets split: option.splits)
qed

lemma quiet_hooks:
  assumes "hooks_ok hooks"
  shows "quietly D s (rx_os x) \<Longrightarrow> quietly D s (rx_os (fst (drain_packet hooks pkt (x, n))))"
    "quietly D s (rx_os (cl_rx cl)) \<Longrightarrow> quietly D s (rx_os (cl_rx (snd (setup_recv oom hooks m cl))))"
    "quietly D s (rx_os (cl_rx (svu_client_start hooks c s e)))"
    "quietly D s (snd (complete_hook hooks c s))"
proof -
  note defs = sidecar_hooks_def drain_packet_def data_hook_def setup_recv_def meta_hook_def
    svu_client_start_def restore_hook_def complete_hook_def
  show "quietly D s (rx_os x) \<Longrightarrow> quietly D s (rx_os (fst (drain_packet hooks pkt (x, n))))"
    "quietly D s (rx_os (cl_rx cl)) \<Longrightarrow> quietly D s (rx_os (cl_rx (snd (setup_recv oom hooks m cl))))"
    "quietly D s (rx_os (cl_rx (svu_client_start hooks c s e)))"
    "quietly D s (snd (complete_hook hooks c s))"
    using assms sidecar_quietly [of D]
    by (auto simp: hooks_ok_def defs Let_def split_def intro: quiet_trans [of D s] quiet_refl split: option.splits)
qed

lemma rounds_quietly:
  assumes "hooks_ok hooks" "client_rounds n lk oom hooks bs mtu (svu_client_start hooks c s e) = Some (b, cl)"
  shows "quietly D s (rx_os (cl_rx cl))" "quietly D s (snd (write_out out cl))"
    "quietly D s (snd (complete_hook hooks (rx_ctx (cl_rx cl)) (snd (write_out out cl))))"
proof -
  show q: "quietly D s (rx_os (cl_rx cl))"
    by (rule client_rounds_inv [of "\<lambda>x. quietly D s (rx_os x)", OF _ _ _ assms(2)])
      (auto intro: quiet_hooks [OF assms(1)])
  have "quietly D (rx_os (cl_rx cl)) (snd (write_out out cl))"
    unfolding write_out_def Let_def by (intro quiet_steps quiets)
  then show w: "quietly D s (snd (write_out out cl))" using quiet_trans [OF q] by blast
  show "quietly D s (snd (complete_hook hooks (rx_ctx (cl_rx cl)) (snd (write_out out cl))))"
    using quiet_trans [OF w quiet_hooks(4) [OF assms(1)]] .
qed

lemma download_quietly:
  assumes "svu_download_file lk oom mem node dest sz (Some app) mtu s e = Some (rc, s', e')"
  shows "quietly state_dirs s s'"
proof (cases "dest = [] \<or> node > 65535")
  case True
  then show ?thesis using assms by (cases "dest = []") (auto simp: svu_download_file_def quiets)
next
  case False
  obtain hooks sc s1 where st: "sidecar_setup mem (Some app) s = (hooks, sc, s1)" by (metis prod_cases3)
  have h: "hooks_ok hooks" "quietly state_dirs s s1" using st dir_ensure_quietly [of s]
    by (auto simp: sidecar_setup_def hooks_ok_def split: prod.splits if_splits option.splits)
  let ?mtu = "if mtu \<noteq> 0 then ucast mtu else 1024"
  obtain rc' c' s2 e2 where run: "svu_client_run_hooked lk oom SVU_BLOCK_SIZE ?mtu SVU_MAX_ROUNDS dest hooks sc s1 e =
      Some (rc', c', s2, e2)"
    using assms False st by (auto simp: svu_download_file_def split: option.splits)
  obtain b cl where cl: "client_rounds (unat SVU_MAX_ROUNDS) lk oom hooks SVU_BLOCK_SIZE ?mtu (svu_client_start hooks sc s1 e) = Some (b, cl)"
    using run by (auto simp: svu_client_run_hooked_def split: option.splits)
  note q = rounds_quietly(1) [OF h(1) cl, of state_dirs] rounds_quietly(2,3) [OF h(1) cl, of state_dirs dest]
  have "quietly state_dirs s1 s2" using run cl q
    by (cases b; cases "write_out dest cl") (auto simp: svu_client_run_hooked_def Let_def split_def split: bool.splits)
  then have f2: "quietly state_dirs s s2" using quiet_trans [OF h(2)] by blast
  then have "quietly state_dirs s (snd (stat dest s2))" using quiet_trans quietly_calls(9) by blast
  then show ?thesis using assms False st run f2
    by (auto simp: svu_download_file_def split: prod.splits if_splits stat_result.splits)
qed

lemma hooked_lossless:
  assumes "hooks_ok hooks" "transfer_fits src tot bs mtu" "mr \<noteq> 0" "fst (restore_hook hooks c s) = None"
    "script s = []" "can_create s out" "hooks \<noteq> None \<longrightarrow> sc_path c \<noteq> out \<and> fd_ok c"
  shows "\<exists>c' s'. svu_client_run_hooked (server_link src tot bs addr) False bs' mtu mr out hooks c s [] = Some (0, c', s', []) \<and>
    contents s' out = Some src \<and> quietly {} s s'"
proof -
  let ?lk = "server_link src tot bs addr"
  obtain man where man: "ci_svu_manifest (Some src) tot bs (Some (replicate (unat (ci_svu_nblocks tot bs) * CI_SVU_HASH_LEN) 0)) =
      (ci_svu_nblocks tot bs, Some man)"
    "length man = unat (ci_svu_nblocks tot bs) * 32"
    "attests \<lparr>mt_total = tot, mt_block = bs, mt_nblocks = ci_svu_nblocks tot bs, mt_manifest = man\<rparr> src"
    by (rule server_manifest [OF assms(2)])
  have mr: "unat mr \<noteq> 0" using assms(3) by (simp add: unat_eq_zero)
  have "lk_drain ?lk p = (p, [])" for p by (simp add: server_link_def Let_def)
  from one_round_rounds [OF assms(2) mr assms(4) man(3) server_first_round [OF assms(2) man(2,1)] this]
  obtain cl r where cl: "client_rounds (unat mr) ?lk False hooks bs' mtu (svu_client_start hooks c s []) = Some (True, cl)"
    "rx_recv (cl_rx cl) = Some r" "s_data r = src" "cl_total cl = tot" "cl_env cl = []" by blast
  have q: "quietly {} s (rx_os (cl_rx cl))" by (rule rounds_quietly(1) [OF assms(1) cl(1)])
  have p: "hooks \<noteq> None \<longrightarrow> sc_path (rx_ctx (cl_rx cl)) \<noteq> out \<and> fd_ok (rx_ctx (cl_rx cl))"
    using rounds_within [of hooks "\<lambda>q. q \<noteq> out" c, OF assms(1,7) cl(1)] by (simp add: within_def)
  have "can_create (rx_os (cl_rx cl)) out" by (rule quiet_create [OF q assms(6)]) simp
  then obtain s1 where w: "write_out out cl = (True, s1)" "contents s1 out = Some src"
    using write_out_quiet [of cl out r] cl q assms(2,5) by (auto simp: quietly_def transfer_fits_def)
  obtain c' s' where c: "complete_hook hooks (rx_ctx (cl_rx cl)) s1 = (c', s')" by force
  have q2: "quietly {} s s'" using rounds_quietly(3) [OF assms(1) cl(1), of "{}" out] w c by simp
  have "frame (\<lambda>q. q \<noteq> out) s1 s'"
    using c p assms(1) sidecar_frames(3) [of "\<lambda>q. q \<noteq> out" "rx_ctx (cl_rx cl)" s1]
    by (auto simp: hooks_ok_def complete_hook_def sidecar_hooks_def frames)
  then have "contents s' out = Some src" using w(2) frame_contents by fastforce
  then show ?thesis using cl w q2 c by (auto simp: svu_client_run_hooked_def)
qed

lemma svu_path_start: "session_state_svu_path app n = Some p \<Longrightarrow> \<exists>t. p = SESSION_STATE_DIR @ ''/'' @ t"
  by (auto simp: session_state_svu_path_def state_path_def Let_def split: if_splits)

lemma download_lossless:
  assumes "transfer_fits src tot bs (if mtu \<noteq> 0 then ucast mtu else 1024)" "script s = []" "can_create s dest"
    "dest \<notin> state_dirs" "\<not> node > 65535" "sz = 0 \<or> sz = tot"
    "\<And>p. session_state_svu_path app 640 = Some p \<Longrightarrow> lookup s p = None \<and> p \<noteq> dest"
  shows "\<exists>s'. svu_download_file (server_link src tot bs addr) False mem node dest sz (Some app) mtu s [] = Some (0, s', []) \<and>
    contents s' dest = Some src \<and> quietly state_dirs s s'"
proof -
  obtain hooks sc s1 where st: "sidecar_setup mem (Some app) s = (hooks, sc, s1)" by (metis prod_cases3)
  have q1: "quietly state_dirs s s1" using st dir_ensure_quietly [of s]
    by (auto simp: sidecar_setup_def split: prod.splits if_splits option.splits)
  have ok: "hooks_ok hooks" "hooks \<noteq> None \<longrightarrow> session_state_svu_path app 640 = Some (sc_path sc) \<and> fd_ok sc \<and> sc_path sc \<noteq> []"
    using st svu_path_start [of app 640]
    by (auto simp: sidecar_setup_def hooks_ok_def no_sidecar_def fd_ok_def split: prod.splits if_splits option.splits)
  have "frame (\<lambda>q. q = SESSION_STATE_DIR) s s1" using st dir_ensure_frame [of "\<lambda>q. q = SESSION_STATE_DIR" s]
    by (auto simp: sidecar_setup_def split: prod.splits if_splits option.splits)
  then have l: "hooks \<noteq> None \<longrightarrow> lookup s1 (sc_path sc) = None"
    using ok(2) assms(7) svu_path_start [of app 640 "sc_path sc"] frame_lookup [of "\<lambda>q. q = SESSION_STATE_DIR" s s1 "sc_path sc"] by force
  have s1: "script s1 = []" using q1 assms(2) by (simp add: quietly_def)
  have "sidecar_restore mem' sc s1 = (None, sc, s1)" if "hooks \<noteq> None" for mem'
    using l that s1 by (simp add: sidecar_restore_def open_rw_def io_simps)
  then have r: "fst (restore_hook hooks sc s1) = None"
    using ok(1) by (auto simp: restore_hook_def hooks_ok_def sidecar_hooks_def)
  have c1: "can_create s1 dest" by (rule quiet_create [OF q1 assms(3,4)])
  have sp: "hooks \<noteq> None \<longrightarrow> sc_path sc \<noteq> dest \<and> fd_ok sc" using ok(2) assms(7) by blast
  have mr: "SVU_MAX_ROUNDS \<noteq> 0" by (simp add: SVU_MAX_ROUNDS_def)
  from hooked_lossless [OF ok(1) assms(1) mr r s1 c1 sp] obtain c' s' where
    run: "svu_client_run_hooked (server_link src tot bs addr) False SVU_BLOCK_SIZE (if mtu \<noteq> 0 then ucast mtu else 1024)
      SVU_MAX_ROUNDS dest hooks sc s1 [] = Some (0, c', s', [])" "contents s' dest = Some src" "quietly {} s1 s'" by blast
  have q: "quietly state_dirs s s'" by (rule quiet_trans [OF q1 quiet_mono [OF run(3)]]) simp
  have "script s' = []" "\<not> dir_exists s' dest"
    using q assms(2) quiet_create [OF run(3) c1] by (auto simp: quietly_def can_create_def)
  then obtain f where "stat dest s' = (Is_reg f, s')" "f_data f = src"
    using run(2) by (auto simp: stat_def io_simps contents_def)
  moreover have "of_nat (length src) = tot" using assms(1) by (simp add: transfer_fits_def)
  moreover have "dest \<noteq> []" using assms(3) by (simp add: can_create_def)
  ultimately show ?thesis using st run q assms(5,6)
    by (auto simp: svu_download_file_def)
qed

text \<open>What a deploy assumes of the request, the paths and the file system.\<close>

definition deploy_ready :: "bytes \<Rightarrow> u32 \<Rightarrow> u32 \<Rightarrow> u16 \<Rightarrow> bytes list env \<Rightarrow> deploy_request \<Rightarrow> string \<Rightarrow> string \<Rightarrow> os \<Rightarrow> bool" where
  "deploy_ready src tot bs addr ev req app remote s \<longleftrightarrow>
     dr_app_name req = Some app \<and> app \<noteq> [] \<and> dr_remote_path req = Some remote \<and> dr_dtp_server_node req \<noteq> 0 \<and>
     dr_dtp_server_node req \<le> 65535 \<and> dr_expected_checksum req = Some (hex_string (sha256 src)) \<and>
     (dr_expected_size req = 0 \<or> dr_expected_size req = tot) \<and>
     ev_link ev (dr_dtp_server_node req) = server_link src tot bs addr \<and> \<not> ev_oom ev \<and>
     transfer_fits src tot bs (if (ucast (dr_dtp_mtu req) :: u16) \<noteq> 0 then ucast (ucast (dr_dtp_mtu req) :: u16) else 1024) \<and>
     deploy_target app remote \<and> can_create s remote \<and> can_create s (remote @ ''.tmp'') \<and>
     remote \<notin> state_dirs \<union> store_dirs app \<and> remote @ ''.tmp'' \<notin> state_dirs \<union> store_dirs app \<and>
     (case session_state_svu_path app 640 of None \<Rightarrow> True | Some p \<Rightarrow> lookup s p = None \<and> p \<noteq> remote @ ''.tmp'')"

lemma temp_in_backups: "in_backups (p @ ''.tmp'') \<Longrightarrow> in_backups p"
proof -
  assume a: "in_backups (p @ ''.tmp'')"
  have l: "length BACKUP_DIR = 22" by (simp add: BACKUP_DIR_def)
  have t: "take 23 (p @ ''.tmp'') = BACKUP_DIR @ ''/''" using a l by (simp add: in_backups_def)
  have "length (take 23 (p @ ''.tmp'')) = 23" unfolding t using l by simp
  then have len: "19 \<le> length p" by simp
  have "take 23 (p @ ''.tmp'') ! 22 = CHR ''/''" unfolding t using l by (simp add: nth_append)
  then have "(p @ ''.tmp'') ! 22 = CHR ''/''" by (simp del: take_append)
  moreover have "(p @ ''.tmp'') ! 22 \<noteq> CHR ''/''" if "length p < 23"
  proof -
    have "22 - length p \<in> {0, 1, 2, 3}" using that len by auto
    then show ?thesis using that by (auto simp: nth_append)
  qed
  ultimately have "23 \<le> length p" by force
  then show "in_backups p" using t l by (simp add: in_backups_def)
qed

lemma backup_create_out: "snd (snd (backup_create app src n s)) = snd (snd (backup_create app src m s))"
  by (simp add: backup_create_def Let_def split_def split: stat_result.split option.split)

lemma entry_in_backups:
  assumes "plain_name app" "backup_entry_of app q"
  shows "in_backups q"
  using assms(2) unfolding backup_entry_of_def backup_dir_plain(4) [OF assms(1)]
  by (auto simp: in_backups_def)

definition store_ready :: "os \<Rightarrow> string \<Rightarrow> bool" where
  "store_ready s app \<longleftrightarrow> plain_name app \<and> backup_store s app \<and> backup_dirs_free s app \<and> tm_ok (clock s)"

lemma backup_present_quiet:
  assumes "script s = []" "\<not> dir_exists s p" "lookup s p = None \<or> store_ready s app"
  shows "\<exists>buf s1. backup_present app p s = (Some buf, s1) \<and> quietly (store_dirs app) s s1 \<and> frame in_backups s s1 \<and>
    (if lookup s p = None then buf = [] \<and> s1 = s
     else \<exists>name d'. buf = backup_dir_of app @ ''/'' @ name \<and> contents s1 buf = Some d' \<and>
            Some (hex_string (sha256 d')) = map_option (hex_string \<circ> sha256) (contents s p) \<and> backup_store s1 app)"
proof (cases "lookup s p = None")
  case True
  then show ?thesis using assms(1,2) by (auto simp: backup_present_def access_quiet quiets frames)
next
  case False
  then obtain d where d: "contents s p = Some d" by (auto simp: contents_def)
  have "store_ready s app" using False assms(3) by metis
  then have sr: "plain_name app" "backup_store s app" "backup_dirs_free s app" "tm_ok (clock s)"
    by (simp_all add: store_ready_def)
  from backup_create_result [OF assms(1) sr(1) d sr(2-4)] obtain name d' s1 where
    b: "backup_create app p MAX_PATH_LEN s = (0, backup_dir_of app @ ''/'' @ name, s1)"
    "contents s1 (backup_dir_of app @ ''/'' @ name) = Some d'" "hex_string (sha256 d') = hex_string (sha256 d)"
    "backup_store s1 app" by blast
  have "quietly (store_dirs app) s s1" "frame in_backups s s1"
    using backup_create_quietly [OF sr(1), of s p MAX_PATH_LEN] backup_create_frame [of s app p MAX_PATH_LEN] b(1) by simp_all
  then show ?thesis using b False d assms(1) by (auto simp: backup_present_def access_quiet)
qed

lemma svu_path_not_backup: "session_state_svu_path app n = Some p \<Longrightarrow> \<not> in_backups p"
  using svu_path_start [of app n p] by (auto simp: in_backups_def SESSION_STATE_DIR_def BACKUP_DIR_def)

lemma rename_ok:
  assumes "script s = []" "contents s p = Some d" "can_create s q"
  shows "\<exists>s'. rename p q s = (True, s') \<and> contents s' q = Some d"
  using assms by (auto simp: rename_def io_simps contents_def lookup_def put_fs_def update_conv')

definition data_is :: "bytes \<Rightarrow> inode option \<Rightarrow> bool" where
  "data_is d x \<longleftrightarrow> map_option f_data x = Some d"

lemma install_lossless:
  assumes "script s = []" "contents s temp = Some src" "can_create s remote" "\<not> after_install remote" "am_loaded (ag_meta ag)"
  shows "\<exists>resp ag' s'. deploy_install app remote temp h mode buf ag s = (Inr (resp, ag'), s') \<and>
    rs_success resp \<and> rs_backup_path resp = buf \<and> contents s' remote = Some src"
proof -
  obtain s1 where r: "rename temp remote s = (True, s1)" "contents s1 remote = Some src"
    using rename_ok [OF assms(1-3)] by blast
  let ?s2 = "snd (snd (backup_create app remote 0 (snd (chmod remote (request_mode mode) s1))))"
  obtain rc m' s' where m: "app_metadata_save app remote h (ag_meta ag) ?s2 = (Some (rc, m'), s')"
    using save_total [OF assms(5)] by metis
  have "moves (data_is src) remote s1 (snd (app_metadata_save app remote h (ag_meta ag) ?s2))"
    by (rule install_rest [of remote "data_is src", OF assms(4)]) (simp add: data_is_def)
  then have "data_is src (lookup s' remote)"
    using r(2) m unfolding moves_def by (auto simp: data_is_def contents_def lookup_def)
  then have "contents s' remote = Some src" by (simp add: data_is_def contents_def)
  then show ?thesis using r(1) m by (simp add: deploy_install_def Let_def split_def)
qed

lemma deploy_lossless:
  assumes "deploy_ready src tot bs addr ev req app remote s" "script s = []" "ag_env ag = []" "am_loaded (ag_meta ag)"
    "lookup s remote = None \<or> store_ready s app"
  shows "\<exists>resp ag' s'. handle_deploy ev req ag s = (Inr (resp, ag'), s') \<and> rs_success resp \<and> contents s' remote = Some src"
proof -
  let ?t = "remote @ ''.tmp''" and ?h = "hex_string (sha256 src)"
  note rd = assms(1) [unfolded deploy_ready_def]
  have tg: "deploy_target app remote" and cc: "can_create s remote" "can_create s ?t" using rd by blast+
  have nd: "\<not> dir_exists s remote" using cc by (simp add: can_create_def)
  from backup_present_quiet [OF assms(2) nd assms(5)] obtain buf s1 where
    b: "backup_present app remote s = (Some buf, s1)" "quietly (store_dirs app) s s1" "frame in_backups s s1" by blast
  have c1: "can_create s1 remote" "can_create s1 ?t" using quiet_create [OF b(2)] cc rd by blast+
  have s1: "script s1 = []" using b(2) assms(2) by (simp add: quietly_def)
  have side: "lookup s1 p = None \<and> p \<noteq> ?t" if "session_state_svu_path app 640 = Some p" for p
    using that rd frame_lookup [OF b(3) svu_path_not_backup [OF that]] by simp
  have "\<exists>s2. svu_download_file (server_link src tot bs addr) False (ev_mem ev) (dr_dtp_server_node req) ?t
      (dr_expected_size req) (Some app) (ucast (dr_dtp_mtu req)) s1 [] = Some (0, s2, []) \<and>
    contents s2 ?t = Some src \<and> quietly state_dirs s1 s2"
    by (rule download_lossless [OF _ s1 c1(2)]) (use rd side in \<open>auto simp: not_less\<close>)
  then obtain s2 where d: "svu_download_file (server_link src tot bs addr) False (ev_mem ev) (dr_dtp_server_node req) ?t
      (dr_expected_size req) (Some app) (ucast (dr_dtp_mtu req)) s1 [] = Some (0, s2, [])"
    "contents s2 ?t = Some src" "quietly state_dirs s1 s2" by blast
  have s2: "script s2 = []" "can_create s2 remote" using d(3) s1 quiet_create [OF d(3) c1(1)] rd by (auto simp: quietly_def)
  note tt = deploy_target_temp [OF tg]
  from install_lossless [OF s2(1) d(2) s2(2) tt(3), of "ag\<lparr>ag_env := []\<rparr>" app ?h "dr_file_mode req" buf] assms(4)
  obtain resp ag' s' where i: "deploy_install app remote ?t ?h (dr_file_mode req) buf (ag\<lparr>ag_env := []\<rparr>) s2 = (Inr (resp, ag'), s')"
    "rs_success resp" "contents s' remote = Some src" by auto
  have "deploy_verify app remote ?t ?h (dr_file_mode req) buf (ag\<lparr>ag_env := []\<rparr>) s2 = (Inr (resp, ag'), s')"
    using checksum_quiet [OF s2(1) d(2)] i(1) by (simp add: deploy_verify_def)
  moreover have "remote \<noteq> []" using cc by (simp add: can_create_def)
  moreover have "length ?h = HASH_HEX_LEN" by (simp add: length_hex_string HASH_HEX_LEN_def)
  ultimately have "handle_deploy ev req ag s = (Inr (resp, ag'), s')"
    using rd b(1) d(1) tt(1) assms(3)
    by (simp add: handle_deploy_def present_def checksum_len_ok_def Let_def del: append.simps)
  then show ?thesis using i by blast
qed

lemma deploy_success_steps:
  assumes "handle_deploy ev req ag s = (Inr (resp, ag'), s')" "rs_success resp" "deploy_target app remote"
    "dr_app_name req = Some app" "dr_remote_path req = Some remote"
  obtains buf s1 s2 e t t1 m h k where "backup_present app remote s = (Some buf, s1)"
    "svu_download_file (ev_link ev (dr_dtp_server_node req)) (ev_oom ev) (ev_mem ev) (dr_dtp_server_node req) (remote @ ''.tmp'')
       (dr_expected_size req) (Some app) (ucast (dr_dtp_mtu req)) s1 (ag_env ag) = Some (0, s2, e)"
    "compute_file_checksum (remote @ ''.tmp'') HASH_BUF_LEN s2 = (Some h, t)"
    "rename (remote @ ''.tmp'') remote t = (True, t1)" "rs_backup_path resp = buf"
    "s' = snd (app_metadata_save app remote h m (snd (snd (backup_create app remote 0 (snd (chmod remote k t1))))))"
    "m = ag_meta ag"
proof -
  let ?t = "remote @ ''.tmp''"
  let ?dl = "\<lambda>s. svu_download_file (ev_link ev (dr_dtp_server_node req)) (ev_oom ev) (ev_mem ev) (dr_dtp_server_node req) ?t
       (dr_expected_size req) (Some app) (ucast (dr_dtp_mtu req)) s (ag_env ag)"
  let ?h = "the (dr_expected_checksum req)"
  have temp: "cstr MAX_PATH_LEN (remote @ ''.tmp'') = ?t" by (rule deploy_target_temp(1) [OF assms(3)])
  obtain buf s1 where b: "backup_present app remote s = (Some buf, s1)"
    using assms by (auto simp: handle_deploy_def Let_def split: if_splits option.splits prod.splits)
  then obtain s2 e where d: "?dl s1 = Some (0, s2, e)"
    "deploy_verify app remote ?t ?h (dr_file_mode req) buf (ag\<lparr>ag_env := e\<rparr>) s2 = (Inr (resp, ag'), s')"
    using assms(1,2,4,5) temp
    by (auto simp: handle_deploy_def Let_def split: if_splits option.splits prod.splits)
  obtain c t where c: "compute_file_checksum ?t HASH_BUF_LEN s2 = (c, t)" by force
  have c': "c = Some ?h" "deploy_install app remote ?t ?h (dr_file_mode req) buf (ag\<lparr>ag_env := e\<rparr>) t = (Inr (resp, ag'), s')"
    using d(2) c assms(2) by (auto simp: deploy_verify_def Let_def split_def split: option.splits if_splits)
  from c'(2) show ?thesis
  proof (cases rule: install_cases)
    case (1 t1)
    then show ?thesis using assms(2) by simp
  next
    case (2 t1)
    have "ag_meta (ag\<lparr>ag_env := e\<rparr>) = ag_meta ag" by simp
    then show ?thesis using that [OF b d(1) _ 2(1,3) 2(4)] c c'(1) by simp
  qed
qed

lemma not_in_backups: "\<not> in_backups METADATA_FILE" "\<not> in_backups SESSION_STATE_DIR"
  by (simp_all add: in_backups_def METADATA_FILE_def SESSION_STATE_DIR_def BACKUP_DIR_def)

lemma entry_dirname:
  assumes "backup_entry_of app q"
  shows "dirname q = backup_dir_of app"
proof -
  have "backup_dir_of app \<noteq> []" by (simp add: backup_dir_of_def cstr_def MAX_PATH_LEN_def BACKUP_DIR_def)
  then show ?thesis using assms dirname_snoc by (auto simp: backup_entry_of_def)
qed

lemma entry_not_store_dir:
  assumes "plain_name app" "backup_entry_of app q"
  shows "q \<notin> store_dirs app"
proof -
  have "23 < length (backup_dir_of app)" unfolding backup_dir_plain(4) [OF assms(1)]
    using assms(1) by (cases app) (auto simp: BACKUP_DIR_def plain_name_def)
  then have "length (backup_dir_of app) < length q" "24 < length q" using assms(2) by (auto simp: backup_entry_of_def)
  moreover have "length d \<le> length (backup_dir_of app) \<or> length d \<le> 24" if "d \<in> store_dirs app" for d
    using that by (auto simp: store_dirs_def BACKUP_DIR_def)
  ultimately show ?thesis by fastforce
qed

lemma dirname_entry:
  assumes "dirname q = backup_dir_of app" "plain_name app"
  shows "backup_entry_of app q"
proof -
  have "backup_dir_of app \<noteq> ''/''" "backup_dir_of app \<noteq> ''.''"
    unfolding backup_dir_plain(4) [OF assms(2)] by (simp_all add: BACKUP_DIR_def)
  from path_in_dir [OF assms(1) this] show ?thesis unfolding backup_entry_of_def by auto
qed

text \<open>The store does not notice changes elsewhere.\<close>

lemma store_elsewhere:
  assumes "store_ready s app" "frame P s t" "quietly D s t"
    "\<And>q. P q \<Longrightarrow> \<not> backup_entry_of app q \<and> q \<notin> store_dirs app" "\<And>d. d \<in> D \<Longrightarrow> dirname d \<noteq> backup_dir_of app"
  shows "store_ready t app"
proof -
  have pl: "plain_name app" and st: "backup_store s app" and fr: "backup_dirs_free s app" and tm: "tm_ok (clock s)"
    using assms(1) by (simp_all add: store_ready_def)
  have "contents t q = contents s q" if "dirname q = backup_dir_of app" for q
    using frame_contents [OF assms(2)] assms(4) dirname_entry [OF that pl] by blast
  moreover have "set (dirs t) \<subseteq> set (dirs s) \<union> D" using assms(3) by (simp add: quietly_def)
  ultimately have "backup_store t app" using st assms(5) unfolding backup_store_files by (metis Un_iff subsetD)
  moreover have "backup_dirs_free t app"
    using fr frame_lookup [OF assms(2)] assms(4) unfolding backup_dirs_free_def store_dirs_def by metis
  moreover have "tm_ok (clock t)" using tm assms(3) by (simp add: quietly_def)
  ultimately show ?thesis using pl by (simp add: store_ready_def)
qed

lemma state_dirs_apart:
  assumes "plain_name app" "d \<in> state_dirs"
  shows "dirname d \<noteq> backup_dir_of app"
proof -
  have "length (dirname d) < 23" using assms(2) by (auto simp: state_dirs_def SESSION_STATE_DIR_def dirname_def)
  moreover have "23 \<le> length (backup_dir_of app)"
    unfolding backup_dir_plain(4) [OF assms(1)] by (simp add: BACKUP_DIR_def)
  ultimately show ?thesis by auto
qed

lemma create_keeps:
  assumes "script s = []" "store_ready s app" "contents s src = Some d" "contents s p = Some c"
  shows "contents (snd (snd (backup_create app src n s))) p = Some c"
proof -
  have "\<exists>name d' s'. backup_create app src MAX_PATH_LEN s = (0, backup_dir_of app @ ''/'' @ name, s') \<and>
      (\<forall>p c. contents s p = Some c \<longrightarrow> contents s' p = Some c)"
    using backup_create_result [OF assms(1) _ assms(3)] assms(2) unfolding store_ready_def by blast
  then have "contents (snd (snd (backup_create app src MAX_PATH_LEN s))) p = Some c" using assms(4) by auto
  then show ?thesis unfolding backup_create_out [of app src n s MAX_PATH_LEN] .
qed

text \<open>From the backup of the present file to the installed one.\<close>

lemma install_window:
  assumes "svu_download_file lk oom mem node temp sz (Some app) mtu s1 e = Some (0, s2, e')"
    "compute_file_checksum temp HASH_BUF_LEN s2 = (Some h, t)" "rename temp remote t = (True, t1)"
    "u = snd (chmod remote k t1)"
  shows "frame (\<lambda>q. download_touches app temp q \<or> q = remote) s1 u" "quietly state_dirs s1 u"
    "\<exists>x. contents u remote = Some x"
proof -
  let ?P = "\<lambda>q. download_touches app temp q \<or> q = remote" and ?D = state_dirs
  have "frame ?P s1 s2" by (rule frame_mono [OF download_frame [OF assms(1)]]) simp
  also have "frame ?P s2 t" using checksum_frame [of ?P s2 temp HASH_BUF_LEN] assms(2) by simp
  also have "frame ?P t t1" using frame_rename [of ?P temp remote t] assms(3) by (simp add: download_touches_def)
  also have "frame ?P t1 u" unfolding assms(4) by (rule frame_calls(8)) simp
  finally show "frame ?P s1 u" .
  have "quietly ?D s1 s2" by (rule download_quietly [OF assms(1)])
  also have "quietly ?D s2 t" using checksum_quietly [of ?D s2 temp HASH_BUF_LEN] assms(2) by simp
  also have "quietly ?D t t1" using quietly_calls(16) [of ?D t temp remote] assms(3) by simp
  also have "quietly ?D t1 u" unfolding assms(4) by (rule quietly_calls(8))
  finally show "quietly ?D s1 u" .
  have "verified h (lookup t1 remote)"
    using rename_lookup [OF assms(3)] checksum_sound [OF assms(2)] assms(2)
      frame_contents [OF checksum_frame [of "\<lambda>_. False" s2 temp HASH_BUF_LEN], of temp]
    by (auto simp: verified_def contents_def)
  then have "verified h (lookup u remote)"
    using chmod_moves [of "verified h" k remote t1, OF verified_mode] unfolding moves_def lookup_def assms(4) by auto
  then show "\<exists>x. contents u remote = Some x" by (auto simp: verified_def contents_def)
qed

lemma backup_present_ready:
  assumes "script s = []" "store_ready s app" "contents s p = Some d" "\<not> dir_exists s p" "backup_present app p s = (Some buf, s1)"
  shows "script s1 = []" "store_ready s1 app" "in_backups buf"
    "\<exists>d'. contents s1 buf = Some d' \<and> hex_string (sha256 d') = hex_string (sha256 d)"
proof -
  have pl: "plain_name app" "tm_ok (clock s)" using assms(2) by (simp_all add: store_ready_def)
  from assms(3) have lk: "lookup s p \<noteq> None" by (auto simp: contents_def)
  have b: "quietly (store_dirs app) s s1" "\<exists>name d'. buf = backup_dir_of app @ ''/'' @ name \<and> contents s1 buf = Some d' \<and>
      Some (hex_string (sha256 d')) = map_option (hex_string \<circ> sha256) (contents s p) \<and> backup_store s1 app"
    using backup_present_quiet [OF assms(1,4) disjI2 [OF assms(2)]] assms(5) lk by auto
  then obtain d' name where buf: "buf = backup_dir_of app @ ''/'' @ name" "contents s1 buf = Some d'"
    "hex_string (sha256 d') = hex_string (sha256 d)" "backup_store s1 app" using assms(3) by auto
  show "script s1 = []" using b(1) assms(1) by (simp add: quietly_def)
  show "in_backups buf" unfolding buf(1) by (simp add: in_backups_def backup_dir_plain(4) [OF pl(1)] BACKUP_DIR_def)
  have "frame (backup_entry_of app) s s1"
    using backup_create_entries [OF pl(1), of s p MAX_PATH_LEN] pl(2) assms(1,4,5) lk
    by (auto simp: backup_present_def access_quiet split: prod.splits if_splits)
  then have "backup_dirs_free s1 app"
    using assms(2) frame_lookup [of "backup_entry_of app" s s1] entry_not_store_dir [OF pl(1)]
    unfolding store_ready_def backup_dirs_free_def store_dirs_def by metis
  moreover have "clock s1 = clock s" using b(1) by (simp add: quietly_def)
  ultimately show "store_ready s1 app" using pl buf(4) by (simp add: store_ready_def)
  show "\<exists>d'. contents s1 buf = Some d' \<and> hex_string (sha256 d') = hex_string (sha256 d)" using buf by blast
qed

lemma window_apart:
  assumes "store_ready s app" "deploy_target app remote" "remote \<notin> store_dirs app" "remote @ ''.tmp'' \<notin> store_dirs app"
    "download_touches app (remote @ ''.tmp'') q \<or> q = remote"
  shows "\<not> in_backups q" "q \<notin> store_dirs app" "dirname q \<noteq> backup_dir_of app"
proof -
  have pl: "plain_name app" using assms(1) by (simp add: store_ready_def)
  have var: "\<not> in_backups (''/var'' @ x) \<and> ''/var'' @ x \<notin> store_dirs app" for x
    by (simp add: in_backups_def BACKUP_DIR_def store_dirs_def backup_dir_plain(4) [OF pl])
  show i: "\<not> in_backups q" "q \<notin> store_dirs app"
    using assms temp_in_backups [of remote] var [of "''/lib/satdeploy/state''"] svu_path_start [of app 640 q]
      var [of "''/lib/satdeploy/state/'' @ x" for x]
    by (auto simp: download_touches_def deploy_target_def SESSION_STATE_DIR_def)
  show "dirname q \<noteq> backup_dir_of app" using i(1) dirname_entry [OF _ pl] entry_in_backups [OF pl] by blast
qed

lemma window_ready:
  assumes "store_ready s1 app" "frame (\<lambda>q. download_touches app (remote @ ''.tmp'') q \<or> q = remote) s1 u" "quietly state_dirs s1 u"
    "deploy_target app remote" "remote \<notin> store_dirs app" "remote @ ''.tmp'' \<notin> store_dirs app"
  shows "store_ready u app"
proof -
  have pl: "plain_name app" using assms(1) by (simp add: store_ready_def)
  show ?thesis
    by (rule store_elsewhere [OF assms(1-3)])
      (use window_apart [OF assms(1,4-6)] entry_in_backups [OF pl] state_dirs_apart [OF pl] in blast)+
qed

lemma deploy_previous:
  assumes "handle_deploy ev req ag s = (Inr (resp, ag'), s')" "rs_success resp" "script s = []" "deploy_target app remote"
    "dr_app_name req = Some app" "dr_remote_path req = Some remote" "store_ready s app"
    "contents s remote = Some d" "\<not> dir_exists s remote"
    "remote \<notin> store_dirs app" "remote @ ''.tmp'' \<notin> store_dirs app"
  shows "in_backups (rs_backup_path resp) \<and>
    (\<exists>d'. contents s' (rs_backup_path resp) = Some d' \<and> hex_string (sha256 d') = hex_string (sha256 d))"
  using assms(1,2,4-6)
proof (cases rule: deploy_success_steps)
  case (1 buf s1 s2 e t t1 m h k)
  let ?t = "remote @ ''.tmp''" and ?u = "snd (chmod remote k t1)"
  let ?P = "\<lambda>q. download_touches app ?t q \<or> q = remote"
  note b = backup_present_ready [OF assms(3,7,8,9) 1(1)]
  obtain d' where d': "contents s1 buf = Some d'" "hex_string (sha256 d') = hex_string (sha256 d)" using b(4) by blast
  note np = window_apart [OF assms(7,4,10,11)]
  from install_window [OF 1(2-4) refl] obtain x where f: "frame ?P s1 ?u" and q: "quietly state_dirs s1 ?u"
    and x: "contents ?u remote = Some x" by blast
  have sru: "store_ready ?u app" by (rule window_ready [OF b(2) f q assms(4,10,11)])
  have su: "script ?u = []" using q b(1) by (simp add: quietly_def)
  have "contents ?u buf = Some d'" using frame_contents [OF f, of buf] np [of buf] b(3) d'(1) by fastforce
  note k = create_keeps [OF su sru x this, of 0]
  have "frame (\<lambda>q. q = METADATA_FILE) (snd (snd (backup_create app remote 0 ?u))) s'"
    unfolding 1(6) by (rule frames) simp
  moreover have "buf \<noteq> METADATA_FILE" using b(3) not_in_backups(1) by blast
  ultimately have "contents s' buf = Some d'" using k frame_contents by fastforce
  then show ?thesis using d'(2) b(3) 1(5) by auto
qed

section \<open>Properties\<close>

text \<open>
  C6: A deploy over a link that loses nothing succeeds. Against the ground's own server, with no
  failing system call, a destination and a temporary name that can be created, and either no
  installed file or a sound backup store, \<open>handle_deploy\<close> returns, reports success and the
  destination holds exactly the ground's file.
\<close>

theorem deploy_end_to_end:
  assumes "deploy_ready src tot bs addr ev req app remote s" "script s = []" "ag_env ag = []" "am_loaded (ag_meta ag)"
    "lookup s remote = None \<or> store_ready s app"
  shows "\<exists>resp ag' s'. handle_deploy ev req ag s = (Inr (resp, ag'), s') \<and> rs_success resp \<and> contents s' remote = Some src"
  by (rule deploy_lossless [OF assms])

definition a_request :: deploy_request where
  "a_request = req_init\<lparr>dr_command := CMD_DEPLOY, dr_app_name := Some ''app'', dr_remote_path := Some ''/tmp/f'',
     dr_dtp_server_node := 3, dr_expected_size := 1, dr_expected_checksum := Some (hex_string (sha256 [5])), dr_dtp_mtu := 16\<rparr>"

definition an_env :: "bytes list env" where
  "an_env = \<lparr>ev_link = (\<lambda>_. server_link [5] 1 1 3), ev_oom = False, ev_mem = (\<lambda>_. True), ev_system = (\<lambda>_ e. (0, e)),
     ev_popen = (\<lambda>_ e. (None, e)), ev_unpack = (\<lambda>_. Some a_request), ev_pack = (\<lambda>_. []), ev_buffer = (\<lambda>_. True)\<rparr>"

definition an_agent :: "bytes list agent" where
  "an_agent = \<lparr>ag_upload = no_session, ag_meta = \<lparr>am_cache = [], am_loaded = True\<rparr>, ag_env = []\<rparr>"

definition installed_os :: os where
  "installed_os = (tmp_os [])\<lparr>fs := [(''/tmp/f'', \<lparr>f_data = [9], f_mode = 493, f_mtime = clock (tmp_os [])\<rparr>)]\<rparr>"

lemma a_request_ready:
  assumes "fs s = [] \<or> map fst (fs s) = [''/tmp/f'']" "dirs s = [''/tmp'']"
  shows "deploy_ready [5] 1 1 3 an_env a_request ''app'' ''/tmp/f'' s"
proof -
  have p: "session_state_svu_path ''app'' 640 = Some ''/var/lib/satdeploy/state/app.svupart''"
    by (simp add: session_state_svu_path_def state_path_def app_name_is_safe_def SESSION_STATE_DIR_def SESSION_SVU_EXT_def)
  have "lookup s ''/var/lib/satdeploy/state/app.svupart'' = None"
    using assms(1) by (auto simp: lookup_None_iff simp del: set_map)
  moreover have "can_create s ''/tmp/f''" "can_create s ''/tmp/f.tmp''"
    using assms(2) by (simp_all add: can_create_def dir_exists_def dirname_def)
  moreover have "deploy_target ''app'' ''/tmp/f''"
    by (simp add: deploy_target_def in_backups_def BACKUP_DIR_def METADATA_FILE_def SESSION_STATE_DIR_def p)
  ultimately show ?thesis
    using small_fits p
    by (simp add: deploy_ready_def a_request_def an_env_def state_dirs_def store_dirs_def SESSION_STATE_DIR_def BACKUP_DIR_def
        backup_dir_of_def cstr_def MAX_PATH_LEN_def)
qed

lemma tmp_os_ready: "deploy_ready [5] 1 1 3 an_env a_request ''app'' ''/tmp/f'' (tmp_os [])" "lookup (tmp_os []) p = None"
  by (rule a_request_ready) (simp_all add: tmp_os_def lookup_def)

lemma installed_os_ready:
  "deploy_ready [5] 1 1 3 an_env a_request ''app'' ''/tmp/f'' installed_os" "script installed_os = []"
  "store_ready installed_os ''app''" "contents installed_os ''/tmp/f'' = Some [9]" "\<not> dir_exists installed_os ''/tmp/f''"
proof -
  have i: "fs installed_os = [(''/tmp/f'', \<lparr>f_data = [9], f_mode = 493, f_mtime = clock (tmp_os [])\<rparr>)]"
    "dirs installed_os = [''/tmp'']" "script installed_os = []" "clock installed_os = clock (tmp_os [])"
    by (simp_all add: installed_os_def tmp_os_def)
  show "deploy_ready [5] 1 1 3 an_env a_request ''app'' ''/tmp/f'' installed_os"
    by (rule a_request_ready) (simp_all add: i)
  show "script installed_os = []" by (rule i)
  show "contents installed_os ''/tmp/f'' = Some [9]" "\<not> dir_exists installed_os ''/tmp/f''"
    by (simp_all add: contents_def lookup_def dir_exists_def i)
  show "store_ready installed_os ''app''"
    by (simp add: store_ready_def plain_name_def backup_store_def backup_dirs_free_def tm_ok_def dirname_def i
        lookup_def backup_dir_of_def MAX_PATH_LEN_def MAX_APP_NAME_LEN_def BACKUP_DIR_def cstr_def tmp_os_def)
qed

lemma a_deploy:
  obtains resp ag' s' where "handle_deploy an_env a_request an_agent installed_os = (Inr (resp, ag'), s')" "rs_success resp"
  using deploy_lossless [OF installed_os_ready(1,2), of an_agent] installed_os_ready(3) by (auto simp: an_agent_def)

theorem deploy_end_to_end_witness:
  "\<exists>resp ag' s'. handle_deploy an_env a_request an_agent (tmp_os []) = (Inr (resp, ag'), s') \<and> rs_success resp \<and>
    contents s' ''/tmp/f'' = Some [5]"
  by (rule deploy_end_to_end [OF tmp_os_ready(1)]) (simp_all add: tmp_os_create an_agent_def tmp_os_ready)

text \<open>
  C7: A deploy does not lose the version it replaces. With no failing system call and a sound
  backup store, over any link, a deploy that reports success names a file below the backup
  directory that holds bytes with the hash of the file that was installed before.
\<close>

theorem deploy_keeps_previous:
  assumes "handle_deploy ev req ag s = (Inr (resp, ag'), s')" "rs_success resp" "script s = []" "deploy_target app remote"
    "dr_app_name req = Some app" "dr_remote_path req = Some remote" "store_ready s app"
    "contents s remote = Some d" "\<not> dir_exists s remote"
    "remote \<notin> store_dirs app" "remote @ ''.tmp'' \<notin> store_dirs app"
  shows "in_backups (rs_backup_path resp) \<and>
    (\<exists>d'. contents s' (rs_backup_path resp) = Some d' \<and> hex_string (sha256 d') = hex_string (sha256 d))"
  by (rule deploy_previous [OF assms])

lemma a_target: "deploy_target ''app'' ''/tmp/f''" "''/tmp/f'' \<notin> store_dirs ''app''" "''/tmp/f'' @ ''.tmp'' \<notin> store_dirs ''app''"
  using installed_os_ready(1) unfolding deploy_ready_def by blast+

theorem deploy_keeps_previous_witness:
  "\<exists>resp ag' s' d'. handle_deploy an_env a_request an_agent installed_os = (Inr (resp, ag'), s') \<and> in_backups (rs_backup_path resp) \<and>
    contents s' (rs_backup_path resp) = Some d' \<and> hex_string (sha256 d') = hex_string (sha256 [9])"
proof -
  obtain resp ag' s' where d: "handle_deploy an_env a_request an_agent installed_os = (Inr (resp, ag'), s')" "rs_success resp"
    by (rule a_deploy)
  show ?thesis
    using deploy_keeps_previous [OF d installed_os_ready(2) a_target(1) _ _ installed_os_ready(3-5) a_target(2,3)] d(1)
    by (auto simp: a_request_def)
qed

text \<open>
  C4: A deploy installs only verified bytes, all or nothing. Whatever the link delivers and
  whichever system calls fail, when \<open>handle_deploy\<close> reports success the destination holds
  bytes whose SHA-256 is the requested checksum; when it reports an error the destination's file,
  contents and mode, is the one before the command.
\<close>

theorem deploy_all_or_nothing:
  assumes "handle_deploy ev req ag s = (Inr (resp, ag'), s')" "deploy_target (the (dr_app_name req)) remote"
    "the (dr_remote_path req) = remote"
  shows "if rs_success resp then \<exists>d. contents s' remote = Some d \<and> hex_string (sha256 d) = the (dr_expected_checksum req)
    else lookup s' remote = lookup s remote"
  using deploy_old_or_new(2) [OF assms] by (auto simp: verified_def contents_def)

text \<open>
  C5: A deploy can be cut off at any moment. In every file system that exists between two
  changes made during \<open>handle_deploy\<close>, whatever fails, the destination is the old file, or a
  file whose SHA-256 is the requested checksum: never missing, never partial.
\<close>

theorem deploy_crash_safe:
  assumes "handle_deploy ev req ag s = (Inr (resp, ag'), s')" "deploy_target (the (dr_app_name req)) remote"
    "the (dr_remote_path req) = remote" "f \<in> set (fs s' # fs_log s')" "f \<notin> set (fs_log s)"
  shows "map_of f remote = lookup s remote \<or>
    (\<exists>i. map_of f remote = Some i \<and> hex_string (sha256 (f_data i)) = the (dr_expected_checksum req))"
  using moves_logD [OF deploy_old_or_new(1) [OF assms(1-3)] _ assms(4,5)]
  by (simp add: old_or_new_def lookup_def)

text \<open>
  The temporary name is cut to the path buffer. For a destination of 511 characters
  \<open>temp_path\<close> is the destination itself: the download overwrites the installed file in place,
  and when it does not have the requested checksum the installed file is removed.
\<close>

theorem deploy_long_path_overwrites:
  assumes "dr_app_name req = Some app" "app \<noteq> []" "dr_remote_path req = Some remote" "length remote = 511"
    "dr_dtp_server_node req \<noteq> 0" "dr_expected_checksum req = Some h" "length h = HASH_HEX_LEN"
    "backup_present app remote s = (Some buf, s1)"
    "svu_download_file (ev_link ev (dr_dtp_server_node req)) (ev_oom ev) (ev_mem ev) (dr_dtp_server_node req) remote
       (dr_expected_size req) (Some app) (ucast (dr_dtp_mtu req)) s1 (ag_env ag) = Some (0, s2, e)"
    "script s2 = []" "contents s2 remote = Some d" "hex_string (sha256 d) \<noteq> h"
  shows "\<exists>s'. handle_deploy ev req ag s = (Inr (resp_fail ERR_CHECKSUM_MISMATCH ''Checksum mismatch'', ag\<lparr>ag_env := e\<rparr>), s') \<and>
    contents s' remote = None"
proof -
  have t: "cstr MAX_PATH_LEN (remote @ ''.tmp'') = remote" using assms(4) by (simp add: cstr_def MAX_PATH_LEN_def)
  have u: "unlink remote s2 = (True, discard remote s2)"
    using assms(10,11) by (auto simp: unlink_def io_simps contents_def)
  have "remote \<noteq> []" using assms(4) by auto
  then show ?thesis using assms u checksum_quiet [OF assms(10,11)]
    by (simp add: handle_deploy_def present_def checksum_len_ok_def t deploy_verify_def Let_def del: append.simps)
qed

theorem deploy_all_or_nothing_witness:
  "\<exists>resp ag' s' d. handle_deploy an_env a_request an_agent installed_os = (Inr (resp, ag'), s') \<and>
    contents s' ''/tmp/f'' = Some d \<and> hex_string (sha256 d) = hex_string (sha256 [5])"
proof -
  obtain resp ag' s' where d: "handle_deploy an_env a_request an_agent installed_os = (Inr (resp, ag'), s')" "rs_success resp"
    by (rule a_deploy)
  show ?thesis using deploy_all_or_nothing [OF d(1), of "''/tmp/f''"] a_target(1) d by (auto simp: a_request_def)
qed

theorem deploy_crash_safe_witness:
  "\<exists>resp ag' s'. handle_deploy an_env a_request an_agent installed_os = (Inr (resp, ag'), s') \<and>
    (\<forall>f \<in> set (fs s' # fs_log s'). map_of f ''/tmp/f'' = lookup installed_os ''/tmp/f'' \<or>
      (\<exists>i. map_of f ''/tmp/f'' = Some i \<and> hex_string (sha256 (f_data i)) = hex_string (sha256 [5])))"
proof -
  obtain resp ag' s' where d: "handle_deploy an_env a_request an_agent installed_os = (Inr (resp, ag'), s')" "rs_success resp"
    by (rule a_deploy)
  have "fs_log installed_os = []" by (simp add: installed_os_def tmp_os_def)
  then show ?thesis using deploy_crash_safe [OF d(1), of "''/tmp/f''"] a_target(1) d(1) by (simp add: a_request_def)
qed

lemma hex_digit_range: "n < 16 \<Longrightarrow> hex_digit n \<noteq> CHR ''z''"
proof -
  assume "n < 16"
  then have "hex_digit n \<in> set ''0123456789abcdef''" unfolding hex_digit_def by (intro nth_mem) simp
  then show ?thesis by auto
qed

lemma hex_string_not_z: "0 < n \<Longrightarrow> hex_string d \<noteq> replicate n CHR ''z''"
proof -
  have "CHR ''z'' \<notin> set (hex_string d)"
  proof (induction d)
    case (Cons b d)
    have "unat b < 256" using unsigned_less [of b] by simp
    then have "hex_digit (unat b div 16) \<noteq> CHR ''z''" "hex_digit (unat b mod 16) \<noteq> CHR ''z''"
      by (simp_all add: hex_digit_range)
    then show ?case using Cons by (simp add: hex_string_def hex_byte_def)
  qed (simp add: hex_string_def)
  then show "0 < n \<Longrightarrow> hex_string d \<noteq> replicate n CHR ''z''" by (metis in_set_replicate not_gr_zero)
qed

theorem deploy_long_path_overwrites_witness:
  "\<exists>req ag' s'. the (dr_remote_path req) = CHR ''/'' # replicate 510 CHR ''a'' \<and>
    handle_deploy an_env req an_agent (tmp_os []) = (Inr (resp_fail ERR_CHECKSUM_MISMATCH ''Checksum mismatch'', ag'), s') \<and>
    contents s' (CHR ''/'' # replicate 510 CHR ''a'') = None"
proof -
  define r where "r = CHR ''/'' # replicate 510 CHR ''a''"
  let ?h = "replicate 64 CHR ''z''"
  let ?q = "a_request\<lparr>dr_remote_path := Some r, dr_expected_checksum := Some ?h\<rparr>"
  have len: "length r = 511" and dn: "dirname r = ''/''" by (simp_all add: r_def dirname_root)
  have ne: "r \<noteq> x" if "length x < 511" for x using that len by (metis less_irrefl)
  have c: "can_create (tmp_os []) r" "\<not> dir_exists (tmp_os []) r" "r \<notin> state_dirs"
    using dn ne
    by (auto simp: can_create_def dir_exists_def tmp_os_def state_dirs_def SESSION_STATE_DIR_def)
  have "session_state_svu_path ''app'' 640 = Some p \<Longrightarrow> length p < 511" for p
    by (auto simp: session_state_svu_path_def state_path_def app_name_is_safe_def SESSION_STATE_DIR_def SESSION_SVU_EXT_def)
  then have "\<exists>s2. svu_download_file (server_link [5] 1 1 3) False (\<lambda>_. True) 3 r 1 (Some ''app'') 16 (tmp_os []) [] =
      Some (0, s2, []) \<and> contents s2 r = Some [5] \<and> quietly state_dirs (tmp_os []) s2"
    by (intro download_lossless [OF _ tmp_os_create(2) c(1,3)]) (use small_fits tmp_os_ready(2) ne in auto)
  then obtain s2 where d: "svu_download_file (server_link [5] 1 1 3) False (\<lambda>_. True) 3 r 1 (Some ''app'') 16 (tmp_os []) [] =
      Some (0, s2, [])" "contents s2 r = Some [5]" "script s2 = []"
    by (auto simp: quietly_def tmp_os_create)
  have "backup_present ''app'' r (tmp_os []) = (Some [], tmp_os [])"
    using c(2) tmp_os_ready(2) by (simp add: backup_present_def access_quiet tmp_os_create)
  from deploy_long_path_overwrites [of ?q "''app''" r ?h, OF _ _ _ len _ _ _ this _ d(3,2) hex_string_not_z, of an_env an_agent "[]"] d(1)
  show ?thesis unfolding r_def [symmetric] by (intro exI [of _ ?q]) (auto simp: a_request_def an_env_def an_agent_def HASH_HEX_LEN_def)
qed

end
