(* ===== verification/Ground_Cli.thy ===== *)
theory Ground_Cli
  imports History Deploy_Transfer "HOL-Library.Multiset" "HOL-Library.Sublist"
begin

text \<open>
  The ground's commands, \<open>satdeploy-apm/src/satdeploy_apm.c\<close>: the reordering of the arguments, the
  name derived from a remote path, one request-reply exchange with the agent, and the commands
  \<open>push\<close>, \<open>rollback\<close>, \<open>list\<close>, \<open>logs\<close> and \<open>status\<close>. The state of a station holds its
  operating system, the other end of the network, the database, the server of a transfer and what the
  operator was shown: on standard output the messages of \<open>output_success\<close> and \<open>output_error\<close>, the rows of
  the two tables and the log text, and on standard error the lines of \<open>history.c\<close>; progress lines, headings,
  usage hints and the lines of a server that does not start are left out. Shown here: what the
  reordering does to the arguments, and which of the agent's tests a derived name passes.
\<close>

section \<open>Arguments and names\<close>

definition SATDEPLOY_VALUE_OPTS :: "string list" where
  "SATDEPLOY_VALUE_OPTS = [''-f'', ''--local'', ''--file'', ''-r'', ''--remote'', ''-n'', ''--node'', ''-m'', ''--mtu'',
     ''-l'', ''--lines'', ''-H'', ''--hash'']"

definition is_option :: "string \<Rightarrow> bool" where
  "is_option a \<longleftrightarrow> a \<noteq> [] \<and> hd a = CHR ''-''"

text \<open>The scan over \<open>argv\<close>: the options written to \<open>out\<close> so far and the positionals set aside.\<close>

fun reorder_loop :: "nat \<Rightarrow> string list \<Rightarrow> string list \<Rightarrow> string list \<Rightarrow> string list \<times> string list" where
  "reorder_loop mx [] out positional = (out, positional)"
| "reorder_loop mx (a # as) out positional =
     (if mx \<le> length out then (out, positional)
      else if is_option a then
        if a \<in> set SATDEPLOY_VALUE_OPTS \<and> as \<noteq> [] \<and> length out + 1 < mx
        then reorder_loop mx (tl as) (out @ [a, hd as]) positional
        else reorder_loop mx as (out @ [a]) positional
      else if length positional < 8 then reorder_loop mx as out (positional @ [a])
      else reorder_loop mx as out positional)"

text \<open>The count returned, and the entries written to \<open>out\<close>.\<close>

definition satdeploy_reorder_argv :: "string list \<Rightarrow> nat \<Rightarrow> nat \<times> string list" where
  "satdeploy_reorder_argv argv mx =
     (case reorder_loop mx argv [] [] of (out, positional) \<Rightarrow>
        (length out + length positional, out @ take (mx - length out) positional))"

definition satdeploy_derive_app_name :: "string \<Rightarrow> nat \<Rightarrow> string" where
  "satdeploy_derive_app_name remote_path sz =
     (let out = cstr sz (after_last CHR ''/'' remote_path);
          dot = length out - length (after_last CHR ''.'' out) - 1;
          out = (if CHR ''.'' \<in> set out \<and> dot \<noteq> 0 then take dot out else out)
      in map (\<lambda>c. if c = CHR ''.'' then CHR ''-'' else c) out)"

section \<open>The station\<close>

datatype slash_rc = SLASH_SUCCESS | SLASH_EUSAGE | SLASH_EINVAL | SLASH_EIO

text \<open>
  What the operator sees: messages of \<open>output_success\<close> and \<open>output_error\<close>, the rows handed to
  \<open>output_status_row\<close> and \<open>output_version_row\<close>, and the log text.
\<close>

datatype console =
    Con_success string
  | Con_error string
  | Con_status string string string string "string option" bool bool
  | Con_version string string bool nat string
  | Con_log string

text \<open>The values of the command-line options; not every command has all of them.\<close>

record slash_opts =
  so_node :: u32
  so_local :: "string option"
  so_remote :: "string option"
  so_hash :: "string option"
  so_force :: bool
  so_mtu :: u32
  so_lines :: u32

definition no_opts :: slash_opts where
  "no_opts = \<lparr>so_node = 0, so_local = None, so_remote = None, so_hash = None, so_force = False, so_mtu = 0, so_lines = 100\<rparr>"

text \<open>
  The station: its operating system, the state of the other end of the network, the database, the
  server session that is running, the console, and what the history code wrote to standard error. What is outside the ground's code: the option parser (given the command and the initial values, it
  gives the index of the first positional), the selected node, \<open>HOME\<close>, the address of the default
  interface, a request-reply exchange with a node (its answer may depend on the server that is running;
  \<open>None\<close> for an error or a timeout), the protobuf library, memory and threads of the server, and
  \<open>SQLite\<close>.
\<close>

record ('e, 'd) station_env =
  gd_optparse :: "string \<Rightarrow> slash_opts \<Rightarrow> string list \<Rightarrow> (nat \<times> slash_opts) option"
  gd_dfl_node :: u32
  gd_home :: "string option"
  gd_iface :: "u16 option"
  gd_transact :: "svu_serve_session_t option \<Rightarrow> u32 \<Rightarrow> u32 \<Rightarrow> bytes \<Rightarrow> 'e \<Rightarrow> bytes option \<times> 'e"
  gd_pack :: "deploy_request \<Rightarrow> bytes"
  gd_unpack :: "bytes \<Rightarrow> deploy_response option"
  gd_oom :: bool
  gd_thread :: bool
  gd_sqlite :: "'d sqlite"

record ('e, 'd) station =
  gs_os :: os
  gs_env :: 'e
  gs_db :: 'd
  gs_server :: "svu_serve_session_t option"
  gs_out :: "console list"
  gs_err :: "string list"

definition say :: "console \<Rightarrow> ('e, 'd) station \<Rightarrow> ('e, 'd) station" where
  "say c g = g\<lparr>gs_out := gs_out g @ [c]\<rparr>"

definition record_history :: "('e, 'd) station_env \<Rightarrow> satdeploy_history_write_t \<Rightarrow> ('e, 'd) station \<Rightarrow> ('e, 'd) station" where
  "record_history gd w g =
     (case satdeploy_history_record (gd_sqlite gd) (gd_home gd) (Some w) (gs_os g) (gs_db g) of
        (_, err, s, d) \<Rightarrow> g\<lparr>gs_os := s, gs_db := d, gs_err := gs_err g @ err\<rparr>)"

section \<open>Files and requests\<close>

definition get_file_size :: "string \<Rightarrow> os \<Rightarrow> u32 option \<times> os" where
  "get_file_size path s =
     (case stat path s of
        (No_entry, s) \<Rightarrow> (None, s)
      | (r, s) \<Rightarrow> (Some (of_nat (size_of r)), s))"

function apm_checksum_loop :: "bytes \<Rightarrow> apm_sha256_ctx \<Rightarrow> os \<Rightarrow> apm_sha256_ctx \<times> os" where
  "apm_checksum_loop r ctx s =
     (case fread 4096 r s of (b, r', _, s) \<Rightarrow>
        if b = [] then (ctx, s) else apm_checksum_loop r' (apm_sha256_update ctx b) s)"
  by pat_completeness auto
termination apm_checksum_loop
  by (relation "measure (\<lambda>(r, ctx, s). length r)") (auto dest!: fread_split [OF sym])

declare apm_checksum_loop.simps [simp del]

definition apm_stack :: apm_sha256_ctx where
  "apm_stack = \<lparr>apm_state = replicate 8 0, apm_count = 0, apm_buf = replicate 64 0\<rparr>"

definition compute_checksum :: "string \<Rightarrow> nat \<Rightarrow> os \<Rightarrow> string option \<times> os" where
  "compute_checksum path hash_size s =
     (if hash_size < HISTORY_MAX_HASH then (None, s)
      else case fopen_r path s of
        (None, s) \<Rightarrow> (None, s)
      | (Some d, s) \<Rightarrow>
          (case apm_checksum_loop d (apm_sha256_init apm_stack) s of
             (ctx, s) \<Rightarrow> (Some (hex_string (apm_sha256_final ctx)), s)))"

definition DEFAULT_TIMEOUT :: u32 where "DEFAULT_TIMEOUT = 360000"
definition PROBE_TIMEOUT :: u32 where "PROBE_TIMEOUT = 15000"
definition APM_MTU :: u32 where "APM_MTU = 1024"
definition APM_THROUGHPUT :: u32 where "APM_THROUGHPUT = 3000000"
definition APM_TIMEOUT_S :: u32 where "APM_TIMEOUT_S = 300"
definition APM_MAX_PATH_LEN :: nat where "APM_MAX_PATH_LEN = 256"

text \<open>
  One exchange: the reply, \<open>None\<close> for the result -1; on the left, a reply longer than the
  4096 bytes of \<open>resp_buf\<close>, whose length is not passed on.
\<close>

definition send_deploy_request_timeout ::
  "('e, 'd) station_env \<Rightarrow> u32 \<Rightarrow> deploy_request \<Rightarrow> u32 \<Rightarrow> ('e, 'd) station \<Rightarrow>
     (stop + deploy_response option) \<times> ('e, 'd) station" where
  "send_deploy_request_timeout gd node req timeout_ms g =
     (case malloc (gs_os g) of (ok, s) \<Rightarrow>
        let g = g\<lparr>gs_os := s\<rparr>
        in if \<not> ok then (Inr None, g)
           else (case gd_transact gd (gs_server g) node timeout_ms (gd_pack gd req) (gs_env g) of (reply, e) \<Rightarrow>
             let g = g\<lparr>gs_env := e\<rparr>
             in (case reply of
                   None \<Rightarrow> (Inr None, g)
                 | Some b \<Rightarrow> if b = [] then (Inr None, g) else if 4096 < length b then (Inl Overrun, g) else (Inr (gd_unpack gd b), g))))"

definition send_deploy_request ::
  "('e, 'd) station_env \<Rightarrow> u32 \<Rightarrow> deploy_request \<Rightarrow> ('e, 'd) station \<Rightarrow> (stop + deploy_response option) \<times> ('e, 'd) station" where
  "send_deploy_request gd node req = send_deploy_request_timeout gd node req PROBE_TIMEOUT"

section \<open>Uploading a file\<close>

definition expand_tilde :: "string option \<Rightarrow> string \<Rightarrow> string" where
  "expand_tilde home p =
     (if p \<noteq> [] \<and> hd p = CHR ''~'' \<and> (tl p = [] \<or> hd (tl p) = CHR ''/'')
      then (case home of Some h \<Rightarrow> cstr APM_MAX_PATH_LEN (h @ tl p) | None \<Rightarrow> p) else p)"

definition history_entry :: "string \<Rightarrow> string \<Rightarrow> string \<Rightarrow> string \<Rightarrow> int \<Rightarrow> string option \<Rightarrow> string option \<Rightarrow> satdeploy_history_write_t" where
  "history_entry app hash remote action ok backup err =
     \<lparr>hw_module = Some ''default'', hw_app = Some app, hw_file_hash = Some hash, hw_remote_path = Some remote, hw_action = Some action,
      hw_success = ok, hw_git_hash = None, hw_backup_path = backup, hw_error_message = err, hw_transport = Some ''csp''\<rparr>"

text \<open>The duplicate check: the first application of that name the agent reports has this hash.\<close>

definition already_deployed :: "deploy_response \<Rightarrow> string \<Rightarrow> string \<Rightarrow> bool" where
  "already_deployed resp app checksum \<longleftrightarrow> rs_success resp \<and>
     (case find (\<lambda>a. st_app_name a = app) (rs_apps resp) of None \<Rightarrow> False | Some a \<Rightarrow> st_file_hash a = checksum)"

definition push_request :: "string \<Rightarrow> string \<Rightarrow> u32 \<Rightarrow> string \<Rightarrow> u16 option \<Rightarrow> u32 \<Rightarrow> stat_result \<Rightarrow> deploy_request" where
  "push_request app remote file_size checksum iface mtu st =
     req_init\<lparr>dr_command := CMD_DEPLOY, dr_app_name := Some app, dr_remote_path := Some remote, dr_expected_size := file_size,
       dr_expected_checksum := Some checksum, dr_dtp_server_node := (case iface of Some a \<Rightarrow> ucast a | None \<Rightarrow> 0),
       dr_dtp_server_port := 7, dr_payload_id := 0, dr_dtp_mtu := mtu, dr_dtp_throughput := APM_THROUGHPUT,
       dr_dtp_timeout := APM_TIMEOUT_S,
       dr_file_mode := (case st of Is_reg f \<Rightarrow> of_nat (f_mode f mod 512) | _ \<Rightarrow> 0)\<rparr>"

definition zero_session :: svu_serve_session_t where
  "zero_session = \<lparr>ss_src = None, ss_total = 0, ss_block_size = 0, ss_stop = False, ss_active = False\<rparr>"

text \<open>Serving the file while the agent pulls it, then the outcome on the console and in the history.\<close>

definition deploy_transfer ::
  "('e, 'd) station_env \<Rightarrow> u32 \<Rightarrow> string \<Rightarrow> string \<Rightarrow> string \<Rightarrow> u32 \<Rightarrow> string \<Rightarrow> u32 \<Rightarrow> ('e, 'd) station \<Rightarrow>
     (stop + slash_rc) \<times> ('e, 'd) station" where
  "deploy_transfer gd node app local_path remote_path file_size checksum mtu g =
     (case svu_serve_session_start (gd_oom gd) (gd_thread gd) (Some local_path) SVU_SERVE_DEFAULT_BLOCK (Some zero_session) (gs_os g) of
        (rc, server, s) \<Rightarrow>
          let g = g\<lparr>gs_os := s, gs_server := server\<rparr>
          in if rc \<noteq> 0 then (Inr SLASH_EIO, g)
             else (case stat local_path s of (st, s) \<Rightarrow>
               let g = g\<lparr>gs_os := s\<rparr>;
                   req = push_request app remote_path file_size checksum (gd_iface gd) mtu st
               in (case send_deploy_request_timeout gd node req DEFAULT_TIMEOUT g of
                     (Inl x, g) \<Rightarrow> (Inl x, g)
                   | (Inr reply, g) \<Rightarrow>
                       let g = g\<lparr>gs_server := svu_serve_session_stop (gs_server g)\<rparr>
                       in (case reply of
                             None \<Rightarrow> (Inr SLASH_EIO, record_history gd (history_entry app checksum remote_path ''upload'' 0 None
                                      (Some ''No response from agent (timeout)'')) g)
                           | Some resp \<Rightarrow>
                               if \<not> rs_success resp then
                                 (Inr SLASH_EIO, record_history gd (history_entry app checksum remote_path ''upload'' 0 None
                                      (Some (rs_error_message resp))) (say (Con_error (rs_error_message resp)) g))
                               else
                                 (Inr SLASH_SUCCESS, record_history gd (history_entry app checksum remote_path ''upload'' 1
                                      (Some (rs_backup_path resp)) None)
                                    (say (Con_success (cstr 256 (''Deployed '' @ app @ '' ('' @ take 8 checksum @ '') over SVU''))) g))))))"

definition deploy_single_app ::
  "('e, 'd) station_env \<Rightarrow> u32 \<Rightarrow> string \<Rightarrow> string option \<Rightarrow> string option \<Rightarrow> bool \<Rightarrow> u32 \<Rightarrow> ('e, 'd) station \<Rightarrow>
     (stop + slash_rc) \<times> ('e, 'd) station" where
  "deploy_single_app gd node app local_override remote_override force mtu g =
     (case local_override of
        None \<Rightarrow> (Inr SLASH_EUSAGE, g)
      | Some local_override \<Rightarrow>
        let local_path = expand_tilde (gd_home gd) local_override
        in (case remote_override of
              None \<Rightarrow> (Inr SLASH_EUSAGE, g)
            | Some remote_path \<Rightarrow>
              (case get_file_size local_path (gs_os g) of
                 (None, s) \<Rightarrow> (Inr SLASH_EIO, g\<lparr>gs_os := s\<rparr>)
               | (Some file_size, s) \<Rightarrow>
                 (case compute_checksum local_path HISTORY_MAX_HASH s of
                    (None, s) \<Rightarrow> (Inr SLASH_EIO, g\<lparr>gs_os := s\<rparr>)
                  | (Some checksum, s) \<Rightarrow>
                    let g = g\<lparr>gs_os := s\<rparr>
                    in if force then deploy_transfer gd node app local_path remote_path file_size checksum mtu g
                       else (case send_deploy_request gd node (req_init\<lparr>dr_command := CMD_STATUS\<rparr>) g of
                               (Inl x, g) \<Rightarrow> (Inl x, g)
                             | (Inr None, g) \<Rightarrow> (Inr SLASH_EIO, g)
                             | (Inr (Some resp), g) \<Rightarrow>
                                 if already_deployed resp app checksum then (Inr SLASH_SUCCESS, g)
                                 else deploy_transfer gd node app local_path remote_path file_size checksum mtu g)))))"

section \<open>Commands\<close>

text \<open>
  The arguments after the command's name, reordered and parsed: on the left, a count larger than the
  array the parser then reads; \<open>None\<close> when the parser refuses.
\<close>

definition parse_args ::
  "('e, 'd) station_env \<Rightarrow> string \<Rightarrow> string list \<Rightarrow> stop + (string list \<times> slash_opts) option" where
  "parse_args gd cmd argv =
     (case satdeploy_reorder_argv argv 32 of (cnt, reordered) \<Rightarrow>
        if 32 < cnt then Inl Overrun
        else Inr (map_option (\<lambda>(argi, opts). (drop argi reordered, opts)) (gd_optparse gd cmd no_opts reordered)))"

definition take_positional :: "string \<Rightarrow> string option \<times> string option \<Rightarrow> string option \<times> string option" where
  "take_positional a = (\<lambda>(l, r). if l = None then (Some a, r) else if r = None then (l, Some a) else (l, r))"

definition target_node :: "('e, 'd) station_env \<Rightarrow> slash_opts \<Rightarrow> u32" where
  "target_node gd opts = (if so_node opts = 0 then gd_dfl_node gd else so_node opts)"

definition satdeploy_deploy_cmd ::
  "('e, 'd) station_env \<Rightarrow> string list \<Rightarrow> ('e, 'd) station \<Rightarrow> (stop + slash_rc) \<times> ('e, 'd) station" where
  "satdeploy_deploy_cmd gd argv g =
     (case parse_args gd ''satdeploy push'' argv of
        Inl x \<Rightarrow> (Inl x, g)
      | Inr None \<Rightarrow> (Inr SLASH_EINVAL, g)
      | Inr (Some (positionals, opts)) \<Rightarrow>
          if so_mtu opts \<noteq> 0 \<and> (so_mtu opts < 64 \<or> so_mtu opts > APM_MTU) then (Inr SLASH_EUSAGE, g)
          else let mtu = (if so_mtu opts = 0 then APM_MTU else so_mtu opts)
          in (case fold take_positional positionals (so_local opts, so_remote opts) of
                (Some l, Some r) \<Rightarrow>
                  deploy_single_app gd (target_node gd opts) (satdeploy_derive_app_name r 128) (Some l) (Some r) (so_force opts) mtu g
              | _ \<Rightarrow> (Inr SLASH_EUSAGE, g)))"

text \<open>The hash in the name of the restored backup, empty when there is none.\<close>

definition restored_hash_of :: "string \<Rightarrow> string" where
  "restored_hash_of backup_path =
     (let filename = after_last CHR ''/'' backup_path
      in if 4 < length filename \<and> ends_with ''.bak'' filename \<and> CHR ''-'' \<in> set filename
         then let rest = after_last CHR ''-'' filename; h = take (length rest - 4) rest
              in if 0 < length h \<and> length h < HISTORY_MAX_HASH then h else []
         else [])"

text \<open>The remote path a command works on: the first positional, else the option.\<close>

definition target_path :: "string list \<Rightarrow> string option \<Rightarrow> string option" where
  "target_path positionals opt = (case positionals of p # _ \<Rightarrow> Some p | [] \<Rightarrow> opt)"

definition rollback_message :: "string \<Rightarrow> string \<Rightarrow> string" where
  "rollback_message app h = cstr 256 (''Rolled back '' @ app @ (if h \<noteq> [] then '' to '' @ take 8 h else []))"

definition satdeploy_rollback_cmd ::
  "('e, 'd) station_env \<Rightarrow> string list \<Rightarrow> ('e, 'd) station \<Rightarrow> (stop + slash_rc) \<times> ('e, 'd) station" where
  "satdeploy_rollback_cmd gd argv g =
     (case parse_args gd ''satdeploy rollback'' argv of
        Inl x \<Rightarrow> (Inl x, g)
      | Inr None \<Rightarrow> (Inr SLASH_EINVAL, g)
      | Inr (Some (positionals, opts)) \<Rightarrow>
          (case target_path positionals (so_remote opts) of
             None \<Rightarrow> (Inr SLASH_EUSAGE, g)
           | Some remote_path \<Rightarrow>
               let app = satdeploy_derive_app_name remote_path 128
               in if remote_path = [] then
                    (Inr SLASH_EINVAL, say (Con_error (cstr 256 (''Empty remote path for '' @ [CHR 0x27] @ app @ [CHR 0x27]))) g)
                  else let req = req_init\<lparr>dr_command := CMD_ROLLBACK, dr_app_name := Some app, dr_remote_path := Some remote_path,
                                   dr_rollback_hash := Some (case so_hash opts of Some h \<Rightarrow> h | None \<Rightarrow> [])\<rparr>
                  in (case send_deploy_request gd (target_node gd opts) req g of
                        (Inl x, g) \<Rightarrow> (Inl x, g)
                      | (Inr None, g) \<Rightarrow> (Inr SLASH_EIO, record_history gd (history_entry app [] remote_path ''rollback'' 0 None
                                            (Some ''No response from agent (timeout)'')) g)
                      | (Inr (Some resp), g) \<Rightarrow>
                          if \<not> rs_success resp then
                            (Inr SLASH_EIO, record_history gd (history_entry app [] remote_path ''rollback'' 0 None
                               (Some (rs_error_message resp))) (say (Con_error (rs_error_message resp)) g))
                          else let h = restored_hash_of (rs_backup_path resp)
                          in (Inr SLASH_SUCCESS, record_history gd (history_entry app h remote_path ''rollback'' 1
                                (Some (rs_backup_path resp)) None) (say (Con_success (rollback_message app h)) g)))))"

definition version_row :: "string option \<Rightarrow> backup_entry \<Rightarrow> console" where
  "version_row deploy_path b =
     (let is_deployed = (be_version b = ''current'');
          row_path = (case deploy_path of Some p \<Rightarrow> if is_deployed \<and> p \<noteq> [] then p else be_path b | None \<Rightarrow> be_path b)
      in Con_version (be_hash b) (be_timestamp b) is_deployed (be_size_bytes b) row_path)"

definition satdeploy_list_cmd ::
  "('e, 'd) station_env \<Rightarrow> string list \<Rightarrow> ('e, 'd) station \<Rightarrow> (stop + slash_rc) \<times> ('e, 'd) station" where
  "satdeploy_list_cmd gd argv g =
     (case parse_args gd ''satdeploy list'' argv of
        Inl x \<Rightarrow> (Inl x, g)
      | Inr None \<Rightarrow> (Inr SLASH_EINVAL, g)
      | Inr (Some (positionals, opts)) \<Rightarrow>
          (case target_path positionals (so_remote opts) of
             None \<Rightarrow> (Inr SLASH_EUSAGE, g)
           | Some p \<Rightarrow>
               let app = satdeploy_derive_app_name p 128;
                   req = req_init\<lparr>dr_command := CMD_LIST_VERSIONS, dr_app_name := Some app\<rparr>
               in (case send_deploy_request gd (target_node gd opts) req g of
                     (Inl x, g) \<Rightarrow> (Inl x, g)
                   | (Inr None, g) \<Rightarrow> (Inr SLASH_EIO, g)
                   | (Inr (Some resp), g) \<Rightarrow>
                       if \<not> rs_success resp then (Inr SLASH_EIO, say (Con_error (rs_error_message resp)) g)
                       else (Inr SLASH_SUCCESS, fold (\<lambda>b. say (version_row (so_remote opts) b)) (rs_backups resp) g))))"

definition satdeploy_logs_cmd ::
  "('e, 'd) station_env \<Rightarrow> string list \<Rightarrow> ('e, 'd) station \<Rightarrow> (stop + slash_rc) \<times> ('e, 'd) station" where
  "satdeploy_logs_cmd gd argv g =
     (case parse_args gd ''satdeploy logs'' argv of
        Inl x \<Rightarrow> (Inl x, g)
      | Inr None \<Rightarrow> (Inr SLASH_EINVAL, g)
      | Inr (Some (positionals, opts)) \<Rightarrow>
          (case target_path positionals None of
             None \<Rightarrow> (Inr SLASH_EUSAGE, g)
           | Some p \<Rightarrow>
               let app = satdeploy_derive_app_name p 128;
                   req = req_init\<lparr>dr_command := CMD_LOGS, dr_app_name := Some app, dr_log_lines := so_lines opts\<rparr>
               in (case send_deploy_request gd (target_node gd opts) req g of
                     (Inl x, g) \<Rightarrow> (Inl x, g)
                   | (Inr None, g) \<Rightarrow> (Inr SLASH_EIO, g)
                   | (Inr (Some resp), g) \<Rightarrow>
                       if \<not> rs_success resp then (Inr SLASH_EIO, say (Con_log (''Logs failed: '' @ rs_error_message resp)) g)
                       else (Inr SLASH_SUCCESS, say (Con_log (if rs_log_output resp \<noteq> [] then rs_log_output resp
                                                               else ''No logs available for '' @ app)) g))))"

definition status_row :: "('e, 'd) station_env \<Rightarrow> app_status_entry \<Rightarrow> ('e, 'd) station \<Rightarrow> ('e, 'd) station" where
  "status_row gd a g =
     (case satdeploy_history_get_last (gd_sqlite gd) (gd_home gd) (st_app_name a) (gs_db g) of
        (r, rcd, d) \<Rightarrow>
          let provenance = (if r = 0 \<and> hr_valid rcd \<and> hr_git_hash rcd \<noteq> [] then Some (hr_git_hash rcd) else None)
          in say (Con_status (st_app_name a) (if st_running a then ''running'' else ''deployed'') (st_file_hash a) (st_remote_path a)
                    provenance (st_running a) (st_running a)) (g\<lparr>gs_db := d\<rparr>))"

definition satdeploy_status_cmd ::
  "('e, 'd) station_env \<Rightarrow> string list \<Rightarrow> ('e, 'd) station \<Rightarrow> (stop + slash_rc) \<times> ('e, 'd) station" where
  "satdeploy_status_cmd gd argv g =
     (case parse_args gd ''satdeploy status'' argv of
        Inl x \<Rightarrow> (Inl x, g)
      | Inr None \<Rightarrow> (Inr SLASH_EINVAL, g)
      | Inr (Some (_, opts)) \<Rightarrow>
          (case send_deploy_request gd (target_node gd opts) (req_init\<lparr>dr_command := CMD_STATUS\<rparr>) g of
             (Inl x, g) \<Rightarrow> (Inl x, g)
           | (Inr None, g) \<Rightarrow> (Inr SLASH_EIO, g)
           | (Inr (Some resp), g) \<Rightarrow>
               if \<not> rs_success resp then (Inr SLASH_EIO, say (Con_error (rs_error_message resp)) g)
               else (Inr SLASH_SUCCESS, fold (status_row gd) (rs_apps resp) g)))"

section \<open>Arguments and names: lemmas\<close>

text \<open>The arguments split without the limits of the arrays: options with their values, and positionals.\<close>

fun split_args :: "string list \<Rightarrow> string list \<times> string list" where
  "split_args [] = ([], [])"
| "split_args (a # as) =
     (if is_option a then
        if a \<in> set SATDEPLOY_VALUE_OPTS \<and> as \<noteq> []
        then (case split_args (tl as) of (os, ps) \<Rightarrow> (a # hd as # os, ps))
        else (case split_args as of (os, ps) \<Rightarrow> (a # os, ps))
      else (case split_args as of (os, ps) \<Rightarrow> (os, a # ps)))"

lemma split_perm: "split_args as = (os, ps) \<Longrightarrow> mset as = mset os + mset ps"
proof (induction as arbitrary: os ps rule: split_args.induct)
  case (2 a as)
  consider (v) "is_option a" "a \<in> set SATDEPLOY_VALUE_OPTS \<and> as \<noteq> []" | (o) "is_option a" "\<not> (a \<in> set SATDEPLOY_VALUE_OPTS \<and> as \<noteq> [])"
    | (p) "\<not> is_option a" by blast
  then show ?case
  proof cases
    case v
    obtain o1 p1 where s: "split_args (tl as) = (o1, p1)" by force
    have "mset as = {#hd as#} + mset (tl as)" using v by (cases as) auto
    then show ?thesis using "2.prems" v s "2.IH"(1) [OF v s] by auto
  next
    case o
    obtain o1 p1 where s: "split_args as = (o1, p1)" by force
    then show ?thesis using "2.prems" o "2.IH"(2) [OF o s] by auto
  next
    case p
    obtain o1 p1 where s: "split_args as = (o1, p1)" by force
    then show ?thesis using "2.prems" p "2.IH"(3) [OF p s] by auto
  qed
qed simp

lemma split_positionals: "split_args as = (os, ps) \<Longrightarrow> a \<in> set ps \<Longrightarrow> \<not> is_option a"
  by (induction as arbitrary: os ps rule: split_args.induct) (auto split: if_splits prod.splits)

lemma split_only_positionals: "(\<And>a. a \<in> set ps \<Longrightarrow> \<not> is_option a) \<Longrightarrow> split_args ps = ([], ps)"
  by (induction ps) auto

text \<open>Options already in front are found again, unless the last argument is an option without its value.\<close>

lemma split_append:
  assumes "split_args as = (os, ps)" "as \<noteq> [] \<Longrightarrow> last as \<notin> set SATDEPLOY_VALUE_OPTS"
  shows "split_args (os @ q) = (os @ fst (split_args q), snd (split_args q))"
  using assms
proof (induction as arbitrary: os ps rule: split_args.induct)
  case (2 a as)
  consider (v) "is_option a" "a \<in> set SATDEPLOY_VALUE_OPTS \<and> as \<noteq> []" | (o) "is_option a" "\<not> (a \<in> set SATDEPLOY_VALUE_OPTS \<and> as \<noteq> [])"
    | (p) "\<not> is_option a" by blast
  then show ?case
  proof cases
    case v
    obtain o1 p1 where s: "split_args (tl as) = (o1, p1)" by force
    have "tl as \<noteq> [] \<Longrightarrow> last (tl as) \<notin> set SATDEPLOY_VALUE_OPTS" using "2.prems"(2) by (cases as) auto
    from "2.IH"(1) [OF v s this] show ?thesis using "2.prems"(1) v s by auto
  next
    case o
    obtain o1 p1 where s: "split_args as = (o1, p1)" by force
    have "as \<noteq> [] \<Longrightarrow> last as \<notin> set SATDEPLOY_VALUE_OPTS" using "2.prems"(2) by auto
    from "2.IH"(2) [OF o s this] have "split_args (o1 @ q) = (o1 @ fst (split_args q), snd (split_args q))" .
    moreover have "a \<notin> set SATDEPLOY_VALUE_OPTS" using o(2) "2.prems"(2) by (cases "as = []") auto
    ultimately show ?thesis using "2.prems"(1) o s by auto
  next
    case p
    obtain o1 p1 where s: "split_args as = (o1, p1)" by force
    have "as \<noteq> [] \<Longrightarrow> last as \<notin> set SATDEPLOY_VALUE_OPTS" using "2.prems"(2) by auto
    from "2.IH"(3) [OF p s this] show ?thesis using "2.prems"(1) p s by auto
  qed
qed simp

lemma split_again:
  assumes "split_args as = (os, ps)" "as \<noteq> [] \<Longrightarrow> last as \<notin> set SATDEPLOY_VALUE_OPTS"
  shows "split_args (os @ ps) = (os, ps)"
  using split_append [OF assms, of ps] split_only_positionals [of ps] split_positionals [OF assms(1)] by auto

lemma split_length: "split_args as = (os, ps) \<Longrightarrow> length os + length ps = length as"
  using arg_cong [OF split_perm, of as os ps size] by simp

text \<open>Within the limits the scan of the code computes the split.\<close>

lemma reorder_loop_split:
  assumes "split_args as = (os, ps)" "length out + length os \<le> mx" "length pos + length ps \<le> 8"
    "length out + length as \<le> mx"
  shows "reorder_loop mx as out pos = (out @ os, pos @ ps)"
  using assms
proof (induction as arbitrary: out pos os ps rule: split_args.induct)
  case (2 a as)
  consider (v) "is_option a" "a \<in> set SATDEPLOY_VALUE_OPTS \<and> as \<noteq> []" | (o) "is_option a" "\<not> (a \<in> set SATDEPLOY_VALUE_OPTS \<and> as \<noteq> [])"
    | (p) "\<not> is_option a" by blast
  then show ?case
  proof cases
    case v
    obtain o1 p1 where s: "split_args (tl as) = (o1, p1)" by force
    have e: "os = a # hd as # o1" "ps = p1" using "2.prems"(1) v s by auto
    have "reorder_loop mx (tl as) (out @ [a, hd as]) pos = ((out @ [a, hd as]) @ o1, pos @ p1)"
      using "2.prems" e v by (intro "2.IH"(1) [OF v s]) (cases as; simp)+
    then show ?thesis using "2.prems" e v by simp
  next
    case o
    obtain o1 p1 where s: "split_args as = (o1, p1)" by force
    have e: "os = a # o1" "ps = p1" using "2.prems"(1) o s by auto
    have "reorder_loop mx as (out @ [a]) pos = ((out @ [a]) @ o1, pos @ p1)"
      using "2.prems" e by (intro "2.IH"(2) [OF o s]) simp_all
    then show ?thesis using "2.prems" e o by auto
  next
    case p
    obtain o1 p1 where s: "split_args as = (o1, p1)" by force
    have e: "os = o1" "ps = a # p1" using "2.prems"(1) p s by auto
    have "reorder_loop mx as out (pos @ [a]) = (out @ o1, (pos @ [a]) @ p1)"
      using "2.prems" e by (intro "2.IH"(3) [OF p s]) simp_all
    then show ?thesis using "2.prems" e p by simp
  qed
qed simp

lemma reorder_split:
  assumes "split_args argv = (os, ps)" "length argv \<le> mx" "length ps \<le> 8"
  shows "satdeploy_reorder_argv argv mx = (length argv, os @ ps)"
  using reorder_loop_split [OF assms(1), of "[]" mx "[]"] assms(2,3) split_length [OF assms(1)]
  by (simp add: satdeploy_reorder_argv_def)

text \<open>More options than the array holds: the count returned is larger than what was written.\<close>

lemma reorder_fills: "length out + n = mx \<Longrightarrow> reorder_loop mx (replicate n ''-F'' @ rest) out pos = (out @ replicate n ''-F'', pos)"
proof (induction n arbitrary: out)
  case 0
  then show ?case by (cases rest) simp_all
next
  case (Suc n)
  from Suc.IH [of "out @ [''-F'']"] Suc.prems show ?case by (simp add: is_option_def SATDEPLOY_VALUE_OPTS_def)
qed

lemma reorder_count_overruns: "satdeploy_reorder_argv (''x'' # replicate 32 ''-F'') 32 = (33, replicate 32 ''-F'')"
proof -
  have "reorder_loop 32 (replicate 32 ''-F'' @ []) [] [''x''] = ([] @ replicate 32 ''-F'', [''x''])" by (rule reorder_fills) simp
  then show ?thesis unfolding satdeploy_reorder_argv_def by (simp add: is_option_def)
qed

section \<open>Derived names\<close>

lemma derived_chars:
  assumes "c \<in> set (satdeploy_derive_app_name p n)"
  shows "c \<noteq> CHR ''.'' \<and> c \<noteq> CHR ''/'' \<and> (c = CHR ''-'' \<or> c \<in> set p)"
proof -
  have in_cstr: "x \<in> set p \<and> x \<noteq> CHR ''/''" if "x \<in> set (cstr n (after_last CHR ''/'' p))" for x
    using that after_last_no [of "CHR ''/''" p] by (auto simp: cstr_def after_last_def dest!: in_set_takeD set_takeWhileD)
  have take_cstr: "x \<in> set (take k (cstr n q)) \<Longrightarrow> x \<in> set (cstr n q)" for x k q by (rule in_set_takeD)
  show ?thesis using assms in_cstr take_cstr
    by (auto simp: satdeploy_derive_app_name_def Let_def split: if_splits)
qed

lemma derived_logs_chars:
  assumes "list_all logs_char_ok (after_last CHR ''/'' p)"
  shows "list_all logs_char_ok (satdeploy_derive_app_name p n)"
proof -
  have dash: "logs_char_ok CHR ''-''" by (simp add: logs_char_ok_def)
  have "logs_char_ok x" if "x \<in> set (take k (cstr n (after_last CHR ''/'' p))) \<or> x \<in> set (cstr n (after_last CHR ''/'' p))" for x k
    using that assms by (auto simp: list_all_iff cstr_def dest!: in_set_takeD set_takeWhileD)
  then show ?thesis using dash by (auto simp: satdeploy_derive_app_name_def Let_def list_all_iff)
qed

lemma derived_length: "0 < n \<Longrightarrow> length (satdeploy_derive_app_name p n) < n"
  using length_cstr [of n "after_last CHR ''/'' p"] by (auto simp: satdeploy_derive_app_name_def Let_def)

text \<open>
  A command line in groups: an option with the value behind it, an option alone, or a positional. The
  options and the positionals of a command line are those groups in their order.
\<close>

fun arg_groups :: "string list \<Rightarrow> string list list" where
  "arg_groups [] = []"
| "arg_groups (a # as) = (if a \<in> set SATDEPLOY_VALUE_OPTS \<and> as \<noteq> [] then [a, hd as] # arg_groups (tl as) else [a] # arg_groups as)"

definition options_of :: "string list \<Rightarrow> string list" where
  "options_of argv = concat (filter (\<lambda>g. is_option (hd g)) (arg_groups argv))"

definition positionals_of :: "string list \<Rightarrow> string list" where
  "positionals_of argv = concat (filter (\<lambda>g. \<not> is_option (hd g)) (arg_groups argv))"

lemma value_opts_options: "a \<in> set SATDEPLOY_VALUE_OPTS \<Longrightarrow> is_option a"
  by (auto simp: SATDEPLOY_VALUE_OPTS_def is_option_def)

lemma split_groups: "split_args as = (options_of as, positionals_of as)"
  by (induction as rule: arg_groups.induct) (auto simp: options_of_def positionals_of_def dest: value_opts_options)

lemma concat_groups: "concat (arg_groups as) = as"
  by (induction as rule: arg_groups.induct) auto

lemma group_cases:
  assumes "g \<in> set (arg_groups as)"
  shows "(\<exists>a v. g = [a, v] \<and> a \<in> set SATDEPLOY_VALUE_OPTS) \<or> (\<exists>a. g = [a] \<and> (a \<in> set SATDEPLOY_VALUE_OPTS \<longrightarrow> a = last as))"
  using assms
proof (induction as rule: arg_groups.induct)
  case (2 a as)
  show ?case
  proof (cases "a \<in> set SATDEPLOY_VALUE_OPTS \<and> as \<noteq> []")
    case True
    then obtain v bs where as: "as = v # bs" by (cases as) auto
    show ?thesis
    proof (cases "bs = []")
      case False
      then have "last (a # as) = last (tl as)" by (simp add: as)
      then show ?thesis using 2 True by auto
    qed (use 2 True as in auto)
  next
    case False
    then show ?thesis using 2 by (cases "as = []") auto
  qed
qed simp

lemma no_dots: "CHR ''.'' \<notin> set t \<Longrightarrow> \<not> has_substring ''..'' t"
proof (induction t)
  case (Cons c t)
  then show ?case by (cases t) auto
qed simp

section \<open>Properties\<close>

text \<open>
  C37: Options may stand anywhere on the command line. A command line is read in groups: an option that
  takes a value with that value, any other option, or a positional; an option that takes a value is alone
  only as the last argument. When the arguments fit the array and there are at most eight positionals,
  \<open>satdeploy_reorder_argv\<close> gives exactly the option groups in their order and then the positionals in
  theirs, so that a parser that stops at the first positional sees every option with its value; doing it
  again changes nothing, unless an option at the end lacks its value.
\<close>

theorem reorder_argv_options_first:
  assumes "length argv \<le> mx" "length (positionals_of argv) \<le> 8"
  shows "satdeploy_reorder_argv argv mx = (length argv, options_of argv @ positionals_of argv) \<and> concat (arg_groups argv) = argv \<and>
    (\<forall>g \<in> set (arg_groups argv). (\<exists>a v. g = [a, v] \<and> a \<in> set SATDEPLOY_VALUE_OPTS) \<or>
       (\<exists>a. g = [a] \<and> (a \<in> set SATDEPLOY_VALUE_OPTS \<longrightarrow> a = last argv))) \<and>
    (last (''x'' # argv) \<notin> set SATDEPLOY_VALUE_OPTS \<longrightarrow>
       satdeploy_reorder_argv (options_of argv @ positionals_of argv) mx = (length argv, options_of argv @ positionals_of argv))"
proof -
  let ?os = "options_of argv" and ?ps = "positionals_of argv"
  note s = split_groups [of argv]
  have again: "satdeploy_reorder_argv (?os @ ?ps) mx = (length argv, ?os @ ?ps)" if "last (''x'' # argv) \<notin> set SATDEPLOY_VALUE_OPTS"
  proof -
    have "split_args (?os @ ?ps) = (?os, ?ps)" by (rule split_again [OF s]) (use that in auto)
    from reorder_split [OF this _ assms(2), of mx] show ?thesis using assms(1) split_length [OF s] by simp
  qed
  show ?thesis
    using reorder_split [OF s assms] concat_groups [of argv] group_cases [of _ argv] again by (simp del: last.simps)
qed

text \<open>
  C38: Which tests of the agent a derived name passes. For a remote path without backslashes and control
  characters, a derived name that is not empty passes \<open>app_name_is_safe\<close>, so that the agent keeps the
  state of an interrupted transfer in its state directory, in a file of that name; and when the basename
  has only letters, digits, underscores, hyphens and dots, it passes the stricter test of
  \<open>handle_logs\<close> too: the agent runs \<open>journalctl\<close> for it.
\<close>

theorem derived_name_tests:
  assumes "satdeploy_derive_app_name p 128 \<noteq> []" "\<forall>c \<in> set p. c \<noteq> CHR 0x5C \<and> 32 \<le> (of_char c :: nat)"
    "app = satdeploy_derive_app_name p 128"
  shows "app_name_is_safe app \<and> session_state_svu_path app 640 = Some (SESSION_STATE_DIR @ ''/'' @ app @ SESSION_SVU_EXT) \<and>
    (list_all logs_char_ok (after_last CHR ''/'' p) \<longrightarrow> dr_app_name req = Some app \<longrightarrow>
       ev_popen ev (logs_command app (dr_log_lines req)) (ag_env ag) = (Some (out, 0), e) \<longrightarrow>
       handle_logs ev req ag s = (Inr (resp_init\<lparr>rs_success := True, rs_log_output := string_of (takeWhile (\<lambda>x. x \<noteq> 0) (take 8191 out))\<rparr>,
         ag\<lparr>ag_env := e\<rparr>), s))"
proof -
  have "c \<noteq> CHR ''/'' \<and> c \<noteq> CHR 0x5C \<and> \<not> (of_char c :: nat) < 32" if "c \<in> set app" for c
  proof (cases "c \<in> set p")
    case True
    then show ?thesis using derived_chars [of c p 128] that assms(2,3) by (simp add: not_less)
  next
    case False
    then have "c = CHR ''-''" using derived_chars [of c p 128] that assms(3) by blast
    then show ?thesis by simp
  qed
  moreover have "\<not> has_substring ''..'' app" using derived_chars assms(3) by (intro no_dots) blast
  ultimately have safe: "app_name_is_safe app" using assms(1,3) by (auto simp: app_name_is_safe_def)
  moreover have "length app < 128" unfolding assms(3) by (rule derived_length) simp
  moreover have "list_all logs_char_ok app" if "list_all logs_char_ok (after_last CHR ''/'' p)"
    using derived_logs_chars [OF that] assms(3) by simp
  ultimately show ?thesis using assms(1,3)
    by (simp add: session_state_svu_path_def state_path_def SESSION_STATE_DIR_def SESSION_SVU_EXT_def handle_logs_def present_def)
qed

text \<open>
  A space in the basename is kept: the name can be deployed, and its logs are refused.
\<close>

theorem logs_refuse_derived_name:
  assumes "dr_app_name req = Some (satdeploy_derive_app_name ''/opt/a b'' 128)"
  shows "app_name_is_safe (satdeploy_derive_app_name ''/opt/a b'' 128) \<and>
    handle_logs ev req ag s =
      (Inr (resp_fail ERR_APP_NOT_FOUND ''Invalid app_name: only alphanumeric, underscore, hyphen, dot allowed'', ag), s)"
proof -
  have "satdeploy_derive_app_name ''/opt/a b'' 128 = ''a b''" by (simp add: satdeploy_derive_app_name_def after_last_def)
  then show ?thesis using assms by (simp add: handle_logs_def present_def logs_char_ok_def app_name_is_safe_def)
qed

section \<open>Witnesses\<close>

theorem reorder_argv_options_first_witness:
  "satdeploy_reorder_argv [''hello'', ''-n'', ''5425'', ''-F''] 32 = (4, [''-n'', ''5425'', ''-F'', ''hello'']) \<and>
   arg_groups [''hello'', ''-n'', ''5425'', ''-F''] = [[''hello''], [''-n'', ''5425''], [''-F'']]"
proof -
  let ?a = "[''hello'', ''-n'', ''5425'', ''-F'']"
  have g: "arg_groups ?a = [[''hello''], [''-n'', ''5425''], [''-F'']]" by (simp add: SATDEPLOY_VALUE_OPTS_def)
  have o: "options_of ?a = [''-n'', ''5425'', ''-F'']" "positionals_of ?a = [''hello'']"
    unfolding options_of_def positionals_of_def g by (simp_all add: is_option_def)
  note r = reorder_argv_options_first [of ?a 32, unfolded o]
  have "satdeploy_reorder_argv ?a 32 = (length ?a, [''-n'', ''5425'', ''-F''] @ [''hello''])" by (rule r [THEN conjunct1]) simp_all
  then show ?thesis using g by (simp del: arg_groups.simps)
qed

lemma a_name: "satdeploy_derive_app_name ''/opt/foo.bin'' 128 = ''foo''" "satdeploy_derive_app_name ''/opt/foo.conf'' 128 = ''foo''"
  by (simp_all add: satdeploy_derive_app_name_def after_last_def)

theorem derived_name_tests_witness:
  "app_name_is_safe ''foo'' \<and> session_state_svu_path ''foo'' 640 = Some (SESSION_STATE_DIR @ ''/'' @ ''foo'' @ SESSION_SVU_EXT) \<and>
   handle_logs (an_env\<lparr>ev_popen := (\<lambda>_ e. (Some ([65], 0), e))\<rparr>) (req_init\<lparr>dr_app_name := Some ''foo''\<rparr>) an_agent (tmp_os []) =
     (Inr (resp_init\<lparr>rs_success := True, rs_log_output := ''A''\<rparr>, an_agent\<lparr>ag_env := ag_env an_agent\<rparr>), tmp_os [])"
proof -
  let ?ev = "an_env\<lparr>ev_popen := (\<lambda>_ e. (Some ([65], 0), e))\<rparr>" and ?req = "req_init\<lparr>dr_app_name := Some ''foo''\<rparr>"
  have l: "list_all logs_char_ok (after_last CHR ''/'' ''/opt/foo.bin'')" by (simp add: after_last_def logs_char_ok_def)
  have "satdeploy_derive_app_name ''/opt/foo.bin'' 128 \<noteq> []" "\<forall>c \<in> set ''/opt/foo.bin''. c \<noteq> CHR 0x5C \<and> 32 \<le> (of_char c :: nat)"
    unfolding a_name by simp_all
  note t = derived_name_tests [OF this a_name(1) [symmetric], of ?req ?ev an_agent "[65]" "ag_env an_agent" "tmp_os []"]
  have "string_of (takeWhile (\<lambda>x. x \<noteq> 0) (take 8191 [65])) = ''A''" by code_simp
  moreover have "dr_app_name ?req = Some ''foo''" "ev_popen ?ev (logs_command ''foo'' (dr_log_lines ?req)) (ag_env an_agent) = (Some ([65], 0), ag_env an_agent)"
    by simp_all
  ultimately show ?thesis using t l by metis
qed

end
