(* ===== verification/Upload_Safety.thy ===== *)
theory Upload_Safety
  imports Deploy_Transfer
begin

text \<open>
  The direct upload (\<open>handle_upload_start\<close>, \<open>handle_upload_chunk\<close>,
  \<open>handle_upload_end\<close> of \<open>deploy_handler.c\<close>): the upload session as a step relation
  with its invariant, the run of a whole upload, the checksum gate, and the moment in which the
  installation by copy leaves no file at the destination.
\<close>

section \<open>The session as a state machine\<close>

text \<open>One command of the upload protocol, whatever its request and whatever calls fail.\<close>

inductive upload_step :: "'e agent \<times> os \<Rightarrow> 'e agent \<times> os \<Rightarrow> bool" where
  start: "handle_upload_start req ag s = (Inr (resp, ag'), s') \<Longrightarrow> upload_step (ag, s) (ag', s')"
| chunk: "handle_upload_chunk req ag s = (Inr (resp, ag'), s') \<Longrightarrow> upload_step (ag, s) (ag', s')"
| finish: "handle_upload_end req ag s = (Inr (resp, ag'), s') \<Longrightarrow> upload_step (ag, s) (ag', s')"

inductive_cases upload_stepE: "upload_step (ag, s) x"

text \<open>
  An active session has its stream open on a named temporary file that holds exactly the counted
  bytes (modulo the counter's width), and chunk numbers never run ahead of bytes; an inactive one
  has no stream.
\<close>

definition session_ok :: "'e agent \<Rightarrow> os \<Rightarrow> bool" where
  "session_ok ag s \<longleftrightarrow>
     (let u = ag_upload ag
      in if us_active u
         then us_temp_file u \<and> us_temp_path u \<noteq> [] \<and> us_app_name u \<noteq> [] \<and> us_remote_path u \<noteq> [] \<and>
              length (us_expected_checksum u) = HASH_HEX_LEN \<and>
              (\<exists>d. contents s (us_temp_path u) = Some d \<and> us_received_size u = of_nat (length d))
         else \<not> us_temp_file u)"

lemma reset_session: "upload_session_reset ag s = (ag', s') \<Longrightarrow> ag' = ag\<lparr>ag_upload := no_session\<rparr>"
  by (simp add: upload_session_reset_def Let_def)

lemma upload_fail_session: "upload_fail e m ag s = (Inr (resp, ag'), s') \<Longrightarrow>
    resp = resp_fail e m \<and> ag' = ag\<lparr>ag_upload := no_session\<rparr> \<and> s' = snd (upload_session_reset ag s)"
  by (auto simp: upload_fail_def split: prod.splits dest: reset_session)

lemma no_session_ok: "session_ok (ag\<lparr>ag_upload := no_session\<rparr>) s"
  by (simp add: session_ok_def no_session_def)

lemma fopen_w_ok: "fopen_w p s = (True, s') \<Longrightarrow> p \<noteq> [] \<and> contents s' p = Some []"
  by (auto simp: fopen_w_def can_create_def split: prod.splits outcome.splits if_splits)

lemma cstr_length_ne: "cstr n x \<noteq> []" if "x \<noteq> []" "1 < n"
  using that cstr_eq_Nil_iff by blast

lemma start_ok:
  assumes "handle_upload_start req ag s = (Inr (resp, ag'), s')" "session_ok ag s"
  shows "session_ok ag' s'"
proof -
  obtain ag1 s1 where r: "(if us_active (ag_upload ag) then upload_session_reset ag s else (ag, s)) = (ag1, s1)" by force
  have ok1: "session_ok ag1 s1" "\<not> us_active (ag_upload ag1)"
    using r assms(2) by (auto simp: session_ok_def Let_def no_session_def split: if_splits dest!: reset_session)
  let ?u = "(ag_upload ag1)\<lparr>us_active := True, us_app_name := cstr MAX_APP_NAME_LEN (the (dr_app_name req)),
      us_remote_path := cstr MAX_PATH_LEN (the (dr_remote_path req)),
      us_temp_path := cstr MAX_PATH_LEN (''/tmp/satdeploy-'' @ the (dr_app_name req) @ ''.tmp''),
      us_expected_checksum := cstr HASH_BUF_LEN (the (dr_expected_checksum req)),
      us_expected_size := dr_expected_size req, us_total_chunks := dr_total_chunks req,
      us_file_mode := dr_file_mode req, us_received_size := 0, us_next_chunk := 0\<rparr>"
  obtain b s2 where f: "fopen_w (us_temp_path ?u) s1 = (b, s2)" by force
  consider "ag' = ag1" "s' = s1" | "\<not> b" "upload_fail ERR_FILE_WRITE_FAILED ''Failed to create temp file''
       (ag1\<lparr>ag_upload := ?u\<lparr>us_temp_file := b\<rparr>\<rparr>) s2 = (Inr (resp, ag'), s')"
    | "b" "present (dr_app_name req)" "present (dr_remote_path req)" "checksum_len_ok (dr_expected_checksum req)"
      "ag' = ag1\<lparr>ag_upload := ?u\<lparr>us_temp_file := b\<rparr>\<rparr>" "s' = s2"
    using assms(1) r f unfolding handle_upload_start_def by (auto simp: Let_def split: if_splits)
  then show ?thesis
  proof cases
    case 2
    from upload_fail_session [OF 2(2)] show ?thesis using no_session_ok by auto
  next
    case 3
    have "fopen_w (us_temp_path ?u) s1 = (True, s2)" using f 3(1) by simp
    from fopen_w_ok [OF this] 3 show ?thesis
      by (auto simp: session_ok_def Let_def present_def checksum_len_ok_def cstr_eq_Nil_iff MAX_APP_NAME_LEN_def
          MAX_PATH_LEN_def HASH_BUF_LEN_def HASH_HEX_LEN_def split: option.splits)
  qed (use ok1 in simp)
qed

lemma fwrite_result:
  assumes "fwrite p b s = (n, s')" "contents s p = Some d"
  shows "contents s' p = Some (d @ take n b)" "n \<le> length b"
  using assms next_outcome_files(2) [of s "fst (next_outcome s)" "snd (next_outcome s)" p]
  by (auto simp: fwrite_def Let_def split_def split: outcome.splits)

lemma chunk_ok:
  assumes "handle_upload_chunk req ag s = (Inr (resp, ag'), s')" "session_ok ag s"
  shows "session_ok ag' s'"
proof -
  obtain n s1 where w: "fwrite (us_temp_path (ag_upload ag)) (dr_chunk_data req) s = (n, s1)" by force
  let ?u = "(ag_upload ag)\<lparr>us_received_size := us_received_size (ag_upload ag) + of_nat (length (dr_chunk_data req)),
      us_next_chunk := us_next_chunk (ag_upload ag) + 1\<rparr>"
  consider "ag' = ag" "s' = s" | "upload_fail ERR_FILE_WRITE_FAILED ''Failed to write chunk'' ag s1 = (Inr (resp, ag'), s')"
    | "us_active (ag_upload ag)" "n = length (dr_chunk_data req)" "ag' = ag\<lparr>ag_upload := ?u\<rparr>" "s' = s1"
    using assms(1) w by (auto simp: handle_upload_chunk_def Let_def split: if_splits)
  then show ?thesis
  proof cases
    case 2
    from upload_fail_session [OF 2] show ?thesis using no_session_ok by auto
  next
    case 3
    then obtain d where d: "contents s (us_temp_path (ag_upload ag)) = Some d"
      "us_received_size (ag_upload ag) = of_nat (length d)" using assms(2) by (auto simp: session_ok_def Let_def)
    from fwrite_result [OF w d(1)] show ?thesis using 3 d(2) assms(2) by (auto simp: session_ok_def Let_def)
  qed (use assms(2) in simp)
qed

lemma upload_install_session:
  assumes "upload_install ag s = (Inr (resp, ag'), s')"
  shows "if rs_success resp then ag_upload ag' = (ag_upload ag)\<lparr>us_active := False, us_temp_path := []\<rparr>
    else ag_upload ag' = no_session"
proof -
  have f: ?thesis if "upload_fail e m ag t = (Inr (resp, ag'), s')" for e m t
    using upload_fail_session [OF that] by simp
  show ?thesis
    using assms f by (auto simp: upload_install_def Let_def split: option.splits prod.splits if_splits)
qed

lemma upload_end_session:
  assumes "handle_upload_end req ag s = (Inr (resp, ag'), s')" "us_active (ag_upload ag)"
  shows "if rs_success resp then ag_upload ag' = (ag_upload ag)\<lparr>us_temp_file := False, us_active := False, us_temp_path := []\<rparr>
    else ag_upload ag' = no_session"
proof -
  let ?ag = "ag\<lparr>ag_upload := (ag_upload ag)\<lparr>us_temp_file := False\<rparr>\<rparr>"
  have f: ?thesis if "upload_fail e m ?ag t = (Inr (resp, ag'), s')" for e m t
    using upload_fail_session [OF that] by simp
  have g: ?thesis if "upload_install ?ag t = (Inr (resp, ag'), s')" for t
    using upload_install_session [OF that] by simp
  show ?thesis using assms f g
    by (auto simp: handle_upload_end_def Let_def split: option.splits prod.splits if_splits)
qed

lemma end_ok:
  assumes "handle_upload_end req ag s = (Inr (resp, ag'), s')" "session_ok ag s"
  shows "session_ok ag' s'"
proof (cases "us_active (ag_upload ag)")
  case True
  from upload_end_session [OF assms(1) True] show ?thesis
    by (auto simp: session_ok_def Let_def no_session_def split: if_splits)
qed (use assms in \<open>simp add: handle_upload_end_def\<close>)

lemma reachable_session_ok: "upload_step\<^sup>*\<^sup>* x y \<Longrightarrow> session_ok (fst x) (snd x) \<Longrightarrow> session_ok (fst y) (snd y)"
proof (induction rule: rtranclp_induct)
  case (step y z)
  then show ?case by (cases y) (auto elim!: upload_stepE intro: start_ok chunk_ok end_ok)
qed

section \<open>Whole uploads\<close>

fun run_commands :: "'e env \<Rightarrow> deploy_request list \<Rightarrow> 'e agent \<Rightarrow> os \<Rightarrow> (deploy_response list \<times> 'e agent \<times> os) option" where
  "run_commands ev [] ag s = Some ([], ag, s)"
| "run_commands ev (r # rs) ag s =
     (case dispatch ev r ag s of
        (Inl _, s) \<Rightarrow> None
      | (Inr (resp, ag), s) \<Rightarrow> map_option (\<lambda>(resps, y). (resp # resps, y)) (run_commands ev rs ag s))"

lemma run_commands_append:
  "run_commands ev (xs @ ys) ag s =
     (case run_commands ev xs ag s of None \<Rightarrow> None
      | Some (r1, ag1, s1) \<Rightarrow> map_option (\<lambda>(r2, y). (r1 @ r2, y)) (run_commands ev ys ag1 s1))"
  by (induction xs arbitrary: ag s)
    (auto simp: option.map_comp comp_def split_def option.map_ident id_def split: sum.splits prod.splits option.splits)

definition upload_command :: "deploy_command \<Rightarrow> deploy_request \<Rightarrow> deploy_request" where
  "upload_command c req = req\<lparr>dr_command := c\<rparr>"

fun chunk_requests :: "deploy_request \<Rightarrow> u32 \<Rightarrow> bytes list \<Rightarrow> deploy_request list" where
  "chunk_requests req n [] = []"
| "chunk_requests req n (c # cs) =
     req\<lparr>dr_command := CMD_UPLOAD_CHUNK, dr_chunk_seq := n, dr_chunk_data := c\<rparr> # chunk_requests req (n + 1) cs"

definition upload_requests :: "deploy_request \<Rightarrow> bytes list \<Rightarrow> deploy_request list" where
  "upload_requests req cs = [upload_command CMD_UPLOAD_START req] @ chunk_requests req 0 cs @ [upload_command CMD_UPLOAD_END req]"

lemma fwrite_quiet:
  assumes "script s = []" "contents s p = Some d"
  shows "\<exists>s'. fwrite p b s = (length b, s') \<and> contents s' p = Some (d @ b)"
  using assms by (auto simp: fwrite_def io_simps)

text \<open>Chunks in order arrive in order.\<close>

lemma chunks_run:
  assumes "us_active (ag_upload ag)" "us_next_chunk (ag_upload ag) = n" "us_temp_path (ag_upload ag) = p"
    "script s = []" "contents s p = Some d" "\<forall>c \<in> set cs. c \<noteq> []"
  shows "\<exists>resps s'. run_commands ev (chunk_requests req n cs) ag s = Some (resps,
      ag\<lparr>ag_upload := (ag_upload ag)\<lparr>us_received_size := us_received_size (ag_upload ag) + of_nat (length (concat cs)),
        us_next_chunk := n + of_nat (length cs)\<rparr>\<rparr>, s') \<and> (\<forall>r \<in> set resps. rs_success r) \<and>
    contents s' p = Some (d @ concat cs) \<and> quietly {} s s' \<and> frame (\<lambda>q. q = p) s s'"
  using assms
proof (induction cs arbitrary: n ag s d)
  case (Cons c cs)
  obtain s1 where w: "fwrite p c s = (length c, s1)" "contents s1 p = Some (d @ c)"
    using fwrite_quiet [OF Cons.prems(4,5)] by blast
  have q: "quietly {} s s1" "frame (\<lambda>q. q = p) s s1"
    using quietly_calls(4) [of "{}" s p c] frame_calls(4) [of "\<lambda>q. q = p" p s c] w(1) by simp_all
  let ?u = "ag_upload ag"
  let ?ag = "ag\<lparr>ag_upload := ?u\<lparr>us_received_size := us_received_size ?u + of_nat (length c), us_next_chunk := us_next_chunk ?u + 1\<rparr>\<rparr>"
  have s1: "script s1 = []" using q(1) Cons.prems(4) by (simp add: quietly_def)
  have "\<exists>resps s'. run_commands ev (chunk_requests req (n + 1) cs) ?ag s1 = Some (resps,
      ?ag\<lparr>ag_upload := (ag_upload ?ag)\<lparr>us_received_size := us_received_size (ag_upload ?ag) + of_nat (length (concat cs)),
        us_next_chunk := (n + 1) + of_nat (length cs)\<rparr>\<rparr>, s') \<and> (\<forall>r \<in> set resps. rs_success r) \<and>
    contents s' p = Some ((d @ c) @ concat cs) \<and> quietly {} s1 s' \<and> frame (\<lambda>q. q = p) s1 s'"
    by (rule Cons.IH) (use Cons.prems w(2) s1 in simp_all)
  then obtain resps s' where r: "run_commands ev (chunk_requests req (n + 1) cs) ?ag s1 = Some (resps,
      ?ag\<lparr>ag_upload := (ag_upload ?ag)\<lparr>us_received_size := us_received_size (ag_upload ?ag) + of_nat (length (concat cs)),
        us_next_chunk := (n + 1) + of_nat (length cs)\<rparr>\<rparr>, s')" "\<forall>r \<in> set resps. rs_success r"
    "contents s' p = Some ((d @ c) @ concat cs)" "quietly {} s1 s'" "frame (\<lambda>q. q = p) s1 s'" by blast
  show ?case
    using r w(1) Cons.prems quiet_trans [OF q(1) r(4)] frame_trans [OF q(2) r(5)]
    by (simp add: dispatch_def handle_upload_chunk_def Let_def add.assoc)
qed (auto simp: quiets frames)

lemma start_quiet:
  assumes "\<not> us_active (ag_upload ag)" "dr_app_name req = Some app" "app \<noteq> []" "dr_remote_path req = Some remote" "remote \<noteq> []"
    "dr_expected_checksum req = Some h" "length h = HASH_HEX_LEN" "length app < 490" "length remote < MAX_PATH_LEN"
    "p = ''/tmp/satdeploy-'' @ app @ ''.tmp''" "script s = []" "can_create s p"
  shows "\<exists>s'. handle_upload_start req ag s = (Inr (resp_init\<lparr>rs_success := True\<rparr>, ag\<lparr>ag_upload :=
      (ag_upload ag)\<lparr>us_active := True, us_app_name := cstr MAX_APP_NAME_LEN app, us_remote_path := remote, us_temp_path := p,
        us_expected_checksum := h, us_expected_size := dr_expected_size req, us_total_chunks := dr_total_chunks req,
        us_file_mode := dr_file_mode req, us_received_size := 0, us_next_chunk := 0, us_temp_file := True\<rparr>\<rparr>), s') \<and>
    contents s' p = Some [] \<and> quietly {} s s' \<and> frame (\<lambda>q. q = p) s s'"
proof -
  have p: "cstr MAX_PATH_LEN (''/tmp/satdeploy-'' @ app @ ''.tmp'') = p" "cstr HASH_BUF_LEN h = h" "cstr MAX_PATH_LEN remote = remote"
    using assms(7-10) by (simp_all add: MAX_PATH_LEN_def HASH_BUF_LEN_def HASH_HEX_LEN_def)
  obtain s' where f: "fopen_w p s = (True, s')" "contents s' p = Some []"
    using assms(11,12) by (auto simp: fopen_w_def io_simps)
  have "quietly {} s s'" "frame (\<lambda>q. q = p) s s'"
    using quietly_calls(3) [of "{}" s p] frame_calls(3) [of "\<lambda>q. q = p" p s] f(1) by simp_all
  then show ?thesis using assms(1-7) f p
    by (simp add: handle_upload_start_def present_def checksum_len_ok_def Let_def del: append.simps)
qed

lemma rev_dropWhile_slashes: "p \<noteq> [] \<Longrightarrow> last p \<noteq> CHR ''/'' \<Longrightarrow> strip_slashes p = p"
  by (cases p rule: rev_cases) (auto simp: strip_slashes_def)

lemma libgen_dirname_path:
  assumes "comps_ok cs" "CHR ''/'' \<notin> set n" "n \<noteq> []"
  shows "libgen_dirname (path_of cs @ CHR ''/'' # n) = path_of cs"
proof -
  let ?p = "path_of cs @ CHR ''/'' # n"
  have l: "last ?p \<noteq> CHR ''/''" using assms(2,3) last_in_set [of n] by (metis last.simps last_appendR list.discI)
  have pc: "path_of cs \<noteq> []" "last (path_of cs) \<noteq> CHR ''/''" using assms(1) path_of_last by (auto simp: comps_ok_def)
  have "dropWhile (\<lambda>c. c \<noteq> CHR ''/'') (rev n @ CHR ''/'' # rev (path_of cs)) = CHR ''/'' # rev (path_of cs)"
    using assms(2) by (subst dropWhile_append2) auto
  then have "rev (dropWhile (\<lambda>c. c \<noteq> CHR ''/'') (rev ?p)) = path_of cs @ ''/''" by simp
  moreover have "strip_slashes (path_of cs @ ''/'') = path_of cs"
    using rev_dropWhile_slashes [OF pc] by (simp add: strip_slashes_def)
  moreover have "strip_slashes ?p = ?p" using rev_dropWhile_slashes [OF _ l] by simp
  ultimately show ?thesis using pc(1) by (simp add: libgen_dirname_def Let_def)
qed

definition upload_temp :: "string \<Rightarrow> string" where
  "upload_temp app = ''/tmp/satdeploy-'' @ app @ ''.tmp''"

definition upload_ready :: "deploy_request \<Rightarrow> string \<Rightarrow> string list \<Rightarrow> string \<Rightarrow> bytes list \<Rightarrow> os \<Rightarrow> bool" where
  "upload_ready req app ps name cs s \<longleftrightarrow>
     (let remote = path_of ps @ CHR ''/'' # name
      in dr_app_name req = Some app \<and> plain_name app \<and> dr_remote_path req = Some remote \<and> comps_ok ps \<and> name \<noteq> [] \<and>
         CHR ''/'' \<notin> set name \<and> length remote < MAX_PATH_LEN \<and> \<not> after_install remote \<and> remote \<noteq> upload_temp app \<and>
         dr_expected_checksum req = Some (hex_string (sha256 (concat cs))) \<and>
         (dr_expected_size req = 0 \<or> dr_expected_size req = of_nat (length (concat cs))) \<and> (\<forall>c \<in> set cs. c \<noteq> []) \<and>
         can_create s (upload_temp app) \<and> upload_temp app \<notin> set (dir_prefixes (path_of ps)) \<and>
         (\<forall>d \<in> set (dir_prefixes (path_of ps)). lookup s d = None) \<and> \<not> dir_exists s remote \<and> remote \<notin> store_dirs app \<and>
         (lookup s remote = None \<or> store_ready s app))"

lemma prefix_not_backup:
  assumes "d \<in> set (dir_prefixes t)" "\<not> in_backups (t @ x)"
  shows "\<not> in_backups d"
proof
  assume a: "in_backups d"
  obtain i where d: "d = take i t" using assms(1) by (auto simp: dir_prefixes_def) (metis take_all order_refl)
  have l: "length (BACKUP_DIR @ ''/'') = 23" by (simp add: BACKUP_DIR_def)
  have t: "take 23 (take i t) = BACKUP_DIR @ ''/''" using a d l by (simp add: in_backups_def)
  then have "length (take 23 (take i t)) = 23" using l by simp
  then have "23 \<le> i" "23 \<le> length t" by simp_all
  then have "take 23 (t @ x) = BACKUP_DIR @ ''/''" using t by (simp add: min_def)
  then show False using assms(2) l by (simp add: in_backups_def)
qed

lemma temp_not_backup: "\<not> in_backups (upload_temp app)" "\<not> after_install (upload_temp app)" "upload_temp app \<notin> store_dirs app'" if "plain_name app'"
  using backup_dir_plain(4) [OF that]
  by (simp_all add: upload_temp_def in_backups_def after_install_def BACKUP_DIR_def METADATA_FILE_def store_dirs_def)

lemma parent_dir_quiet:
  assumes "script s = []" "comps_ok ps" "name \<noteq> []" "CHR ''/'' \<notin> set name" "length (path_of ps) < MAX_PATH_LEN"
    "\<forall>d \<in> set (dir_prefixes (path_of ps)). lookup s d = None" "\<not> dir_exists s (path_of ps @ CHR ''/'' # name)"
  shows "\<exists>s'. ensure_parent_dir (path_of ps @ CHR ''/'' # name) s = (0, s') \<and> script s' = [] \<and> fs s' = fs s \<and>
    can_create s' (path_of ps @ CHR ''/'' # name)"
proof -
  let ?r = "path_of ps @ CHR ''/'' # name"
  from mkdir_p_path [OF assms(1,2,5,6)] obtain s' where m: "mkdir_p (path_of ps) s = (0, s')" "script s' = []" "fs s' = fs s"
    "set (dirs s') \<subseteq> set (dirs s) \<union> set (dir_prefixes (path_of ps))" "dir_exists s' (path_of ps)" by blast
  have "ensure_parent_dir ?r s = (0, s')"
    using assms(1) m(1) libgen_dirname_path [OF assms(2,4,3)] by (simp add: ensure_parent_dir_def io_simps)
  moreover have "length d \<le> length (path_of ps)" if "d \<in> set (dir_prefixes (path_of ps))" for d
    using that by (auto simp: dir_prefixes_def)
  then have "?r \<notin> set (dir_prefixes (path_of ps))" by fastforce
  then have "\<not> dir_exists s' ?r" using m(4) assms(7) by (auto simp: dir_exists_def)
  moreover have "dirname ?r = path_of ps" using dirname_snoc [OF assms(4)] assms(2) by (simp add: comps_ok_def)
  ultimately show ?thesis using m by (auto simp: can_create_def)
qed

lemma upload_install_quiet:
  assumes "upload_ready req app ps name cs s0" "script s = []" "frame (\<lambda>q. q = upload_temp app) s0 s" "quietly {} s0 s"
    "contents s (upload_temp app) = Some src" "am_loaded (ag_meta ag)" "remote = path_of ps @ CHR ''/'' # name"
    "us_app_name (ag_upload ag) = app" "us_remote_path (ag_upload ag) = remote" "us_temp_path (ag_upload ag) = upload_temp app"
  shows "\<exists>resp ag' s'. upload_install ag s = (Inr (resp, ag'), s') \<and> rs_success resp \<and> contents s' remote = Some src \<and>
    contents s' (upload_temp app) = None"
proof -
  let ?t = "upload_temp app" and ?u = "ag_upload ag"
  note rd = assms(1) [unfolded upload_ready_def Let_def, folded assms(7)]
  have pl: "plain_name app" and na: "\<not> after_install remote" and ne: "remote \<noteq> ?t" using rd by blast+
  note tn = temp_not_backup [OF pl, of app]
  have nd: "\<not> dir_exists s remote" using rd assms(4) by (auto simp: quietly_def dir_exists_def)
  have "lookup s remote = lookup s0 remote" using frame_lookup [OF assms(3)] ne by blast
  moreover have "store_ready s app" if "store_ready s0 app"
    by (rule store_elsewhere [OF that assms(3,4)]) (use tn entry_in_backups [OF pl] in blast)+
  ultimately have bs: "lookup s remote = None \<or> store_ready s app" using rd by metis
  from backup_present_quiet [OF assms(2) nd bs] obtain buf s1 where b: "backup_present app remote s = (Some buf, s1)"
    "quietly (store_dirs app) s s1" "frame in_backups s s1" by blast
  have pre: "lookup s1 d = None" if "d \<in> set (dir_prefixes (path_of ps))" for d
  proof -
    have "\<not> in_backups d" using prefix_not_backup [OF that, of "CHR ''/'' # name"] na assms(7) by (simp add: after_install_def)
    then have "lookup s1 d = lookup s d" using frame_lookup [OF b(3)] by blast
    moreover have "d \<noteq> ?t" using rd that by metis
    ultimately show ?thesis using frame_lookup [OF assms(3), of d] rd that by simp
  qed
  have s1: "script s1 = []" "\<not> dir_exists s1 remote" using b(2) assms(2) nd rd by (auto simp: quietly_def dir_exists_def)
  have "\<exists>s2. ensure_parent_dir remote s1 = (0, s2) \<and> script s2 = [] \<and> fs s2 = fs s1 \<and> can_create s2 remote"
    unfolding assms(7) by (rule parent_dir_quiet) (use rd pre s1 assms(7) in auto)
  then obtain s2 where p: "ensure_parent_dir remote s1 = (0, s2)" "script s2 = []" "fs s2 = fs s1" "can_create s2 remote" by blast
  have "contents s1 ?t = Some src" using frame_contents [OF b(3) tn(1)] assms(5) by simp
  then have "contents s2 ?t = Some src" using p(3) by (simp add: contents_def lookup_def)
  from copy_file_quiet [OF p(2) this p(4)] obtain s3 where c: "copy_file ?t remote s2 = (0, s3)" "contents s3 remote = Some src" "script s3 = []"
    by blast
  let ?s4 = "snd (unlink ?t s3)"
  have u: "contents ?s4 remote = Some src" "contents ?s4 ?t = None"
    using c ne by (auto simp: unlink_def io_simps contents_def)
  let ?s5 = "snd (snd (backup_create app remote 0 (snd (chmod remote (request_mode (us_file_mode ?u)) ?s4))))"
  obtain rc m' s' where m: "app_metadata_save app remote (us_expected_checksum ?u) (ag_meta ag) ?s5 = (Some (rc, m'), s')"
    using save_total [OF assms(6)] by metis
  let ?sv = "snd (app_metadata_save app remote (us_expected_checksum ?u) (ag_meta ag) ?s5)"
  have "moves (data_is src) remote ?s4 ?sv"
    by (rule install_rest [of remote "data_is src", OF na]) (simp add: data_is_def)
  then have r: "contents s' remote = Some src"
    using u(1) m unfolding moves_def by (auto simp: data_is_def contents_def lookup_def)
  have "frame (\<lambda>q. after_install q \<or> q = remote) ?s4 ?sv"
    by (rule frame_trans [OF frame_calls(8) frame_trans [OF frame_mono [OF after_install_frames(1)] frame_mono [OF after_install_frames(2)]]]) simp_all
  then have "contents s' ?t = None" using frame_contents u(2) m tn(2) ne by fastforce
  moreover have "upload_install ag s = (Inr (resp_init\<lparr>rs_success := True, rs_backup_path := buf\<rparr>,
      ag\<lparr>ag_meta := m', ag_upload := ?u\<lparr>us_active := False, us_temp_path := []\<rparr>\<rparr>), s')"
    using b(1) p(1) c(1) m assms(8-10) by (simp add: upload_install_def Let_def split_def)
  ultimately show ?thesis using r by auto
qed

lemma upload_end_quiet:
  assumes "upload_ready req app ps name cs s0" "script s = []" "frame (\<lambda>q. q = upload_temp app) s0 s" "quietly {} s0 s"
    "contents s (upload_temp app) = Some (concat cs)" "am_loaded (ag_meta ag)" "u = ag_upload ag" "us_active u" "us_app_name u = app"
    "us_remote_path u = path_of ps @ CHR ''/'' # name" "us_temp_path u = upload_temp app"
    "us_expected_checksum u = hex_string (sha256 (concat cs))" "us_expected_size u = dr_expected_size req"
    "us_received_size u = of_nat (length (concat cs))"
  shows "\<exists>resp ag' s'. handle_upload_end rq ag s = (Inr (resp, ag'), s') \<and> rs_success resp \<and>
    contents s' (path_of ps @ CHR ''/'' # name) = Some (concat cs) \<and> contents s' (upload_temp app) = None"
proof -
  let ?ag = "ag\<lparr>ag_upload := u\<lparr>us_temp_file := False\<rparr>\<rparr>" and ?h = "hex_string (sha256 (concat cs))"
  have am: "am_loaded (ag_meta ?ag)" using assms(6) by simp
  from upload_install_quiet [OF assms(1-5) am refl] assms(7-11) obtain resp ag' s' where
    i: "upload_install ?ag s = (Inr (resp, ag'), s')" "rs_success resp" "contents s' (path_of ps @ CHR ''/'' # name) = Some (concat cs)"
      "contents s' (upload_temp app) = None" by auto
  have "fclose_w (upload_temp app) s = (True, s)" using assms(2) by (simp add: fclose_w_def fflush_def io_simps)
  moreover have "?h \<noteq> []" using length_hex_string [of "sha256 (concat cs)"] by auto
  moreover have "dr_expected_size req = 0 \<or> dr_expected_size req = of_nat (length (concat cs))"
    using assms(1) by (simp add: upload_ready_def Let_def)
  ultimately have "handle_upload_end rq ag s = (Inr (resp, ag'), s')"
    using i(1) checksum_quiet [OF assms(2,5)] assms(7-) by (auto simp: handle_upload_end_def Let_def)
  then show ?thesis using i by blast
qed

lemma upload_whole:
  assumes "upload_ready req app ps name cs s" "script s = []" "\<not> us_active (ag_upload ag)" "am_loaded (ag_meta ag)"
  shows "\<exists>resps ag' s'. run_commands ev (upload_requests req cs) ag s = Some (resps, ag', s') \<and> (\<forall>r \<in> set resps. rs_success r) \<and>
    contents s' (path_of ps @ CHR ''/'' # name) = Some (concat cs) \<and> contents s' (upload_temp app) = None \<and>
    \<not> us_active (ag_upload ag')"
proof -
  let ?r = "path_of ps @ CHR ''/'' # name" and ?t = "upload_temp app" and ?h = "hex_string (sha256 (concat cs))"
  note rd = assms(1) [unfolded upload_ready_def Let_def]
  have a: "app \<noteq> []" "length app < MAX_APP_NAME_LEN" using rd by (auto simp: plain_name_def)
  let ?u = "(ag_upload ag)\<lparr>us_active := True, us_app_name := app, us_remote_path := ?r, us_temp_path := ?t,
        us_expected_checksum := ?h, us_expected_size := dr_expected_size req, us_total_chunks := dr_total_chunks req,
        us_file_mode := dr_file_mode req, us_received_size := 0, us_next_chunk := 0, us_temp_file := True\<rparr>"
  have "\<exists>s1. handle_upload_start (upload_command CMD_UPLOAD_START req) ag s = (Inr (resp_init\<lparr>rs_success := True\<rparr>, ag\<lparr>ag_upload := ?u\<rparr>), s1) \<and>
      contents s1 ?t = Some [] \<and> quietly {} s s1 \<and> frame (\<lambda>q. q = ?t) s s1"
    using start_quiet [of ag "upload_command CMD_UPLOAD_START req" app ?r ?h ?t s] rd a assms(2,3)
    by (simp add: upload_command_def length_hex_string HASH_HEX_LEN_def MAX_APP_NAME_LEN_def upload_temp_def)
  then obtain s1 where st: "handle_upload_start (upload_command CMD_UPLOAD_START req) ag s =
      (Inr (resp_init\<lparr>rs_success := True\<rparr>, ag\<lparr>ag_upload := ?u\<rparr>), s1)"
      "contents s1 ?t = Some []" "quietly {} s s1" "frame (\<lambda>q. q = ?t) s s1" by blast
  have s1: "script s1 = []" using st(3) assms(2) by (simp add: quietly_def)
  let ?u2 = "?u\<lparr>us_received_size := of_nat (length (concat cs)), us_next_chunk := of_nat (length cs)\<rparr>"
  obtain resps s2 where ch: "run_commands ev (chunk_requests req 0 cs) (ag\<lparr>ag_upload := ?u\<rparr>) s1 = Some (resps, ag\<lparr>ag_upload := ?u2\<rparr>, s2)"
    "\<forall>r \<in> set resps. rs_success r" "contents s2 ?t = Some (concat cs)" "quietly {} s1 s2" "frame (\<lambda>q. q = ?t) s1 s2"
    using chunks_run [of "ag\<lparr>ag_upload := ?u\<rparr>" 0 ?t s1 "[]" cs ev req] st(2) s1 rd by auto
  have q: "quietly {} s s2" "frame (\<lambda>q. q = ?t) s s2" "script s2 = []"
    using quiet_trans [OF st(3) ch(4)] frame_trans [OF st(4) ch(5)] ch(4) s1 by (simp_all add: quietly_def)
  have am: "am_loaded (ag_meta (ag\<lparr>ag_upload := ?u2\<rparr>))" using assms(4) by simp
  from upload_end_quiet [OF assms(1) q(3,2,1) ch(3) am refl, where rq = "upload_command CMD_UPLOAD_END req"] obtain resp ag' s' where
    e: "handle_upload_end (upload_command CMD_UPLOAD_END req) (ag\<lparr>ag_upload := ?u2\<rparr>) s2 = (Inr (resp, ag'), s')"
    and i: "rs_success resp" "contents s' ?r = Some (concat cs)" "contents s' ?t = None" by auto
  have "\<not> us_active (ag_upload ag')" using upload_end_session [OF e] i(1) by simp
  moreover have "run_commands ev (upload_requests req cs) ag s = Some (resp_init\<lparr>rs_success := True\<rparr> # resps @ [resp], ag', s')"
    using st(1) ch(1) e
    by (simp add: upload_requests_def run_commands_append dispatch_def upload_command_def)
  ultimately show ?thesis using i ch(2) by auto
qed

lemma install_error: "upload_fail e m ag s = (Inr (resp, ag'), s') \<Longrightarrow> rs_error_code resp = e \<and> \<not> rs_success resp"
  using upload_fail_session by (fastforce simp: resp_fail_def)

lemma reset_frame: "P (us_temp_path (ag_upload ag)) \<Longrightarrow> frame P s (snd (upload_session_reset ag s))"
  using frame_calls(6) [of P "us_temp_path (ag_upload ag)" s] frame_unlink_of [of P "us_temp_path (ag_upload ag)" s]
  by (auto simp: upload_session_reset_def Let_def frames)

lemma upload_fail_frame:
  "upload_fail e m ag s = (Inr (resp, ag'), s') \<Longrightarrow> P (us_temp_path (ag_upload ag)) \<Longrightarrow> frame P s s'"
  using upload_fail_session [of e m ag s resp ag' s'] reset_frame [of P ag s] by auto

text \<open>Until its checksum gate is passed an upload touches only its temporary file; then, until the copy, also backups.\<close>

lemma gate_lemma:
  assumes "handle_upload_end req ag s = (Inr (resp, ag'), s')" "session_ok ag s" "us_active (ag_upload ag)"
    "temp = us_temp_path (ag_upload ag)" "remote = us_remote_path (ag_upload ag)" "contents s temp = Some d"
    "remote \<noteq> temp" "\<not> in_backups remote"
  shows "if rs_success resp \<or> rs_error_code resp = ERR_INSTALL_FAILED
    then \<exists>k. hex_string (sha256 (take k d)) = us_expected_checksum (ag_upload ag)
    else lookup s' remote = lookup s remote"
proof -
  let ?h = "us_expected_checksum (ag_upload ag)" and ?P = "\<lambda>q. q = temp \<or> in_backups q"
  let ?ag = "ag\<lparr>ag_upload := (ag_upload ag)\<lparr>us_temp_file := False\<rparr>\<rparr>"
  obtain b s1 where f: "fclose_w temp s = (b, s1)" by force
  obtain k where k: "contents s1 temp = Some (take k d)" using fclose_prefix [OF assms(6)] f by auto
  have f1: "frame ?P s s1" using frame_calls(6) [of ?P temp s] f by simp
  obtain c s2 where c: "compute_file_checksum temp HASH_BUF_LEN s1 = (c, s2)" by force
  have f2: "frame ?P s s2" using frame_trans [OF f1] checksum_frame [of ?P s1 temp HASH_BUF_LEN] c by simp
  have same: "lookup t remote = lookup s remote" if "frame ?P s t" for t using frame_lookup [OF that] assms(7,8) by blast
  have fl: "lookup s' remote = lookup s remote" if "upload_fail e m ?ag t = (Inr (resp, ag'), s')" "frame ?P s t" for e m t
    using same frame_trans [OF that(2) upload_fail_frame [OF that(1), of ?P]] assms(4) by simp
  have ne: "?h \<noteq> []" using assms(2,3) by (auto simp: session_ok_def Let_def HASH_HEX_LEN_def)
  consider e m t where "upload_fail e m ?ag t = (Inr (resp, ag'), s')" "frame ?P s t" "e = ERR_CHECKSUM_MISMATCH"
    | "c = Some ?h" "upload_install ?ag s2 = (Inr (resp, ag'), s')"
    using assms(1,3) f [unfolded assms(4)] c [unfolded assms(4)] f1 f2 ne
    by (auto simp: handle_upload_end_def Let_def split: if_splits option.splits)
  then show ?thesis
  proof cases
    case 1
    then show ?thesis using fl install_error [OF 1(1)] by simp
  next
    case 2
    have h: "\<exists>k. hex_string (sha256 (take k d)) = ?h" using checksum_sound [of temp HASH_BUF_LEN s1] c 2(1) k by auto
    obtain bp s3 where b: "backup_present (us_app_name (ag_upload ag)) remote s2 = (bp, s3)" by force
    have "frame ?P s2 s3" using backup_present_frame [of ?P s2 "us_app_name (ag_upload ag)" remote] b by simp
    then have f3: "frame ?P s s3" using frame_trans [OF f2] by blast
    show ?thesis
    proof (cases bp)
      case None
      then have "upload_fail ERR_BACKUP_FAILED ''Failed to backup current file'' ?ag s3 = (Inr (resp, ag'), s')"
        using 2(2) b assms(5) by (simp add: upload_install_def Let_def)
      then show ?thesis using fl [OF _ f3] install_error by fastforce
    next
      case (Some buf)
      then have "rs_success resp \<or> rs_error_code resp = ERR_INSTALL_FAILED"
        using 2(2) b assms(5) install_error
        by (fastforce simp: upload_install_def Let_def split: prod.splits if_splits option.splits)
      then show ?thesis using h by simp
    qed
  qed
qed

text \<open>The copy that installs an upload removes the installed file first.\<close>

lemma copy_window:
  assumes "script s = []" "contents s src = Some d" "lookup s dst \<noteq> None"
  shows "\<exists>f \<in> set (fs_log (snd (copy_file src dst s))). map_of f dst = None"
proof -
  let ?s1 = "discard dst s"
  have u: "unlink dst s = (True, ?s1)" using assms(1,3) by (auto simp: unlink_def io_simps)
  have "fs ?s1 \<in> set (fs_log ?s1)" "map_of (fs ?s1) dst = None"
    using lookup_discard [of dst s dst] by (simp_all add: discard_def put_fs_def lookup_def)
  moreover have "frame (\<lambda>_. True) ?s1 (snd (copy_file src dst s))"
  proof -
    have "snd (copy_file src dst s) = snd (case fopen_w dst ?s1 of (False, s) \<Rightarrow> (- 1 :: int, s)
        | (True, s) \<Rightarrow> (case copy_loop d dst s of (result, s) \<Rightarrow> (case fclose_w dst s of (_, s) \<Rightarrow>
            if result = 0 then (case stat src s of (r, s) \<Rightarrow> (case r of Is_reg f \<Rightarrow> (0, snd (chmod dst (f_mode f) s)) | _ \<Rightarrow> (0, s)))
            else (-1, s))))"
      using assms(1,2) u by (simp add: copy_file_def fopen_r_def io_simps Let_def split_def split: stat_result.splits bool.splits)
    also have "frame (\<lambda>_. True) ?s1 \<dots>" by (intro frame_steps frames copy_loop_frame TrueI)
    finally show ?thesis .
  qed
  ultimately show ?thesis by (auto simp: frame_def)
qed

lemma frame_log: "frame P s t \<Longrightarrow> f \<in> set (fs_log s) \<Longrightarrow> f \<in> set (fs_log t)"
  by (auto simp: frame_def)

lemma mkdir_p_any: "quietly UNIV s (snd (mkdir_p p s))"
  unfolding mkdir_p_def Let_def by (rule mkdir_all_quietly) simp

lemma backup_present_any: "quietly UNIV s (snd (backup_present app p s))"
proof -
  have b: "quietly UNIV t (snd (snd (backup_create app p n t)))" for t n
    by (rule quiet.backup_create_step) (rule quiets mkdir_p_any)+
  obtain there t where a: "access_ok p s = (there, t)" by force
  have "quietly UNIV s t" using quietly_calls(18) [of UNIV s p] a by simp
  then show ?thesis using a quiet_trans [OF _ b [of t MAX_PATH_LEN]] by (auto simp: backup_present_def split: prod.splits)
qed

lemma parent_any: "quietly UNIV s (snd (ensure_parent_dir p s))" "frame P s (snd (ensure_parent_dir p s))"
  unfolding ensure_parent_dir_def by (intro quiet_steps quiets mkdir_p_any) (intro frame_steps frames)

lemma upload_install_window:
  assumes "upload_install ag s = (Inr (resp, ag'), s')" "rs_success resp" "script s = []"
    "contents s (us_temp_path (ag_upload ag)) = Some d" "lookup s (us_remote_path (ag_upload ag)) \<noteq> None"
    "\<not> in_backups (us_temp_path (ag_upload ag))" "\<not> in_backups (us_remote_path (ag_upload ag))"
  shows "\<exists>f \<in> set (fs_log s'). map_of f (us_remote_path (ag_upload ag)) = None"
proof -
  let ?u = "ag_upload ag" and ?t = "us_temp_path (ag_upload ag)" and ?r = "us_remote_path (ag_upload ag)"
  obtain b s1 where b: "backup_present (us_app_name ?u) ?r s = (b, s1)" by force
  obtain p s2 where p: "ensure_parent_dir ?r s1 = (p, s2)" by force
  obtain c s3 where c: "copy_file ?t ?r s2 = (c, s3)" by force
  have ok: "b \<noteq> None \<and> p = 0 \<and> c = 0"
    using assms(1,2) b p c install_error by (fastforce simp: upload_install_def Let_def split: option.splits if_splits)
  have q: "quietly UNIV s s2" using backup_present_any [of s "us_app_name ?u" ?r] parent_any(1) [of s1 ?r] b p quiet_trans by fastforce
  have f: "frame in_backups s s2"
    using backup_present_frame [of in_backups s "us_app_name ?u" ?r] parent_any(2) [of in_backups s1 ?r] b p frame_trans by fastforce
  have "script s2 = []" "contents s2 ?t = Some d" "lookup s2 ?r \<noteq> None"
    using q assms(3-5) frame_contents [OF f assms(6)] frame_lookup [OF f assms(7)] by (simp_all add: quietly_def)
  from copy_window [OF this] c obtain g where g: "g \<in> set (fs_log s3)" "map_of g ?r = None" by auto
  let ?s4 = "snd (backup_create (us_app_name ?u) ?r 0 (snd (chmod ?r (request_mode (us_file_mode ?u)) (snd (unlink ?t s3)))))"
  have "frame (\<lambda>_. True) s3 (snd ?s4)"
    by (rule frame_trans [OF frame_trans [OF frame_calls(7) frame_calls(8)] frame_mono [OF backup_create_frame]]) simp_all
  moreover have "frame (\<lambda>_. True) (snd ?s4) s'"
    using assms(1,2) b p c ok app_metadata_save_frame [of "\<lambda>_. True" "snd ?s4" "us_app_name ?u" ?r "us_expected_checksum ?u" "ag_meta ag"]
    by (auto simp: upload_install_def Let_def split_def split: option.splits)
  ultimately show ?thesis using g frame_log by blast
qed

lemma end_window:
  assumes "handle_upload_end req ag s = (Inr (resp, ag'), s')" "rs_success resp" "script s = []"
    "contents s (us_temp_path (ag_upload ag)) = Some d" "lookup s (us_remote_path (ag_upload ag)) \<noteq> None"
    "\<not> in_backups (us_temp_path (ag_upload ag))" "\<not> in_backups (us_remote_path (ag_upload ag))"
  shows "\<exists>f \<in> set (fs_log s'). map_of f (us_remote_path (ag_upload ag)) = None"
proof -
  let ?ag = "ag\<lparr>ag_upload := (ag_upload ag)\<lparr>us_temp_file := False\<rparr>\<rparr>"
  have "fclose_w (us_temp_path (ag_upload ag)) s = (True, s)" using assms(3) by (simp add: fclose_w_def fflush_def io_simps)
  then have "upload_install ?ag s = (Inr (resp, ag'), s')"
    using assms(1,2) checksum_quiet [OF assms(3,4)] install_error
    by (fastforce simp: handle_upload_end_def resp_fail_def Let_def split: if_splits)
  from upload_install_window [OF this assms(2,3)] assms(4-7) show ?thesis by simp
qed

text \<open>The parent of a file in the root directory: \<open>mkdir_p("/")\<close> strips its only character and makes the empty path.\<close>

lemma root_parent:
  assumes "CHR ''/'' \<notin> set n" "n \<noteq> []" "[] \<notin> set (dirs s)" "lookup s [] = None"
  shows "fst (ensure_parent_dir (CHR ''/'' # n) s) = -1"
proof -
  have l: "last (CHR ''/'' # n) \<noteq> CHR ''/''" using assms(1,2) last_in_set [of n] by (metis last_ConsR)
  have "dropWhile (\<lambda>c. c \<noteq> CHR ''/'') (rev n @ [CHR ''/'']) = ''/''"
    using assms(1) by (subst dropWhile_append2) auto
  then have d: "libgen_dirname (CHR ''/'' # n) = ''/''"
    using rev_dropWhile_slashes [OF _ l] by (simp add: libgen_dirname_def Let_def) (simp add: strip_slashes_def)
  have "fst (mkdir [] t) = Mkdir_error" if "dirs t = dirs s" "fs t = fs s" for t
    using that assms(3,4) by (auto simp: mkdir_def dir_exists_def lookup_def next_outcome_def split: outcome.splits list.splits)
  then have "fst (mkdir_p ''/'' t) = -1" if "dirs t = dirs s" "fs t = fs s" for t
    using that by (auto simp: mkdir_p_def cstr_def MAX_PATH_LEN_def dir_prefixes_def split: prod.splits mkdir_result.splits)
      (metis fst_conv mkdir_result.distinct)+
  moreover have "dirs (snd (malloc s)) = dirs s" "fs (snd (malloc s)) = fs s"
    by (simp_all add: malloc_def next_outcome_def split: list.splits outcome.splits)
  ultimately show ?thesis by (simp add: ensure_parent_dir_def d split_def)
qed

section \<open>Properties\<close>

text \<open>
  C13: The upload session is sound at every moment. Starting from no session, after any
  sequence of upload commands, whatever their requests and whichever calls fail: a session that is
  active has its stream open on a temporary file that exists and whose length is the counted size
  (modulo the counter's 32 bits), a 64-character checksum and non-empty names; a session that is
  not active holds no open stream.
\<close>

theorem upload_session_invariant:
  assumes "upload_step\<^sup>*\<^sup>* (ag, s) (ag', s')" "ag_upload ag = no_session"
  shows "if us_active (ag_upload ag')
    then us_temp_file (ag_upload ag') \<and> length (us_expected_checksum (ag_upload ag')) = HASH_HEX_LEN \<and>
      us_app_name (ag_upload ag') \<noteq> [] \<and> us_remote_path (ag_upload ag') \<noteq> [] \<and>
      (\<exists>d. contents s' (us_temp_path (ag_upload ag')) = Some d \<and> us_received_size (ag_upload ag') = of_nat (length d))
    else \<not> us_temp_file (ag_upload ag')"
  using reachable_session_ok [OF assms(1)] assms(2) by (simp add: session_ok_def Let_def no_session_def)

text \<open>
  C12: A whole upload installs its bytes. With no failing system call, for a destination in
  any directory (existing or not), the commands START, one CHUNK per non-empty chunk in order, END
  are all answered with success; afterwards the destination holds exactly the chunks' bytes, the
  temporary file is gone and no session is active.
\<close>

theorem upload_end_to_end:
  assumes "upload_ready req app ps name cs s" "script s = []" "\<not> us_active (ag_upload ag)" "am_loaded (ag_meta ag)"
  shows "\<exists>resps ag' s'. run_commands ev (upload_requests req cs) ag s = Some (resps, ag', s') \<and> (\<forall>r \<in> set resps. rs_success r) \<and>
    contents s' (path_of ps @ CHR ''/'' # name) = Some (concat cs) \<and> contents s' (upload_temp app) = None \<and>
    \<not> us_active (ag_upload ag')"
  by (rule upload_whole [OF assms])

text \<open>
  C14: The checksum gate of an upload. When END of a sound session ends in success or in a
  failed installation, the bytes received (up to where the closing of the stream could not write
  them) have the checksum announced at START; on every other error the destination's file is
  untouched. No failing call is excluded.
\<close>

theorem upload_gate:
  assumes "handle_upload_end req ag s = (Inr (resp, ag'), s')" "session_ok ag s" "us_active (ag_upload ag)"
    "temp = us_temp_path (ag_upload ag)" "remote = us_remote_path (ag_upload ag)" "contents s temp = Some d"
    "remote \<noteq> temp" "\<not> in_backups remote"
  shows "if rs_success resp \<or> rs_error_code resp = ERR_INSTALL_FAILED
    then \<exists>k. hex_string (sha256 (take k d)) = us_expected_checksum (ag_upload ag)
    else lookup s' remote = lookup s remote"
  by (rule gate_lemma [OF assms])

text \<open>
  An upload's installation can be cut off. \<open>copy_file\<close> removes the destination
  before it writes it, so whenever END of an upload over an installed file succeeds there was a
  moment with no file at the destination: unlike a deploy, it does not survive a power loss there.
\<close>

theorem upload_not_atomic:
  assumes "handle_upload_end req ag s = (Inr (resp, ag'), s')" "rs_success resp" "script s = []"
    "contents s (us_temp_path (ag_upload ag)) = Some d" "lookup s (us_remote_path (ag_upload ag)) \<noteq> None"
    "\<not> in_backups (us_temp_path (ag_upload ag))" "\<not> in_backups (us_remote_path (ag_upload ag))"
  shows "\<exists>f \<in> set (fs_log s'). map_of f (us_remote_path (ag_upload ag)) = None"
  by (rule end_window [OF assms])

section \<open>Witnesses\<close>

definition an_upload :: deploy_request where
  "an_upload = req_init\<lparr>dr_app_name := Some ''app'', dr_remote_path := Some ''/opt/f'', dr_expected_size := 3,
     dr_expected_checksum := Some (hex_string (sha256 [1, 2, 3]))\<rparr>"

lemma an_upload_ready: "upload_ready an_upload ''app'' [''opt''] ''f'' [[1, 2], [3]] (tmp_os [])"
  by (auto simp: upload_ready_def an_upload_def tmp_os_def path_of_def comps_ok_def plain_name_def upload_temp_def after_install_def
      MAX_PATH_LEN_def MAX_APP_NAME_LEN_def BACKUP_DIR_def METADATA_FILE_def in_backups_def can_create_def dir_exists_def
      dirname_def store_dirs_def backup_dir_of_def cstr_def lookup_def dir_prefixes_def Let_def)

theorem upload_end_to_end_witness:
  "\<exists>resps ag' s'. run_commands an_env (upload_requests an_upload [[1, 2], [3]]) an_agent (tmp_os []) = Some (resps, ag', s') \<and>
    contents s' ''/opt/f'' = Some [1, 2, 3]"
  using upload_end_to_end [OF an_upload_ready, of an_agent an_env]
  by (auto simp: an_agent_def no_session_def tmp_os_create path_of_def)

text \<open>A session over the installed file \<open>/tmp/f\<close>, before any chunk.\<close>

definition an_open_upload :: upload_session_t where
  "an_open_upload = no_session\<lparr>us_active := True, us_app_name := ''app'', us_remote_path := ''/tmp/f'',
     us_temp_path := upload_temp ''app'', us_expected_checksum := hex_string (sha256 []), us_temp_file := True\<rparr>"

definition an_uploading_agent :: "bytes list agent" where
  "an_uploading_agent = an_agent\<lparr>ag_upload := an_open_upload\<rparr>"

definition an_uploading_os :: os where
  "an_uploading_os = snd (fopen_w (upload_temp ''app'') installed_os)"

lemma an_upload_ends:
  "script an_uploading_os = []" "contents an_uploading_os (upload_temp ''app'') = Some []"
  "lookup an_uploading_os ''/tmp/f'' \<noteq> None" "session_ok an_uploading_agent an_uploading_os"
  "\<exists>resp ag' s'. handle_upload_end rq an_uploading_agent an_uploading_os = (Inr (resp, ag'), s') \<and> rs_success resp"
proof -
  let ?t = "upload_temp ''app''" and ?q = "an_upload\<lparr>dr_remote_path := Some ''/tmp/f'', dr_expected_size := 0,
    dr_expected_checksum := Some (hex_string (sha256 []))\<rparr>"
  have i: "script installed_os = []" "can_create installed_os ?t"
    by (simp_all add: installed_os_def tmp_os_def can_create_def dir_exists_def upload_temp_def dirname_def)
  show c: "script an_uploading_os = []" "contents an_uploading_os ?t = Some []"
    using i by (auto simp: an_uploading_os_def fopen_w_def io_simps)
  have fr: "frame (\<lambda>q. q = ?t) installed_os an_uploading_os" "quietly {} installed_os an_uploading_os"
    unfolding an_uploading_os_def by (rule frame_calls(3) quietly_calls(3) | simp)+
  have "?t \<noteq> ''/tmp/f''" by (simp add: upload_temp_def)
  then have "lookup an_uploading_os ''/tmp/f'' = lookup installed_os ''/tmp/f''" using frame_lookup [OF fr(1)] by simp
  then show "lookup an_uploading_os ''/tmp/f'' \<noteq> None" by (simp add: installed_os_def lookup_def)
  show "session_ok an_uploading_agent an_uploading_os"
    using c(2) by (simp add: session_ok_def an_uploading_agent_def an_open_upload_def no_session_def upload_temp_def length_hex_string HASH_HEX_LEN_def)
  have "upload_ready ?q ''app'' [''tmp''] ''f'' [] installed_os"
    using i(2) installed_os_ready(3,5)
    by (auto simp: upload_ready_def an_upload_def path_of_def comps_ok_def plain_name_def upload_temp_def after_install_def
      MAX_PATH_LEN_def MAX_APP_NAME_LEN_def BACKUP_DIR_def METADATA_FILE_def in_backups_def backup_dir_of_def
      store_dirs_def cstr_def dir_prefixes_def Let_def installed_os_def lookup_def)
  from upload_end_quiet [OF this c(1) fr, of an_uploading_agent an_open_upload rq] c(2)
  show "\<exists>resp ag' s'. handle_upload_end rq an_uploading_agent an_uploading_os = (Inr (resp, ag'), s') \<and> rs_success resp"
    by (auto simp: an_uploading_agent_def an_agent_def an_open_upload_def path_of_def an_upload_def req_init_def no_session_def)
qed

theorem upload_not_atomic_witness:
  "\<exists>resp ag' s'. handle_upload_end req_init an_uploading_agent an_uploading_os = (Inr (resp, ag'), s') \<and>
    (\<exists>f \<in> set (fs_log s'). map_of f ''/tmp/f'' = None)"
proof -
  obtain resp ag' s' where e: "handle_upload_end req_init an_uploading_agent an_uploading_os = (Inr (resp, ag'), s')" "rs_success resp"
    using an_upload_ends(5) by blast
  show ?thesis using upload_not_atomic [OF e an_upload_ends(1), of "[]"] an_upload_ends(2,3) e(1)
    by (auto simp: an_uploading_agent_def an_open_upload_def upload_temp_def in_backups_def BACKUP_DIR_def)
qed

theorem upload_gate_witness:
  "\<exists>resp ag' s'. handle_upload_end req_init an_uploading_agent an_uploading_os = (Inr (resp, ag'), s') \<and> rs_success resp \<and>
    (\<exists>k. hex_string (sha256 (take k [])) = us_expected_checksum an_open_upload)"
proof -
  obtain resp ag' s' where e: "handle_upload_end req_init an_uploading_agent an_uploading_os = (Inr (resp, ag'), s')" "rs_success resp"
    using an_upload_ends(5) by blast
  show ?thesis using upload_gate [OF e(1) an_upload_ends(4) _ refl refl, of "[]"] an_upload_ends(2) e
    by (auto simp: an_uploading_agent_def an_open_upload_def upload_temp_def in_backups_def BACKUP_DIR_def)
qed

theorem upload_session_invariant_witness:
  "\<exists>resp ag' s'. handle_upload_start an_upload an_agent (tmp_os []) = (Inr (resp, ag'), s') \<and> us_temp_file (ag_upload ag') \<and>
    length (us_expected_checksum (ag_upload ag')) = HASH_HEX_LEN"
proof -
  have c: "can_create (tmp_os []) (upload_temp ''app'')"
    by (simp add: tmp_os_def can_create_def dir_exists_def upload_temp_def dirname_def)
  have "\<not> us_active (ag_upload an_agent)" by (simp add: an_agent_def no_session_def)
  from start_quiet [OF this, of an_upload "''app''" "''/opt/f''" "hex_string (sha256 [1, 2, 3])" "upload_temp ''app''" "tmp_os []"] c
  obtain resp ag' s' where h: "handle_upload_start an_upload an_agent (tmp_os []) = (Inr (resp, ag'), s')" "us_active (ag_upload ag')"
    by (auto simp: an_upload_def MAX_PATH_LEN_def length_hex_string HASH_HEX_LEN_def tmp_os_create upload_temp_def)
  have "upload_step\<^sup>*\<^sup>* (an_agent, tmp_os []) (ag', s')" using upload_step.start [OF h(1)] by (rule r_into_rtranclp)
  from upload_session_invariant [OF this] h show ?thesis by (simp add: an_agent_def)
qed

end
