(* ===== verification/Rollback.thy ===== *)
theory Rollback
  imports Upload_Safety "HOL-Library.Multiset"
begin

text \<open>
  Rollback and the version list (\<open>handle_rollback\<close>, \<open>handle_list_versions\<close> of
  \<open>deploy_handler.c\<close>): the exchange sort and the choice of the next version, what the collection
  over the backup directory gives, one rollback, repeated rollbacks as a cycle through the stored
  versions, and the list that is written past its end. Command sequences are those of \<open>Upload_Safety\<close>.
\<close>

section \<open>The dial\<close>

text \<open>The exchange sort orders the entries newest first and loses none.\<close>

lemma dial_pass_mset: "dial_pass x ys = (z, zs) \<Longrightarrow> add_mset z (mset zs) = add_mset x (mset ys)"
  by (induction x ys arbitrary: z zs rule: dial_pass.induct) (auto split: if_splits prod.splits)

lemma dial_pass_max: "dial_pass x ys = (z, zs) \<Longrightarrow> de_mtime x \<le> de_mtime z \<and> (\<forall>e \<in> set zs. de_mtime e \<le> de_mtime z)"
  by (induction x ys arbitrary: z zs rule: dial_pass.induct) (fastforce split: if_splits prod.splits)+

lemma dial_sort_mset: "mset (dial_sort es) = mset es"
  by (induction es rule: dial_sort.induct) (auto split: prod.splits dest!: dial_pass_mset)

lemma dial_sort_sorted: "sorted_wrt (\<lambda>a b. de_mtime b \<le> de_mtime a) (dial_sort es)"
proof (induction es rule: dial_sort.induct)
  case (2 x xs)
  obtain z zs where p: "dial_pass x xs = (z, zs)" by force
  have "set (dial_sort zs) = set zs" using dial_sort_mset [of zs] by (metis set_mset_mset)
  then show ?case using 2 p dial_pass_max [OF p] by auto
qed simp

lemma dial_sort_set [simp]: "set (dial_sort es) = set es" "length (dial_sort es) = length es"
  using dial_sort_mset [of es] by (metis set_mset_mset, metis size_mset)

lemma dial_sort_hashes: "distinct (map de_hash es) \<Longrightarrow> distinct (map de_hash (dial_sort es))"
  using dial_sort_mset [of es] by (metis mset_eq_imp_distinct_iff mset_map)

lemma dial_index_nth:
  assumes "distinct (map de_hash es)" "i < length es"
  shows "dial_index (de_hash (es ! i)) es = Some i"
  using assms
proof (induction es arbitrary: i)
  case (Cons e es)
  then show ?case by (cases i) auto
qed simp

lemma dial_index_None: "dial_index h es = None \<longleftrightarrow> h \<notin> de_hash ` set es"
  by (induction es) auto

text \<open>One step of the dial without a requested hash, as a function of the hash that is installed.\<close>

lemma dial_next:
  assumes "distinct (map de_hash es)" "i < length es" "de_hash (dial_sort es ! i) \<noteq> []" "\<not> present hash"
  shows "dial_select hash (de_hash (dial_sort es ! i)) es = Some (dial_sort es ! ((i + 1) mod length es), dial_sort es)"
  using assms dial_index_nth [OF dial_sort_hashes [OF assms(1)], of i] by (simp add: dial_select_def Let_def)

lemma dial_first:
  "\<not> present hash \<Longrightarrow> h \<notin> de_hash ` set es \<Longrightarrow> dial_select hash h es = Some (dial_sort es ! 0, dial_sort es)"
  using dial_index_None [of h "dial_sort es"] by (simp add: dial_select_def Let_def)

lemma dial_select_mem:
  "dial_select hash h es = Some (e, es') \<Longrightarrow> es \<noteq> [] \<Longrightarrow> e \<in> set es \<and> set es' = set es"
  unfolding dial_select_def Let_def
  by (auto simp: find_Some_iff split: if_splits option.splits)
    (metis dial_sort_set length_greater_0_conv mod_less_divisor nth_mem)+

section \<open>What a directory's listing depends on\<close>

text \<open>\<open>same_dir d s s'\<close>: the directory lists the same names in the same order, and its files are the same.\<close>

definition same_dir :: "string \<Rightarrow> os \<Rightarrow> os \<Rightarrow> bool" where
  "same_dir d s s' \<longleftrightarrow> dir_entries s' d = dir_entries s d \<and> (\<forall>p. dirname p = d \<longrightarrow> lookup s' p = lookup s p)"

interpretation listing: step_relation "same_dir d" for d
  by unfold_locales (auto simp: same_dir_def)

named_theorems listings \<open>calls that leave a directory's listing alone\<close>

lemma same_dir_refl [listings]: "same_dir d s s"
  by (rule listing.stay)

lemma same_dir_trans [trans]: "same_dir d s t \<Longrightarrow> same_dir d t u \<Longrightarrow> same_dir d s u"
  by (rule listing.chain)

lemma filter_update: "\<not> P p \<Longrightarrow> filter P (map fst (AList.update p f xs)) = filter P (map fst xs)"
  by (induction xs) auto

lemma filter_delete: "\<not> P p \<Longrightarrow> filter P (map fst (AList.delete p xs)) = filter P (map fst xs)"
  by (induction xs) (auto simp: AList.delete_eq)

lemma same_dir_store [listings]: "dirname p \<noteq> d \<Longrightarrow> same_dir d s (store p f s)"
  using filter_update [of "\<lambda>q. dirname q = d" p f "fs s"]
  by (auto simp: same_dir_def dir_entries_def store_def put_fs_def lookup_def update_conv')

lemma same_dir_discard [listings]: "dirname p \<noteq> d \<Longrightarrow> same_dir d s (discard p s)"
  using filter_delete [of "\<lambda>q. dirname q = d" p "fs s"]
  by (auto simp: same_dir_def dir_entries_def discard_def put_fs_def lookup_def delete_conv')

lemma same_dir_append [listings]: "dirname p \<noteq> d \<Longrightarrow> same_dir d s (append_file p b s)"
  by (auto simp: append_file_def intro: listings split: option.splits)

lemma same_dir_truncate [listings]: "dirname p \<noteq> d \<Longrightarrow> same_dir d s (truncate_file p k s)"
  by (auto simp: truncate_file_def intro: listings split: option.splits)

lemma same_dir_outcome: "same_dir d (snd (next_outcome s)) t \<Longrightarrow> same_dir d s t"
  by (auto simp: same_dir_def next_outcome_def dir_entries_def lookup_def split: list.splits)

lemma same_dir_calls [listings]:
  "same_dir d s (snd (fopen_r p s))" "same_dir d s (snd (snd (snd (fread n r s))))"
  "dirname p \<noteq> d \<Longrightarrow> same_dir d s (snd (fopen_w p s))" "dirname p \<noteq> d \<Longrightarrow> same_dir d s (snd (fwrite p b s))"
  "dirname p \<noteq> d \<Longrightarrow> same_dir d s (snd (fclose_w p s))" "dirname p \<noteq> d \<Longrightarrow> same_dir d s (snd (unlink p s))"
  "dirname p \<noteq> d \<Longrightarrow> same_dir d s (snd (chmod p m s))" "same_dir d s (snd (stat p s))"
  by (rule same_dir_outcome; auto simp: fopen_r_def fread_def fopen_w_def fwrite_def fflush_def fclose_w_def unlink_def
      chmod_def stat_def Let_def intro: listings split: outcome.splits prod.splits option.splits)+

lemma same_dir_mkdir [listings]: "dirname p \<noteq> d \<Longrightarrow> same_dir d s (snd (mkdir p s))"
  by (rule same_dir_outcome) (auto simp: mkdir_def same_dir_def dir_entries_def lookup_def split: outcome.splits prod.splits)

lemma same_dir_copy [listings]: "dirname dst \<noteq> d \<Longrightarrow> same_dir d s (snd (copy_file src dst s))"
  unfolding copy_file_def Let_def by (intro listing.steps listings listing.copy_loop_step; assumption?)

lemma same_dir_restore [listings]: "dirname dst \<noteq> d \<Longrightarrow> same_dir d s (snd (backup_restore b dst s))"
  unfolding backup_restore_def by (intro listing.steps listings; assumption)

lemma same_dir_write_all [listings]: "dirname p \<noteq> d \<Longrightarrow> same_dir d s (snd (write_all p bs ok s))"
  by (induction bs arbitrary: ok s) (auto intro!: listing.steps listings)

lemma same_dir_save_metadata: "dirname METADATA_FILE \<noteq> d \<Longrightarrow> dirname METADATA_DIR \<noteq> d \<Longrightarrow> same_dir d s (snd (save_metadata m s))"
  unfolding save_metadata_def ensure_dir_def by (intro listing.steps listings; assumption)

lemma save_quietly: "quietly {METADATA_DIR} s (snd (save_metadata m s))"
proof -
  have w: "quietly {METADATA_DIR} s (snd (write_all p bs ok s))" for p bs ok s
    by (induction bs arbitrary: ok s) (auto intro!: quiet_steps quiets)
  show ?thesis unfolding save_metadata_def ensure_dir_def by (intro quiet_steps quiets w) simp
qed

text \<open>Saving with a loaded cache either changes nothing or writes the metadata file.\<close>

lemma save_state:
  assumes "am_loaded m" "app_metadata_save n p h m s = (Some (r, m'), s')"
  shows "am_loaded m' \<and> (s' = s \<or> s' = snd (save_metadata m' s))"
  using save_is_put [OF assms] assms(1) by (auto split: option.splits)

section \<open>Collecting the versions\<close>

text \<open>A store as \<open>backup_create\<close> leaves it: every file is named by a time and the hash of its bytes.\<close>

definition stamped_store :: "os \<Rightarrow> string \<Rightarrow> bool" where
  "stamped_store s app \<longleftrightarrow> (\<forall>p \<in> set (map fst (fs s)). dirname p = backup_dir_of app \<longrightarrow>
     (\<exists>t d. tm_ok t \<and> contents s p = Some d \<and> after_last CHR ''/'' p = stamp t @ ''-'' @ hex_string (sha256 d) @ ''.bak''))"

text \<open>The versions a rollback collects, and what they are.\<close>

definition dial_entries :: "os \<Rightarrow> string \<Rightarrow> dial_entry list" where
  "dial_entries s app = snd (fst (backup_list rollback_collect_callback app [] s))"

definition dial_ok :: "os \<Rightarrow> string \<Rightarrow> dial_entry list \<Rightarrow> bool" where
  "dial_ok s dir es \<longleftrightarrow> distinct (map de_hash es) \<and>
     (\<forall>e \<in> set es. dirname (de_path e) = dir \<and> (\<exists>d. contents s (de_path e) = Some d \<and> de_hash e = hex_string (sha256 d)))"

definition stamped :: "os \<Rightarrow> string \<Rightarrow> string \<times> bool \<Rightarrow> bool" where
  "stamped s dir e \<longleftrightarrow> (snd e \<longrightarrow> (\<exists>t d. tm_ok t \<and> contents s (dir @ ''/'' @ fst e) = Some d \<and>
     fst e = stamp t @ ''-'' @ hex_string (sha256 d) @ ''.bak''))"

lemma collect_one:
  assumes "script s = []" "dial_ok s dir u" "bi_path b = p" "bi_hash b = hex_string (sha256 d)" "contents s p = Some d"
    "dirname p = dir" "length p < MAX_PATH_LEN"
  obtains u' where "rollback_collect_callback b u s = (u', s)" "dial_ok s dir u'" "de_hash ` set u \<subseteq> de_hash ` set u'"
    "length u' < MAX_DIAL_ENTRIES \<Longrightarrow> hex_string (sha256 d) \<in> de_hash ` set u'" "length u \<le> length u'"
proof -
  have st: "snd (stat p s) = s" using assms(1) by (simp add: stat_def io_simps)
  have c: "cstr HASH_BUF_LEN (hex_string (sha256 d)) = hex_string (sha256 d)" "cstr MAX_PATH_LEN p = p"
    using assms(7) by (simp_all add: length_hex_string HASH_BUF_LEN_def)
  let ?e = "\<lparr>de_hash = hex_string (sha256 d), de_path = p, de_mtime = mtime_of (fst (stat p s))\<rparr>"
  show ?thesis
  proof (cases "MAX_DIAL_ENTRIES \<le> length u \<or> (\<exists>e \<in> set u. de_hash e = bi_hash b)")
    case True
    then have "rollback_collect_callback b u s = (u, s)" by (auto simp: rollback_collect_callback_def)
    moreover have "hex_string (sha256 d) \<in> de_hash ` set u" if "length u < MAX_DIAL_ENTRIES"
      using True that assms(4) by (metis image_eqI linorder_not_le)
    ultimately show ?thesis using that [of u] assms(2) by blast
  next
    case False
    then have "rollback_collect_callback b u s = (u @ [?e], s)"
      using assms(3,4) st c by (auto simp: rollback_collect_callback_def split: prod.splits)
    then show ?thesis by (rule that) (use False assms(2,4-6) in \<open>auto simp: dial_ok_def\<close>)
  qed
qed

lemma collect_entries:
  assumes "script s = []" "list_all (stamped s dir) es" "length dir < 88" "dir \<noteq> []" "dial_ok s dir u"
  shows "\<exists>c' u'. list_entries rollback_collect_callback dir es c u s = ((c', u'), s) \<and> c \<le> c' \<and> dial_ok s dir u' \<and>
    de_hash ` set u \<subseteq> de_hash ` set u' \<and> length u \<le> length u' \<and>
    (length u' < MAX_DIAL_ENTRIES \<longrightarrow> (\<forall>n d. (n, True) \<in> set es \<longrightarrow> contents s (dir @ ''/'' @ n) = Some d \<longrightarrow>
       hex_string (sha256 d) \<in> de_hash ` set u'))"
  using assms(2,5)
proof (induction es arbitrary: c u)
  case (Cons e es)
  obtain n reg where e: "e = (n, reg)" by force
  show ?case
  proof (cases reg)
    case False
    then show ?thesis using Cons e by simp
  next
    case True
    then obtain t d where td: "tm_ok t" "contents s (dir @ ''/'' @ n) = Some d" "n = stamp t @ ''-'' @ hex_string (sha256 d) @ ''.bak''"
      using Cons.prems(1) e by (auto simp: stamped_def)
    let ?p = "dir @ ''/'' @ n"
    have ln: "length n = 84" using td(1) by (simp add: td(3) length_stamp length_hex_string)
    have cp: "cstr MAX_PATH_LEN ?p = ?p" "length ?p < MAX_PATH_LEN" using ln assms(3) by (simp_all add: MAX_PATH_LEN_def)
    have "CHR ''/'' \<notin> set n" using stamp_plain hex_string_plain by (auto simp: td(3))
    then have dn: "dirname ?p = dir" using dirname_snoc [of n dir] assms(4) by simp
    let ?b = "\<lparr>bi_version = stamp t @ ''-'' @ hex_string (sha256 d), bi_timestamp = iso_tm t, bi_hash = hex_string (sha256 d), bi_path = ?p\<rparr>"
    have pa: "parse_backup_filename n ?p s = (Some ?b, s)" using parse_stamp [OF td(1), of "sha256 d" ?p s] td(3) by simp
    from collect_one [OF assms(1) Cons.prems(2) _ _ td(2) dn cp(2), of ?b] obtain u' where
      u: "rollback_collect_callback ?b u s = (u', s)" "dial_ok s dir u'" "de_hash ` set u \<subseteq> de_hash ` set u'"
        "length u' < MAX_DIAL_ENTRIES \<Longrightarrow> hex_string (sha256 d) \<in> de_hash ` set u'" "length u \<le> length u'" by auto
    have "list_all (stamped s dir) es" using Cons.prems(1) by simp
    from Cons.IH [OF this u(2), of "c + 1"] obtain c' u'' where
      i: "list_entries rollback_collect_callback dir es (c + 1) u' s = ((c', u''), s)" "c + 1 \<le> c'" "dial_ok s dir u''"
        "de_hash ` set u' \<subseteq> de_hash ` set u''" "length u' \<le> length u''"
        "length u'' < MAX_DIAL_ENTRIES \<longrightarrow> (\<forall>n d. (n, True) \<in> set es \<longrightarrow> contents s (dir @ ''/'' @ n) = Some d \<longrightarrow>
           hex_string (sha256 d) \<in> de_hash ` set u'')" by blast
    have "list_entries rollback_collect_callback dir (e # es) c u s = ((c', u''), s)"
      using e True pa u(1) i(1) cp(1) by simp
    moreover have "hex_string (sha256 d') \<in> de_hash ` set u''"
      if "length u'' < MAX_DIAL_ENTRIES" "(n', True) \<in> set (e # es)" "contents s (dir @ ''/'' @ n') = Some d'" for n' d'
    proof (cases "n' = n")
      case True
      then have "d' = d" using that(3) td(2) by simp
      then show ?thesis using u(4) i(4,5) that(1) by (meson order_le_less_trans subsetD)
    qed (use that i(6) e in auto)
    ultimately show ?thesis using i u(3,5) by (intro exI [of _ c'] exI [of _ u'']) auto
  qed
qed simp

text \<open>A listing in a quiet state.\<close>

definition rollback_ready :: "os \<Rightarrow> string \<Rightarrow> string \<Rightarrow> bool" where
  "rollback_ready s app remote \<longleftrightarrow> script s = [] \<and> plain_name app \<and> stamped_store s app \<and> dir_exists s (backup_dir_of app) \<and>
     can_create s remote \<and> \<not> in_backups remote \<and> remote \<noteq> METADATA_FILE \<and> remote \<noteq> METADATA_DIR \<and>
     dirname remote \<noteq> backup_dir_of app"

lemma stamped_entries:
  assumes "stamped_store s app" "plain_name app"
  shows "list_all (stamped s (backup_dir_of app)) (dir_entries s (backup_dir_of app))"
proof -
  let ?d = "backup_dir_of app"
  have "stamped s ?d (after_last CHR ''/'' p, True)" if "p \<in> fst ` set (fs s)" "dirname p = ?d" for p
  proof -
    have "p = ?d @ ''/'' @ after_last CHR ''/'' p"
      using path_in_dir [OF that(2)] backup_dir_plain(4) [OF assms(2)] by (simp add: BACKUP_DIR_def)
    then show ?thesis using assms(1) that by (auto simp: stamped_store_def stamped_def)
  qed
  moreover have "stamped s ?d (n, False)" for n by (simp add: stamped_def)
  ultimately show ?thesis unfolding dir_entries_def list_all_iff by auto
qed

lemma dial_listing:
  assumes "rollback_ready s app remote"
  obtains c where "backup_list rollback_collect_callback app [] s = ((c, dial_entries s app), s)" "0 \<le> c"
    "dial_ok s (backup_dir_of app) (dial_entries s app)"
proof -
  have r: "script s = []" "plain_name app" "stamped_store s app" "dir_exists s (backup_dir_of app)"
    using assms by (simp_all add: rollback_ready_def)
  let ?d = "backup_dir_of app"
  have "?d \<noteq> []" "length ?d < 88" using backup_dir_plain(3,4) [OF r(2)] by (simp_all add: BACKUP_DIR_def)
  from collect_entries [OF r(1) stamped_entries [OF r(3,2)] this(2,1), of "[]" 0] obtain c u where
    "list_entries rollback_collect_callback ?d (dir_entries s ?d) 0 [] s = ((c, u), s)" "0 \<le> c" "dial_ok s ?d u"
    by (auto simp: dial_ok_def)
  moreover from this(1) have b: "backup_list rollback_collect_callback app [] s = ((c, u), s)"
    using opendir_quiet [OF r(1,4)] by (simp add: backup_list_def Let_def)
  moreover from b have "u = dial_entries s app" by (simp add: dial_entries_def)
  ultimately show ?thesis using that by blast
qed

text \<open>The hash of a file, as the rollback reads it: empty when there is no file.\<close>

definition hash_at :: "os \<Rightarrow> string \<Rightarrow> string" where
  "hash_at s p = (case contents s p of None \<Rightarrow> [] | Some d \<Rightarrow> hex_string (sha256 d))"

lemma checksum_hash_at:
  assumes "script s = []"
  shows "\<exists>h. compute_file_checksum p HASH_BUF_LEN s = (h, s) \<and> (case h of None \<Rightarrow> [] | Some h \<Rightarrow> h) = hash_at s p"
proof (cases "contents s p")
  case None
  then have "fopen_r p s = (None, s)" using assms by (simp add: fopen_r_def io_simps)
  then show ?thesis using None by (simp add: compute_file_checksum_def hash_at_def HASH_BUF_LEN_def HASH_HEX_LEN_def)
next
  case (Some d)
  then show ?thesis using checksum_quiet [OF assms Some] by (simp add: hash_at_def)
qed

lemma hex_ne: "hex_string (sha256 d) \<noteq> []"
  using length_hex_string [of "sha256 d"] by auto

section \<open>One rollback\<close>

lemma stat_same:
  assumes "script s = []" "script s' = []" "lookup s' p = lookup s p" "dir_exists s' p = dir_exists s p"
  shows "fst (stat p s') = fst (stat p s)" "snd (stat p s') = s'" "snd (stat p s) = s"
  using assms by (simp_all add: stat_def io_simps)

lemma collect_same:
  assumes "fst (stat (bi_path b) s') = fst (stat (bi_path b) s)" "snd (stat (bi_path b) s') = s'" "snd (stat (bi_path b) s) = s"
  obtains u' where "rollback_collect_callback b u s = (u', s)" "rollback_collect_callback b u s' = (u', s')"
proof -
  obtain r where "stat (bi_path b) s = (r, s)" "stat (bi_path b) s' = (r, s')" using assms by (metis prod.collapse)
  then have "rollback_collect_callback b u s = (fst (rollback_collect_callback b u s), s)"
    "rollback_collect_callback b u s' = (fst (rollback_collect_callback b u s), s')"
    by (simp_all add: rollback_collect_callback_def)
  then show ?thesis by (rule that)
qed

text \<open>Two states with the same listing have the same dial.\<close>

lemma list_same:
  assumes "script s = []" "script s' = []" "same_dir dir s s'" "dir \<noteq> []" "length dir < 88"
    "\<And>p. dirname p = dir \<Longrightarrow> dir_exists s' p = dir_exists s p" "list_all (stamped s dir) es"
  shows "fst (list_entries rollback_collect_callback dir es c u s') = fst (list_entries rollback_collect_callback dir es c u s)"
  using assms(7)
proof (induction es arbitrary: c u)
  case (Cons e es)
  obtain n reg where e: "e = (n, reg)" by force
  show ?case
  proof (cases reg)
    case True
    then obtain t d where td: "tm_ok t" "n = stamp t @ ''-'' @ hex_string (sha256 d) @ ''.bak''"
      using Cons.prems e by (auto simp: stamped_def)
    let ?p = "dir @ ''/'' @ n"
    have ln: "length n = 84" using td(1) by (simp add: td(2) length_stamp length_hex_string)
    have cp: "cstr MAX_PATH_LEN ?p = ?p" using ln assms(5) by (simp add: MAX_PATH_LEN_def)
    have "CHR ''/'' \<notin> set n" using stamp_plain hex_string_plain by (auto simp: td(2))
    then have dn: "dirname ?p = dir" using dirname_snoc [of n dir] assms(4) by simp
    let ?b = "\<lparr>bi_version = stamp t @ ''-'' @ hex_string (sha256 d), bi_timestamp = iso_tm t, bi_hash = hex_string (sha256 d), bi_path = ?p\<rparr>"
    have pa: "parse_backup_filename n ?p x = (Some ?b, x)" for x using parse_stamp [OF td(1), of "sha256 d" ?p x] td(2) by simp
    note st = stat_same [OF assms(1,2), of ?p]
    have "lookup s' ?p = lookup s ?p" using assms(3) dn by (simp add: same_dir_def)
    note st = st [OF this assms(6) [OF dn]]
    obtain u' where "rollback_collect_callback ?b u s = (u', s)" "rollback_collect_callback ?b u s' = (u', s')"
      using collect_same [of ?b s' s u] st by auto
    then show ?thesis using e True pa cp Cons by simp
  qed (use Cons e in simp)
qed simp

lemma dial_same:
  assumes "rollback_ready s app remote" "same_dir (backup_dir_of app) s s'" "quietly {METADATA_DIR} s s'"
  shows "rollback_ready s' app remote" "dial_entries s' app = dial_entries s app"
proof -
  let ?d = "backup_dir_of app"
  have r: "script s = []" "plain_name app" "stamped_store s app" "dir_exists s ?d" "can_create s remote" "remote \<noteq> METADATA_DIR"
    using assms(1) by (simp_all add: rollback_ready_def)
  have c: "contents s' p = contents s p" "p \<in> set (map fst (fs s')) \<longleftrightarrow> p \<in> set (map fst (fs s))" if "dirname p = ?d" for p
    using that assms(2) lookup_None_iff [of s p] lookup_None_iff [of s' p] by (auto simp: same_dir_def contents_def)
  have q: "script s' = []" "dir_exists s' ?d" "can_create s' remote"
    using assms(3) r quiet_dir [OF assms(3)] quiet_create [OF assms(3)] by (auto simp: quietly_def)
  moreover have "stamped_store s' app" using r(3) c unfolding stamped_store_def by (metis (no_types, lifting))
  ultimately show "rollback_ready s' app remote" using assms(1) by (simp add: rollback_ready_def)
  have dl: "?d \<noteq> []" "length ?d < 88" using backup_dir_plain(3,4) [OF r(2)] by (simp_all add: BACKUP_DIR_def)
  have "?d \<noteq> dirname METADATA_DIR"
    using backup_dir_plain(4) [OF r(2)] by (simp add: BACKUP_DIR_def METADATA_DIR_def dirname_def)
  then have "dir_exists s' p = dir_exists s p" if "dirname p = ?d" for p
    using that assms(3) by (auto simp: quietly_def dir_exists_def)
  from list_same [OF r(1) q(1) assms(2) dl this stamped_entries [OF r(3,2)], of 0 "[]"]
  show "dial_entries s' app = dial_entries s app"
    using opendir_quiet [OF r(1,4)] opendir_quiet [OF q(1,2)] assms(2)
    by (simp add: dial_entries_def backup_list_def Let_def same_dir_def)
qed

lemma restore_step:
  assumes "script s = []" "can_create s remote" "contents s (de_path e) = Some d" "am_loaded (ag_meta ag)"
    "remote \<noteq> METADATA_FILE" "current_hash = [] \<or> current_hash \<in> de_hash ` set es"
  shows "\<exists>resp ag' s'. rollback_restore app remote current_hash (e, es) ag s = (Inr (resp, ag'), s') \<and> rs_success resp \<and>
    rs_backup_path resp = de_path e \<and> contents s' remote = Some d \<and> am_loaded (ag_meta ag') \<and>
    quietly {METADATA_DIR} s s' \<and>
    (\<forall>dir. dirname remote \<noteq> dir \<longrightarrow> dirname METADATA_FILE \<noteq> dir \<longrightarrow> dirname METADATA_DIR \<noteq> dir \<longrightarrow> same_dir dir s s')"
proof -
  from restore_quiet [OF assms(1,3,2)] obtain s1 where b: "backup_restore (de_path e) remote s = (0, s1)"
    "contents s1 remote = Some d" "script s1 = []" by blast
  have r: "quietly {METADATA_DIR} (s::os) (snd (backup_restore a c s))" for a c s
    unfolding backup_restore_def by (intro quiet_steps quiets)
  have q: "quietly {METADATA_DIR} s s1" using r [of s "de_path e" remote] b(1) by simp
  have k: "same_dir dir s s1" if "dirname remote \<noteq> dir" for dir
    using same_dir_restore [OF that, of s "de_path e"] b(1) by simp
  obtain rc m s2 where m: "app_metadata_save app remote (de_hash e) (ag_meta ag) s1 = (Some (rc, m), s2)"
    using save_total [OF assms(4)] by blast
  note sv = save_state [OF assms(4) m]
  have "contents s2 remote = Some d"
    using frame_contents [OF app_metadata_save_frame [of "\<lambda>q. q = METADATA_FILE" s1 app remote "de_hash e" "ag_meta ag"], of remote]
      assms(5) b(2) m by simp
  moreover have "quietly {METADATA_DIR} s s2" using sv q quiet_trans [OF q save_quietly [of s1 m]] by auto
  moreover have "same_dir dir s s2" if "dirname remote \<noteq> dir" "dirname METADATA_FILE \<noteq> dir" "dirname METADATA_DIR \<noteq> dir" for dir
    using sv k [OF that(1)] same_dir_trans [OF k [OF that(1)] same_dir_save_metadata [OF that(2,3), of s1 m]] by auto
  moreover have "rollback_restore app remote current_hash (e, es) ag s =
      (Inr (resp_init\<lparr>rs_success := True, rs_backup_path := de_path e\<rparr>, ag\<lparr>ag_meta := m\<rparr>), s2)"
    using b(1) m assms(6) by (auto simp: rollback_restore_def)
  ultimately show ?thesis using sv by auto
qed

lemma ready_dirs:
  assumes "rollback_ready s app remote"
  shows "dirname remote \<noteq> backup_dir_of app" "dirname METADATA_FILE \<noteq> backup_dir_of app" "dirname METADATA_DIR \<noteq> backup_dir_of app"
  using assms backup_dir_plain(4) [of app]
  by (simp_all add: rollback_ready_def METADATA_FILE_def METADATA_DIR_def dirname_def BACKUP_DIR_def)

lemma rollback_selects:
  assumes "rollback_ready s app remote" "dr_app_name req = Some app" "dr_remote_path req = Some remote" "dial_entries s app \<noteq> []"
    "dial_select (dr_rollback_hash req) (hash_at s remote) (dial_entries s app) = Some sel"
  shows "handle_rollback req ag s = rollback_restore app remote (hash_at s remote) sel ag s"
proof -
  have r: "script s = []" "app \<noteq> []" "remote \<noteq> []" using assms(1) by (auto simp: rollback_ready_def plain_name_def can_create_def)
  obtain h where h: "compute_file_checksum remote HASH_BUF_LEN s = (h, s)" "(case h of None \<Rightarrow> [] | Some h \<Rightarrow> h) = hash_at s remote"
    using checksum_hash_at [OF r(1)] by blast
  obtain c where "backup_list rollback_collect_callback app [] s = ((c, dial_entries s app), s)" "0 \<le> c"
    by (rule dial_listing [OF assms(1)])
  then show ?thesis using assms(2-5) r h by (simp add: handle_rollback_def rollback_to_def present_def)
qed

text \<open>A rollback from a version the dial knows, or from none.\<close>

lemma rollback_known:
  assumes "rollback_ready s app remote" "dr_app_name req = Some app" "dr_remote_path req = Some remote" "dial_entries s app \<noteq> []"
    "dial_select (dr_rollback_hash req) (hash_at s remote) (dial_entries s app) = Some (e, es)" "am_loaded (ag_meta ag)"
    "hash_at s remote = [] \<or> hash_at s remote \<in> de_hash ` set (dial_entries s app)"
  shows "\<exists>resp ag' s'. handle_rollback req ag s = (Inr (resp, ag'), s') \<and> rs_success resp \<and> rs_backup_path resp = de_path e \<and>
    hash_at s' remote = de_hash e \<and> am_loaded (ag_meta ag') \<and> rollback_ready s' app remote \<and>
    dial_entries s' app = dial_entries s app \<and> same_dir (backup_dir_of app) s s'"
proof -
  have r: "script s = []" "can_create s remote" "remote \<noteq> METADATA_FILE" using assms(1) by (simp_all add: rollback_ready_def)
  have m: "e \<in> set (dial_entries s app)" "set es = set (dial_entries s app)" using dial_select_mem [OF assms(5,4)] by auto
  have "dial_ok s (backup_dir_of app) (dial_entries s app)" by (rule dial_listing [OF assms(1)])
  then obtain d where d: "contents s (de_path e) = Some d" "de_hash e = hex_string (sha256 d)" using m(1) by (auto simp: dial_ok_def)
  have "hash_at s remote = [] \<or> hash_at s remote \<in> de_hash ` set es" using assms(7) m(2) by simp
  from restore_step [OF r(1,2) d(1) assms(6) r(3) this, of app] ready_dirs [OF assms(1)] obtain resp ag' s' where
    s: "rollback_restore app remote (hash_at s remote) (e, es) ag s = (Inr (resp, ag'), s')" "rs_success resp"
      "rs_backup_path resp = de_path e" "contents s' remote = Some d" "am_loaded (ag_meta ag')"
      "quietly {METADATA_DIR} s s'" "same_dir (backup_dir_of app) s s'" by blast
  moreover have "hash_at s' remote = de_hash e" using s(4) d(2) by (simp add: hash_at_def)
  ultimately show ?thesis using rollback_selects [OF assms(1-5), of ag] dial_same [OF assms(1) s(7,6)] by simp
qed

text \<open>A rollback from a version that is in no backup: it is backed up first.\<close>

lemma rollback_unknown:
  assumes "rollback_ready s app remote" "dr_app_name req = Some app" "dr_remote_path req = Some remote" "dial_entries s app \<noteq> []"
    "dial_select (dr_rollback_hash req) (hash_at s remote) (dial_entries s app) = Some (e, es)" "am_loaded (ag_meta ag)"
    "hash_at s remote \<noteq> []" "hash_at s remote \<notin> de_hash ` set (dial_entries s app)" "store_ready s app" "remote \<notin> store_dirs app"
  shows "\<exists>resp ag' s' p. handle_rollback req ag s = (Inr (resp, ag'), s') \<and> rs_success resp \<and> rs_backup_path resp = de_path e \<and>
    hash_at s' remote = de_hash e \<and> in_backups p \<and> hash_at s' p = hash_at s remote"
proof -
  have r: "script s = []" "can_create s remote" "remote \<noteq> METADATA_FILE" "plain_name app" "\<not> in_backups remote"
    using assms(1) by (simp_all add: rollback_ready_def)
  have m: "e \<in> set (dial_entries s app)" "set es = set (dial_entries s app)" using dial_select_mem [OF assms(5,4)] by auto
  have "dial_ok s (backup_dir_of app) (dial_entries s app)" by (rule dial_listing [OF assms(1)])
  then obtain d where d: "contents s (de_path e) = Some d" "de_hash e = hex_string (sha256 d)" using m(1) by (auto simp: dial_ok_def)
  obtain d0 where d0: "contents s remote = Some d0" "hash_at s remote = hex_string (sha256 d0)"
    using assms(7) by (auto simp: hash_at_def split: option.splits)
  have sr: "backup_store s app" "backup_dirs_free s app" "tm_ok (clock s)" using assms(9) by (simp_all add: store_ready_def)
  from backup_create_result [OF r(1,4) d0(1) sr] obtain name d1 s1 where
    b: "backup_create app remote MAX_PATH_LEN s = (0, backup_dir_of app @ ''/'' @ name, s1)"
      "contents s1 (backup_dir_of app @ ''/'' @ name) = Some d1" "hex_string (sha256 d1) = hex_string (sha256 d0)"
      "\<forall>p c. contents s p = Some c \<longrightarrow> contents s1 p = Some c" by blast
  let ?p = "backup_dir_of app @ ''/'' @ name"
  have q: "quietly (store_dirs app) s s1" using backup_create_quietly [OF r(4), of s remote MAX_PATH_LEN] b(1) by simp
  have s1: "script s1 = []" "can_create s1 remote" "contents s1 (de_path e) = Some d"
    using q r(1) quiet_create [OF q r(2) assms(10)] b(4) d(1) by (auto simp: quietly_def)
  from restore_step [OF s1 assms(6) r(3), of "[]" es app] obtain resp ag' s' where
    s: "rollback_restore app remote [] (e, es) ag s1 = (Inr (resp, ag'), s')" "rs_success resp"
      "rs_backup_path resp = de_path e" "contents s' remote = Some d" by blast
  have e: "rollback_restore app remote (hash_at s remote) (e, es) ag s = (Inr (resp, ag'), s')"
  proof -
    have "\<not> (\<exists>x \<in> set es. de_hash x = hash_at s remote)" using assms(8) m(2) by (metis image_eqI)
    then show ?thesis using s(1) b(1) assms(7) by (simp add: rollback_restore_def)
  qed
  have ip: "in_backups ?p" using backup_dir_plain(4) [OF r(4)] by (simp add: in_backups_def BACKUP_DIR_def)
  have "frame (\<lambda>q. q = remote \<or> q = METADATA_FILE) s1 s'"
  proof -
    have "s' = snd (rollback_restore app remote [] (e, es) ag s1)" using s(1) by simp
    also have "frame (\<lambda>q. q = remote \<or> q = METADATA_FILE) s1 \<dots>"
      by (simp add: rollback_restore_def) (intro frame_steps frames; simp add: frames split: prod.split)
    finally show ?thesis .
  qed
  moreover have "\<not> in_backups METADATA_FILE" by (simp add: in_backups_def METADATA_FILE_def BACKUP_DIR_def)
  then have "?p \<noteq> remote" "?p \<noteq> METADATA_FILE" using ip r(5) by metis+
  ultimately have "contents s' ?p = Some d1" using frame_contents b(2) by simp
  then have "hash_at s' ?p = hash_at s remote" using b(3) d0(2) by (simp add: hash_at_def)
  moreover have "hash_at s' remote = de_hash e" using s(4) d(2) by (simp add: hash_at_def)
  ultimately show ?thesis using rollback_selects [OF assms(1-5), of ag] e s(2,3) ip by auto
qed

section \<open>Repeated rollbacks\<close>

lemma rollbacks_cycle:
  assumes "rollback_ready s app remote" "am_loaded (ag_meta ag)" "dr_command req = CMD_ROLLBACK" "dr_app_name req = Some app"
    "dr_remote_path req = Some remote" "\<not> present (dr_rollback_hash req)" "dial_entries s app = es" "i < length es"
    "hash_at s remote = de_hash (dial_sort es ! i)"
  shows "\<exists>resps ag' s'. run_commands ev (replicate k req) ag s = Some (resps, ag', s') \<and> (\<forall>r \<in> set resps. rs_success r) \<and>
    hash_at s' remote = de_hash (dial_sort es ! ((i + k) mod length es)) \<and> dial_entries s' app = es"
  using assms(1,2,7,8,9)
proof (induction k arbitrary: s ag i)
  case (Suc k)
  let ?j = "(i + 1) mod length es"
  have j: "?j < length es" using Suc.prems(4) by (metis gr_zeroI mod_less_divisor not_less_zero)
  have ok: "dial_ok s (backup_dir_of app) es" using dial_listing [OF Suc.prems(1)] Suc.prems(3) by metis
  have mem: "dial_sort es ! i \<in> set es" using Suc.prems(4) by (metis dial_sort_set nth_mem)
  then have ne: "de_hash (dial_sort es ! i) \<noteq> []" using ok hex_ne by (metis dial_ok_def)
  have dist: "distinct (map de_hash es)" using ok by (simp add: dial_ok_def)
  have sel: "dial_select (dr_rollback_hash req) (hash_at s remote) (dial_entries s app) = Some (dial_sort es ! ?j, dial_sort es)"
    unfolding Suc.prems(3,5) by (rule dial_next [OF dist Suc.prems(4) ne assms(6)])
  have kn: "hash_at s remote = [] \<or> hash_at s remote \<in> de_hash ` set (dial_entries s app)" using mem Suc.prems(3,5) by auto
  have nn: "dial_entries s app \<noteq> []" using Suc.prems(3,4) by auto
  from rollback_known [OF Suc.prems(1) assms(4,5) nn sel Suc.prems(2) kn] obtain resp ag1 s1 where
    h: "handle_rollback req ag s = (Inr (resp, ag1), s1)" "rs_success resp" "hash_at s1 remote = de_hash (dial_sort es ! ?j)"
      "am_loaded (ag_meta ag1)" "rollback_ready s1 app remote" "dial_entries s1 app = es" using Suc.prems(3) by auto
  from Suc.IH [OF h(5,4,6) j h(3)] obtain resps ag' s' where
    "run_commands ev (replicate k req) ag1 s1 = Some (resps, ag', s')" "\<forall>r \<in> set resps. rs_success r"
    "hash_at s' remote = de_hash (dial_sort es ! ((?j + k) mod length es))" "dial_entries s' app = es" by blast
  moreover have "(?j + k) mod length es = (i + Suc k) mod length es" by (simp add: mod_add_left_eq)
  ultimately show ?case using h(1,2) assms(3) by (simp add: dispatch_def)
qed auto

section \<open>Listing more versions than fit\<close>

lemma list_overrun:
  assumes "dr_app_name req = Some app" "app \<noteq> []" "script s = []"
    "backup_list backup_collect_callback app [] s = ((c, col), s)" "length col = MAX_BACKUP_ENTRIES"
    "app_metadata_get app MAX_PATH_LEN HASH_BUF_LEN 32 (ag_meta ag) s = (Some (Some (remote, h, t), m), s)"
    "contents s remote = Some d" "hex_string (sha256 d) \<notin> be_hash ` set col"
  shows "fst (handle_list_versions req ag s) = Inl Overrun"
proof -
  have "\<not> (\<exists>e \<in> set col. be_hash e = hex_string (sha256 d))" using assms(8) by (metis image_eqI)
  moreover have "\<exists>r. stat remote s = (r, s)" using stat_quiet [OF assms(3,7)] by blast
  moreover have "malloc s = (True, s)" using assms(3) by (simp add: malloc_def io_simps)
  ultimately show ?thesis
    using assms checksum_quiet [OF assms(3,7)]
    by (auto simp: handle_list_versions_def present_def add_current_def Let_def)
qed

text \<open>Backups with names of the old format, a hash prefix of eight characters, are all collected while they fit.\<close>

definition old_name :: "string \<Rightarrow> bool" where
  "old_name n \<longleftrightarrow> length n = 12 \<and> ends_with ''.bak'' n"

lemma collect_old:
  assumes "script s = []" "list_all old_name ns" "distinct (map (take 8) ns)" "take 8 ` set ns \<inter> be_hash ` set col = {}"
    "length col + length ns \<le> MAX_BACKUP_ENTRIES"
  shows "\<exists>c' col'. list_entries backup_collect_callback dir (map (\<lambda>n. (n, True)) ns) c col s = ((c', col'), s) \<and>
    map be_hash col' = map be_hash col @ map (take 8) ns"
  using assms(2-)
proof (induction ns arbitrary: c col)
  case (Cons n ns)
  let ?p = "cstr MAX_PATH_LEN (dir @ ''/'' @ n)"
  have st: "stat ?p s = (fst (stat ?p s), s)" using assms(1) by (simp add: stat_def io_simps)
  have "length n = 12" "ends_with ''.bak'' n" using Cons.prems(1) by (simp_all add: old_name_def)
  moreover from this have "cstr HASH_BUF_LEN (take 8 n) = take 8 n" by (simp add: HASH_BUF_LEN_def)
  ultimately obtain b where b: "parse_backup_filename n ?p s = (Some b, s)" "bi_hash b = take 8 n" "bi_path b = ?p"
    using st by (cases "fst (stat ?p s)") (auto simp: parse_backup_filename_def Let_def)
  have ne: "\<not> (\<exists>e \<in> set col. be_hash e = bi_hash b)" using Cons.prems(3) b(2) by (auto, metis image_eqI)
  have l: "\<not> MAX_BACKUP_ENTRIES \<le> length col" using Cons.prems(4) by simp
  have "malloc s = (True, s)" using assms(1) by (simp add: malloc_def io_simps)
  then obtain e where e: "backup_collect_callback b col s = (col @ [e], s)" "be_hash e = take 8 n"
    using ne l st b(2,3) by (cases "stat ?p s") (simp add: backup_collect_callback_def)
  have "list_all old_name ns" "distinct (map (take 8) ns)" "length (col @ [e]) + length ns \<le> MAX_BACKUP_ENTRIES"
    "take 8 ` set ns \<inter> be_hash ` set (col @ [e]) = {}"
    using Cons.prems e(2) by auto
  from Cons.IH [OF this(1,2,4,3), of "c + 1"] show ?case using b(1) e by auto
qed auto

lemma dir_in_backups:
  assumes "plain_name app" "dirname p = backup_dir_of app"
  shows "in_backups p"
proof -
  have d: "backup_dir_of app = BACKUP_DIR @ ''/'' @ app" by (rule backup_dir_plain(4) [OF assms(1)])
  have "p = backup_dir_of app @ ''/'' @ after_last CHR ''/'' p"
    using path_in_dir [OF assms(2)] d by (simp add: BACKUP_DIR_def)
  then show ?thesis using d by (metis in_backups_def append.assoc append_eq_conv_conj length_append length_Cons list.size(3) Suc_eq_plus1 add_0)
qed

section \<open>Properties\<close>

text \<open>
  C8: A rollback restores the version it selects and loses none. With no failing call
  and a store as \<open>backup_create\<close> makes it: the entry chosen by hash or by the dial is restored,
  the destination then has exactly its hash, the response names it, and the version that was
  installed before is in the backups afterwards, also when it was in none before.
\<close>

theorem rollback_restores:
  assumes "rollback_ready s app remote" "dr_app_name req = Some app" "dr_remote_path req = Some remote" "dial_entries s app \<noteq> []"
    "dial_select (dr_rollback_hash req) (hash_at s remote) (dial_entries s app) = Some (e, es)" "am_loaded (ag_meta ag)"
    "store_ready s app" "remote \<notin> store_dirs app"
  shows "\<exists>resp ag' s'. handle_rollback req ag s = (Inr (resp, ag'), s') \<and> rs_success resp \<and> rs_backup_path resp = de_path e \<and>
    hash_at s' remote = de_hash e \<and> (hash_at s remote \<noteq> [] \<longrightarrow> (\<exists>p. in_backups p \<and> hash_at s' p = hash_at s remote))"
proof (cases "hash_at s remote = [] \<or> hash_at s remote \<in> de_hash ` set (dial_entries s app)")
  case True
  from rollback_known [OF assms(1-6) True] obtain resp ag' s' where
    r: "handle_rollback req ag s = (Inr (resp, ag'), s')" "rs_success resp" "rs_backup_path resp = de_path e"
      "hash_at s' remote = de_hash e" "same_dir (backup_dir_of app) s s'" by blast
  have "\<exists>p. in_backups p \<and> hash_at s' p = hash_at s remote" if ne: "hash_at s remote \<noteq> []"
  proof -
    obtain x where x: "x \<in> set (dial_entries s app)" "de_hash x = hash_at s remote" using True ne by auto
    have "dial_ok s (backup_dir_of app) (dial_entries s app)" by (rule dial_listing [OF assms(1)])
    then have "dirname (de_path x) = backup_dir_of app" "hash_at s (de_path x) = de_hash x"
      using x(1) by (auto simp: dial_ok_def hash_at_def)
    moreover from this(1) have "hash_at s' (de_path x) = hash_at s (de_path x)"
      using r(5) by (simp add: same_dir_def hash_at_def contents_def)
    moreover have "plain_name app" using assms(1) by (simp add: rollback_ready_def)
    ultimately show ?thesis using dir_in_backups x(2) by metis
  qed
  then show ?thesis using r by blast
next
  case False
  then show ?thesis using rollback_unknown [OF assms(1-6) _ _ assms(7,8)] by blast
qed

text \<open>
  C10: The dial. Repeating the plain rollback command, in a quiet state whose installed version
  is the \<open>i\<close>-th newest of the \<open>n\<close> collected ones, succeeds every time and after \<open>k\<close>
  commands the \<open>(i + k) mod n\<close>-th newest is installed: each stored version is reached, and \<open>n\<close>
  rollbacks lead back to the start. The order is newest first. The code calls this the dial; the manual's
  ``restores the most recent one'' and the interface description's ``latest if not specified'' say otherwise,
  and are met only when the installed version is the oldest or is not among the collected ones.
\<close>

theorem rollback_dial_cycles:
  assumes "rollback_ready s app remote" "am_loaded (ag_meta ag)" "dr_command req = CMD_ROLLBACK" "dr_app_name req = Some app"
    "dr_remote_path req = Some remote" "\<not> present (dr_rollback_hash req)" "dial_entries s app = es" "i < length es"
    "hash_at s remote = de_hash (dial_sort es ! i)"
  shows "(\<exists>resps ag' s'. run_commands ev (replicate k req) ag s = Some (resps, ag', s') \<and> (\<forall>r \<in> set resps. rs_success r) \<and>
      hash_at s' remote = de_hash (dial_sort es ! ((i + k) mod length es))) \<and>
    mset (dial_sort es) = mset es \<and> sorted_wrt (\<lambda>a b. de_mtime b \<le> de_mtime a) (dial_sort es)"
  using rollbacks_cycle [OF assms] dial_sort_mset dial_sort_sorted by blast

text \<open>
  The version list can be written past its end. When 64 backups were collected and the
  installed version is not among them, \<open>handle_list_versions\<close> stores it at index 64 of an array
  allocated for 64 entries (its comment promises one more).
\<close>

theorem list_versions_overrun:
  assumes "dr_app_name req = Some app" "app \<noteq> []" "script s = []"
    "backup_list backup_collect_callback app [] s = ((c, col), s)" "length col = MAX_BACKUP_ENTRIES"
    "app_metadata_get app MAX_PATH_LEN HASH_BUF_LEN 32 (ag_meta ag) s = (Some (Some (remote, h, t), m), s)"
    "contents s remote = Some d" "hex_string (sha256 d) \<notin> be_hash ` set col"
  shows "fst (handle_list_versions req ag s) = Inl Overrun"
  by (rule list_overrun [OF assms])

section \<open>Witnesses\<close>

text \<open>Two versions in the store, the older of them installed.\<close>

definition later :: tm where
  "later = a_time\<lparr>tm_sec := 1\<rparr>"

definition stored_name :: "tm \<Rightarrow> bytes \<Rightarrow> string" where
  "stored_name t d = stamp t @ ''-'' @ hex_string (sha256 d) @ ''.bak''"

definition stored_path :: "tm \<Rightarrow> bytes \<Rightarrow> string" where
  "stored_path t d = ''/opt/satdeploy/backups/app/'' @ stored_name t d"

definition versions_os :: os where
  "versions_os = \<lparr>fs = [(stored_path a_time [1], \<lparr>f_data = [1], f_mode = 493, f_mtime = a_time\<rparr>),
       (stored_path later [2], \<lparr>f_data = [2], f_mode = 493, f_mtime = later\<rparr>), (''/tmp/f'', \<lparr>f_data = [1], f_mode = 493, f_mtime = a_time\<rparr>)],
     dirs = [''/tmp'', ''/opt/satdeploy/backups/app''], script = [], clock = a_time, fs_log = []\<rparr>"

definition a_rollback :: deploy_request where
  "a_rollback = req_init\<lparr>dr_command := CMD_ROLLBACK, dr_app_name := Some ''app'', dr_remote_path := Some ''/tmp/f''\<rparr>"

lemma times_ok: "tm_ok a_time" "tm_ok later"
  by (simp_all add: tm_ok_def a_time_def later_def)

lemma stored_path_facts:
  "dirname (stored_path t d) = backup_dir_of ''app''" "after_last CHR ''/'' (stored_path t d) = stored_name t d"
  "stored_path t d = backup_dir_of ''app'' @ ''/'' @ stored_name t d" "backup_dir_of ''app'' = ''/opt/satdeploy/backups/app''"
  "stored_path t d \<noteq> ''/tmp/f''" "stored_path a_time [1] \<noteq> stored_path later [2]"
proof -
  show b: "backup_dir_of ''app'' = ''/opt/satdeploy/backups/app''"
    by (simp add: backup_dir_of_def BACKUP_DIR_def MAX_PATH_LEN_def cstr_def)
  have n: "CHR ''/'' \<notin> set (stored_name t d)" using stamp_plain hex_string_plain by (auto simp: stored_name_def)
  show p: "stored_path t d = backup_dir_of ''app'' @ ''/'' @ stored_name t d" by (simp add: stored_path_def b)
  show "dirname (stored_path t d) = backup_dir_of ''app''" using dirname_snoc [OF n, of "backup_dir_of ''app''"] by (simp add: p b)
  show "after_last CHR ''/'' (stored_path t d) = stored_name t d" unfolding p using after_last_append [OF n] by simp
  show "stored_path t d \<noteq> ''/tmp/f''" by (simp add: stored_path_def)
  have "length (stamp a_time) = length (stamp later)" by (simp add: length_stamp times_ok)
  moreover have "stamp a_time \<noteq> stamp later" by code_simp
  ultimately show "stored_path a_time [1] \<noteq> stored_path later [2]" by (simp add: stored_path_def stored_name_def)
qed

lemma versions_contents:
  "contents versions_os ''/tmp/f'' = Some [1]" "contents versions_os (stored_path a_time [1]) = Some [1]"
  "contents versions_os (stored_path later [2]) = Some [2]" "map fst (fs versions_os) = [stored_path a_time [1], stored_path later [2], ''/tmp/f'']"
  "dirs versions_os = [''/tmp'', ''/opt/satdeploy/backups/app'']" "script versions_os = []" "clock versions_os = a_time"
  using stored_path_facts(5) [of a_time "[1]"] stored_path_facts(5) [of later "[2]"] stored_path_facts(6)
  by (auto simp: versions_os_def contents_def lookup_def)

lemma versions_ready:
  "rollback_ready versions_os ''app'' ''/tmp/f''" "store_ready versions_os ''app''" "hash_at versions_os ''/tmp/f'' = hex_string (sha256 [1])"
proof -
  note vc = versions_contents and sp = stored_path_facts
  have pn: "plain_name ''app''" by (simp add: plain_name_def MAX_APP_NAME_LEN_def)
  have f: "dirname ''/tmp/f'' = ''/tmp''" by (simp add: dirname_def)
  have "stamped_store versions_os ''app''"
    unfolding stamped_store_def vc(4) using times_ok vc(2,3) sp(1,2) f sp(4)
    by (auto simp: stored_name_def)
  moreover have "\<not> in_backups ''/tmp/f''" by (simp add: in_backups_def BACKUP_DIR_def)
  ultimately show "rollback_ready versions_os ''app'' ''/tmp/f''"
    using vc pn f sp(4) by (simp add: rollback_ready_def dir_exists_def can_create_def METADATA_FILE_def METADATA_DIR_def)
  have nh: "is_backup_name (stored_name t d) \<Longrightarrow> name_hash (stored_name t d) = hex_string (sha256 d)" "length (stored_name t d) \<le> 255" if "tm_ok t" for t d
    using that backup_name(1) [of "hex_string (sha256 d)" "stamp t"]
    by (simp_all add: stored_name_def length_stamp length_hex_string)
  have "backup_store versions_os ''app''"
    unfolding backup_store_def vc(4,5) using vc(2,3) sp(1,2) f sp(4) nh times_ok by (simp add: dirname_def)
  moreover have "lookup versions_os d = None" if "d \<in> set [''/opt'', ''/opt/satdeploy'', BACKUP_DIR, backup_dir_of ''app'']" for d
    using that unfolding lookup_None_iff vc(4) by (auto simp: stored_path_def BACKUP_DIR_def sp(4))
  then have "backup_dirs_free versions_os ''app''" unfolding backup_dirs_free_def by blast
  ultimately show "store_ready versions_os ''app''" using pn vc(7) times_ok by (simp add: store_ready_def)
  show "hash_at versions_os ''/tmp/f'' = hex_string (sha256 [1])" using vc(1) by (simp add: hash_at_def)
qed

lemma versions_dial:
  obtains es i where "dial_entries versions_os ''app'' = es" "i < length es" "de_hash (dial_sort es ! i) = hex_string (sha256 [1])" "length es \<le> 2"
proof -
  note vc = versions_contents and sp = stored_path_facts
  let ?h = "\<lambda>d. hex_string (sha256 d)"
  let ?b = "\<lambda>t d. \<lparr>bi_version = stamp t @ ''-'' @ ?h d, bi_timestamp = iso_tm t, bi_hash = ?h d, bi_path = stored_path t d\<rparr>"
  have pa: "parse_backup_filename (stored_name t d) (stored_path t d) versions_os = (Some (?b t d), versions_os)" if "tm_ok t" for t d
    using parse_stamp [OF that, of "sha256 d" "stored_path t d" versions_os] by (simp add: stored_name_def)
  have cp: "cstr MAX_PATH_LEN (backup_dir_of ''app'' @ ''/'' @ stored_name t d) = stored_path t d" "cstr HASH_BUF_LEN (?h d) = ?h d"
      "cstr MAX_PATH_LEN (stored_path t d) = stored_path t d" if "tm_ok t" for t d
    using that sp(3) [of t d, symmetric] by (simp_all add: stored_path_def stored_name_def length_stamp length_hex_string MAX_PATH_LEN_def HASH_BUF_LEN_def)
  have e: "dir_entries versions_os (backup_dir_of ''app'') = [(stored_name a_time [1], True), (stored_name later [2], True)]"
    unfolding dir_entries_def vc(4,5) using sp(1,2) by (simp add: dirname_def sp(4))
  have od: "opendir (backup_dir_of ''app'') versions_os = (Some [(stored_name a_time [1], True), (stored_name later [2], True)], versions_os)"
    using opendir_quiet [OF vc(6)] e vc(5) sp(4) by (simp add: dir_exists_def)
  have st: "stat p versions_os = (fst (stat p versions_os), versions_os)" for p using vc(6) by (simp add: stat_def io_simps)
  let ?e = "\<lambda>t d. \<lparr>de_hash = ?h d, de_path = stored_path t d, de_mtime = mtime_of (fst (stat (stored_path t d) versions_os))\<rparr>"
  have c1: "rollback_collect_callback (?b a_time [1]) [] versions_os = ([?e a_time [1]], versions_os)"
    using st [of "stored_path a_time [1]"] cp times_ok by (cases "stat (stored_path a_time [1]) versions_os") (simp add: rollback_collect_callback_def MAX_DIAL_ENTRIES_def)
  have c2: "rollback_collect_callback (?b later [2]) [?e a_time [1]] versions_os =
      (if ?h [1] = ?h [2] then [?e a_time [1]] else [?e a_time [1], ?e later [2]], versions_os)"
    using st [of "stored_path later [2]"] cp times_ok by (cases "stat (stored_path later [2]) versions_os") (simp add: rollback_collect_callback_def MAX_DIAL_ENTRIES_def)
  have d: "dial_entries versions_os ''app'' = (if ?h [1] = ?h [2] then [?e a_time [1]] else [?e a_time [1], ?e later [2]])"
    using od pa cp c1 c2 times_ok by (simp add: dial_entries_def backup_list_def Let_def)
  let ?es = "dial_entries versions_os ''app''"
  have "?e a_time [1] \<in> set (dial_sort ?es)" using d by simp
  then obtain i where "i < length (dial_sort ?es)" "dial_sort ?es ! i = ?e a_time [1]" by (metis in_set_conv_nth)
  then show ?thesis using that [of ?es i] d by simp
qed

theorem rollback_dial_cycles_witness:
  "\<exists>resps ag' s'. run_commands an_env (replicate 2 a_rollback) an_agent versions_os = Some (resps, ag', s') \<and>
    (\<forall>r \<in> set resps. rs_success r) \<and> hash_at s' ''/tmp/f'' = hex_string (sha256 [1])"
proof -
  obtain es i where e: "dial_entries versions_os ''app'' = es" "i < length es" "de_hash (dial_sort es ! i) = hex_string (sha256 [1])"
    "length es \<le> 2" by (rule versions_dial)
  have "(i + 2) mod length es = i"
  proof -
    consider "length es = 1" | "length es = 2" using e(2,4) by linarith
    then show ?thesis using e(2) by cases simp_all
  qed
  then show ?thesis
    using rollback_dial_cycles [OF versions_ready(1) _ _ _ _ _ e(1,2), of an_agent a_rollback an_env 2] e(3) versions_ready(3)
    by (simp add: an_agent_def a_rollback_def req_init_def present_def)
qed

theorem rollback_restores_witness:
  "\<exists>resp ag' s'. handle_rollback (a_rollback\<lparr>dr_rollback_hash := Some (hex_string (sha256 [1]))\<rparr>) an_agent versions_os = (Inr (resp, ag'), s') \<and>
    rs_success resp \<and> hash_at s' ''/tmp/f'' = hex_string (sha256 [1])"
proof -
  let ?h = "hex_string (sha256 [1])" and ?q = "a_rollback\<lparr>dr_rollback_hash := Some (hex_string (sha256 [1]))\<rparr>"
  obtain es i where e: "dial_entries versions_os ''app'' = es" "i < length es" "de_hash (dial_sort es ! i) = ?h" by (rule versions_dial)
  have "dial_sort es ! i \<in> set es" using e(2) by (metis dial_sort_set nth_mem)
  then have "find (\<lambda>e. de_hash e = ?h) es \<noteq> None" using e(3) by (auto simp: find_None_iff)
  then obtain x where x: "find (\<lambda>e. de_hash e = ?h) es = Some x" by blast
  then have hx: "de_hash x = ?h" by (auto simp: find_Some_iff)
  have "dial_select (dr_rollback_hash ?q) (hash_at versions_os ''/tmp/f'') (dial_entries versions_os ''app'') = Some (x, es)"
    using x e(1) hex_ne by (simp add: dial_select_def present_def)
  from rollback_restores [OF versions_ready(1) _ _ _ this _ versions_ready(2), of an_agent] e hx a_target(2) show ?thesis
    by (fastforce simp: an_agent_def a_rollback_def)
qed

text \<open>A store of 64 backups with names of the old format, and an installed file that is none of them.\<close>

definition old_file :: "nat \<Rightarrow> string" where
  "old_file i = pad_dec 8 i @ ''.bak''"

definition full_os :: os where
  "full_os = \<lparr>fs = map (\<lambda>i. (''/opt/satdeploy/backups/app/'' @ old_file i, \<lparr>f_data = [], f_mode = 420, f_mtime = a_time\<rparr>)) [0..<64] @
       [(''/tmp/f'', \<lparr>f_data = [5], f_mode = 493, f_mtime = a_time\<rparr>)],
     dirs = [''/opt/satdeploy/backups/app''], script = [], clock = a_time, fs_log = []\<rparr>"

definition listed_agent :: "bytes list agent" where
  "listed_agent = an_agent\<lparr>ag_meta := \<lparr>am_cache = [\<lparr>ae_app_name = ''app'', ae_remote_path = ''/tmp/f'', ae_file_hash = ''00'',
     ae_deployed_at = ''t''\<rparr>], am_loaded = True\<rparr>\<rparr>"

lemma pad_dec_inj: "0 < n \<Longrightarrow> i < 10 ^ n \<Longrightarrow> j < 10 ^ n \<Longrightarrow> pad_dec n i = pad_dec n j \<Longrightarrow> i = j"
  using scan_int_pad [of n i "[]"] scan_int_pad [of n j "[]"] by simp

lemma old_files: 
  assumes "i < 64"
  shows "take 8 (old_file i) = pad_dec 8 i" "old_name (old_file i)" "CHR ''/'' \<notin> set (old_file i)"
  using assms length_pad_dec [of 8 i] ends_with_append [of "''.bak''" "pad_dec 8 i"] pad_dec_dec [of 8 i] not_dec_slash
  by (auto simp: old_file_def old_name_def)

lemma full_listing:
  obtains c col where "backup_list backup_collect_callback ''app'' [] full_os = ((c, col), full_os)" "length col = MAX_BACKUP_ENTRIES"
    "\<forall>h \<in> be_hash ` set col. length h = 8"
proof -
  let ?d = "''/opt/satdeploy/backups/app''" and ?ns = "map old_file [0..<64]"
  note sp = stored_path_facts(4)
  have dn: "dirname (?d @ ''/'' @ old_file i) = ?d" "after_last CHR ''/'' (?d @ ''/'' @ old_file i) = old_file i" if "i < 64" for i
    using dirname_snoc [OF old_files(3) [OF that], of ?d] after_last_append [OF old_files(3) [OF that], of ?d] by simp_all
  have k: "map fst (fs full_os) = map (\<lambda>i. ?d @ ''/'' @ old_file i) [0..<64] @ [''/tmp/f'']" by (simp add: full_os_def comp_def)
  have f: "filter (\<lambda>p. dirname p = ?d) (map (\<lambda>i. ?d @ ''/'' @ old_file i) [0..<64]) = map (\<lambda>i. ?d @ ''/'' @ old_file i) [0..<64]"
    by (rule filter_True) (use dn(1) in auto)
  have "dir_entries full_os ?d = map (\<lambda>n. (n, True)) ?ns"
    unfolding dir_entries_def k filter_append f using dn(2) by (simp add: full_os_def dirname_def del: upt_Suc)
  moreover have q: "script full_os = []" "dir_exists full_os ?d" by (simp_all add: full_os_def dir_exists_def del: upt_Suc)
  ultimately have od: "opendir ?d full_os = (Some (map (\<lambda>n. (n, True)) ?ns), full_os)" using opendir_quiet by metis
  have t: "map (take 8) ?ns = map (pad_dec 8) [0..<64]" using old_files(1) by simp
  have "inj_on (pad_dec 8) {0..<64}" by (rule inj_onI) (rule pad_dec_inj [of 8], auto)
  then have "distinct (map (take 8) ?ns)" unfolding t by (simp add: distinct_map)
  moreover have "list_all old_name ?ns" using old_files(2) by (simp add: list_all_iff)
  ultimately obtain c col where c: "list_entries backup_collect_callback ?d (map (\<lambda>n. (n, True)) ?ns) 0 [] full_os = ((c, col), full_os)"
    "map be_hash col = map (take 8) ?ns"
    using collect_old [OF q(1), of ?ns "[]" ?d 0] by (auto simp: MAX_BACKUP_ENTRIES_def)
  have "length col = MAX_BACKUP_ENTRIES" using arg_cong [OF c(2), of length] by (simp add: MAX_BACKUP_ENTRIES_def)
  moreover have "be_hash ` set col = pad_dec 8 ` {0..<64}" using arg_cong [OF c(2) [unfolded t], of set] by simp
  then have "\<forall>h \<in> be_hash ` set col. length h = 8" using length_pad_dec [of 8] by auto
  ultimately show ?thesis using that od c(1) by (simp add: backup_list_def sp Let_def)
qed

theorem list_versions_overrun_witness:
  "fst (handle_list_versions (req_init\<lparr>dr_app_name := Some ''app''\<rparr>) listed_agent full_os) = Inl Overrun"
proof -
  obtain c col where c: "backup_list backup_collect_callback ''app'' [] full_os = ((c, col), full_os)" "length col = MAX_BACKUP_ENTRIES"
    "\<forall>h \<in> be_hash ` set col. length h = 8" by (rule full_listing)
  have n: "map_of (map (\<lambda>i. (''/opt/satdeploy/backups/app/'' @ old_file i, v)) xs) ''/tmp/f'' = None" for v :: inode and xs
    by (induction xs) auto
  have "lookup full_os ''/tmp/f'' = Some \<lparr>f_data = [5], f_mode = 493, f_mtime = a_time\<rparr>"
    unfolding lookup_def full_os_def os.simps map_of_append map_add_def n by simp
  then have d: "contents full_os ''/tmp/f'' = Some [5]" by (simp add: contents_def)
  have "hex_string (sha256 [5]) \<notin> be_hash ` set col" using c(3) length_hex_string [of "sha256 [5]"] by force
  moreover have "script full_os = []" by (simp add: full_os_def del: upt_Suc)
  moreover have "app_metadata_get ''app'' MAX_PATH_LEN HASH_BUF_LEN 32 (ag_meta listed_agent) full_os =
      (Some (Some (''/tmp/f'', ''00'', ''t''), ag_meta listed_agent), full_os)"
    by (simp add: app_metadata_get_def find_app_def load_metadata_def listed_agent_def cstr_def MAX_PATH_LEN_def HASH_BUF_LEN_def)
  ultimately show ?thesis by (intro list_versions_overrun [OF _ _ _ c(1,2) _ d]) simp_all
qed

end
