(* ===== verification/Agent_Total.thy ===== *)
theory Agent_Total
  imports Rollback
begin

text \<open>
  Every command of the agent is answered: the answer and the agent's state are well formed
  (\<open>dispatch_well_typed\<close>), and over a link that cannot deliver for ever without a new request
  every command returns (\<open>dispatch_terminates\<close>), the drain loop of the transfer included.
\<close>

section \<open>Links that settle\<close>

text \<open>
  A link settles when it cannot deliver data for ever without a new request: some measure of the
  other end's state falls with every drain that delivers a packet. Requests may raise it.
\<close>

definition settles :: "'e link \<Rightarrow> ('e \<Rightarrow> nat) \<Rightarrow> bool" where
  "settles lk m \<longleftrightarrow> (\<forall>e. fst (lk_drain lk e) \<noteq> [] \<longrightarrow> m (snd (lk_drain lk e)) < m e)"

lemma drain_rounds_ends:
  assumes "settles lk m"
  shows "drain_rounds lk hooks ivs x e \<noteq> None"
proof (induction "m e" arbitrary: ivs x e rule: less_induct)
  case less
  obtain pkts e1 where d: "lk_drain lk e = (pkts, e1)" by force
  obtain x1 got where g: "drain_data hooks pkts x = (x1, got)" by force
  obtain st out nout where v: "ci_svu_verify (rx_recv x1) (Some ivs) SVU_MAX_INTERVALS = (st, out, nout)" by (metis prod_cases3)
  show ?case
  proof (cases "st = CI_SVU_COMPLETE_VERIFIED \<or> got = 0")
    case True
    then show ?thesis using d g v by (subst drain_rounds.simps) (auto split: option.splits)
  next
    case False
    then have "pkts \<noteq> []" using g by (auto simp: drain_data_def)
    then have "m e1 < m e" using assms d by (metis settles_def fst_conv snd_conv)
    from less [OF this] show ?thesis using d g v False by (subst drain_rounds.simps) (simp split: option.splits)
  qed
qed

lemma client_round_ends:
  assumes "settles lk m"
  shows "client_round lk oom hooks bs mtu cl \<noteq> None"
proof -
  obtain mt e where 1: "ctrl_attempts 8 lk (make_req bs mtu (cl_nreq cl) (cl_ivs cl)) (cl_env cl) = (mt, e)" by force
  show ?thesis
  proof (cases mt)
    case (Some mm)
    obtain b cl1 where 2: "setup_recv oom hooks mm (cl\<lparr>cl_env := e\<rparr>) = (b, cl1)" by force
    obtain st ivs nout x e1 where "drain_rounds lk hooks (cl_ivs cl1) (cl_rx cl1) (cl_env cl1) = Some (st, ivs, nout, x, e1)"
      using drain_rounds_ends [OF assms] by (metis not_None_eq prod_cases5)
    then show ?thesis using 1 2 Some by (cases b) (simp_all add: client_round_def Let_def)
  qed (use 1 in \<open>simp add: client_round_def\<close>)
qed

lemma client_rounds_ends: "settles lk m \<Longrightarrow> client_rounds n lk oom hooks bs mtu cl \<noteq> None"
proof (induction n arbitrary: cl)
  case (Suc n)
  obtain r cl' where "client_round lk oom hooks bs mtu cl = Some (r, cl')" using client_round_ends [OF Suc.prems] by fast
  then show ?case using Suc by (cases r) simp_all
qed simp

lemma client_run_ends: "settles lk m \<Longrightarrow> svu_client_run_hooked lk oom bs mtu n out hooks c s e \<noteq> None"
  using client_rounds_ends [of lk m "unat n" oom hooks bs mtu "svu_client_start hooks c s e"]
  by (auto simp: svu_client_run_hooked_def split: option.splits prod.splits bool.splits)

lemma download_ends:
  assumes "settles lk m"
  shows "svu_download_file lk oom mem node dest sz app mtu s e \<noteq> None"
proof -
  obtain hooks sc t where h: "sidecar_setup mem app s = (hooks, sc, t)" by (metis prod_cases3)
  let ?mtu = "if mtu \<noteq> 0 then ucast mtu else 1024 :: u32"
  obtain rc sc1 s1 e1 where "svu_client_run_hooked lk oom SVU_BLOCK_SIZE ?mtu SVU_MAX_ROUNDS dest hooks sc t e = Some (rc, sc1, s1, e1)"
    using client_run_ends [OF assms] by (metis not_None_eq prod_cases4)
  then show ?thesis using h by (auto simp: svu_download_file_def Let_def split: prod.splits stat_result.splits)
qed

section \<open>Every command gives a well-formed answer\<close>

text \<open>The metadata cache is loaded and within its array; a response has an error code exactly when it is not a success.\<close>

definition agent_ok :: "'e agent \<Rightarrow> bool" where
  "agent_ok ag \<longleftrightarrow> am_loaded (ag_meta ag) \<and> length (am_cache (ag_meta ag)) \<le> MAX_APPS"

definition resp_ok :: "deploy_response \<Rightarrow> bool" where
  "resp_ok resp \<longleftrightarrow> (rs_success resp \<longleftrightarrow> rs_error_code resp = ERR_NONE)"

definition handled_ok :: "stop set \<Rightarrow> 'e handled \<Rightarrow> bool" where
  "handled_ok X r \<longleftrightarrow> (case fst r of Inl x \<Rightarrow> x \<in> X | Inr (resp, ag) \<Rightarrow> agent_ok ag \<and> resp_ok resp)"

named_theorems answers \<open>what a handler can answer\<close>

lemma handled_Inr [answers]: "agent_ok ag \<Longrightarrow> resp_ok resp \<Longrightarrow> handled_ok X (Inr (resp, ag), s)"
  by (simp add: handled_ok_def)

lemma handled_Inl [answers]: "x \<in> X \<Longrightarrow> handled_ok X (Inl x, s)"
  by (simp add: handled_ok_def)

lemma handled_mono: "handled_ok X r \<Longrightarrow> X \<subseteq> Y \<Longrightarrow> handled_ok Y r"
  by (auto simp: handled_ok_def split: sum.splits)

lemma resp_answers [answers]:
  "e \<noteq> ERR_NONE \<Longrightarrow> resp_ok (resp_fail e msg)" "resp_ok (resp_init\<lparr>rs_success := True\<rparr>)"
  "resp_ok (resp_init\<lparr>rs_success := True, rs_backup_path := p\<rparr>)" "resp_ok (resp_init\<lparr>rs_success := True, rs_apps := a\<rparr>)"
  "resp_ok (resp_init\<lparr>rs_success := True, rs_backups := b\<rparr>)" "resp_ok (resp_init\<lparr>rs_success := True, rs_log_output := l\<rparr>)"
  by (simp_all add: resp_ok_def resp_fail_def resp_init_def)

lemma agent_ok_upd [answers]:
  "agent_ok ag \<Longrightarrow> agent_ok (ag\<lparr>ag_upload := u\<rparr>)" "agent_ok ag \<Longrightarrow> agent_ok (ag\<lparr>ag_env := e\<rparr>)"
  by (simp_all add: agent_ok_def)

lemma load_ok: "agent_ok ag \<Longrightarrow> load_metadata (ag_meta ag) s = (Some (0, ag_meta ag), s)"
  by (simp add: agent_ok_def load_metadata_def)

lemma save_ok:
  assumes "agent_ok ag"
  obtains r m s' where "app_metadata_save n p h (ag_meta ag) s = (Some (r, m), s')" "agent_ok (ag\<lparr>ag_meta := m\<rparr>)"
    "\<And>u. agent_ok (ag\<lparr>ag_meta := m, ag_upload := u\<rparr>)"
proof -
  have l: "am_loaded (ag_meta ag)" "length (am_cache (ag_meta ag)) \<le> MAX_APPS" using assms by (simp_all add: agent_ok_def)
  obtain r m s' where m: "app_metadata_save n p h (ag_meta ag) s = (Some (r, m), s')" "am_loaded m" using save_total [OF l(1)] by blast
  have "length (am_cache m) \<le> MAX_APPS"
    using save_is_put [OF l(1) m(1)] length_cache_put l(2) by (fastforce split: option.splits)
  then show ?thesis using that [OF m(1)] m(2) by (simp add: agent_ok_def)
qed

lemma get_ok: "agent_ok ag \<Longrightarrow> \<exists>found. app_metadata_get n a b c (ag_meta ag) s = (Some (found, ag_meta ag), s)"
  by (auto simp: app_metadata_get_def find_app_def load_ok split: option.splits)

lemma status_ok: "agent_ok ag \<Longrightarrow> handled_ok {} (handle_status ev req ag s)"
  by (auto simp: handle_status_def app_metadata_list_def load_ok handled_ok_def agent_ok_def resp_ok_def resp_init_def split: prod.splits)

lemma logs_ok: "agent_ok ag \<Longrightarrow> handled_ok {} (handle_logs ev req ag s)"
  by (auto simp: handle_logs_def Let_def intro!: answers split: option.splits prod.splits)

lemma current_stop:
  "(case found of None \<Rightarrow> (Inr col, s)
    | Some (remote_path, file_hash, deployed_at) \<Rightarrow> (case compute_file_checksum remote_path HASH_BUF_LEN s of
        (None, s) \<Rightarrow> (Inr col, s) | (Some h, s) \<Rightarrow> add_current remote_path h deployed_at col s)) = (Inl x, s') \<Longrightarrow> x = Overrun"
  by (auto simp: add_current_def split: if_splits prod.splits option.splits)

lemma list_ok:
  assumes "agent_ok ag"
  shows "handled_ok {Overrun} (handle_list_versions req ag s)"
proof (cases "present (dr_app_name req)")
  case True
  let ?app = "the (dr_app_name req)"
  let ?cur = "\<lambda>found col s. case found of None \<Rightarrow> (Inr col, s)
    | Some (remote_path, file_hash, deployed_at) \<Rightarrow> (case compute_file_checksum remote_path HASH_BUF_LEN s of
        (None, s) \<Rightarrow> (Inr col, s) | (Some h, s) \<Rightarrow> add_current remote_path h deployed_at col s)"
  obtain ok s1 where 1: "malloc s = (ok, s1)" by force
  obtain r col s2 where 2: "backup_list backup_collect_callback ?app [] s1 = ((r, col), s2)" by (metis prod.collapse)
  obtain f where 3: "app_metadata_get ?app MAX_PATH_LEN HASH_BUF_LEN 32 (ag_meta ag) s2 = (Some (f, ag_meta ag), s2)"
    using get_ok [OF assms] by blast
  obtain x s3 where 4: "?cur f col s2 = (x, s3)" by force
  have ag: "ag\<lparr>ag_meta := ag_meta ag\<rparr> = ag" by simp
  have fl: "handled_ok {Overrun} (Inr (resp_fail ERR_BACKUP_FAILED m, ag), t)" for m t
    using assms by (intro answers) simp_all
  show ?thesis
  proof (cases "ok")
    case True
    note ok = True
    show ?thesis
    proof (cases x)
      case (Inl y)
      have "y = Overrun" by (rule current_stop [OF 4 [unfolded Inl]])
      then show ?thesis
        unfolding handle_list_versions_def Let_def using \<open>present _\<close> 1 2 3 4 Inl ok by (simp add: answers)
    next
      case (Inr col')
      have "handled_ok {Overrun} (case sort_versions col' s3 of (col, s) \<Rightarrow> (Inr (resp_init\<lparr>rs_success := True, rs_backups := col\<rparr>, ag), s))"
        using assms by (auto simp: answers split: prod.split)
      then show ?thesis
        unfolding handle_list_versions_def Let_def using \<open>present _\<close> 1 2 3 4 Inr ok fl ag by simp
    qed
  qed (use fl True 1 in \<open>simp add: handle_list_versions_def Let_def\<close>)
qed (use assms in \<open>auto simp: handle_list_versions_def intro!: answers\<close>)

lemma rollback_restore_ok:
  assumes "agent_ok ag"
  shows "handled_ok {} (rollback_restore app remote h sel ag s)"
proof -
  have "handled_ok {} (case app_metadata_save app remote x (ag_meta ag) t of (None, s) \<Rightarrow> (Inl Null_deref, s)
      | (Some (_, m), s) \<Rightarrow> (Inr (resp_init\<lparr>rs_success := True, rs_backup_path := y\<rparr>, ag\<lparr>ag_meta := m\<rparr>), s))" for x y t
    by (rule save_ok [OF assms, of app remote x t]) (auto intro!: answers)
  then show ?thesis using assms
    by (auto simp: rollback_restore_def Let_def split: prod.split intro!: answers)
qed

lemma rollback_ok: "agent_ok ag \<Longrightarrow> handled_ok {} (handle_rollback req ag s)"
proof -
  assume ok: "agent_ok ag"
  have to: "handled_ok {} (rollback_to req p ag t)" for p t
    using ok rollback_restore_ok [OF ok] by (auto simp: rollback_to_def Let_def split: prod.split option.split intro!: answers)
  obtain f where f: "app_metadata_get (the (dr_app_name req)) MAX_PATH_LEN 0 0 (ag_meta ag) s = (Some (f, ag_meta ag), s)"
    using get_ok [OF ok] by blast
  show ?thesis using ok to f
    by (cases f) (auto simp: handle_rollback_def Let_def split: prod.split intro!: answers)
qed

lemma deploy_install_ok:
  assumes "agent_ok ag"
  shows "handled_ok X (deploy_install app remote temp h m b ag s)"
proof -
  have "handled_ok X (case app_metadata_save app remote h (ag_meta ag) t of (None, s) \<Rightarrow> (Inl Null_deref, s)
      | (Some (_, m), s) \<Rightarrow> (Inr (resp_init\<lparr>rs_success := True, rs_backup_path := b\<rparr>, ag\<lparr>ag_meta := m\<rparr>), s))" for t
    by (rule save_ok [OF assms, of app remote h t]) (auto intro!: answers)
  then show ?thesis using assms by (auto simp: deploy_install_def Let_def split: prod.split intro!: answers)
qed

lemma deploy_verify_ok: "agent_ok ag \<Longrightarrow> handled_ok X (deploy_verify app remote temp h m b ag s)"
  using deploy_install_ok
  by (auto simp: deploy_verify_def Let_def split: prod.split option.split intro!: answers)

lemma deploy_ok:
  assumes "agent_ok ag" "No_return \<in> X \<or> settles (ev_link ev (dr_dtp_server_node req)) m"
  shows "handled_ok X (handle_deploy ev req ag s)"
proof -
  have d: "No_return \<in> X" if "svu_download_file (ev_link ev (dr_dtp_server_node req)) (ev_oom ev) (ev_mem ev)
      (dr_dtp_server_node req) dest sz app mtu t e = None" for dest sz app mtu t e
    using assms(2) download_ends that by metis
  have v: "handled_ok X (deploy_verify a b c d f g (ag\<lparr>ag_env := e\<rparr>) t)" for a b c d f g e t
    using deploy_verify_ok agent_ok_upd(2) [OF assms(1)] by blast
  show ?thesis using assms(1) d v
    by (auto simp: handle_deploy_def Let_def split: prod.split option.split intro!: answers)
qed

lemma upload_fail_ok: "agent_ok ag \<Longrightarrow> e \<noteq> ERR_NONE \<Longrightarrow> handled_ok X (upload_fail e m ag s)"
  by (auto simp: upload_fail_def upload_session_reset_def Let_def intro!: answers)

lemma upload_install_ok:
  assumes "agent_ok ag"
  shows "handled_ok X (upload_install ag s)"
proof -
  let ?u = "ag_upload ag"
  have "handled_ok X (case app_metadata_save app p h (ag_meta ag) t of (None, s) \<Rightarrow> (Inl Null_deref, s)
      | (Some (_, m), s) \<Rightarrow> (Inr (resp_init\<lparr>rs_success := True, rs_backup_path := b\<rparr>, ag\<lparr>ag_meta := m, ag_upload := u\<rparr>), s))"
    for app p h t b u
    by (rule save_ok [OF assms, of app p h t]) (auto intro!: answers)
  then show ?thesis using upload_fail_ok [OF assms]
    by (auto simp: upload_install_def Let_def split: prod.split option.split)
qed

lemma upload_start_ok: "agent_ok ag \<Longrightarrow> handled_ok X (handle_upload_start req ag s)"
  by (auto simp: handle_upload_start_def upload_session_reset_def Let_def split: prod.split intro!: answers upload_fail_ok)

lemma upload_chunk_ok: "agent_ok ag \<Longrightarrow> handled_ok X (handle_upload_chunk req ag s)"
  by (auto simp: handle_upload_chunk_def Let_def split: prod.split intro!: answers upload_fail_ok)

lemma upload_end_ok: "agent_ok ag \<Longrightarrow> handled_ok X (handle_upload_end req ag s)"
  by (auto simp: handle_upload_end_def Let_def split: prod.split option.split intro!: answers upload_fail_ok upload_install_ok)

lemma dispatch_ok:
  assumes "agent_ok ag" "dr_command req = CMD_DEPLOY \<Longrightarrow> No_return \<in> X \<or> (\<exists>m. settles (ev_link ev (dr_dtp_server_node req)) m)"
    "dr_command req = CMD_LIST_VERSIONS \<Longrightarrow> Overrun \<in> X"
  shows "handled_ok X (dispatch ev req ag s)"
proof -
  have "handled_ok X (handle_deploy ev req ag s)" if "dr_command req = CMD_DEPLOY" using deploy_ok [OF assms(1)] assms(2) that by metis
  moreover have "handled_ok X (handle_list_versions req ag s)" if "dr_command req = CMD_LIST_VERSIONS"
    using handled_mono [OF list_ok [OF assms(1)]] assms(3) [OF that] by blast
  ultimately show ?thesis using assms(1)
      handled_mono [OF status_ok [OF assms(1), of ev req s], of X] handled_mono [OF logs_ok [OF assms(1), of ev req s], of X]
      handled_mono [OF rollback_ok [OF assms(1), of req s], of X]
      upload_start_ok [OF assms(1), of X req s] upload_chunk_ok [OF assms(1), of X req s] upload_end_ok [OF assms(1), of X req s]
    by (cases "dr_command req") (auto simp: dispatch_def intro!: answers)
qed

section \<open>Properties\<close>

text \<open>
  C15: Every command is answered. Once the metadata is loaded, whatever the request, the peer
  and the failing calls, a command never meets a null pointer: it gives a response that has an error
  code exactly when it is not a success, and an agent whose metadata is again loaded and within its
  array; the only ways not to return are a transfer that never ends (deploy) and the overrun of the
  version list.
\<close>

theorem dispatch_well_typed:
  assumes "agent_ok ag"
  shows "case fst (dispatch ev req ag s) of
      Inl x \<Rightarrow> (x = No_return \<and> dr_command req = CMD_DEPLOY) \<or> (x = Overrun \<and> dr_command req = CMD_LIST_VERSIONS)
    | Inr (resp, ag') \<Rightarrow> agent_ok ag' \<and> (rs_success resp \<longleftrightarrow> rs_error_code resp = ERR_NONE)"
proof -
  let ?X = "{x. (x = No_return \<and> dr_command req = CMD_DEPLOY) \<or> (x = Overrun \<and> dr_command req = CMD_LIST_VERSIONS)}"
  have "handled_ok ?X (dispatch ev req ag s)" by (rule dispatch_ok [OF assms]) simp_all
  then show ?thesis by (auto simp: handled_ok_def resp_ok_def split: sum.splits)
qed

theorem dispatch_well_typed_witness:
  "case fst (dispatch an_env a_request an_agent installed_os) of
      Inl x \<Rightarrow> (x = No_return \<and> dr_command a_request = CMD_DEPLOY) \<or> (x = Overrun \<and> dr_command a_request = CMD_LIST_VERSIONS)
    | Inr (resp, ag') \<Rightarrow> agent_ok ag' \<and> (rs_success resp \<longleftrightarrow> rs_error_code resp = ERR_NONE)"
  by (rule dispatch_well_typed) (simp add: agent_ok_def an_agent_def MAX_APPS_def)

text \<open>
  C16: Every command ends. When the link to the server node cannot deliver data for ever
  without a new request (a measure of the other end falls with every drain that delivers), a command
  other than the version list always returns a response, whatever is lost, corrupted or fails; for a
  deploy this includes the drain loop that runs until the link is quiet.
\<close>

theorem dispatch_terminates:
  assumes "agent_ok ag" "settles (ev_link ev (dr_dtp_server_node req)) m" "dr_command req \<noteq> CMD_LIST_VERSIONS"
  shows "\<exists>resp ag' s'. dispatch ev req ag s = (Inr (resp, ag'), s') \<and> agent_ok ag'"
proof -
  have "handled_ok {} (dispatch ev req ag s)" by (rule dispatch_ok [OF assms(1)]) (use assms(2,3) in auto)
  then show ?thesis by (cases "dispatch ev req ag s") (auto simp: handled_ok_def split: sum.splits)
qed

theorem dispatch_terminates_witness:
  "\<exists>resp ag' s'. dispatch an_env a_request an_agent (tmp_os [Good, Fail 3]) = (Inr (resp, ag'), s') \<and> agent_ok ag'"
proof (rule dispatch_terminates)
  show "settles (ev_link an_env (dr_dtp_server_node a_request)) length"
    by (simp add: settles_def an_env_def server_link_def Let_def)
qed (simp_all add: agent_ok_def an_agent_def MAX_APPS_def a_request_def)

end
