(* ===== verification/Undo.thy ===== *)
theory Undo
  imports Agent_Total
begin

text \<open>
  Deploys and rollbacks in sequence: a successful deploy over an installed version leaves a store in
  which both versions are found, over any link, so that rollbacks by hash go back to the old version and
  forth to the new one. \<open>kept\<close> are the versions a store holds; the dial is complete while it has room for them.
\<close>

section \<open>The versions of a store\<close>

lemma stamped_added:
  assumes "stamped_store s app" "plain_name app" "tm_ok (clock s)"
    "\<forall>q. contents s' q = contents s q \<or>
       q = backup_dir_of app @ ''/'' @ stamp (clock s) @ ''-'' @ hex_string (sha256 d) @ ''.bak'' \<and> contents s' q = Some d"
  shows "stamped_store s' app"
  unfolding stamped_store_def
proof (intro ballI impI)
  fix p
  let ?n = "stamp (clock s) @ ''-'' @ hex_string (sha256 d) @ ''.bak''"
  assume p: "p \<in> set (map fst (fs s'))" "dirname p = backup_dir_of app"
  then obtain x where x: "contents s' p = Some x" using lookup_None_iff [of s' p] by (auto simp: contents_def)
  show "\<exists>t d. tm_ok t \<and> contents s' p = Some d \<and> after_last CHR ''/'' p = stamp t @ ''-'' @ hex_string (sha256 d) @ ''.bak''"
  proof (cases "contents s' p = contents s p")
    case True
    then have "p \<in> set (map fst (fs s))" using x lookup_None_iff [of s p] by (auto simp: contents_def)
    then show ?thesis using assms(1) p(2) True unfolding stamped_store_def by metis
  next
    case False
    then have n: "p = backup_dir_of app @ CHR ''/'' # ?n" "contents s' p = Some d" using assms(4) by auto
    have "CHR ''/'' \<notin> set ?n" using stamp_plain hex_string_plain by auto
    then have "after_last CHR ''/'' p = ?n" unfolding n(1) by (rule after_last_append)
    then show ?thesis using assms(3) n(2) by blast
  qed
qed

lemma stamped_elsewhere:
  assumes "stamped_store s app" "frame P s t" "\<And>q. P q \<Longrightarrow> dirname q \<noteq> backup_dir_of app"
  shows "stamped_store t app"
proof -
  have "lookup t p = lookup s p" if "dirname p = backup_dir_of app" for p using frame_lookup [OF assms(2)] assms(3) that by blast
  then have "contents t p = contents s p" "p \<in> set (map fst (fs t)) \<longleftrightarrow> p \<in> set (map fst (fs s))" if "dirname p = backup_dir_of app" for p
    using that lookup_None_iff [of s p] lookup_None_iff [of t p] by (simp_all add: contents_def)
  then show ?thesis using assms(1) unfolding stamped_store_def by (metis (no_types, lifting))
qed

text \<open>One more backup in a stamped store, by the name it has there.\<close>

definition kept :: "os \<Rightarrow> string \<Rightarrow> string \<Rightarrow> bool" where
  "kept s app h \<longleftrightarrow> (\<exists>p d. dirname p = backup_dir_of app \<and> contents s p = Some d \<and> hex_string (sha256 d) = h)"

lemma create_stamped:
  assumes "script s = []" "store_ready s app" "stamped_store s app" "contents s src = Some d" "s' = snd (snd (backup_create app src n s))"
  shows "stamped_store s' app" "dir_exists s' (backup_dir_of app)" "kept s' app (hex_string (sha256 d))"
    "kept s app h \<Longrightarrow> kept s' app h" "quietly (store_dirs app) s s'" "kept s' app h \<Longrightarrow> kept s app h \<or> h = hex_string (sha256 d)"
proof -
  have sr: "plain_name app" "backup_store s app" "backup_dirs_free s app" "tm_ok (clock s)" using assms(2) by (simp_all add: store_ready_def)
  from backup_create_result [OF assms(1) sr(1) assms(4) sr(2-4)] obtain name d' s1 where
    b: "backup_create app src MAX_PATH_LEN s = (0, backup_dir_of app @ ''/'' @ name, s1)"
      "contents s1 (backup_dir_of app @ ''/'' @ name) = Some d'" "hex_string (sha256 d') = hex_string (sha256 d)" "is_backup_name name"
      "\<forall>p c. contents s p = Some c \<longrightarrow> contents s1 p = Some c" "dir_exists s1 (backup_dir_of app)"
      "\<forall>q. contents s1 q = contents s q \<or>
         q = backup_dir_of app @ ''/'' @ stamp (clock s) @ ''-'' @ hex_string (sha256 d) @ ''.bak'' \<and> contents s1 q = Some d"
      "CHR ''/'' \<notin> set name" by blast
  have e: "s' = s1" using b(1) assms(5) backup_create_out [of app src n s MAX_PATH_LEN] by simp
  show "stamped_store s' app" unfolding e by (rule stamped_added [OF assms(3) sr(1,4) b(7)])
  show "dir_exists s' (backup_dir_of app)" using b(6) e by simp
  show "quietly (store_dirs app) s s'" unfolding assms(5) by (rule backup_create_quietly [OF sr(1)])
  show "kept s app h \<Longrightarrow> kept s' app h" using b(5) e unfolding kept_def by blast
  show "kept s' app h \<Longrightarrow> kept s app h \<or> h = hex_string (sha256 d)" using b(7) e unfolding kept_def by (metis option.inject)
  have "backup_dir_of app \<noteq> []" unfolding backup_dir_plain(4) [OF sr(1)] by (simp add: BACKUP_DIR_def)
  then have "dirname (backup_dir_of app @ ''/'' @ name) = backup_dir_of app" using dirname_snoc [OF b(8)] by simp
  then show "kept s' app (hex_string (sha256 d))" using b(2,3) e unfolding kept_def by blast
qed

lemma kept_elsewhere:
  assumes "frame P s t" "\<And>q. P q \<Longrightarrow> dirname q \<noteq> backup_dir_of app"
  shows "kept t app h \<longleftrightarrow> kept s app h"
proof -
  have "contents t p = contents s p" if "dirname p = backup_dir_of app" for p using frame_contents [OF assms(1)] assms(2) that by blast
  then show ?thesis unfolding kept_def by metis
qed

lemma finite_kept: "finite {h. kept s app h}"
proof -
  have "{h. kept s app h} \<subseteq> (\<lambda>p. hex_string (sha256 (the (contents s p)))) ` set (map fst (fs s))"
  proof
    fix h assume "h \<in> {h. kept s app h}"
    then obtain p d where p: "contents s p = Some d" "hex_string (sha256 d) = h" by (auto simp: kept_def)
    then have "p \<in> set (map fst (fs s))" using lookup_None_iff [of s p] by (auto simp: contents_def)
    then show "h \<in> (\<lambda>p. hex_string (sha256 (the (contents s p)))) ` set (map fst (fs s))" using p by force
  qed
  then show ?thesis by (rule finite_subset) simp
qed

text \<open>The dial has at most as many entries as the store has versions.\<close>

lemma dial_bound:
  assumes "rollback_ready s app remote"
  shows "length (dial_entries s app) \<le> card {h. kept s app h}"
proof -
  have ok: "dial_ok s (backup_dir_of app) (dial_entries s app)" by (rule dial_listing [OF assms])
  then have "length (dial_entries s app) = card (de_hash ` set (dial_entries s app))"
    by (metis dial_ok_def distinct_card length_map set_map)
  also have "\<dots> \<le> card {h. kept s app h}"
  proof (rule card_mono [OF finite_kept])
    have "kept s app (de_hash e)" if "e \<in> set (dial_entries s app)" for e
      using ok that unfolding dial_ok_def kept_def by metis
    then show "de_hash ` set (dial_entries s app) \<subseteq> {h. kept s app h}" by blast
  qed
  finally show ?thesis .
qed

lemma kept_dialled:
  assumes "rollback_ready s app remote" "kept s app h" "length (dial_entries s app) < MAX_DIAL_ENTRIES"
  shows "h \<in> de_hash ` set (dial_entries s app)"
proof -
  let ?d = "backup_dir_of app"
  have r: "script s = []" "plain_name app" "stamped_store s app" "dir_exists s ?d" using assms(1) by (simp_all add: rollback_ready_def)
  have dl: "?d \<noteq> []" "length ?d < 88" using backup_dir_plain(3,4) [OF r(2)] by (simp_all add: BACKUP_DIR_def)
  have "dial_ok s ?d []" by (simp add: dial_ok_def)
  from collect_entries [OF r(1) stamped_entries [OF r(3,2)] dl(2,1) this, of 0] obtain c u where
    l: "list_entries rollback_collect_callback ?d (dir_entries s ?d) 0 [] s = ((c, u), s)"
      "length u < MAX_DIAL_ENTRIES \<longrightarrow> (\<forall>n d. (n, True) \<in> set (dir_entries s ?d) \<longrightarrow> contents s (?d @ ''/'' @ n) = Some d \<longrightarrow>
         hex_string (sha256 d) \<in> de_hash ` set u)" by blast
  have u: "u = dial_entries s app" using l(1) opendir_quiet [OF r(1,4)] by (simp add: dial_entries_def backup_list_def Let_def)
  obtain p d where p: "dirname p = ?d" "contents s p = Some d" "hex_string (sha256 d) = h" using assms(2) by (auto simp: kept_def)
  have "p \<in> set (map fst (fs s))" using p(2) lookup_None_iff [of s p] by (auto simp: contents_def)
  then have "(after_last CHR ''/'' p, True) \<in> set (dir_entries s ?d)" using p(1) by (auto simp: dir_entries_def)
  moreover have "p = ?d @ ''/'' @ after_last CHR ''/'' p"
    using path_in_dir [OF p(1)] backup_dir_plain(4) [OF r(2)] by (simp add: BACKUP_DIR_def)
  ultimately show ?thesis using l(2) u assms(3) p(2,3) by metis
qed

lemma metadata_after:
  assumes "am_loaded m" "s' = snd (app_metadata_save n p h m s)"
  shows "quietly {METADATA_DIR} s s'" "frame (\<lambda>q. q = METADATA_FILE) s s'"
proof -
  obtain r m' t where t: "app_metadata_save n p h m s = (Some (r, m'), t)" using save_total [OF assms(1)] by blast
  have st: "t = s \<or> t = snd (save_metadata m' s)" using save_state [OF assms(1) t] by blast
  have "quietly {METADATA_DIR} s s" by (rule quiet.stay)
  then show "quietly {METADATA_DIR} s s'" using st save_quietly [of s m'] assms(2) t by (cases "t = s") auto
  show "frame (\<lambda>q. q = METADATA_FILE) s s'" unfolding assms(2) by (rule frames) simp
qed

text \<open>The archive copy and the metadata, after the new version was installed.\<close>

lemma archive_store:
  assumes "script u = []" "store_ready u app" "stamped_store u app" "contents u remote = Some x" "am_loaded m" "\<not> in_backups remote"
    "remote \<noteq> METADATA_FILE" "remote \<noteq> METADATA_DIR" "can_create u remote" "remote \<notin> store_dirs app"
    "s' = snd (app_metadata_save app remote h m (snd (snd (backup_create app remote 0 u))))"
  shows "script s' = []" "stamped_store s' app" "dir_exists s' (backup_dir_of app)"
    "kept s' app v \<longleftrightarrow> kept u app v \<or> v = hex_string (sha256 x)" "can_create s' remote" "hash_at s' remote = hex_string (sha256 x)"
proof -
  let ?v = "snd (snd (backup_create app remote 0 u))" and ?d = "backup_dir_of app"
  note c = create_stamped [where n = 0, OF assms(1-4) refl]
  note md = metadata_after [OF assms(5,11)]
  have mf: "dirname q \<noteq> ?d" if "q = METADATA_FILE" for q
    using that assms(2) backup_dir_plain(4) by (simp add: store_ready_def METADATA_FILE_def dirname_def BACKUP_DIR_def)
  show "script s' = []" using md(1) c(5) assms(1) by (simp add: quietly_def)
  show "stamped_store s' app" by (rule stamped_elsewhere [OF c(1) md(2) mf])
  show "dir_exists s' ?d" by (rule quiet_dir [OF md(1) c(2)])
  have "kept s' app v \<longleftrightarrow> kept ?v app v" by (rule kept_elsewhere [OF md(2) mf])
  then show "kept s' app v \<longleftrightarrow> kept u app v \<or> v = hex_string (sha256 x)" using c(3,4,6) by metis
  show "can_create s' remote" by (rule quiet_create [OF md(1) quiet_create [OF c(5) assms(9,10)]]) (use assms(8) in simp)
  have "contents ?v remote = Some x" using frame_contents [OF backup_create_frame [of u app remote 0], of remote] assms(4,6) by simp
  then show "hash_at s' remote = hex_string (sha256 x)" using frame_contents [OF md(2), of remote] assms(7) by (simp add: hash_at_def)
qed

text \<open>What the store is after a successful deploy over an installed file, whatever the link did.\<close>

lemma deploy_store:
  assumes "handle_deploy ev req ag s = (Inr (resp, ag'), s')" "rs_success resp" "script s = []" "deploy_target app remote"
    "dr_app_name req = Some app" "dr_remote_path req = Some remote" "store_ready s app" "contents s remote = Some d"
    "remote \<notin> store_dirs app" "remote @ ''.tmp'' \<notin> store_dirs app" "stamped_store s app" "am_loaded (ag_meta ag)"
    "can_create s remote" "remote \<notin> state_dirs" "remote \<noteq> METADATA_DIR"
  shows "script s' = []" "stamped_store s' app" "dir_exists s' (backup_dir_of app)" "can_create s' remote"
    "kept s' app (hex_string (sha256 d))" "kept s' app (hash_at s' remote)"
    "kept s' app v \<Longrightarrow> kept s app v \<or> v = hex_string (sha256 d) \<or> v = hash_at s' remote"
proof -
  have nd: "\<not> dir_exists s remote" using assms(13) by (simp add: can_create_def)
  from deploy_success_steps [OF assms(1,2,4-6)] obtain buf s1 s2 e t t1 m h k where
    1: "backup_present app remote s = (Some buf, s1)"
      "svu_download_file (ev_link ev (dr_dtp_server_node req)) (ev_oom ev) (ev_mem ev) (dr_dtp_server_node req) (remote @ ''.tmp'')
       (dr_expected_size req) (Some app) (ucast (dr_dtp_mtu req)) s1 (ag_env ag) = Some (0, s2, e)"
      "compute_file_checksum (remote @ ''.tmp'') HASH_BUF_LEN s2 = (Some h, t)"
      "rename (remote @ ''.tmp'') remote t = (True, t1)"
      "s' = snd (app_metadata_save app remote h m (snd (snd (backup_create app remote 0 (snd (chmod remote k t1))))))" "m = ag_meta ag"
    by metis
  let ?u = "snd (chmod remote k t1)"
  note b = backup_present_ready [OF assms(3,7,8) nd 1(1)]
  have s1: "s1 = snd (snd (backup_create app remote MAX_PATH_LEN s))"
    using 1(1) assms(3,8) by (auto simp: backup_present_def access_quiet contents_def split: prod.splits if_splits)
  note c = create_stamped [OF assms(3,7,11,8) s1]
  note w = install_window [OF 1(2-4) refl, of k]
  obtain x where x: "contents ?u remote = Some x" using w(3) by blast
  note np = window_apart [OF assms(7,4,9,10)]
  have u: "script ?u = []" "store_ready ?u app" "stamped_store ?u app" "kept ?u app v \<longleftrightarrow> kept s1 app v" "can_create ?u remote" for v
    using w(2) b(1) window_ready [OF b(2) w(1,2) assms(4,9,10)] stamped_elsewhere [OF c(1) w(1) np(3)] kept_elsewhere [OF w(1) np(3)]
      quiet_create [OF w(2) quiet_create [OF c(5) assms(13,9)] assms(14)] by (simp_all add: quietly_def)
  have "\<not> in_backups remote" "remote \<noteq> METADATA_FILE" using assms(4) by (simp_all add: deploy_target_def)
  note a = archive_store [OF u(1-3) x assms(12) this assms(15) u(5) assms(9) 1(5) [unfolded 1(6)]]
  show "script s' = []" "stamped_store s' app" "dir_exists s' (backup_dir_of app)" "can_create s' remote" using a(1-3,5) by blast+
  show "kept s' app (hex_string (sha256 d))" "kept s' app (hash_at s' remote)" using a(4,6) u(4) c(3) by simp_all
  show "kept s app v \<or> v = hex_string (sha256 d) \<or> v = hash_at s' remote" if "kept s' app v"
    using a(4,6) u(4) c(6) [of v] that by auto
qed

section \<open>Properties\<close>

lemma deploy_loaded:
  assumes "handle_deploy ev req ag s = (Inr (resp, ag'), s')" "agent_ok ag"
  shows "am_loaded (ag_meta ag')"
  using deploy_ok [of ag UNIV ev req _ s] assms by (simp add: handled_ok_def agent_ok_def)

lemma deploy_rollback_ready:
  assumes "handle_deploy ev req ag s = (Inr (resp, ag'), s')" "rs_success resp" "script s = []" "deploy_target app remote"
    "dr_app_name req = Some app" "dr_remote_path req = Some remote" "store_ready s app" "contents s remote = Some d"
    "remote \<notin> store_dirs app" "remote @ ''.tmp'' \<notin> store_dirs app" "stamped_store s app" "agent_ok ag"
    "can_create s remote" "remote \<notin> state_dirs" "remote \<noteq> METADATA_DIR"
  shows "rollback_ready s' app remote" "kept s' app (hex_string (sha256 d))" "kept s' app (hash_at s' remote)"
    "card {h. kept s app h} + 2 < MAX_DIAL_ENTRIES \<Longrightarrow> length (dial_entries s' app) < MAX_DIAL_ENTRIES"
proof -
  have "am_loaded (ag_meta ag)" using assms(12) by (simp add: agent_ok_def)
  note st = deploy_store [OF assms(1-11) this assms(13-15)]
  have pl: "plain_name app" using assms(7) by (simp add: store_ready_def)
  have ib: "\<not> in_backups remote" using assms(4) by (simp add: deploy_target_def)
  then have "dirname remote \<noteq> backup_dir_of app" using dir_in_backups [OF pl] by blast
  then show rd: "rollback_ready s' app remote" using st(1-4) pl ib assms(4,15) by (simp add: rollback_ready_def deploy_target_def)
  show "kept s' app (hex_string (sha256 d))" "kept s' app (hash_at s' remote)" by (rule st(5), rule st(6))
  have "{h. kept s' app h} \<subseteq> {h. kept s app h} \<union> {hex_string (sha256 d), hash_at s' remote}" using st(7) by auto
  then have "card {h. kept s' app h} \<le> card ({h. kept s app h} \<union> {hex_string (sha256 d), hash_at s' remote})"
    by (intro card_mono) (simp_all add: finite_kept)
  also have "\<dots> \<le> card {h. kept s app h} + card {hex_string (sha256 d), hash_at s' remote}" by (rule card_Un_le)
  also have "\<dots> \<le> card {h. kept s app h} + 2" by (simp add: card_insert_if)
  finally show "length (dial_entries s' app) < MAX_DIAL_ENTRIES" if "card {h. kept s app h} + 2 < MAX_DIAL_ENTRIES"
    using dial_bound [OF rd] that by linarith
qed

lemma select_kept:
  assumes "h \<in> de_hash ` set es" "h \<noteq> []"
  obtains e where "dial_select (Some h) c es = Some (e, es)" "de_hash e = h"
proof -
  have "find (\<lambda>e. de_hash e = h) es \<noteq> None" using assms(1) by (auto simp: find_None_iff)
  then obtain e where e: "find (\<lambda>e. de_hash e = h) es = Some e" by blast
  then have "de_hash e = h" by (auto simp: find_Some_iff)
  then show ?thesis using that e assms(2) by (simp add: dial_select_def present_def)
qed

lemma rollback_to_hash:
  assumes "rollback_ready s app remote" "h \<in> de_hash ` set (dial_entries s app)" "hash_at s remote \<in> de_hash ` set (dial_entries s app)"
    "h \<noteq> []" "am_loaded (ag_meta ag)" "dr_app_name q = Some app" "dr_remote_path q = Some remote" "dr_rollback_hash q = Some h"
  shows "\<exists>resp ag' s'. handle_rollback q ag s = (Inr (resp, ag'), s') \<and> rs_success resp \<and> hash_at s' remote = h \<and>
    dial_entries s' app = dial_entries s app \<and> rollback_ready s' app remote \<and> am_loaded (ag_meta ag')"
proof -
  let ?es = "dial_entries s app"
  obtain e where e: "dial_select (Some h) (hash_at s remote) ?es = Some (e, ?es)" "de_hash e = h" by (rule select_kept [OF assms(2,4)])
  have "?es \<noteq> []" using assms(2) by auto
  from rollback_known [OF assms(1,6,7) this _ assms(5), of e ?es] e assms(3,8) show ?thesis by auto
qed

text \<open>
  C9: A deploy can be undone. Over any link, after a deploy that reported success over an installed
  version, with no failing call and a store as \<open>backup_create\<close> makes it, the rollback to the hash of the
  version that was replaced succeeds and puts bytes with that hash back; and the rollback to the hash of the
  new version then brings that one back, as long as the dial of 32 versions has room for both.
\<close>

theorem deploy_undone:
  assumes "handle_deploy ev req ag s = (Inr (resp, ag'), s')" "rs_success resp" "script s = []" "deploy_target app remote"
    "dr_app_name req = Some app" "dr_remote_path req = Some remote" "store_ready s app" "contents s remote = Some d"
    "remote \<notin> store_dirs app" "remote @ ''.tmp'' \<notin> store_dirs app" "stamped_store s app" "agent_ok ag"
    "can_create s remote" "remote \<notin> state_dirs" "remote \<noteq> METADATA_DIR"
    "card {h. kept s app h} + 2 < MAX_DIAL_ENTRIES" "dr_app_name q = Some app" "dr_remote_path q = Some remote"
  shows "\<exists>r1 a1 s1 r2 a2 s2.
    handle_rollback (q\<lparr>dr_rollback_hash := Some (hash_at s remote)\<rparr>) ag' s' = (Inr (r1, a1), s1) \<and> rs_success r1 \<and>
    hash_at s1 remote = hash_at s remote \<and>
    handle_rollback (q\<lparr>dr_rollback_hash := Some (hash_at s' remote)\<rparr>) a1 s1 = (Inr (r2, a2), s2) \<and> rs_success r2 \<and>
    hash_at s2 remote = hash_at s' remote"
proof -
  note rd = deploy_rollback_ready [OF assms(1-15)]
  have h: "hash_at s remote = hex_string (sha256 d)" "hash_at s remote \<noteq> []" using assms(8) hex_ne by (simp_all add: hash_at_def)
  have n: "hash_at s' remote \<noteq> []" using rd(3) hex_ne by (auto simp: kept_def)
  have dial: "hash_at s remote \<in> de_hash ` set (dial_entries s' app)" "hash_at s' remote \<in> de_hash ` set (dial_entries s' app)"
    using kept_dialled [OF rd(1) _ rd(4) [OF assms(16)]] rd(2,3) h(1) by simp_all
  let ?q = "\<lambda>h. q\<lparr>dr_rollback_hash := Some h\<rparr>"
  have q: "dr_app_name (?q h) = Some app" "dr_remote_path (?q h) = Some remote" "dr_rollback_hash (?q h) = Some h" for h
    using assms(17,18) by simp_all
  from rollback_to_hash [OF rd(1) dial h(2) deploy_loaded [OF assms(1,12)] q] obtain r1 a1 s1 where
    1: "handle_rollback (?q (hash_at s remote)) ag' s' = (Inr (r1, a1), s1)" "rs_success r1" "hash_at s1 remote = hash_at s remote"
      "dial_entries s1 app = dial_entries s' app" "rollback_ready s1 app remote" "am_loaded (ag_meta a1)" by blast
  from rollback_to_hash [OF 1(5) _ _ n 1(6) q] dial 1(3,4) obtain r2 a2 s2 where
    "handle_rollback (?q (hash_at s' remote)) a1 s1 = (Inr (r2, a2), s2)" "rs_success r2" "hash_at s2 remote = hash_at s' remote" by auto
  then show ?thesis using 1(1-3) by blast
qed

lemma dial_path_short:
  assumes "rollback_ready s app remote" "e \<in> set (dial_entries s app)"
  shows "length (de_path e) < MAX_PATH_LEN"
proof -
  have r: "plain_name app" "stamped_store s app" using assms(1) by (simp_all add: rollback_ready_def)
  have "dial_ok s (backup_dir_of app) (dial_entries s app)" by (rule dial_listing [OF assms(1)])
  then obtain d where d: "dirname (de_path e) = backup_dir_of app" "contents s (de_path e) = Some d" using assms(2) by (auto simp: dial_ok_def)
  have "de_path e \<in> set (map fst (fs s))" using d(2) lookup_None_iff [of s "de_path e"] by (auto simp: contents_def)
  then obtain t x where "tm_ok t" "after_last CHR ''/'' (de_path e) = stamp t @ ''-'' @ hex_string (sha256 x) @ ''.bak''"
    using r(2) d(1) unfolding stamped_store_def by blast
  then have "length (after_last CHR ''/'' (de_path e)) = 84" by (simp add: length_stamp length_hex_string)
  moreover have "de_path e = backup_dir_of app @ ''/'' @ after_last CHR ''/'' (de_path e)"
    using path_in_dir [OF d(1)] backup_dir_plain(4) [OF r(1)] by (simp add: BACKUP_DIR_def)
  then have "length (de_path e) = length (backup_dir_of app) + 1 + length (after_last CHR ''/'' (de_path e))"
    by (metis length_append length_Cons list.size(3) add.assoc One_nat_def)
  ultimately show ?thesis using backup_dir_plain(3) [OF r(1)] by (simp add: MAX_PATH_LEN_def)
qed

section \<open>Witnesses\<close>

lemma installed_store:
  "stamped_store installed_os ''app''" "kept installed_os ''app'' h \<longleftrightarrow> False" "can_create installed_os ''/tmp/f''" "agent_ok an_agent"
proof -
  have i: "map fst (fs installed_os) = [''/tmp/f'']" "dirs installed_os = [''/tmp'']" by (simp_all add: installed_os_def tmp_os_def)
  have d: "dirname ''/tmp/f'' \<noteq> backup_dir_of ''app''" by (simp add: dirname_def backup_dir_of_def cstr_def MAX_PATH_LEN_def BACKUP_DIR_def)
  then show "stamped_store installed_os ''app''" by (simp add: stamped_store_def i del: set_map)
  have "p = ''/tmp/f''" if "contents installed_os p = Some x" for p x
    using that lookup_None_iff [of installed_os p] i(1) by (auto simp: contents_def simp del: set_map)
  then show "kept installed_os ''app'' h \<longleftrightarrow> False" using d by (auto simp: kept_def)
  show "can_create installed_os ''/tmp/f''" using i(2) by (simp add: can_create_def dir_exists_def dirname_def)
  show "agent_ok an_agent" by (simp add: agent_ok_def an_agent_def)
qed

theorem deploy_undone_witness:
  "\<exists>resp ag' s' r1 a1 s1. handle_deploy an_env a_request an_agent installed_os = (Inr (resp, ag'), s') \<and>
    handle_rollback (a_rollback\<lparr>dr_rollback_hash := Some (hash_at installed_os ''/tmp/f'')\<rparr>) ag' s' = (Inr (r1, a1), s1) \<and>
    hash_at s1 ''/tmp/f'' = hex_string (sha256 [9])"
proof -
  obtain resp ag' s' where d: "handle_deploy an_env a_request an_agent installed_os = (Inr (resp, ag'), s')" "rs_success resp"
    by (rule a_deploy)
  note io = installed_os_ready and st = installed_store
  have q: "dr_app_name a_rollback = Some ''app''" "dr_remote_path a_rollback = Some ''/tmp/f''" by (simp_all add: a_rollback_def)
  have a: "dr_app_name a_request = Some ''app''" "dr_remote_path a_request = Some ''/tmp/f''" by (simp_all add: a_request_def)
  have n: "''/tmp/f'' \<notin> state_dirs" "''/tmp/f'' \<noteq> METADATA_DIR" by (simp_all add: state_dirs_def SESSION_STATE_DIR_def METADATA_DIR_def)
  have c: "card {h. kept installed_os ''app'' h} + 2 < MAX_DIAL_ENTRIES" by (simp add: st(2) MAX_DIAL_ENTRIES_def)
  have "hash_at installed_os ''/tmp/f'' = hex_string (sha256 [9])" using io(4) by (simp add: hash_at_def)
  then show ?thesis using deploy_undone [OF d io(2) a_target(1) a io(3,4) a_target(2,3) st(1,4,3) n c q] d(1) by auto
qed

end
