(* ===== verification/Ground_System.thy ===== *)
theory Ground_System
  imports Ground_Cli Undo
begin

text \<open>
  The ground station and the agent together: the network of the commands is the agent's
  \<open>handle_connection\<close>, with the station's running server as the far end of its transfers. Shown: an upload
  that reports success has arrived, and over a link that loses nothing it succeeds; a rollback command
  installs the version it reports, and what an upload replaced can be put back; the history database never changes the outcome; no server is left
  running; and where the duplicate check and the length of names go wrong.
\<close>

section \<open>The station's calls\<close>

lemma apm_loop_quiet:
  "script s = [] \<Longrightarrow> \<exists>ds. apm_checksum_loop r ctx s = (fold (\<lambda>d c. apm_sha256_update c d) ds ctx, s) \<and> concat ds = r"
proof (induction r ctx s rule: apm_checksum_loop.induct)
  case (1 r ctx s)
  have f: "fread 4096 r s = (take 4096 r, drop 4096 r, False, s)" using 1(2) by (simp add: fread_def io_simps)
  show ?case
  proof (cases "r = []")
    case True
    then show ?thesis using f by (subst apm_checksum_loop.simps) (auto intro: exI [of _ "[]"])
  next
    case False
    from 1(1) [OF f [symmetric] refl refl] False 1(2) obtain ds where
      ds: "apm_checksum_loop (drop 4096 r) (apm_sha256_update ctx (take 4096 r)) s =
        (fold (\<lambda>d c. apm_sha256_update c d) ds (apm_sha256_update ctx (take 4096 r)), s)" "concat ds = drop 4096 r" by auto
    then show ?thesis using f False
      by (subst apm_checksum_loop.simps) (auto intro!: exI [of _ "take 4096 r # ds"])
  qed
qed

lemma apm_checksum_quiet:
  assumes "script s = []" "contents s p = Some d"
  shows "compute_checksum p HISTORY_MAX_HASH s = (Some (hex_string (sha256 d)), s)"
proof -
  obtain ds where ds: "apm_checksum_loop d (apm_sha256_init apm_stack) s =
    (fold (\<lambda>d c. apm_sha256_update c d) ds (apm_sha256_init apm_stack), s)" "concat ds = d" using apm_loop_quiet [OF assms(1)] by blast
  have "apm_sha256_final (fold (\<lambda>d c. apm_sha256_update c d) ds (apm_sha256_init apm_stack)) = sha256 d"
    using apm.digest_pieces [of apm_stack ds] ds(2) by (simp add: apm_wf_def apm_stack_def)
  then show ?thesis using assms ds(1) by (simp add: compute_checksum_def fopen_r_def io_simps)
qed

lemma station_fields [simp]:
  "gs_env (say c g) = gs_env g" "gs_server (say c g) = gs_server g" "gs_os (say c g) = gs_os g" "gs_db (say c g) = gs_db g"
  "gs_env (record_history gd w g) = gs_env g" "gs_server (record_history gd w g) = gs_server g"
  "gs_out (record_history gd w g) = gs_out g" "gs_err (say c g) = gs_err g"
  by (simp_all add: say_def record_history_def split: prod.splits)

lemma station_same [simp]: "g\<lparr>gs_os := gs_os g\<rparr> = (g :: ('e, 'd) station)"
  by simp

text \<open>The exchange, when the station's calls do not fail.\<close>

lemma send_quiet:
  assumes "script (gs_os g) = []" "gd_transact gd (gs_server g) node tmo (gd_pack gd req) (gs_env g) = (reply, e)"
  shows "send_deploy_request_timeout gd node req tmo g =
    (case reply of None \<Rightarrow> Inr None | Some b \<Rightarrow> if b = [] then Inr None else if 4096 < length b then Inl Overrun else Inr (gd_unpack gd b),
     g\<lparr>gs_env := e\<rparr>)"
  using assms by (auto simp: send_deploy_request_timeout_def malloc_def io_simps split: option.splits)

text \<open>The server of a file of fewer than $2^{32}$ bytes, and the request sent for it.\<close>

definition serving :: "bytes \<Rightarrow> svu_serve_session_t" where
  "serving d = \<lparr>ss_src = Some d, ss_total = of_nat (length d), ss_block_size = SVU_SERVE_DEFAULT_BLOCK, ss_stop = False, ss_active = True\<rparr>"

lemma served_file_quiet:
  assumes "script s = []"
  shows "svu_load_file oom p s = (case contents s p of None \<Rightarrow> None | Some d \<Rightarrow> if oom then None else Some (d, of_nat (length d)), s)"
  using assms by (simp add: svu_load_file_def fopen_r_def fread_def io_simps split: option.splits)

text \<open>A started session serves the file as it is.\<close>

lemma session_start_is:
  assumes "script s = []"
  shows "svu_serve_session_start oom th (Some p) SVU_SERVE_DEFAULT_BLOCK (Some zero_session) s =
    (case contents s p of
       Some d \<Rightarrow> if \<not> oom \<and> (of_nat (length d) :: u32) \<noteq> 0 \<and> th then (0, Some (serving d), s)
                 else (-1, Some (zero_session\<lparr>ss_total := if oom then 0 else of_nat (length d), ss_block_size := SVU_SERVE_DEFAULT_BLOCK\<rparr>), s)
     | None \<Rightarrow> (-1, Some (zero_session\<lparr>ss_block_size := SVU_SERVE_DEFAULT_BLOCK\<rparr>), s))"
proof -
  have b: "SVU_SERVE_DEFAULT_BLOCK \<noteq> 0" by (simp add: SVU_SERVE_DEFAULT_BLOCK_def)
  show ?thesis
  proof (cases "contents s p")
    case None
    then show ?thesis using served_file_quiet [OF assms] b by (simp add: svu_serve_session_start_def zero_session_def)
  next
    case (Some d)
    then show ?thesis using served_file_quiet [OF assms] b by (cases oom) (simp_all add: svu_serve_session_start_def zero_session_def serving_def Let_def)
  qed
qed

lemma session_start_cases:
  assumes "script s = []" "svu_serve_session_start oom th (Some p) SVU_SERVE_DEFAULT_BLOCK (Some zero_session) s = (rc, srv, s')"
  shows "s' = s" "\<exists>c. srv = Some c \<and> (ss_active c \<longrightarrow> rc = 0)"
proof -
  note e = assms(2) [unfolded session_start_is [OF assms(1)]]
  have "s' = s \<and> (\<exists>c. srv = Some c \<and> (ss_active c \<longrightarrow> rc = 0))"
  proof (cases "contents s p")
    case None
    have "srv = Some (zero_session\<lparr>ss_block_size := SVU_SERVE_DEFAULT_BLOCK\<rparr>) \<and> s' = s"
      using e unfolding None option.case by simp
    then show ?thesis by (simp add: zero_session_def)
  next
    case (Some d)
    show ?thesis
    proof (cases "\<not> oom \<and> (of_nat (length d) :: u32) \<noteq> 0 \<and> th")
      case True
      have "rc = 0 \<and> srv = Some (serving d) \<and> s' = s" using e unfolding Some option.case if_P [OF True] by simp
      then show ?thesis by simp
    next
      case False
      have "srv = Some (zero_session\<lparr>ss_total := if oom then 0 else of_nat (length d), ss_block_size := SVU_SERVE_DEFAULT_BLOCK\<rparr>) \<and> s' = s"
        using e unfolding Some option.case if_not_P [OF False] by simp
      then show ?thesis by (simp add: zero_session_def)
    qed
  qed
  then show "s' = s" "\<exists>c. srv = Some c \<and> (ss_active c \<longrightarrow> rc = 0)" by blast+
qed

section \<open>A transfer seen from the station\<close>

definition push_of :: "('e, 'd) station_env \<Rightarrow> string \<Rightarrow> string \<Rightarrow> bytes \<Rightarrow> u32 \<Rightarrow> stat_result \<Rightarrow> deploy_request" where
  "push_of gd app remote d mtu st = push_request app remote (of_nat (length d)) (hex_string (sha256 d)) (gd_iface gd) mtu st"

text \<open>The station's own calls leave no failure behind.\<close>

text \<open>What recording a deploy does to the file system, beside the database; and at most one line of its own on standard error.\<close>

definition history_os :: "string option \<Rightarrow> satdeploy_history_write_t \<Rightarrow> os \<Rightarrow> os" where
  "history_os home w s =
     (if hw_app w = None \<or> hw_file_hash w = None \<or> hw_remote_path w = None \<or> hw_action w = None \<or> get_history_db_path home 256 = None
      then s else snd (ensure_db_dir home s))"

definition history_lines :: "string list \<Rightarrow> bool" where
  "history_lines err \<longleftrightarrow> length err \<le> 1 \<and> (\<forall>l \<in> set err. prefix ''satdeploy: '' l)"

lemma open_db_result:
  assumes "open_db_for_write q home s d = (ok, err, s', d')"
  shows "s' = (if get_history_db_path home 256 = None then s else snd (ensure_db_dir home s))" "history_lines err" "ok \<Longrightarrow> err = []"
  using assms by (auto simp: open_db_for_write_def history_lines_def split: option.splits prod.splits if_splits)

lemma history_record_result:
  assumes "satdeploy_history_record q home (Some w) s d = (rc, err, s', d')"
  shows "s' = history_os home w s" "history_lines err" "rc = 0 \<Longrightarrow> err = []"
proof -
  obtain ok err1 s1 d1 where o: "open_db_for_write q home s d = (ok, err1, s1, d1)" by (metis prod_cases4)
  note r = open_db_result [OF o]
  show "s' = history_os home w s" using assms o r(1) by (auto simp: satdeploy_history_record_def history_os_def split: if_splits option.splits prod.splits)
  show "history_lines err" using assms o r(2)
    by (auto simp: satdeploy_history_record_def history_lines_def split: if_splits option.splits prod.splits)
  show "rc = 0 \<Longrightarrow> err = []" using assms by (auto simp: satdeploy_history_record_def split: if_splits option.splits prod.splits)
qed

lemma record_history_fields [simp]:
  "gs_os (record_history gd w g) = history_os (gd_home gd) w (gs_os g)"
  "\<exists>err. gs_err (record_history gd w g) = gs_err g @ err \<and> history_lines err"
  using history_record_result [of "gd_sqlite gd" "gd_home gd" w "gs_os g" "gs_db g"] by (auto simp: record_history_def split: prod.splits)

lemma record_quiet: "script (gs_os g) = [] \<Longrightarrow> script (gs_os (record_history gd w g)) = []"
  by (cases "gd_home gd") (auto simp: history_os_def ensure_db_dir_def Let_def stat_def mkdir_def io_simps split: prod.splits mkdir_result.splits)

lemma transfer_success:
  assumes "script (gs_os g) = []"
    "deploy_transfer gd node app lp rp sz ck mtu g = (Inr SLASH_SUCCESS, g')"
  obtains srv st b e resp where "gd_transact gd srv node DEFAULT_TIMEOUT (gd_pack gd (push_request app rp sz ck (gd_iface gd) mtu st)) (gs_env g) = (Some b, e)"
    "gd_unpack gd b = Some resp" "rs_success resp" "gs_env g' = e" "script (gs_os g') = []"
proof -
  obtain rc srv s1 where s: "svu_serve_session_start (gd_oom gd) (gd_thread gd) (Some lp) SVU_SERVE_DEFAULT_BLOCK (Some zero_session) (gs_os g) = (rc, srv, s1)"
    by (metis prod_cases3)
  have s1: "s1 = gs_os g" by (rule session_start_cases(1) [OF assms(1) s])
  have rc: "rc = 0" using assms(2) s by (simp add: deploy_transfer_def Let_def split: if_splits)
  obtain st s2 where st: "stat lp s1 = (st, s2)" by force
  have s2: "s2 = gs_os g" using st s1 assms(1) by (simp add: stat_def io_simps)
  let ?g = "g\<lparr>gs_server := srv, gs_os := s2\<rparr>" and ?req = "push_request app rp sz ck (gd_iface gd) mtu st"
  obtain reply e where t: "gd_transact gd srv node DEFAULT_TIMEOUT (gd_pack gd ?req) (gs_env g) = (reply, e)" by force
  have sq: "send_deploy_request_timeout gd node ?req DEFAULT_TIMEOUT ?g =
    (case reply of None \<Rightarrow> Inr None | Some b \<Rightarrow> if b = [] then Inr None else if 4096 < length b then Inl Overrun else Inr (gd_unpack gd b),
     ?g\<lparr>gs_env := e\<rparr>)" by (rule send_quiet) (use assms(1) s2 t in simp_all)
  obtain b resp where r: "reply = Some b" "gd_unpack gd b = Some resp" "rs_success resp" "gs_env g' = e"
    using assms(2) s rc st sq by (auto simp: deploy_transfer_def Let_def split: option.splits if_splits)
  obtain w c where g': "g' = record_history gd w (say c (?g\<lparr>gs_env := e, gs_server := svu_serve_session_stop srv\<rparr>))"
    using assms(2) s rc st sq by (auto simp: deploy_transfer_def Let_def split: option.splits if_splits)
  have "script (gs_os g') = []" unfolding g' by (rule record_quiet) (simp add: say_def s2 assms(1))
  then show ?thesis using that t r by blast
qed

section \<open>The station and the agent together\<close>

text \<open>
  The network of the two: an exchange hands the request to \<open>handle_connection\<close> of the agent, which
  sees the running server through its links; without a reply, or when the agent does not return,
  nothing comes back. The other end's state is then the agent's, with its file system. A request or reply lost on
  the way is one that does not unpack at the other end: where a result needs it to arrive it says so with
  \<open>request_arrives\<close> and \<open>reply_arrives\<close>.
\<close>

definition sat_exchange ::
  "(svu_serve_session_t option \<Rightarrow> 'e env) \<Rightarrow> svu_serve_session_t option \<Rightarrow> u32 \<Rightarrow> u32 \<Rightarrow> bytes \<Rightarrow> 'e agent \<times> os \<Rightarrow>
     bytes option \<times> 'e agent \<times> os" where
  "sat_exchange ev server node timeout_ms b = (\<lambda>(ag, s).
     (case handle_connection (ev server) (Some b) ag s of
        (Inl x, s) \<Rightarrow> (None, ag, s)
      | (Inr (reply, ag), s) \<Rightarrow> (reply, ag, s)))"

text \<open>
  What the protobuf library promises: a message never unpacks to another one. A packed null string
  would come back empty, hence the restriction to requests without one.
\<close>

definition no_null :: "deploy_request \<Rightarrow> bool" where
  "no_null req \<longleftrightarrow> dr_app_name req \<noteq> None \<and> dr_param_name req \<noteq> None \<and> dr_remote_path req \<noteq> None \<and>
     dr_expected_checksum req \<noteq> None \<and> dr_rollback_hash req \<noteq> None"

definition codec_sound :: "('e agent \<times> os, 'd) station_env \<Rightarrow> 'e env \<Rightarrow> bool" where
  "codec_sound gd ev \<longleftrightarrow>
     (\<forall>req req'. no_null req \<longrightarrow> ev_unpack ev (gd_pack gd req) = Some req' \<longrightarrow> req' = req) \<and>
     (\<forall>resp resp'. gd_unpack gd (ev_pack ev resp) = Some resp' \<longrightarrow> resp' = resp)"

lemma exchange_reply:
  assumes "gd_transact gd = sat_exchange ev" "codec_sound gd (ev srv)" "no_null req"
    "gd_transact gd srv node tmo (gd_pack gd req) (ag, s) = (Some b, e)" "gd_unpack gd b = Some resp"
  obtains ag' s' where "dispatch (ev srv) req ag s = (Inr (resp, ag'), s')" "e = (ag', s')"
proof -
  have t: "sat_exchange ev srv node tmo (gd_pack gd req) (ag, s) = (Some b, e)" using assms(1,4) by simp
  obtain req' where q: "ev_unpack (ev srv) (gd_pack gd req) = Some req'"
    using t by (cases "ev_unpack (ev srv) (gd_pack gd req)") (simp_all add: sat_exchange_def handle_connection_def)
  have "req' = req" using q assms(2,3) by (simp add: codec_sound_def)
  then have q: "ev_unpack (ev srv) (gd_pack gd req) = Some req" using q by simp
  obtain r s1 where d: "dispatch (ev srv) req ag s = (r, s1)" by force
  show ?thesis
  proof (cases r)
    case (Inl x)
    then show ?thesis using t q d by (simp add: sat_exchange_def handle_connection_def)
  next
    case (Inr p)
    obtain resp1 ag1 where p: "p = (resp1, ag1)" by force
    have "b = ev_pack (ev srv) resp1" "e = (ag1, s1)"
      using t q d Inr p by (simp_all add: sat_exchange_def handle_connection_def Let_def split: if_splits)
    moreover from this(1) have "resp = resp1" using assms(2,5) by (auto simp: codec_sound_def)
    ultimately show ?thesis using that [of ag1 s1] d Inr p by simp
  qed
qed

text \<open>Each application of a status report has the hash of the file at its path, and nothing is touched.\<close>

lemma status_callback_entry:
  assumes "status_metadata_callback ev x (ents, e) s = ((ents', e'), s')"
  shows "frame (\<lambda>_. False) s s'" "\<forall>a \<in> set ents'. a \<in> set ents \<or> st_app_name a = ae_app_name x \<and> st_remote_path a = ae_remote_path x \<and>
    (\<exists>d. contents s (ae_remote_path x) = Some d \<and> st_file_hash a = hex_string (sha256 d))"
proof -
  obtain h s1 where c: "compute_file_checksum (ae_remote_path x) HASH_BUF_LEN s = (h, s1)" by force
  have f: "frame (\<lambda>_. False) s s1" using checksum_frame [of "\<lambda>_. False" s "ae_remote_path x" HASH_BUF_LEN] c by simp
  show "frame (\<lambda>_. False) s s'"
    using assms f c frame_refl [of "\<lambda>_. False" s] by (auto simp: status_metadata_callback_def split_def Let_def split: if_splits option.splits)
  show "\<forall>a \<in> set ents'. a \<in> set ents \<or> st_app_name a = ae_app_name x \<and> st_remote_path a = ae_remote_path x \<and>
    (\<exists>d. contents s (ae_remote_path x) = Some d \<and> st_file_hash a = hex_string (sha256 d))"
  proof (cases "32 \<le> length ents \<or> h = None")
    case True
    then show ?thesis using assms c by (auto simp: status_metadata_callback_def split: if_splits)
  next
    case False
    then obtain k where k: "h = Some k" by auto
    obtain d where "contents s (ae_remote_path x) = Some d" "k = hex_string (sha256 d)" using checksum_sound c k by blast
    moreover have "\<exists>run. ents' = ents @ [\<lparr>st_app_name = ae_app_name x, st_running = run, st_file_hash = k, st_remote_path = ae_remote_path x\<rparr>]"
      using assms c k False by (auto simp: status_metadata_callback_def split_def Let_def)
    ultimately show ?thesis by auto
  qed
qed

lemma status_entries:
  assumes "meta_calls (status_metadata_callback ev) es (ents, e) s = ((ents', e'), s')"
  shows "frame (\<lambda>_. False) s s' \<and> (\<forall>a \<in> set ents'. a \<in> set ents \<or> (\<exists>x \<in> set es. st_app_name a = ae_app_name x \<and>
    st_remote_path a = ae_remote_path x \<and> (\<exists>d. contents s (ae_remote_path x) = Some d \<and> st_file_hash a = hex_string (sha256 d))))"
  using assms
proof (induction es arbitrary: ents e s)
  case Nil
  then show ?case using frame_refl by auto
next
  case (Cons x es)
  obtain ents1 e1 s1 where c: "status_metadata_callback ev x (ents, e) s = ((ents1, e1), s1)" by (metis prod.exhaust)
  note cb = status_callback_entry [OF c]
  have same: "contents s1 p = contents s p" for p using frame_contents [OF cb(1)] by simp
  from Cons.IH [of ents1 e1 s1] Cons.prems c have
    i: "frame (\<lambda>_. False) s1 s'" "\<forall>a \<in> set ents'. a \<in> set ents1 \<or> (\<exists>x \<in> set es. st_app_name a = ae_app_name x \<and>
      st_remote_path a = ae_remote_path x \<and> (\<exists>d. contents s (ae_remote_path x) = Some d \<and> st_file_hash a = hex_string (sha256 d)))"
    unfolding same by simp_all
  have "a \<in> set ents \<or> (\<exists>x \<in> set (x # es). st_app_name a = ae_app_name x \<and>
    st_remote_path a = ae_remote_path x \<and> (\<exists>d. contents s (ae_remote_path x) = Some d \<and> st_file_hash a = hex_string (sha256 d)))"
    if "a \<in> set ents'" for a using i(2) cb(2) that by (meson list.set_intros)
  then show ?case using frame_trans [OF cb(1) i(1)] by blast
qed

lemma status_report:
  assumes "handle_status ev req ag s = (Inr (resp, ag'), s')"
  shows "frame (\<lambda>_. False) s s'" "\<forall>a \<in> set (rs_apps resp). \<exists>x \<in> set (am_cache (ag_meta ag')). st_app_name a = ae_app_name x \<and>
    (\<exists>d. contents s' (ae_remote_path x) = Some d \<and> st_file_hash a = hex_string (sha256 d))"
proof -
  obtain r s1 where l: "load_metadata (ag_meta ag) s = (r, s1)" by force
  then obtain k m where m: "r = Some (k, m)" using assms by (cases r) (auto simp: handle_status_def app_metadata_list_def)
  obtain ents e s2 where c: "meta_calls (status_metadata_callback ev) (am_cache m) ([], ag_env ag) s1 = ((ents, e), s2)" by (metis prod.exhaust)
  have e: "resp = resp_init\<lparr>rs_success := True, rs_apps := ents\<rparr>" "ag_meta ag' = m" "s' = s2"
    using assms l m c by (auto simp: handle_status_def app_metadata_list_def)
  note es = status_entries [OF c]
  have f: "frame (\<lambda>_. False) s s1" using load_metadata_frame [of "\<lambda>_. False" s "ag_meta ag"] l by simp
  show "frame (\<lambda>_. False) s s'" using frame_trans [OF f] es e(3) by simp
  have "contents s' p = contents s1 p" for p using frame_contents [of "\<lambda>_. False" s1 s'] es e(3) by simp
  then show "\<forall>a \<in> set (rs_apps resp). \<exists>x \<in> set (am_cache (ag_meta ag')). st_app_name a = ae_app_name x \<and>
    (\<exists>d. contents s' (ae_remote_path x) = Some d \<and> st_file_hash a = hex_string (sha256 d))"
    using es e by fastforce
qed

lemma push_no_null [simp]: "no_null (push_request app rp sz ck ifc mtu st)" "no_null (req_init\<lparr>dr_command := CMD_STATUS\<rparr>)"
  by (simp_all add: push_request_def no_null_def req_init_def)

definition has_bytes_of :: "os \<Rightarrow> string \<Rightarrow> bytes \<Rightarrow> bool" where
  "has_bytes_of s p d \<longleftrightarrow> (\<exists>x. contents s p = Some x \<and> hex_string (sha256 x) = hex_string (sha256 d))"

lemma transfer_deploys:
  assumes "gd_transact gd = sat_exchange ev" "\<And>srv. codec_sound gd (ev srv)" "script (gs_os g) = []"
    "deploy_transfer gd node app lp rp sz ck mtu g = (Inr SLASH_SUCCESS, g')" "gs_env g = (ag, s)"
  obtains srv st resp ag' s' where "handle_deploy (ev srv) (push_request app rp sz ck (gd_iface gd) mtu st) ag s = (Inr (resp, ag'), s')"
    "rs_success resp" "gs_env g' = (ag', s')" "script (gs_os g') = []"
proof -
  obtain srv st b e resp where t: "gd_transact gd srv node DEFAULT_TIMEOUT (gd_pack gd (push_request app rp sz ck (gd_iface gd) mtu st)) (ag, s) = (Some b, e)"
    "gd_unpack gd b = Some resp" "rs_success resp" "gs_env g' = e" "script (gs_os g') = []"
    by (rule transfer_success [OF assms(3,4)]) (use assms(5) in simp)
  obtain ag' s' where r: "dispatch (ev srv) (push_request app rp sz ck (gd_iface gd) mtu st) ag s = (Inr (resp, ag'), s')" "e = (ag', s')"
    by (rule exchange_reply [OF assms(1,2) push_no_null(1) t(1,2)])
  then show ?thesis using that t(3-5) by (simp add: dispatch_def push_request_def)
qed

lemma transfer_sound:
  assumes "gd_transact gd = sat_exchange ev" "\<And>srv. codec_sound gd (ev srv)" "script (gs_os g) = []" "deploy_target app rp"
    "deploy_transfer gd node app lp rp sz (hex_string (sha256 d)) mtu g = (Inr SLASH_SUCCESS, g')"
  shows "has_bytes_of (snd (gs_env g')) rp d"
proof -
  obtain ag s where g: "gs_env g = (ag, s)" by force
  obtain srv st resp ag' s' where
    h: "handle_deploy (ev srv) (push_request app rp sz (hex_string (sha256 d)) (gd_iface gd) mtu st) ag s = (Inr (resp, ag'), s')"
      "rs_success resp" "gs_env g' = (ag', s')" by (rule transfer_deploys [OF assms(1-3,5) g])
  from deploy_old_or_new(2) [OF h(1)] have "verified (hex_string (sha256 d)) (lookup s' rp)"
    using assms(4) h(2) by (simp add: push_request_def)
  then show ?thesis using h(3) by (auto simp: verified_def has_bytes_of_def contents_def)
qed

lemma size_quiet:
  assumes "script s = []"
  obtains sz where "get_file_size p s = (sz, s)" "\<And>f. lookup s p = Some f \<Longrightarrow> \<not> dir_exists s p \<Longrightarrow> sz = Some (of_nat (length (f_data f)))"
proof -
  obtain r where r: "stat p s = (r, s)" "\<And>f. lookup s p = Some f \<Longrightarrow> \<not> dir_exists s p \<Longrightarrow> r = Is_reg f"
    using assms by (auto simp: stat_def io_simps)
  show ?thesis
  proof (rule that)
    show "get_file_size p s = (if r = No_entry then None else Some (of_nat (size_of r)), s)"
      using r(1) by (cases r) (simp_all add: get_file_size_def)
    show "(if r = No_entry then None else Some (of_nat (size_of r))) = Some (of_nat (length (f_data f)))"
      if "lookup s p = Some f" "\<not> dir_exists s p" for f using r(2) [OF that] by (simp add: size_of_def)
  qed
qed

text \<open>A deploy of a readable file that succeeds has run the upload, or has found the file reported as deployed.\<close>

lemma single_app_run:
  assumes "script (gs_os g) = []" "contents (gs_os g) (expand_tilde (gd_home gd) l) = Some d"
    "deploy_single_app gd node app (Some l) (Some rp) force mtu g = (Inr SLASH_SUCCESS, g')"
  obtains (upload) sz g1 where "script (gs_os g1) = []" "force \<longrightarrow> g1 = g"
      "deploy_transfer gd node app (expand_tilde (gd_home gd) l) rp sz (hex_string (sha256 d)) mtu g1 = (Inr SLASH_SUCCESS, g')"
  | (present) b resp where "\<not> force" "already_deployed resp app (hex_string (sha256 d))" "gd_unpack gd b = Some resp"
      "gd_transact gd (gs_server g) node PROBE_TIMEOUT (gd_pack gd (req_init\<lparr>dr_command := CMD_STATUS\<rparr>)) (gs_env g) = (Some b, gs_env g')"
proof -
  let ?lp = "expand_tilde (gd_home gd) l" and ?h = "hex_string (sha256 d)" and ?req = "req_init\<lparr>dr_command := CMD_STATUS\<rparr>"
  obtain sz where z: "get_file_size ?lp (gs_os g) = (sz, gs_os g)" by (rule size_quiet [OF assms(1)])
  have k: "compute_checksum ?lp HISTORY_MAX_HASH (gs_os g) = (Some ?h, gs_os g)" by (rule apm_checksum_quiet [OF assms(1,2)])
  obtain size where size: "sz = Some size" using assms(3) z by (cases sz) (simp_all add: deploy_single_app_def Let_def)
  show ?thesis
  proof (cases force)
    case True
    then show ?thesis using upload [OF assms(1)] assms(3) z size k by (simp add: deploy_single_app_def Let_def)
  next
    case False
    obtain reply e where t: "gd_transact gd (gs_server g) node PROBE_TIMEOUT (gd_pack gd ?req) (gs_env g) = (reply, e)" by (rule prod.exhaust)
    note sq = send_quiet [OF assms(1) t]
    obtain b resp where b: "reply = Some b" "gd_unpack gd b = Some resp"
      "(if already_deployed resp app ?h then (Inr SLASH_SUCCESS, g\<lparr>gs_env := e\<rparr>)
        else deploy_transfer gd node app ?lp rp size ?h mtu (g\<lparr>gs_env := e\<rparr>)) = (Inr SLASH_SUCCESS, g')"
      using assms(3) z size k False sq
      by (auto simp: deploy_single_app_def Let_def send_deploy_request_def split: option.splits if_splits)
    then show ?thesis using upload [of "g\<lparr>gs_env := e\<rparr>"] present [OF False _ b(2)] assms(1) False t
      by (cases "already_deployed resp app ?h") auto
  qed
qed

lemma single_app_sound:
  assumes "gd_transact gd = sat_exchange ev" "\<And>srv. codec_sound gd (ev srv)" "script (gs_os g) = []" "deploy_target app rp"
    "contents (gs_os g) (expand_tilde (gd_home gd) l) = Some d"
    "deploy_single_app gd node app (Some l) (Some rp) force mtu g = (Inr SLASH_SUCCESS, g')"
  shows "has_bytes_of (snd (gs_env g')) rp d \<or> \<not> force \<and>
    (\<exists>x \<in> set (am_cache (ag_meta (fst (gs_env g')))). ae_app_name x = app \<and> has_bytes_of (snd (gs_env g')) (ae_remote_path x) d)"
  using assms(3,5,6)
proof (cases rule: single_app_run)
  case (upload sz g1)
  then show ?thesis using transfer_sound [OF assms(1,2) _ assms(4)] by blast
next
  case (present b resp)
  let ?h = "hex_string (sha256 d)" and ?req = "req_init\<lparr>dr_command := CMD_STATUS\<rparr>"
  obtain ag s where g: "gs_env g = (ag, s)" by force
  obtain ag' s' where r: "dispatch (ev (gs_server g)) ?req ag s = (Inr (resp, ag'), s')" "gs_env g' = (ag', s')"
    by (rule exchange_reply [OF assms(1,2) push_no_null(2) present(4) [unfolded g] present(3)])
  have "handle_status (ev (gs_server g)) ?req ag s = (Inr (resp, ag'), s')" using r(1) by (simp add: dispatch_def)
  note st = status_report(2) [OF this]
  obtain a where a: "find (\<lambda>a. st_app_name a = app) (rs_apps resp) = Some a" "st_file_hash a = ?h"
    using present(2) by (auto simp: already_deployed_def split: option.splits)
  then have "a \<in> set (rs_apps resp)" "st_app_name a = app" by (auto simp: find_Some_iff)
  then obtain x y where "x \<in> set (am_cache (ag_meta ag'))" "ae_app_name x = app" "contents s' (ae_remote_path x) = Some y"
    "?h = hex_string (sha256 y)" using st a(2) by metis
  then show ?thesis using r(2) present(1) by (auto simp: has_bytes_of_def)
qed

text \<open>
  C1: An upload that succeeds has arrived. Over any link and whatever fails on the satellite, when the
  upload command returns success, the satellite's file at the remote path has the SHA-256 of the local
  file; or, without \<open>-F\<close>, an application of the derived name is recorded there whose file has it.
\<close>

theorem push_sound:
  assumes "satdeploy_deploy_cmd gd argv g = (Inr SLASH_SUCCESS, g')"
    "parse_args gd ''satdeploy push'' argv = Inr (Some (positionals, opts))"
    "fold take_positional positionals (so_local opts, so_remote opts) = (Some l, Some r)"
    "gd_transact gd = sat_exchange ev" "\<And>srv. codec_sound gd (ev srv)"
    "script (gs_os g) = []" "contents (gs_os g) (expand_tilde (gd_home gd) l) = Some d"
    "deploy_target (satdeploy_derive_app_name r 128) r" "gs_env g' = (ag', s')"
  shows "has_bytes_of s' r d \<or> \<not> so_force opts \<and>
    (\<exists>x \<in> set (am_cache (ag_meta ag')). ae_app_name x = satdeploy_derive_app_name r 128 \<and> has_bytes_of s' (ae_remote_path x) d)"
proof -
  have "deploy_single_app gd (target_node gd opts) (satdeploy_derive_app_name r 128) (Some l) (Some r) (so_force opts)
      (if so_mtu opts = 0 then APM_MTU else so_mtu opts) g = (Inr SLASH_SUCCESS, g')"
    using assms(1-3) by (auto simp: satdeploy_deploy_cmd_def Let_def split: if_splits)
  from single_app_sound [OF assms(4,5,6,8,7) this] show ?thesis using assms(9) by simp
qed

section \<open>Uploads over a link that loses nothing\<close>

definition deployed_resp :: "string \<Rightarrow> deploy_response" where
  "deployed_resp backup = resp_init\<lparr>rs_success := True, rs_backup_path := backup\<rparr>"

lemma install_resp:
  "deploy_install app remote temp h mode buf ag t = (Inr (resp, ag'), s') \<Longrightarrow> rs_success resp \<Longrightarrow> resp = deployed_resp buf"
  by (auto simp: deploy_install_def deployed_resp_def Let_def split_def split: if_splits option.splits)

lemma backup_create_length: "length (fst (snd (backup_create app p MAX_PATH_LEN s))) < MAX_PATH_LEN"
  by (auto simp: backup_create_def Let_def split_def cstr_def MAX_PATH_LEN_def split: option.splits stat_result.splits)

lemma backup_present_length: "backup_present app p s = (Some buf, s1) \<Longrightarrow> length buf < MAX_PATH_LEN"
  using backup_create_length [of app p "snd (access_ok p s)"]
  by (auto simp: backup_present_def MAX_PATH_LEN_def split: prod.splits if_splits)

lemma deploy_resp:
  assumes "handle_deploy ev req ag s = (Inr (resp, ag'), s')" "rs_success resp" "deploy_target app remote"
    "dr_app_name req = Some app" "dr_remote_path req = Some remote"
  shows "\<exists>p. resp = deployed_resp p \<and> length p < MAX_PATH_LEN"
proof -
  obtain buf s1 where b: "backup_present app remote s = (Some buf, s1)" "rs_backup_path resp = buf"
    by (rule deploy_success_steps [OF assms])
  from assms(1) refl refl have "\<exists>p. resp = deployed_resp p"
  proof (cases rule: deploy_cases)
    case 1
    then show ?thesis using assms(2) by simp
  next
    case (2 t buf ag1)
    then show ?thesis using install_resp [OF 2(3) assms(2)] by blast
  qed
  then obtain p where p: "resp = deployed_resp p" ..
  moreover have "p = buf" using p b(2) by (simp add: deployed_resp_def)
  ultimately show ?thesis using backup_present_length [OF b(1)] by blast
qed

text \<open>The request reaches the agent and the reply the station, unchanged.\<close>

definition request_arrives :: "('e, 'd) station_env \<Rightarrow> 'f env \<Rightarrow> deploy_request \<Rightarrow> bool" where
  "request_arrives gd ev req \<longleftrightarrow> ev_unpack ev (gd_pack gd req) = Some req"

definition reply_arrives :: "('e, 'd) station_env \<Rightarrow> 'f env \<Rightarrow> deploy_response \<Rightarrow> bool" where
  "reply_arrives gd ev resp \<longleftrightarrow> (let b = ev_pack ev resp
     in ev_buffer ev (length b) \<and> b \<noteq> [] \<and> length b \<le> 4096 \<and> gd_unpack gd b = Some resp)"

lemma exchange_done:
  assumes "gd_transact gd = sat_exchange ev" "dispatch (ev (gs_server g)) req ag s = (Inr (resp, ag'), s')" "gs_env g = (ag, s)"
    "request_arrives gd (ev (gs_server g)) req" "reply_arrives gd (ev (gs_server g)) resp" "script (gs_os g) = []"
  shows "send_deploy_request_timeout gd node req tmo g = (Inr (Some resp), g\<lparr>gs_env := (ag', s')\<rparr>)"
proof -
  have "gd_transact gd (gs_server g) node tmo (gd_pack gd req) (gs_env g) = (Some (ev_pack (ev (gs_server g)) resp), (ag', s'))"
    using assms by (simp add: sat_exchange_def handle_connection_def request_arrives_def reply_arrives_def Let_def)
  from send_quiet [OF assms(6) this] show ?thesis using assms(5) by (auto simp: reply_arrives_def Let_def)
qed

lemma push_lossless:
  assumes "gd_transact gd = sat_exchange ev" "\<not> gd_oom gd" "gd_thread gd" "lp = expand_tilde (gd_home gd) l"
    "script (gs_os g) = []" "lookup (gs_os g) lp = Some f" "\<not> dir_exists (gs_os g) lp"
    "f_data f \<noteq> []" "length (f_data f) < 2 ^ 32" "gs_env g = (ag, s)"
    "req = push_request app r (of_nat (length (f_data f))) (hex_string (sha256 (f_data f))) (gd_iface gd) mtu (Is_reg f)"
    "deploy_ready (f_data f) (of_nat (length (f_data f))) SVU_SERVE_DEFAULT_BLOCK addr (ev (Some (serving (f_data f)))) req app r s"
    "script s = []" "ag_env ag = []" "am_loaded (ag_meta ag)" "lookup s r = None \<or> store_ready s app"
    "request_arrives gd (ev (Some (serving (f_data f)))) req"
    "\<And>p. length p < MAX_PATH_LEN \<Longrightarrow> reply_arrives gd (ev (Some (serving (f_data f)))) (deployed_resp p)"
  shows "\<exists>g'. deploy_single_app gd node app (Some l) (Some r) True mtu g = (Inr SLASH_SUCCESS, g') \<and>
    contents (snd (gs_env g')) r = Some (f_data f) \<and>
    gs_out g' = gs_out g @ [Con_success (cstr 256 (''Deployed '' @ app @ '' ('' @ take 8 (hex_string (sha256 (f_data f))) @ '') over SVU''))]"
proof -
  let ?d = "f_data f" and ?srv = "Some (serving (f_data f))"
  let ?h = "hex_string (sha256 ?d)" and ?sz = "of_nat (length ?d) :: u32"
  have c: "contents (gs_os g) lp = Some ?d" using assms(6) by (simp add: contents_def)
  have nz: "?sz \<noteq> 0" using assms(8,9) unat_of_nat32 [of "length ?d"] by auto
  obtain sz where z: "get_file_size lp (gs_os g) = (sz, gs_os g)" "sz = Some ?sz" using size_quiet [OF assms(5), of lp] assms(6,7) by metis
  have k: "compute_checksum lp HISTORY_MAX_HASH (gs_os g) = (Some ?h, gs_os g)" by (rule apm_checksum_quiet [OF assms(5) c])
  have st: "svu_serve_session_start (gd_oom gd) (gd_thread gd) (Some lp) SVU_SERVE_DEFAULT_BLOCK (Some zero_session) (gs_os g) =
    (0, ?srv, gs_os g)" using session_start_is [OF assms(5)] c nz assms(2,3) by simp
  have sr: "stat lp (gs_os g) = (Is_reg f, gs_os g)" using assms(5-7) by (simp add: stat_def io_simps)
  obtain resp ag' s' where h: "handle_deploy (ev ?srv) req ag s = (Inr (resp, ag'), s')" "rs_success resp" "contents s' r = Some ?d"
    using deploy_lossless [OF assms(12-16)] by blast
  have fields: "dr_app_name req = Some app" "dr_remote_path req = Some r" "dr_command req = CMD_DEPLOY"
    by (simp_all add: assms(11) push_request_def)
  have tg: "deploy_target app r" using assms(12) by (simp add: deploy_ready_def)
  obtain p where p: "resp = deployed_resp p" "length p < MAX_PATH_LEN" using deploy_resp [OF h(1,2) tg fields(1,2)] by blast
  let ?g = "g\<lparr>gs_server := ?srv\<rparr>"
  have d: "dispatch (ev (gs_server ?g)) req ag s = (Inr (resp, ag'), s')" using h(1) fields(3) by (simp add: dispatch_def)
  have sd: "send_deploy_request_timeout gd node req DEFAULT_TIMEOUT ?g = (Inr (Some resp), ?g\<lparr>gs_env := (ag', s')\<rparr>)"
    by (rule exchange_done [OF assms(1) d]) (use assms(5,10,17,18) p in simp_all)
  have run: "deploy_single_app gd node app (Some l) (Some r) True mtu g = deploy_transfer gd node app lp r ?sz ?h mtu g"
    using z k assms(4) by (simp add: deploy_single_app_def Let_def)
  show ?thesis
    unfolding run deploy_transfer_def using st sr sd assms(11) h(2,3)
    by (simp add: Let_def) (simp add: say_def)
qed

section \<open>What an upload does not do\<close>

text \<open>The status report of an agent that has one application.\<close>

definition one_app :: "string \<Rightarrow> bool \<Rightarrow> string \<Rightarrow> string \<Rightarrow> deploy_response" where
  "one_app app run h p = resp_init\<lparr>rs_success := True,
     rs_apps := [\<lparr>st_app_name = app, st_running = run, st_file_hash = h, st_remote_path = p\<rparr>]\<rparr>"

lemma status_one_app:
  assumes "am_loaded (ag_meta ag)" "am_cache (ag_meta ag) = [a]" "script s = []" "contents s (ae_remote_path a) = Some d"
  obtains run e where "handle_status ev req ag s =
    (Inr (one_app (ae_app_name a) run (hex_string (sha256 d)) (ae_remote_path a), ag\<lparr>ag_meta := ag_meta ag, ag_env := e\<rparr>), s)"
proof -
  have c: "compute_file_checksum (ae_remote_path a) HASH_BUF_LEN s = (Some (hex_string (sha256 d)), s)"
    by (rule checksum_quiet [OF assms(3,4)])
  have l: "load_metadata (ag_meta ag) s = (Some (0, ag_meta ag), s)" using assms(1) by (simp add: load_metadata_def)
  obtain run e where "status_metadata_callback ev a ([], ag_env ag) s =
    (([\<lparr>st_app_name = ae_app_name a, st_running = run, st_file_hash = hex_string (sha256 d), st_remote_path = ae_remote_path a\<rparr>], e), s)"
    using c by (simp add: status_metadata_callback_def Let_def split_def)
  then show ?thesis using that l assms(2) by (simp add: handle_status_def app_metadata_list_def one_app_def)
qed

text \<open>
  The duplicate check looks at the name only. When the agent has the same bytes installed at another
  path whose derived name is the same, an upload without \<open>-F\<close> returns success without sending
  anything: nothing on the satellite changes, and the remote path that was asked for stays empty.
\<close>

theorem push_skips_other_path:
  assumes "gd_transact gd = sat_exchange ev" "script (gs_os g) = []" "contents (gs_os g) (expand_tilde (gd_home gd) l) = Some d"
    "gs_env g = (ag, s)" "script s = []" "am_loaded (ag_meta ag)" "am_cache (ag_meta ag) = [a]"
    "contents s (ae_remote_path a) = Some d" "ae_app_name a = satdeploy_derive_app_name r 128" "contents s r = None"
    "request_arrives gd (ev (gs_server g)) (req_init\<lparr>dr_command := CMD_STATUS\<rparr>)"
    "\<And>run. reply_arrives gd (ev (gs_server g)) (one_app (ae_app_name a) run (hex_string (sha256 d)) (ae_remote_path a))"
  shows "\<exists>g'. deploy_single_app gd node (satdeploy_derive_app_name r 128) (Some l) (Some r) False mtu g = (Inr SLASH_SUCCESS, g') \<and>
    snd (gs_env g') = s \<and> contents s r = None"
proof -
  let ?lp = "expand_tilde (gd_home gd) l" and ?h = "hex_string (sha256 d)" and ?req = "req_init\<lparr>dr_command := CMD_STATUS\<rparr>"
  let ?app = "satdeploy_derive_app_name r 128"
  obtain f where f: "lookup (gs_os g) ?lp = Some f" "f_data f = d" using assms(3) by (auto simp: contents_def)
  obtain sz where z: "get_file_size ?lp (gs_os g) = (sz, gs_os g)" by (rule size_quiet [OF assms(2)])
  have "sz \<noteq> None" using z f(1) assms(2) by (auto simp: get_file_size_def stat_def io_simps split: if_splits)
  then obtain size where size: "sz = Some size" by blast
  have k: "compute_checksum ?lp HISTORY_MAX_HASH (gs_os g) = (Some ?h, gs_os g)" by (rule apm_checksum_quiet [OF assms(2,3)])
  obtain run e where st: "handle_status (ev (gs_server g)) ?req ag s =
    (Inr (one_app (ae_app_name a) run ?h (ae_remote_path a), ag\<lparr>ag_meta := ag_meta ag, ag_env := e\<rparr>), s)"
    by (rule status_one_app [OF assms(6,7,5,8)])
  let ?resp = "one_app (ae_app_name a) run ?h (ae_remote_path a)" and ?ag = "ag\<lparr>ag_meta := ag_meta ag, ag_env := e\<rparr>"
  have "dispatch (ev (gs_server g)) ?req ag s = (Inr (?resp, ?ag), s)" using st by (simp add: dispatch_def)
  from exchange_done [OF assms(1) this assms(4,11,12,2), of node PROBE_TIMEOUT]
  have sd: "send_deploy_request gd node ?req g = (Inr (Some ?resp), g\<lparr>gs_env := (?ag, s)\<rparr>)" by (simp add: send_deploy_request_def)
  have "already_deployed ?resp ?app ?h" using assms(9) by (simp add: already_deployed_def one_app_def)
  then have "deploy_single_app gd node ?app (Some l) (Some r) False mtu g = (Inr SLASH_SUCCESS, g\<lparr>gs_env := (?ag, s)\<rparr>)"
    using z size k sd by (simp add: deploy_single_app_def Let_def)
  then show ?thesis using assms(10) by simp
qed

section \<open>The database is not in the way\<close>

lemma send_db:
  "send_deploy_request_timeout (gd\<lparr>gd_sqlite := q\<rparr>) node req t (g\<lparr>gs_db := d\<rparr>) =
    (fst (send_deploy_request_timeout gd node req t g), (snd (send_deploy_request_timeout gd node req t g))\<lparr>gs_db := d\<rparr>)"
  by (simp add: send_deploy_request_timeout_def Let_def split: prod.splits option.splits)

text \<open>Two results that differ in the database, and in what is written to standard error, only.\<close>

definition same_result :: "(stop + slash_rc) \<times> ('e, 'd) station \<Rightarrow> (stop + slash_rc) \<times> ('e, 'd) station \<Rightarrow> bool" where
  "same_result x y \<longleftrightarrow> fst x = fst y \<and> gs_env (snd x) = gs_env (snd y) \<and> gs_out (snd x) = gs_out (snd y) \<and>
     gs_server (snd x) = gs_server (snd y) \<and> gs_os (snd x) = gs_os (snd y)"

lemma transfer_db:
  "same_result (deploy_transfer (gd\<lparr>gd_sqlite := q\<rparr>) node app lp r sz ck mtu (g\<lparr>gs_db := d\<rparr>)) (deploy_transfer gd node app lp r sz ck mtu g)"
proof -
  obtain rc srv s1 where st: "svu_serve_session_start (gd_oom gd) (gd_thread gd) (Some lp) SVU_SERVE_DEFAULT_BLOCK (Some zero_session) (gs_os g) = (rc, srv, s1)"
    by (metis prod_cases3)
  obtain r2 s2 where sr: "stat lp s1 = (r2, s2)" by (rule prod.exhaust)
  let ?g = "g\<lparr>gs_server := srv, gs_os := s2\<rparr>" and ?req = "push_request app r sz ck (gd_iface gd) mtu r2"
  have e: "g\<lparr>gs_db := d, gs_server := srv, gs_os := s2\<rparr> = ?g\<lparr>gs_db := d\<rparr>" "g\<lparr>gs_db := d, gs_os := s1, gs_server := srv\<rparr> = g\<lparr>gs_os := s1, gs_server := srv, gs_db := d\<rparr>"
    by simp_all
  obtain reply g1 where sd: "send_deploy_request_timeout gd node ?req DEFAULT_TIMEOUT ?g = (reply, g1)" by (rule prod.exhaust)
  have sd': "send_deploy_request_timeout (gd\<lparr>gd_sqlite := q\<rparr>) node ?req DEFAULT_TIMEOUT (g\<lparr>gs_db := d, gs_server := srv, gs_os := s2\<rparr>) = (reply, g1\<lparr>gs_db := d\<rparr>)"
    unfolding e(1) send_db sd by simp
  show ?thesis
    using st sr sd sd' unfolding deploy_transfer_def same_result_def
    by (auto simp: Let_def say_def split: sum.splits option.splits)
qed

lemma same_refl: "same_result (x, g\<lparr>gs_db := d\<rparr>) (x, g)"
  by (simp add: same_result_def)

lemma single_app_db:
  "same_result (deploy_single_app (gd\<lparr>gd_sqlite := q\<rparr>) node app l r force mtu (g\<lparr>gs_db := d\<rparr>))
    (deploy_single_app gd node app l r force mtu g)"
proof (cases "l = None \<or> r = None")
  case True
  then show ?thesis by (auto simp: deploy_single_app_def same_result_def Let_def split: option.splits)
next
  case False
  then obtain lo ro where lr: "l = Some lo" "r = Some ro" by auto
  let ?lp = "expand_tilde (gd_home gd) lo"
  obtain sz s1 where z: "get_file_size ?lp (gs_os g) = (sz, s1)" by (rule prod.exhaust)
  obtain ck s2 where k: "compute_checksum ?lp HISTORY_MAX_HASH s1 = (ck, s2)" by (rule prod.exhaust)
  show ?thesis
  proof (cases "sz = None \<or> ck = None")
    case True
    then show ?thesis using lr z k by (auto simp: deploy_single_app_def same_result_def Let_def split: option.splits)
  next
    case False
    then obtain size h where sh: "sz = Some size" "ck = Some h" by auto
    let ?g = "g\<lparr>gs_os := s2\<rparr>" and ?req = "req_init\<lparr>dr_command := CMD_STATUS\<rparr>"
    have e: "g\<lparr>gs_db := d, gs_os := s2\<rparr> = ?g\<lparr>gs_db := d\<rparr>" by simp
    show ?thesis
    proof (cases force)
      case True
      then show ?thesis using lr z k sh transfer_db [where gd = gd and q = q and g = ?g and d = d] by (simp add: deploy_single_app_def Let_def e)
    next
      case nf: False
      obtain reply g1 where sd: "send_deploy_request_timeout gd node ?req PROBE_TIMEOUT ?g = (reply, g1)" by (rule prod.exhaust)
      have sd': "send_deploy_request_timeout (gd\<lparr>gd_sqlite := q\<rparr>) node ?req PROBE_TIMEOUT (g\<lparr>gs_db := d, gs_os := s2\<rparr>) = (reply, g1\<lparr>gs_db := d\<rparr>)"
        unfolding e send_db sd by simp
      consider x where "reply = Inl x" | "reply = Inr None" | resp where "reply = Inr (Some resp)" by (metis obj_sumE not_None_eq)
      then show ?thesis
      proof cases
        case (3 resp)
        then show ?thesis
          using lr z k sh nf sd sd' same_refl [where g = g1 and d = d] transfer_db [where gd = gd and q = q and g = g1 and d = d]
          by (simp add: deploy_single_app_def send_deploy_request_def Let_def)
      qed (use lr z k sh nf sd sd' same_refl [where g = g1 and d = d] in \<open>simp_all add: deploy_single_app_def send_deploy_request_def Let_def\<close>)
    qed
  qed
qed

lemma parse_db [simp]: "parse_args (gd\<lparr>gd_sqlite := q\<rparr>) cmd argv = parse_args gd cmd argv" "target_node (gd\<lparr>gd_sqlite := q\<rparr>) opts = target_node gd opts"
  by (simp_all add: parse_args_def target_node_def split: prod.split)

lemma rollback_db:
  "same_result (satdeploy_rollback_cmd (gd\<lparr>gd_sqlite := q\<rparr>) argv (g\<lparr>gs_db := d\<rparr>)) (satdeploy_rollback_cmd gd argv g)"
proof -
  consider x where "parse_args gd ''satdeploy rollback'' argv = Inl x" | "parse_args gd ''satdeploy rollback'' argv = Inr None"
    | ps opts where "parse_args gd ''satdeploy rollback'' argv = Inr (Some (ps, opts))" by (metis obj_sumE not_None_eq prod.exhaust)
  then show ?thesis
  proof cases
    case (3 ps opts)
    show ?thesis
    proof (cases "target_path ps (so_remote opts)")
      case None
      then show ?thesis using 3 by (simp add: satdeploy_rollback_cmd_def same_refl)
    next
      case (Some r)
      let ?app = "satdeploy_derive_app_name r 128"
      let ?req = "req_init\<lparr>dr_command := CMD_ROLLBACK, dr_app_name := Some ?app, dr_remote_path := Some r,
        dr_rollback_hash := Some (case so_hash opts of Some h \<Rightarrow> h | None \<Rightarrow> [])\<rparr>"
      obtain reply g1 where sd: "send_deploy_request_timeout gd (target_node gd opts) ?req PROBE_TIMEOUT g = (reply, g1)" by (rule prod.exhaust)
      have sd': "send_deploy_request_timeout (gd\<lparr>gd_sqlite := q\<rparr>) (target_node gd opts) ?req PROBE_TIMEOUT (g\<lparr>gs_db := d\<rparr>) = (reply, g1\<lparr>gs_db := d\<rparr>)"
        unfolding send_db sd by simp
      show ?thesis
      proof (cases "r = []")
        case True
        then show ?thesis using 3 Some by (simp add: satdeploy_rollback_cmd_def same_result_def say_def)
      next
        case False
        consider x where "reply = Inl x" | "reply = Inr None" | resp where "reply = Inr (Some resp)" by (metis obj_sumE not_None_eq)
        then show ?thesis
          using 3 Some False sd sd'
          by cases (simp_all add: satdeploy_rollback_cmd_def send_deploy_request_def same_result_def Let_def say_def)
      qed
    qed
  qed (simp_all add: satdeploy_rollback_cmd_def same_refl)
qed

text \<open>On standard error, an upload or a rollback adds at most one line of the history code.\<close>

definition adds_lines :: "('e, 'd) station \<Rightarrow> ('e, 'd) station \<Rightarrow> bool" where
  "adds_lines g g' \<longleftrightarrow> (\<exists>err. gs_err g' = gs_err g @ err \<and> history_lines err)"

lemma adds_same: "gs_err g' = gs_err g \<Longrightarrow> adds_lines g g'"
  by (simp add: adds_lines_def history_lines_def)

lemma adds_record: "gs_err g' = gs_err g \<Longrightarrow> adds_lines g (record_history gd w g')"
  using record_history_fields(2) [of gd w g'] by (simp add: adds_lines_def)

lemma send_err:
  "gs_err (snd (send_deploy_request_timeout gd node req t g)) = gs_err g" "gs_err (snd (send_deploy_request gd node req g)) = gs_err g"
  by (simp_all add: send_deploy_request_def send_deploy_request_timeout_def Let_def split: prod.splits option.splits)

lemma transfer_err: "gs_err g1 = gs_err g \<Longrightarrow> adds_lines g (snd (deploy_transfer gd node app lp r sz ck mtu g1))"
proof -
  assume g1: "gs_err g1 = gs_err g"
  obtain rc srv s1 where st: "svu_serve_session_start (gd_oom gd) (gd_thread gd) (Some lp) SVU_SERVE_DEFAULT_BLOCK (Some zero_session) (gs_os g1) = (rc, srv, s1)"
    by (metis prod_cases3)
  obtain r2 s2 where sr: "stat lp s1 = (r2, s2)" by (rule prod.exhaust)
  let ?g = "g1\<lparr>gs_server := srv, gs_os := s2\<rparr>" and ?req = "push_request app r sz ck (gd_iface gd) mtu r2"
  obtain reply g2 where sd: "send_deploy_request_timeout gd node ?req DEFAULT_TIMEOUT ?g = (reply, g2)" by (rule prod.exhaust)
  have "gs_err g2 = gs_err g" using send_err(1) [of gd node ?req DEFAULT_TIMEOUT ?g] sd g1 by simp
  then show ?thesis using st sr sd g1
    by (auto simp: deploy_transfer_def Let_def intro!: adds_same adds_record split: sum.splits option.splits)
qed

lemma single_app_err: "adds_lines g (snd (deploy_single_app gd node app l r force mtu g))"
proof -
  have sd: "gs_err g1 = gs_err g" if "send_deploy_request gd node q (g\<lparr>gs_os := s\<rparr>) = (x, g1)" for q s x g1
    using send_err(2) [of gd node q "g\<lparr>gs_os := s\<rparr>"] that by simp
  show ?thesis
    by (auto simp: deploy_single_app_def Let_def intro!: adds_same transfer_err dest: sd split: option.splits prod.splits sum.splits)
qed

lemma rollback_err: "adds_lines g (snd (satdeploy_rollback_cmd gd argv g))"
proof -
  have sd: "gs_err g1 = gs_err g" if "send_deploy_request gd node q g = (x, g1)" for node q x g1
    using send_err(2) [of gd node q g] that by simp
  show ?thesis
    by (auto simp: satdeploy_rollback_cmd_def Let_def intro!: adds_same adds_record dest: sd split: option.splits prod.splits sum.splits)
qed

text \<open>
  C33: The history never blocks a deploy. Whatever the database contains and whatever \<open>SQLite\<close>
  answers, an upload or a rollback gives the same result, does the same to the satellite, leaves the same
  files beside the database, and prints the same on standard output; all the database can do is
  add one line of \<open>history.c\<close> on standard error.
\<close>

theorem history_never_blocks:
  "same_result (deploy_single_app (gd\<lparr>gd_sqlite := q\<rparr>) node app l r force mtu (g\<lparr>gs_db := d\<rparr>))
     (deploy_single_app gd node app l r force mtu g) \<and>
   same_result (satdeploy_rollback_cmd (gd\<lparr>gd_sqlite := q\<rparr>) argv (g\<lparr>gs_db := d\<rparr>)) (satdeploy_rollback_cmd gd argv g) \<and>
   adds_lines g (snd (deploy_single_app gd node app l r force mtu g)) \<and> adds_lines g (snd (satdeploy_rollback_cmd gd argv g))"
  by (intro conjI single_app_db rollback_db single_app_err rollback_err)

section \<open>The server of an upload\<close>

definition server_idle :: "('e, 'd) station \<Rightarrow> bool" where
  "server_idle g \<longleftrightarrow> (\<forall>c. gs_server g = Some c \<longrightarrow> \<not> ss_active c)"

lemma send_server: "gs_server (snd (send_deploy_request_timeout gd node req t g)) = gs_server g"
  by (simp add: send_deploy_request_timeout_def Let_def split: prod.splits option.splits)

lemma start_idle:
  assumes "svu_serve_session_start oom th p b ses s = (rc, srv, s')" "rc \<noteq> 0" "ses = Some c" "\<not> ss_active c"
  shows "\<forall>c. srv = Some c \<longrightarrow> \<not> ss_active c"
proof (cases p)
  case None
  then show ?thesis using assms by (auto simp: svu_serve_session_start_def)
next
  case (Some path)
  obtain ld s1 where ld: "svu_load_file oom path s = (ld, s1)" by (rule prod.exhaust)
  show ?thesis
  proof (cases ld)
    case None
    then show ?thesis using assms(1,3) Some ld by (auto simp: svu_serve_session_start_def)
  next
    case (Some x)
    then show ?thesis using assms(1-3) \<open>p = Some path\<close> ld by (cases x) (auto simp: svu_serve_session_start_def Let_def split: if_splits)
  qed
qed

lemma transfer_idle:
  assumes "deploy_transfer gd node app lp r sz ck mtu g = (Inr rc, g')"
  shows "server_idle g'"
proof -
  obtain rc1 srv s1 where st: "svu_serve_session_start (gd_oom gd) (gd_thread gd) (Some lp) SVU_SERVE_DEFAULT_BLOCK (Some zero_session) (gs_os g) = (rc1, srv, s1)"
    by (metis prod_cases3)
  show ?thesis
  proof (cases "rc1 = 0")
    case False
    have "\<forall>c. srv = Some c \<longrightarrow> \<not> ss_active c" by (rule start_idle [OF st False refl]) (simp add: zero_session_def)
    then show ?thesis using assms st False by (auto simp: deploy_transfer_def server_idle_def Let_def)
  next
    case True
    obtain r2 s2 where sr: "stat lp s1 = (r2, s2)" by (rule prod.exhaust)
    let ?g = "g\<lparr>gs_server := srv, gs_os := s2\<rparr>" and ?req = "push_request app r sz ck (gd_iface gd) mtu r2"
    obtain reply g1 where sd: "send_deploy_request_timeout gd node ?req DEFAULT_TIMEOUT ?g = (reply, g1)" by (rule prod.exhaust)
    have "gs_server g' = svu_serve_session_stop (gs_server g1)"
    proof -
      consider x where "reply = Inl x" | "reply = Inr None" | resp where "reply = Inr (Some resp)" by (metis obj_sumE not_None_eq)
      then show ?thesis
      proof cases
        case 1
        then show ?thesis using assms st sr sd True by (simp add: deploy_transfer_def)
      next
        case 2
        have "gs_server (snd (deploy_transfer gd node app lp r sz ck mtu g)) = svu_serve_session_stop (gs_server g1)"
          using st sr sd True 2 by (simp add: deploy_transfer_def Let_def)
        then show ?thesis using assms by simp
      next
        case (3 resp)
        have "gs_server (snd (deploy_transfer gd node app lp r sz ck mtu g)) = svu_serve_session_stop (gs_server g1)"
          using st sr sd True 3 by (cases "rs_success resp") (simp_all add: deploy_transfer_def Let_def)
        then show ?thesis using assms by simp
      qed
    qed
    then show ?thesis by (cases "gs_server g1") (auto simp: server_idle_def svu_serve_session_stop_def)
  qed
qed

lemma single_app_idle:
  assumes "deploy_single_app gd node app l r force mtu g = (Inr rc, g')" "server_idle g"
  shows "server_idle g'"
proof -
  have idle: "server_idle (g1 :: ('a, 'b) station)" if "gs_server g1 = gs_server g" for g1 using assms(2) that by (simp add: server_idle_def)
  have sv: "gs_server g1 = gs_server g" if "send_deploy_request gd node q (g\<lparr>gs_os := s\<rparr>) = (x, g1)" for q s x g1
    using send_server [of gd node q PROBE_TIMEOUT "g\<lparr>gs_os := s\<rparr>"] that by (simp add: send_deploy_request_def)
  consider "gs_server g' = gs_server g" | lp rp sz ck g1 where "deploy_transfer gd node app lp rp sz ck mtu g1 = (Inr rc, g')"
    using assms(1) sv by (auto simp: deploy_single_app_def Let_def split: option.splits prod.splits sum.splits if_splits)
  then show ?thesis using idle transfer_idle by cases blast+
qed

section \<open>Rollbacks seen from the station\<close>

lemma restore_resp:
  "rollback_restore app r h sel ag s = (Inr (resp, ag'), s') \<Longrightarrow> rs_success resp \<Longrightarrow> resp = deployed_resp (rs_backup_path resp)"
  by (auto simp: rollback_restore_def deployed_resp_def Let_def split: prod.splits if_splits option.splits)

lemma rollback_to_resp:
  assumes "rollback_to req r ag s = (Inr (resp, ag'), s')" "rs_success resp"
  shows "resp = deployed_resp (rs_backup_path resp)"
proof -
  obtain h sel s1 where "rollback_restore (the (dr_app_name req)) r h sel ag s1 = (Inr (resp, ag'), s')"
    using assms by (auto simp: rollback_to_def Let_def split: prod.splits if_splits option.splits)
  then show ?thesis using restore_resp assms(2) by blast
qed

lemma hex_no_dash: "CHR ''-'' \<notin> set (hex_string d)"
proof -
  have "hex_digit n \<noteq> CHR ''-''" if "n < 16" for n
  proof -
    have "\<forall>n \<in> {0..<16}. hex_digit n \<noteq> CHR ''-''" by code_simp
    then show ?thesis using that by simp
  qed
  then have "hex_digit (unat x div 16) \<noteq> CHR ''-''" "hex_digit (unat x mod 16) \<noteq> CHR ''-''" for x :: u8
    using unsigned_less [of x, where ?'a = nat] by (simp_all add: less_mult_imp_div_less)
  then show ?thesis by (force simp: hex_string_def hex_byte_def)
qed

text \<open>The station reads back the hash the agent wrote into a backup's name.\<close>

lemma restored_hash_roundtrip:
  assumes "length d = 32"
  shows "restored_hash_of (dir @ ''/'' @ stamp t @ ''-'' @ hex_string d @ ''.bak'') = hex_string d"
proof -
  let ?n = "stamp t @ ''-'' @ hex_string d @ ''.bak''"
  have "CHR ''/'' \<notin> set ?n" using stamp_plain [of t] hex_string_plain [of "CHR ''/''" d] by auto
  then have f: "after_last CHR ''/'' (dir @ ''/'' @ ?n) = ?n" using after_last_append [of "CHR ''/''" ?n dir] by simp
  have "CHR ''-'' \<notin> set (hex_string d @ ''.bak'')" using hex_no_dash by simp
  then have r: "after_last CHR ''-'' ?n = hex_string d @ ''.bak''" using after_last_append [of "CHR ''-''" _ "stamp t"] by simp
  have e: "ends_with ''.bak'' ?n" using ends_with_append [of "''.bak''" "stamp t @ ''-'' @ hex_string d"] by simp
  show ?thesis unfolding restored_hash_of_def Let_def f r using e assms by (simp add: length_hex_string HISTORY_MAX_HASH_def)
qed

lemma entry_hash:
  assumes "rollback_ready s app r" "e \<in> set (dial_entries s app)"
  shows "restored_hash_of (de_path e) = de_hash e"
proof -
  let ?dir = "backup_dir_of app"
  obtain d where d: "contents s (de_path e) = Some d" "de_hash e = hex_string (sha256 d)" "dirname (de_path e) = ?dir"
    by (rule dial_listing [OF assms(1)]) (use assms(2) in \<open>auto simp: dial_ok_def\<close>)
  have "de_path e \<in> set (map fst (fs s))" using d(1) lookup_None_iff [of s "de_path e"] by (auto simp: contents_def)
  then obtain t d' where t: "contents s (de_path e) = Some d'" "after_last CHR ''/'' (de_path e) = stamp t @ ''-'' @ hex_string (sha256 d') @ ''.bak''"
    using assms(1) d(3) unfolding rollback_ready_def stamped_store_def by blast
  have "?dir \<noteq> ''/''" "?dir \<noteq> ''.''" by (simp_all add: backup_dir_of_def BACKUP_DIR_def cstr_def MAX_PATH_LEN_def)
  from path_in_dir [OF d(3) this] t have "de_path e = ?dir @ ''/'' @ stamp t @ ''-'' @ hex_string (sha256 d) @ ''.bak''" using d(1) by simp
  then show ?thesis using restored_hash_roundtrip [of "sha256 d"] d(2) by simp
qed

lemma rollback_cmd_known:
  assumes "parse_args gd ''satdeploy rollback'' argv = Inr (Some (positionals, opts))"
    "target_path positionals (so_remote opts) = Some r" "app = satdeploy_derive_app_name r 128"
    "gd_transact gd = sat_exchange ev" "script (gs_os g) = []" "gs_env g = (ag, s)"
    "rollback_ready s app r" "am_loaded (ag_meta ag)" "dial_entries s app \<noteq> []"
    "dial_select (Some (case so_hash opts of Some h \<Rightarrow> h | None \<Rightarrow> [])) (hash_at s r) (dial_entries s app) = Some (e, es)"
    "hash_at s r = [] \<or> hash_at s r \<in> de_hash ` set (dial_entries s app)"
    "request_arrives gd (ev (gs_server g)) (req_init\<lparr>dr_command := CMD_ROLLBACK, dr_app_name := Some app, dr_remote_path := Some r,
       dr_rollback_hash := Some (case so_hash opts of Some h \<Rightarrow> h | None \<Rightarrow> [])\<rparr>)"
    "reply_arrives gd (ev (gs_server g)) (deployed_resp (de_path e))"
  shows "\<exists>g'. satdeploy_rollback_cmd gd argv g = (Inr SLASH_SUCCESS, g') \<and> hash_at (snd (gs_env g')) r = de_hash e \<and>
    gs_out g' = gs_out g @ [Con_success (rollback_message app (de_hash e))]"
proof -
  let ?req = "req_init\<lparr>dr_command := CMD_ROLLBACK, dr_app_name := Some app, dr_remote_path := Some r,
       dr_rollback_hash := Some (case so_hash opts of Some h \<Rightarrow> h | None \<Rightarrow> [])\<rparr>"
  have f: "dr_app_name ?req = Some app" "dr_remote_path ?req = Some r" "dr_command ?req = CMD_ROLLBACK"
    "dial_select (dr_rollback_hash ?req) (hash_at s r) (dial_entries s app) = Some (e, es)" using assms(10) by simp_all
  from rollback_known [OF assms(7) f(1,2) assms(9) f(4) assms(8,11)] obtain resp ag' s' where
    h: "handle_rollback ?req ag s = (Inr (resp, ag'), s')" "rs_success resp" "rs_backup_path resp = de_path e" "hash_at s' r = de_hash e"
    by blast
  have ne: "r \<noteq> []" "app \<noteq> []" using assms(7) by (auto simp: rollback_ready_def can_create_def plain_name_def)
  have "rollback_to ?req r ag s = (Inr (resp, ag'), s')" using h(1) ne by (simp add: handle_rollback_def present_def)
  from rollback_to_resp [OF this h(2)] have resp: "resp = deployed_resp (de_path e)" using h(3) by simp
  have d: "dispatch (ev (gs_server g)) ?req ag s = (Inr (resp, ag'), s')" using h(1) by (simp add: dispatch_def)
  have sd: "send_deploy_request gd (target_node gd opts) ?req g = (Inr (Some resp), g\<lparr>gs_env := (ag', s')\<rparr>)"
    unfolding send_deploy_request_def by (rule exchange_done [OF assms(4) d assms(6,12) _ assms(5)]) (use assms(13) resp in simp)
  have "e \<in> set (dial_entries s app)" using dial_select_mem [OF assms(10,9)] by blast
  from entry_hash [OF assms(7) this] have rh: "restored_hash_of (rs_backup_path resp) = de_hash e" using h(3) by simp
  show ?thesis
    unfolding satdeploy_rollback_cmd_def using assms(1,2) sd h(2,4) rh ne(1)
    by (simp add: assms(3) Let_def) (simp add: say_def)
qed

text \<open>
  C11: A rollback command installs the version it reports. With no failing call on the station and the
  satellite (a read error in \<open>copy_file\<close> goes unnoticed), against an agent whose store is as
  \<open>backup_create\<close> makes it and whose installed version is among the collected ones (or absent), and with
  the request and the reply arriving: the command returns success, the remote path then has exactly the hash
  of the version the dial (or \<open>-H\<close>) selects, and the operator is shown that hash, read from the reply.
\<close>

theorem rollback_cmd_restores:
  assumes "parse_args gd ''satdeploy rollback'' argv = Inr (Some (positionals, opts))"
    "target_path positionals (so_remote opts) = Some r" "app = satdeploy_derive_app_name r 128"
    "gd_transact gd = sat_exchange ev" "script (gs_os g) = []" "gs_env g = (ag, s)"
    "rollback_ready s app r" "am_loaded (ag_meta ag)" "dial_entries s app \<noteq> []"
    "dial_select (Some (case so_hash opts of Some h \<Rightarrow> h | None \<Rightarrow> [])) (hash_at s r) (dial_entries s app) = Some (e, es)"
    "hash_at s r = [] \<or> hash_at s r \<in> de_hash ` set (dial_entries s app)"
    "request_arrives gd (ev (gs_server g)) (req_init\<lparr>dr_command := CMD_ROLLBACK, dr_app_name := Some app, dr_remote_path := Some r,
       dr_rollback_hash := Some (case so_hash opts of Some h \<Rightarrow> h | None \<Rightarrow> [])\<rparr>)"
    "reply_arrives gd (ev (gs_server g)) (deployed_resp (de_path e))"
  shows "\<exists>g'. satdeploy_rollback_cmd gd argv g = (Inr SLASH_SUCCESS, g') \<and> hash_at (snd (gs_env g')) r = de_hash e \<and>
    gs_out g' = gs_out g @ [Con_success (rollback_message app (de_hash e))]"
  by (rule rollback_cmd_known [OF assms])

text \<open>
  C34: No server is left running. When an upload returns, however it ends, the session that served the
  file has been stopped, so that the port can be bound again by the next one.
\<close>

theorem upload_stops_server:
  assumes "satdeploy_deploy_cmd gd argv g = (Inr rc, g')" "server_idle g"
  shows "server_idle g'"
proof -
  have "rc = SLASH_EINVAL \<and> g' = g \<or> rc = SLASH_EUSAGE \<and> g' = g \<or>
    (\<exists>node app l r force mtu. deploy_single_app gd node app l r force mtu g = (Inr rc, g'))"
    using assms(1) unfolding satdeploy_deploy_cmd_def Let_def by (force split: sum.splits option.splits prod.splits if_splits)
  then show ?thesis using single_app_idle assms(2) by blast
qed

text \<open>A name of 64 characters or more, which the station may derive, is never found again in the agent's records.\<close>

lemma long_name_lost:
  assumes "am_loaded m" "MAX_APP_NAME_LEN \<le> length n" "\<forall>x \<in> set (am_cache m). length (ae_app_name x) < MAX_APP_NAME_LEN"
    "length (am_cache m) < MAX_APPS" "app_metadata_save n p h m s = (Some (r, m'), s')"
  shows "find_app n m' t = (Some (None, m'), t)" "length (am_cache m') = Suc (length (am_cache m))"
proof -
  have nf: "find (\<lambda>x. ae_app_name x = n) (am_cache m) = None" using assms(2,3) by (auto simp: find_None_iff)
  then have m': "m' = m\<lparr>am_cache := am_cache m @ [fill_entry (cstr MAX_PATH_LEN p, cstr HASH_BUF_LEN h, cstr 32 (iso_tm (clock s)))
      (zero_entry\<lparr>ae_app_name := cstr MAX_APP_NAME_LEN n\<rparr>)]\<rparr>"
    using save_is_put [OF assms(1,5)] assms(4) by (simp add: cache_put_def)
  have "length (cstr MAX_APP_NAME_LEN n) < MAX_APP_NAME_LEN" by (rule length_cstr) (simp add: MAX_APP_NAME_LEN_def)
  then have "cstr MAX_APP_NAME_LEN n \<noteq> n" using assms(2) by (metis not_le)
  then show "find_app n m' t = (Some (None, m'), t)" "length (am_cache m') = Suc (length (am_cache m))"
    using nf assms(1) by (simp_all add: m' find_app_def load_metadata_def find_append)
qed

text \<open>
  C2: An upload over a link that loses nothing succeeds. With a readable local file of fewer than
  \<open>2 ^ 32\<close> bytes, no failing call on either side, and a satellite on which the deploy can be carried out,
  the forced upload returns success, tells the operator, and the remote path holds exactly the local file.
\<close>

theorem push_installs:
  assumes "gd_transact gd = sat_exchange ev" "\<not> gd_oom gd" "gd_thread gd" "lp = expand_tilde (gd_home gd) l"
    "script (gs_os g) = []" "lookup (gs_os g) lp = Some f" "\<not> dir_exists (gs_os g) lp"
    "f_data f \<noteq> []" "length (f_data f) < 2 ^ 32" "gs_env g = (ag, s)"
    "req = push_request app r (of_nat (length (f_data f))) (hex_string (sha256 (f_data f))) (gd_iface gd) mtu (Is_reg f)"
    "deploy_ready (f_data f) (of_nat (length (f_data f))) SVU_SERVE_DEFAULT_BLOCK addr (ev (Some (serving (f_data f)))) req app r s"
    "script s = []" "ag_env ag = []" "am_loaded (ag_meta ag)" "lookup s r = None \<or> store_ready s app"
    "request_arrives gd (ev (Some (serving (f_data f)))) req"
    "\<And>p. length p < MAX_PATH_LEN \<Longrightarrow> reply_arrives gd (ev (Some (serving (f_data f)))) (deployed_resp p)"
  shows "\<exists>g'. deploy_single_app gd node app (Some l) (Some r) True mtu g = (Inr SLASH_SUCCESS, g') \<and>
    contents (snd (gs_env g')) r = Some (f_data f) \<and>
    gs_out g' = gs_out g @ [Con_success (cstr 256 (''Deployed '' @ app @ '' ('' @ take 8 (hex_string (sha256 (f_data f))) @ '') over SVU''))]"
  by (rule push_lossless [OF assms])

section \<open>An upload and its rollback\<close>

lemma forced_transfer:
  assumes "script (gs_os g) = []" "contents (gs_os g) (expand_tilde (gd_home gd) l) = Some d"
    "deploy_single_app gd node app (Some l) (Some rp) True mtu g = (Inr SLASH_SUCCESS, g')"
  obtains sz where "deploy_transfer gd node app (expand_tilde (gd_home gd) l) rp sz (hex_string (sha256 d)) mtu g = (Inr SLASH_SUCCESS, g')"
  using assms by (cases rule: single_app_run) (use that in auto)

text \<open>The paths under which the deploy on the satellite can be undone: a sound store, and a path apart from it.\<close>

definition undo_ready :: "os \<Rightarrow> string \<Rightarrow> string \<Rightarrow> bool" where
  "undo_ready s app r \<longleftrightarrow> deploy_target app r \<and> store_ready s app \<and> stamped_store s app \<and> can_create s r \<and>
     r \<notin> store_dirs app \<union> state_dirs \<and> r @ ''.tmp'' \<notin> store_dirs app \<and> r \<noteq> METADATA_DIR"

text \<open>
  C3: What an upload replaced can be put back from the ground. With no failing call on the station and the
  satellite, a store as \<open>backup_create\<close> makes it, and fewer than 30 versions in it (backups are never
  pruned, and a rollback collects at most 32 of them): after a forced upload, over any link, that
  reported success over an installed version, the rollback command with the hash of that version, when
  its request and the reply arrive, returns success, the remote path has that hash again, and the operator is told so.
\<close>

theorem push_undone:
  assumes "deploy_single_app gd node app (Some l) (Some r) True mtu g = (Inr SLASH_SUCCESS, g')" "app = satdeploy_derive_app_name r 128"
    "gd_transact gd = sat_exchange ev" "\<And>srv. codec_sound gd (ev srv)" "script (gs_os g) = []"
    "contents (gs_os g) (expand_tilde (gd_home gd) l) = Some d" "gs_env g = (ag, s)" "agent_ok ag" "undo_ready s app r"
    "script s = []" "card {h. kept s app h} + 2 < MAX_DIAL_ENTRIES" "contents s r = Some d0"
    "parse_args gd ''satdeploy rollback'' argv = Inr (Some (positionals, opts))" "target_path positionals (so_remote opts) = Some r"
    "so_hash opts = Some (hex_string (sha256 d0))"
    "request_arrives gd (ev (gs_server g')) (req_init\<lparr>dr_command := CMD_ROLLBACK, dr_app_name := Some app, dr_remote_path := Some r,
       dr_rollback_hash := Some (hex_string (sha256 d0))\<rparr>)"
    "\<And>p. length p < MAX_PATH_LEN \<Longrightarrow> reply_arrives gd (ev (gs_server g')) (deployed_resp p)"
  shows "\<exists>g''. satdeploy_rollback_cmd gd argv g' = (Inr SLASH_SUCCESS, g'') \<and> hash_at (snd (gs_env g'')) r = hex_string (sha256 d0) \<and>
    gs_out g'' = gs_out g' @ [Con_success (rollback_message app (hex_string (sha256 d0)))]"
proof -
  let ?h = "hex_string (sha256 d0)"
  obtain sz where t: "deploy_transfer gd node app (expand_tilde (gd_home gd) l) r sz (hex_string (sha256 d)) mtu g = (Inr SLASH_SUCCESS, g')"
    by (rule forced_transfer [OF assms(5,6,1)])
  obtain srv st resp ag' s' where
    h: "handle_deploy (ev srv) (push_request app r sz (hex_string (sha256 d)) (gd_iface gd) mtu st) ag s = (Inr (resp, ag'), s')"
      "rs_success resp" "gs_env g' = (ag', s')" "script (gs_os g') = []" by (rule transfer_deploys [OF assms(3,4,5) t assms(7)])
  have q: "dr_app_name (push_request app r sz c i m st) = Some app" "dr_remote_path (push_request app r sz c i m st) = Some r" for c i m
    by (simp_all add: push_request_def)
  have u: "deploy_target app r" "store_ready s app" "stamped_store s app" "can_create s r" "r \<notin> store_dirs app"
    "r \<notin> state_dirs" "r @ ''.tmp'' \<notin> store_dirs app" "r \<noteq> METADATA_DIR"
    using assms(9) by (simp_all add: undo_ready_def)
  note rd = deploy_rollback_ready [OF h(1,2) assms(10) u(1) q u(2) assms(12) u(5,7,3) assms(8) u(4,6,8)]
  note dial = kept_dialled [OF rd(1) _ rd(4) [OF assms(11)]]
  obtain e where e: "dial_select (Some ?h) (hash_at s' r) (dial_entries s' app) = Some (e, dial_entries s' app)" "de_hash e = ?h"
    by (rule select_kept [OF dial [OF rd(2)] hex_ne])
  have ne: "dial_entries s' app \<noteq> []" using dial [OF rd(2)] by auto
  have "length (de_path e) < MAX_PATH_LEN" using dial_path_short [OF rd(1)] dial_select_mem [OF e(1) ne] by blast
  note ra = assms(17) [OF this]
  have "\<exists>g''. satdeploy_rollback_cmd gd argv g' = (Inr SLASH_SUCCESS, g'') \<and> hash_at (snd (gs_env g'')) r = de_hash e \<and>
    gs_out g'' = gs_out g' @ [Con_success (rollback_message app (de_hash e))]"
    by (rule rollback_cmd_known [OF assms(13,14,2,3) h(4,3) rd(1) deploy_loaded [OF h(1) assms(8)] ne _ _ _ ra])
      (use assms(15,16) e(1) dial [OF rd(3)] in simp_all)
  then show ?thesis using e(2) by simp
qed

section \<open>Witnesses\<close>

text \<open>A station, a satellite, and a codec for the messages they exchange.\<close>

definition a_local :: inode where
  "a_local = \<lparr>f_data = [5], f_mode = 493, f_mtime = a_time\<rparr>"

definition a_push :: deploy_request where
  "a_push = push_request ''f'' ''/tmp/f'' 1 (hex_string (sha256 [5])) (Some 3) 1024 (Is_reg a_local)"

definition a_status :: deploy_request where
  "a_status = req_init\<lparr>dr_command := CMD_STATUS\<rparr>"

definition a_back :: deploy_request where
  "a_back = req_init\<lparr>dr_command := CMD_ROLLBACK, dr_app_name := Some ''app'', dr_remote_path := Some ''/tmp/app'', dr_rollback_hash := Some []\<rparr>"

definition a_report :: "bool \<Rightarrow> deploy_response" where
  "a_report run = one_app ''f'' run (hex_string (sha256 [5])) ''/tmp/f''"

definition a_sat :: "svu_serve_session_t option \<Rightarrow> bytes list env" where
  "a_sat srv = an_env\<lparr>
     ev_link := (\<lambda>_. server_link (case srv of None \<Rightarrow> [] | Some c \<Rightarrow> the (ss_src c)) (case srv of None \<Rightarrow> 0 | Some c \<Rightarrow> ss_total c)
       SVU_SERVE_DEFAULT_BLOCK 3),
     ev_unpack := (\<lambda>b. if b = [1] then Some a_push else if b = [2] then Some a_status else if b = [3] then Some a_back else None),
     ev_pack := (\<lambda>r. if r = deployed_resp (rs_backup_path r) then 4 # bytes_of (rs_backup_path r)
       else if r = a_report True then [5] else if r = a_report False then [6] else [7])\<rparr>"

definition a_ground :: "(bytes list agent \<times> os, string list) station_env" where
  "a_ground = \<lparr>gd_optparse = (\<lambda>_ opts args. Some (length (takeWhile is_option args), opts\<lparr>so_force := ''-F'' \<in> set args\<rparr>)),
     gd_dfl_node = 7, gd_home = None, gd_iface = Some 3, gd_transact = sat_exchange a_sat,
     gd_pack = (\<lambda>r. if r = a_push then [1] else if r = a_status then [2] else if r = a_back then [3] else [9]),
     gd_unpack = (\<lambda>b. if b = [] then None else if hd b = 4 then Some (deployed_resp (string_of (tl b)))
       else if b = [5] then Some (a_report True) else if b = [6] then Some (a_report False) else None),
     gd_oom = False, gd_thread = True, gd_sqlite = a_sqlite\<rparr>"

definition a_station :: "bytes list agent \<Rightarrow> os \<Rightarrow> (bytes list agent \<times> os, string list) station" where
  "a_station ag s = \<lparr>gs_os = (tmp_os [])\<lparr>fs := [(''/tmp/l'', a_local)]\<rparr>, gs_env = (ag, s), gs_db = [], gs_server = None, gs_out = [], gs_err = []\<rparr>"

lemma a_messages: "a_push \<noteq> a_status" "a_push \<noteq> a_back" "a_status \<noteq> a_back" "a_report run \<noteq> deployed_resp p" "a_report True \<noteq> a_report False"
  by (simp_all add: a_push_def a_status_def a_back_def push_request_def req_init_def a_report_def one_app_def deployed_resp_def resp_init_def)

lemma a_codec: "codec_sound a_ground (a_sat srv)"
proof -
  have "req' = req" if "ev_unpack (a_sat srv) (gd_pack a_ground req) = Some req'" for req req'
    using that by (auto simp: a_sat_def a_ground_def split: if_splits)
  moreover have "resp' = resp" if "gd_unpack a_ground (ev_pack (a_sat srv) resp) = Some resp'" for resp resp'
    using that by (auto simp: a_sat_def a_ground_def split: if_splits)
  ultimately show ?thesis unfolding codec_sound_def by blast
qed

lemma a_arrivals:
  "request_arrives a_ground (a_sat srv) a_push" "request_arrives a_ground (a_sat srv) a_status" "request_arrives a_ground (a_sat srv) a_back"
  "length p < MAX_PATH_LEN \<Longrightarrow> reply_arrives a_ground (a_sat srv) (deployed_resp p)" "reply_arrives a_ground (a_sat srv) (a_report run)"
  using a_messages
  by (cases run; simp add: request_arrives_def reply_arrives_def a_sat_def a_ground_def an_env_def deployed_resp_def MAX_PATH_LEN_def)+

lemma one_block: "transfer_fits [5] 1 SVU_SERVE_DEFAULT_BLOCK 1024"
proof -
  have "ci_svu_nblocks 1 SVU_SERVE_DEFAULT_BLOCK = 1" by (simp add: ci_svu_nblocks_def SVU_SERVE_DEFAULT_BLOCK_def)
  then show ?thesis by (simp add: transfer_fits_def)
qed

lemma f_target: "deploy_target ''f'' ''/tmp/f''"
  by (simp add: deploy_target_def in_backups_def BACKUP_DIR_def METADATA_FILE_def SESSION_STATE_DIR_def session_state_svu_path_def
      state_path_def app_name_is_safe_def SESSION_SVU_EXT_def)

lemma a_push_ready: "deploy_ready [5] 1 SVU_SERVE_DEFAULT_BLOCK 3 (a_sat (Some (serving [5]))) a_push ''f'' ''/tmp/f'' (tmp_os [])"
proof -
  have p: "session_state_svu_path ''f'' 640 = Some ''/var/lib/satdeploy/state/f.svupart''"
    by (simp add: session_state_svu_path_def state_path_def app_name_is_safe_def SESSION_STATE_DIR_def SESSION_SVU_EXT_def)
  have "can_create (tmp_os []) ''/tmp/f''" "can_create (tmp_os []) ''/tmp/f.tmp''"
    by (simp_all add: tmp_os_def can_create_def dir_exists_def dirname_def)
  moreover have "ev_link (a_sat (Some (serving [5]))) n = server_link [5] 1 SVU_SERVE_DEFAULT_BLOCK 3" "\<not> ev_oom (a_sat (Some (serving [5])))" for n
    by (simp_all add: a_sat_def serving_def an_env_def)
  ultimately show ?thesis
    using one_block p f_target
    by (simp add: deploy_ready_def a_push_def push_request_def req_init_def state_dirs_def store_dirs_def SESSION_STATE_DIR_def BACKUP_DIR_def
        backup_dir_of_def cstr_def MAX_PATH_LEN_def tmp_os_def lookup_def)
qed

lemma a_station_facts:
  "gd_transact a_ground = sat_exchange a_sat" "\<not> gd_oom a_ground" "gd_thread a_ground" "expand_tilde (gd_home a_ground) ''/tmp/l'' = ''/tmp/l''"
  "script (gs_os (a_station ag s)) = []" "lookup (gs_os (a_station ag s)) ''/tmp/l'' = Some a_local"
  "\<not> dir_exists (gs_os (a_station ag s)) ''/tmp/l''" "gs_env (a_station ag s) = (ag, s)" "gs_server (a_station ag s) = None"
  "gs_out (a_station ag s) = []" "contents (gs_os (a_station ag s)) ''/tmp/l'' = Some [5]" "gd_iface a_ground = Some 3" "f_data a_local = [5]"
  by (simp_all add: a_ground_def a_station_def expand_tilde_def lookup_def contents_def dir_exists_def tmp_os_def a_local_def)

lemma a_agent_facts: "ag_env an_agent = []" "am_loaded (ag_meta an_agent)" "lookup (tmp_os []) ''/tmp/f'' = None \<or> store_ready (tmp_os []) ''f''"
  by (simp_all add: an_agent_def tmp_os_def lookup_def)

lemma a_push_run:
  obtains g' where "deploy_single_app a_ground 7 ''f'' (Some ''/tmp/l'') (Some ''/tmp/f'') True 1024 (a_station an_agent (tmp_os [])) = (Inr SLASH_SUCCESS, g')"
proof -
  note sf = a_station_facts
  have "\<exists>g'. deploy_single_app a_ground 7 ''f'' (Some ''/tmp/l'') (Some ''/tmp/f'') True 1024 (a_station an_agent (tmp_os [])) = (Inr SLASH_SUCCESS, g') \<and>
    contents (snd (gs_env g')) ''/tmp/f'' = Some (f_data a_local) \<and>
    gs_out g' = gs_out (a_station an_agent (tmp_os [])) @
      [Con_success (cstr 256 (''Deployed '' @ ''f'' @ '' ('' @ take 8 (hex_string (sha256 (f_data a_local))) @ '') over SVU''))]"
    by (rule push_lossless [OF sf(1-3) sf(4) [symmetric] sf(5-7) _ _ sf(8), where req = a_push and addr = 3])
      (use a_push_ready a_agent_facts a_arrivals tmp_os_create in \<open>simp_all add: sf a_push_def\<close>)
  then show ?thesis using that by blast
qed

text \<open>The upload with a database that cannot be opened.\<close>

theorem history_never_blocks_witness:
  "\<exists>g'. deploy_single_app (a_ground\<lparr>gd_sqlite := a_sqlite\<lparr>sq_open := (\<lambda>_ _ d. (False, d))\<rparr>\<rparr>) 7 ''f'' (Some ''/tmp/l'') (Some ''/tmp/f'') True 1024
      (a_station an_agent (tmp_os [])) = (Inr SLASH_SUCCESS, g')"
proof -
  let ?g = "a_station an_agent (tmp_os [])"
  obtain g' where "deploy_single_app a_ground 7 ''f'' (Some ''/tmp/l'') (Some ''/tmp/f'') True 1024 ?g = (Inr SLASH_SUCCESS, g')" by (rule a_push_run)
  moreover have "?g\<lparr>gs_db := []\<rparr> = ?g" by (simp add: a_station_def)
  ultimately show ?thesis
    using history_never_blocks [where gd = a_ground and q = "a_sqlite\<lparr>sq_open := (\<lambda>_ _ d. (False, d))\<rparr>" and node = 7 and app = "''f''" and
        l = "Some ''/tmp/l''" and r = "Some ''/tmp/f''" and force = True and mtu = 1024 and g = ?g and d = "[]", THEN conjunct1]
    unfolding same_result_def by (metis fst_conv prod.collapse)
qed

theorem push_installs_witness:
  "\<exists>g'. deploy_single_app a_ground 7 ''f'' (Some ''/tmp/l'') (Some ''/tmp/f'') True 1024 (a_station an_agent (tmp_os [])) = (Inr SLASH_SUCCESS, g') \<and>
    contents (snd (gs_env g')) ''/tmp/f'' = Some [5]"
proof -
  note sf = a_station_facts
  have "\<exists>g'. deploy_single_app a_ground 7 ''f'' (Some ''/tmp/l'') (Some ''/tmp/f'') True 1024 (a_station an_agent (tmp_os [])) = (Inr SLASH_SUCCESS, g') \<and>
    contents (snd (gs_env g')) ''/tmp/f'' = Some (f_data a_local) \<and>
    gs_out g' = gs_out (a_station an_agent (tmp_os [])) @
      [Con_success (cstr 256 (''Deployed '' @ ''f'' @ '' ('' @ take 8 (hex_string (sha256 (f_data a_local))) @ '') over SVU''))]"
    by (rule push_installs [OF sf(1-3) sf(4) [symmetric] sf(5-7) _ _ sf(8), where req = a_push and addr = 3])
      (use a_push_ready a_agent_facts a_arrivals tmp_os_create in \<open>simp_all add: sf a_push_def\<close>)
  then show ?thesis using sf(13) by auto
qed

lemma a_parse:
  "parse_args a_ground ''satdeploy push'' [''/tmp/l'', ''/tmp/f'', ''-F''] = Inr (Some ([''/tmp/l'', ''/tmp/f''], no_opts\<lparr>so_force := True\<rparr>))"
  "parse_args a_ground ''satdeploy rollback'' [''/tmp/app''] = Inr (Some ([''/tmp/app''], no_opts))"
  by (simp_all add: parse_args_def satdeploy_reorder_argv_def is_option_def SATDEPLOY_VALUE_OPTS_def a_ground_def no_opts_def)

lemma f_name: "satdeploy_derive_app_name ''/tmp/f'' 128 = ''f''" "satdeploy_derive_app_name ''/opt/f'' 128 = ''f''"
  "satdeploy_derive_app_name ''/tmp/app'' 128 = ''app''"
  by (simp_all add: satdeploy_derive_app_name_def after_last_def)

lemma a_push_cmd:
  obtains g' where "satdeploy_deploy_cmd a_ground [''/tmp/l'', ''/tmp/f'', ''-F''] (a_station an_agent (tmp_os [])) = (Inr SLASH_SUCCESS, g')"
proof -
  obtain g' where "deploy_single_app a_ground 7 ''f'' (Some ''/tmp/l'') (Some ''/tmp/f'') True 1024 (a_station an_agent (tmp_os [])) = (Inr SLASH_SUCCESS, g')"
    by (rule a_push_run)
  then show ?thesis using that a_parse(1) f_name(1)
    by (simp add: satdeploy_deploy_cmd_def take_positional_def no_opts_def target_node_def APM_MTU_def) (simp add: a_ground_def)
qed

theorem push_sound_witness:
  "\<exists>ag' s'. gs_env (snd (satdeploy_deploy_cmd a_ground [''/tmp/l'', ''/tmp/f'', ''-F''] (a_station an_agent (tmp_os [])))) = (ag', s') \<and>
    has_bytes_of s' ''/tmp/f'' [5]"
proof -
  note sf = a_station_facts
  obtain g' where g': "satdeploy_deploy_cmd a_ground [''/tmp/l'', ''/tmp/f'', ''-F''] (a_station an_agent (tmp_os [])) = (Inr SLASH_SUCCESS, g')"
    by (rule a_push_cmd)
  obtain ag' s' where e: "gs_env g' = (ag', s')" by force
  have pos: "fold take_positional [''/tmp/l'', ''/tmp/f''] (so_local (no_opts\<lparr>so_force := True\<rparr>), so_remote (no_opts\<lparr>so_force := True\<rparr>)) =
    (Some ''/tmp/l'', Some ''/tmp/f'')" by (simp add: take_positional_def no_opts_def)
  have "has_bytes_of s' ''/tmp/f'' [5]"
    using push_sound [OF g' a_parse(1) pos sf(1) a_codec sf(5) _ _ e, of "[5]"] sf(4,11) f_name(1) f_target by simp
  then show ?thesis using g' e by simp
qed

theorem upload_stops_server_witness:
  "server_idle (snd (satdeploy_deploy_cmd a_ground [''/tmp/l'', ''/tmp/f'', ''-F''] (a_station an_agent (tmp_os []))))"
proof -
  obtain g' where g': "satdeploy_deploy_cmd a_ground [''/tmp/l'', ''/tmp/f'', ''-F''] (a_station an_agent (tmp_os [])) = (Inr SLASH_SUCCESS, g')"
    by (rule a_push_cmd)
  show ?thesis using upload_stops_server [OF g'] g' by (simp add: server_idle_def a_station_def)
qed

definition f_agent :: "bytes list agent" where
  "f_agent = an_agent\<lparr>ag_meta := \<lparr>am_cache = [\<lparr>ae_app_name = ''f'', ae_remote_path = ''/tmp/f'', ae_file_hash = hex_string (sha256 [5]),
     ae_deployed_at = []\<rparr>], am_loaded = True\<rparr>\<rparr>"

definition f_os :: os where
  "f_os = (tmp_os [])\<lparr>fs := [(''/tmp/f'', a_local)]\<rparr>"

theorem push_skips_other_path_witness:
  "\<exists>g'. deploy_single_app a_ground 7 ''f'' (Some ''/tmp/l'') (Some ''/opt/f'') False 1024 (a_station f_agent f_os) = (Inr SLASH_SUCCESS, g') \<and>
    snd (gs_env g') = f_os \<and> contents f_os ''/opt/f'' = None"
proof -
  note sf = a_station_facts
  let ?a = "hd (am_cache (ag_meta f_agent))"
  have "\<exists>g'. deploy_single_app a_ground 7 (satdeploy_derive_app_name ''/opt/f'' 128) (Some ''/tmp/l'') (Some ''/opt/f'') False 1024 (a_station f_agent f_os) =
      (Inr SLASH_SUCCESS, g') \<and> snd (gs_env g') = f_os \<and> contents f_os ''/opt/f'' = None"
  proof (rule push_skips_other_path [OF sf(1) sf(5) _ sf(8), where d = "[5]" and a = ?a])
    show "contents (gs_os (a_station f_agent f_os)) (expand_tilde (gd_home a_ground) ''/tmp/l'') = Some [5]" using sf(4,11) by simp
    show "script f_os = []" "contents f_os (ae_remote_path ?a) = Some [5]" "contents f_os ''/opt/f'' = None"
      by (simp_all add: f_os_def f_agent_def tmp_os_def contents_def lookup_def a_local_def)
    show "am_loaded (ag_meta f_agent)" "am_cache (ag_meta f_agent) = [?a]" "ae_app_name ?a = satdeploy_derive_app_name ''/opt/f'' 128"
      by (simp_all add: f_agent_def f_name)
    show "request_arrives a_ground (a_sat (gs_server (a_station f_agent f_os))) (req_init\<lparr>dr_command := CMD_STATUS\<rparr>)"
      using a_arrivals(2) by (simp add: a_status_def)
    show "reply_arrives a_ground (a_sat (gs_server (a_station f_agent f_os))) (one_app (ae_app_name ?a) run (hex_string (sha256 [5])) (ae_remote_path ?a))" for run
      using a_arrivals(5) by (simp add: a_report_def f_agent_def)
  qed
  then show ?thesis by (simp add: f_name)
qed

lemma versions_app_ready: "rollback_ready versions_os ''app'' ''/tmp/app''" "hash_at versions_os ''/tmp/app'' = []"
proof -
  note vc = versions_contents
  have "can_create versions_os ''/tmp/app''" unfolding can_create_def dir_exists_def vc(5) by (simp add: dirname_def)
  moreover have "dirname ''/tmp/app'' = ''/tmp''" by (simp add: dirname_def)
  ultimately show "rollback_ready versions_os ''app'' ''/tmp/app''"
    using versions_ready(1) stored_path_facts(4) by (simp add: rollback_ready_def in_backups_def BACKUP_DIR_def METADATA_FILE_def METADATA_DIR_def)
  have "''/tmp/app'' \<notin> set (map fst (fs versions_os))" unfolding vc(4) by (simp add: stored_path_def)
  then have "lookup versions_os ''/tmp/app'' = None" by (simp only: lookup_None_iff simp_thms)
  then show "hash_at versions_os ''/tmp/app'' = []" by (simp add: hash_at_def contents_def)
qed

lemma versions_short:
  assumes "e \<in> set (dial_entries versions_os ''app'')"
  shows "length (de_path e) < MAX_PATH_LEN"
proof -
  have "lookup versions_os (de_path e) \<noteq> None"
    by (rule dial_listing [OF versions_app_ready(1)]) (use assms in \<open>auto simp: dial_ok_def contents_def\<close>)
  then have "de_path e \<in> set (map fst (fs versions_os))" using lookup_None_iff by metis
  then show ?thesis unfolding versions_contents(4) by (auto simp: stored_path_def stored_name_def length_stamp times_ok length_hex_string MAX_PATH_LEN_def)
qed

theorem rollback_cmd_restores_witness:
  "\<exists>g' h. satdeploy_rollback_cmd a_ground [''/tmp/app''] (a_station an_agent versions_os) = (Inr SLASH_SUCCESS, g') \<and>
    hash_at (snd (gs_env g')) ''/tmp/app'' = h \<and> gs_out g' = [Con_success (rollback_message ''app'' h)]"
proof -
  note sf = a_station_facts
  have ne: "dial_entries versions_os ''app'' \<noteq> []" using versions_dial by (metis list.size(3) not_less_zero)
  let ?o = "Some (case so_hash no_opts of Some h \<Rightarrow> h | None \<Rightarrow> [])"
  obtain e es where sel: "dial_select ?o (hash_at versions_os ''/tmp/app'') (dial_entries versions_os ''app'') = Some (e, es)"
    by (simp add: dial_select_def no_opts_def present_def Let_def)
  have "e \<in> set (dial_entries versions_os ''app'')" using dial_select_mem [OF sel ne] by blast
  from versions_short [OF this] have short: "length (de_path e) < MAX_PATH_LEN" .
  have o: "?o = Some []" by (simp add: no_opts_def)
  have "\<exists>g'. satdeploy_rollback_cmd a_ground [''/tmp/app''] (a_station an_agent versions_os) = (Inr SLASH_SUCCESS, g') \<and>
    hash_at (snd (gs_env g')) ''/tmp/app'' = de_hash e \<and>
    gs_out g' = gs_out (a_station an_agent versions_os) @ [Con_success (rollback_message ''app'' (de_hash e))]"
  proof (rule rollback_cmd_restores [OF a_parse(2) _ f_name(3) [symmetric] sf(1,5,8) versions_app_ready(1) a_agent_facts(2) ne sel])
    show "target_path [''/tmp/app''] (so_remote no_opts) = Some ''/tmp/app''" by (simp add: target_path_def)
    show "hash_at versions_os ''/tmp/app'' = [] \<or> hash_at versions_os ''/tmp/app'' \<in> de_hash ` set (dial_entries versions_os ''app'')"
      using versions_app_ready(2) by blast
    show "request_arrives a_ground (a_sat (gs_server (a_station an_agent versions_os))) (req_init\<lparr>dr_command := CMD_ROLLBACK,
        dr_app_name := Some ''app'', dr_remote_path := Some ''/tmp/app'', dr_rollback_hash := ?o\<rparr>)"
      using a_arrivals(3) unfolding o a_back_def .
    show "reply_arrives a_ground (a_sat (gs_server (a_station an_agent versions_os))) (deployed_resp (de_path e))" by (rule a_arrivals(4) [OF short])
  qed
  then show ?thesis using sf(10) by auto
qed

text \<open>The station of an upload over an installed version, and of its rollback.\<close>

definition u_req :: deploy_request where
  "u_req = req_init\<lparr>dr_command := CMD_ROLLBACK, dr_app_name := Some ''f'', dr_remote_path := Some ''/tmp/f'',
     dr_rollback_hash := Some (hex_string (sha256 [9]))\<rparr>"

definition u_sat :: "svu_serve_session_t option \<Rightarrow> bytes list env" where
  "u_sat srv = (a_sat srv)\<lparr>ev_unpack := (\<lambda>b. if b = [1] then Some a_push else if b = [3] then Some u_req else None)\<rparr>"

definition u_ground :: "(bytes list agent \<times> os, string list) station_env" where
  "u_ground = a_ground\<lparr>gd_transact := sat_exchange u_sat,
     gd_pack := (\<lambda>r. if r = a_push then [1] else if r = u_req then [3] else [9]),
     gd_optparse := (\<lambda>_ opts args. case args of
        a # h # _ \<Rightarrow> if a = ''-H'' then Some (2, opts\<lparr>so_hash := Some h\<rparr>) else Some (0, opts) | _ \<Rightarrow> Some (0, opts))\<rparr>"

lemma u_messages: "a_push \<noteq> u_req"
  by (simp add: a_push_def u_req_def push_request_def req_init_def)

lemma u_codec: "codec_sound u_ground (u_sat srv)"
proof -
  have "req' = req" if "ev_unpack (u_sat srv) (gd_pack u_ground req) = Some req'" for req req'
    using that by (auto simp: u_sat_def u_ground_def split: if_splits)
  moreover have "resp' = resp" if "gd_unpack u_ground (ev_pack (u_sat srv) resp) = Some resp'" for resp resp'
    using that a_codec [of srv] by (auto simp: u_sat_def u_ground_def codec_sound_def)
  ultimately show ?thesis unfolding codec_sound_def by blast
qed

lemma u_arrivals:
  "request_arrives u_ground (u_sat srv) a_push" "request_arrives u_ground (u_sat srv) u_req"
  "length p < MAX_PATH_LEN \<Longrightarrow> reply_arrives u_ground (u_sat srv) (deployed_resp p)"
  using u_messages a_arrivals(4) [of p srv]
  by (simp_all add: request_arrives_def reply_arrives_def u_sat_def u_ground_def a_sat_def an_env_def)

lemma f_path: "session_state_svu_path ''f'' 640 = Some ''/var/lib/satdeploy/state/f.svupart''"
  by (simp add: session_state_svu_path_def state_path_def app_name_is_safe_def SESSION_STATE_DIR_def SESSION_SVU_EXT_def)

lemma installed_f:
  "undo_ready installed_os ''f'' ''/tmp/f''" "script installed_os = []" "card {h. kept installed_os ''f'' h} + 2 < MAX_DIAL_ENTRIES"
  "contents installed_os ''/tmp/f'' = Some [9]"
  "deploy_ready [5] 1 SVU_SERVE_DEFAULT_BLOCK 3 (u_sat (Some (serving [5]))) a_push ''f'' ''/tmp/f'' installed_os"
proof -
  have i: "map fst (fs installed_os) = [''/tmp/f'']" "dirs installed_os = [''/tmp'']" "script installed_os = []" "tm_ok (clock installed_os)"
    by (simp_all add: installed_os_def tmp_os_def tm_ok_def)
  have d: "dirname ''/tmp/f'' \<noteq> backup_dir_of ''f''" by (simp add: dirname_def backup_dir_of_def cstr_def MAX_PATH_LEN_def BACKUP_DIR_def)
  have only: "p = ''/tmp/f''" if "contents installed_os p = Some x" for p x
    using that lookup_None_iff [of installed_os p] i(1) by (auto simp: contents_def simp del: set_map)
  have k: "\<not> kept installed_os ''f'' h" for h using only d by (auto simp: kept_def)
  have none: "lookup installed_os p = None \<longleftrightarrow> p \<noteq> ''/tmp/f''" for p using lookup_None_iff [of installed_os p] i(1) by (simp del: set_map)
  have st: "stamped_store installed_os ''f''" using d by (simp add: stamped_store_def i(1) del: set_map)
  have cc: "can_create installed_os ''/tmp/f''" "can_create installed_os ''/tmp/f.tmp''" using i(2) by (simp_all add: can_create_def dir_exists_def dirname_def)
  have dirs: "backup_dir_of ''f'' = ''/opt/satdeploy/backups/f''" by (simp add: backup_dir_of_def cstr_def MAX_PATH_LEN_def BACKUP_DIR_def)
  have sr: "store_ready installed_os ''f''"
    using i(4) none by (simp add: store_ready_def plain_name_def backup_store_def backup_dirs_free_def i(1,2) dirs dirname_def MAX_APP_NAME_LEN_def
        BACKUP_DIR_def del: set_map)
  have out: "''/tmp/f'' \<notin> store_dirs ''f'' \<union> state_dirs" "''/tmp/f.tmp'' \<notin> store_dirs ''f'' \<union> state_dirs"
    by (simp_all add: store_dirs_def state_dirs_def SESSION_STATE_DIR_def BACKUP_DIR_def dirs)
  show "script installed_os = []" "card {h. kept installed_os ''f'' h} + 2 < MAX_DIAL_ENTRIES" using i(3) k by (simp_all add: MAX_DIAL_ENTRIES_def)
  show "undo_ready installed_os ''f'' ''/tmp/f''"
    using i(3) f_target sr st cc(1) out k by (simp add: undo_ready_def METADATA_DIR_def MAX_DIAL_ENTRIES_def)
  show "contents installed_os ''/tmp/f'' = Some [9]" by (rule installed_os_ready(4))
  have "ev_link (u_sat (Some (serving [5]))) n = server_link [5] 1 SVU_SERVE_DEFAULT_BLOCK 3" "\<not> ev_oom (u_sat (Some (serving [5])))" for n
    by (simp_all add: u_sat_def a_sat_def serving_def an_env_def)
  then show "deploy_ready [5] 1 SVU_SERVE_DEFAULT_BLOCK 3 (u_sat (Some (serving [5]))) a_push ''f'' ''/tmp/f'' installed_os"
    using one_block f_path f_target cc out none by (simp add: deploy_ready_def a_push_def push_request_def req_init_def Un_commute)
qed

lemma u_facts: "gd_transact u_ground = sat_exchange u_sat" "\<not> gd_oom u_ground" "gd_thread u_ground"
  "expand_tilde (gd_home u_ground) ''/tmp/l'' = ''/tmp/l''" "gd_iface u_ground = Some 3"
  using a_station_facts(2-4,12) by (simp_all add: u_ground_def)

lemma u_parse:
  "parse_args u_ground ''satdeploy rollback'' [''/tmp/f'', ''-H'', hex_string (sha256 [9])] =
     Inr (Some ([''/tmp/f''], no_opts\<lparr>so_hash := Some (hex_string (sha256 [9]))\<rparr>))"
  by (simp add: parse_args_def satdeploy_reorder_argv_def is_option_def SATDEPLOY_VALUE_OPTS_def u_ground_def)

lemma u_push_run:
  obtains g' where "deploy_single_app u_ground 7 ''f'' (Some ''/tmp/l'') (Some ''/tmp/f'') True 1024 (a_station an_agent installed_os) = (Inr SLASH_SUCCESS, g')"
proof -
  note sf = a_station_facts(5-10,13)
  have sr: "lookup installed_os ''/tmp/f'' = None \<or> store_ready installed_os ''f''" using installed_f(1) by (simp add: undo_ready_def)
  have "\<exists>g'. deploy_single_app u_ground 7 ''f'' (Some ''/tmp/l'') (Some ''/tmp/f'') True 1024 (a_station an_agent installed_os) = (Inr SLASH_SUCCESS, g') \<and>
    contents (snd (gs_env g')) ''/tmp/f'' = Some (f_data a_local) \<and>
    gs_out g' = gs_out (a_station an_agent installed_os) @
      [Con_success (cstr 256 (''Deployed '' @ ''f'' @ '' ('' @ take 8 (hex_string (sha256 (f_data a_local))) @ '') over SVU''))]"
    by (rule push_lossless [OF u_facts(1-3) u_facts(4) [symmetric] sf(1-3) _ _ sf(4), where req = a_push and addr = 3])
      (use installed_f(5) a_agent_facts u_arrivals installed_os_ready(2) sr in \<open>simp_all add: sf a_push_def u_facts\<close>)
  then show ?thesis using that by blast
qed

theorem push_undone_witness:
  "\<exists>g' g''. deploy_single_app u_ground 7 ''f'' (Some ''/tmp/l'') (Some ''/tmp/f'') True 1024 (a_station an_agent installed_os) = (Inr SLASH_SUCCESS, g') \<and>
    satdeploy_rollback_cmd u_ground [''/tmp/f'', ''-H'', hex_string (sha256 [9])] g' = (Inr SLASH_SUCCESS, g'') \<and>
    hash_at (snd (gs_env g'')) ''/tmp/f'' = hex_string (sha256 [9])"
proof -
  note sf = a_station_facts
  obtain g' where g': "deploy_single_app u_ground 7 ''f'' (Some ''/tmp/l'') (Some ''/tmp/f'') True 1024 (a_station an_agent installed_os) = (Inr SLASH_SUCCESS, g')"
    by (rule u_push_run)
  have c: "contents (gs_os (a_station an_agent installed_os)) (expand_tilde (gd_home u_ground) ''/tmp/l'') = Some [5]" using sf(11) u_facts(4) by simp
  have p: "target_path [''/tmp/f''] (so_remote (no_opts\<lparr>so_hash := Some (hex_string (sha256 [9]))\<rparr>)) = Some ''/tmp/f''"
    "so_hash (no_opts\<lparr>so_hash := Some (hex_string (sha256 [9]))\<rparr>) = Some (hex_string (sha256 [9]))" by (simp_all add: target_path_def)
  from push_undone [OF g' f_name(1) [symmetric] u_facts(1) u_codec sf(5) c sf(8) installed_store(4) installed_f(1-4) u_parse p _ u_arrivals(3)]
    u_arrivals(2) g' show ?thesis unfolding u_req_def by blast
qed

end
