(* ===== verification/Dtp_Client.thy ===== *)
theory Dtp_Client
  imports Deploy_Transfer
begin

unbundle bit_operations_syntax

text \<open>
  The agent's first transfer client (\<open>satdeploy-agent/src/dtp_client.c\<close>), still built beside the
  SVU client: the receive bitmap, the missing intervals of a retry, the data callback, the retry
  rounds, and the state file that carries the bitmap to the next pass. \<open>libdtp\<close> is a parameter,
  the record \<open>dtp_lib\<close>. The flight build is modelled (eight retry rounds, state kept); log lines and
  \<open>fsync\<close> are not. \<open>Dtp_Passes\<close> proves what several passes together give.
\<close>

section \<open>Definitions\<close>

text \<open>
  \<open>libdtp\<close>: what \<open>dtp_get_data_info\<close> reads from a packet, whether a session can be
  prepared, the intervals of a new session's request, and a transfer, which for a request gives the
  packets offered to \<open>on_data_packet\<close> (\<open>None\<close>: a null pointer) and, depending on whether the
  callback stopped it, the status returned.
\<close>

record data_info =
  di_offset :: u32
  di_seq :: u32
  di_data :: bytes

type_synonym dtp_interval = "u32 \<times> u32"

record 'e dtp_lib =
  dl_prepare :: "u32 \<Rightarrow> u32 \<Rightarrow> u32 \<Rightarrow> u8 \<Rightarrow> u8 \<Rightarrow> u16 \<Rightarrow> bool"
  dl_default :: "dtp_interval list"
  dl_info :: "bytes \<Rightarrow> data_info"
  dl_transfer :: "dtp_interval list \<Rightarrow> 'e \<Rightarrow> bytes option list \<times> (bool \<Rightarrow> int) \<times> 'e"
  dl_ok :: int
  dl_cancelled :: int

definition DTP_DEFAULT_TIMEOUT_S :: u8 where "DTP_DEFAULT_TIMEOUT_S = 60"
definition DTP_DEFAULT_MTU :: u16 where "DTP_DEFAULT_MTU = 1024"
definition DTP_DEFAULT_THROUGHPUT :: u32 where "DTP_DEFAULT_THROUGHPUT = 10000000"
definition DTP_MAX_RETRY_ROUNDS :: nat where "DTP_MAX_RETRY_ROUNDS = 8"

text \<open>The stream \<open>fp\<close> is the path it was opened on; a null bitmap is \<open>None\<close>.\<close>

record download_ctx_t =
  dc_fp :: string
  dc_bytes_written :: u32
  dc_expected_size :: u32
  dc_error :: int
  dc_recv_bitmap :: "bytes option"
  dc_nof_packets :: u32
  dc_effective_mtu :: u16

text \<open>\<open>None\<close>: the byte is not in the bitmap (a null pointer or a write past its end).\<close>

definition mark_seq_received :: "download_ctx_t \<Rightarrow> u32 \<Rightarrow> download_ctx_t option" where
  "mark_seq_received ctx sq =
     (if dc_nof_packets ctx \<le> sq then Some ctx
      else case dc_recv_bitmap ctx of
             None \<Rightarrow> None
           | Some b \<Rightarrow>
               let i = unat (drop_bit 3 sq)
               in if length b \<le> i then None
                  else Some (ctx\<lparr>dc_recv_bitmap := Some (b[i := b ! i OR push_bit (unat (sq AND 7)) 1])\<rparr>))"

definition seq_is_received :: "download_ctx_t \<Rightarrow> u32 \<Rightarrow> bool" where
  "seq_is_received ctx sq \<longleftrightarrow>
     (if dc_nof_packets ctx \<le> sq then True
      else drop_bit (unat (sq AND 7)) (the (dc_recv_bitmap ctx) ! unat (drop_bit 3 sq)) AND 1 = (1 :: u8))"

text \<open>\<open>while (i < nof_packets && seq_is_received(i) == want) i++\<close>\<close>

function skip_seqs :: "download_ctx_t \<Rightarrow> bool \<Rightarrow> u32 \<Rightarrow> u32" where
  "skip_seqs ctx want i =
     (if i < dc_nof_packets ctx \<and> seq_is_received ctx i = want then skip_seqs ctx want (i + 1) else i)"
  by pat_completeness auto
termination skip_seqs
proof (relation "measure (\<lambda>(ctx, want, i). unat (dc_nof_packets ctx) - unat i)", simp)
  fix ctx :: download_ctx_t and want :: bool and i :: u32
  assume "i < dc_nof_packets ctx \<and> seq_is_received ctx i = want"
  then have "unat i < unat (dc_nof_packets ctx)" by (simp add: word_less_nat_alt)
  moreover from this have "unat (i + 1) = unat i + 1"
    using unat_lt32 [of "dc_nof_packets ctx"] by (subst unat_add32) simp_all
  ultimately show "((ctx, want, i + 1), ctx, want, i) \<in> measure (\<lambda>(ctx, want, i). unat (dc_nof_packets ctx) - unat i)" by simp
qed

declare skip_seqs.simps [simp del]

fun missing_from :: "nat \<Rightarrow> download_ctx_t \<Rightarrow> u32 \<Rightarrow> dtp_interval list" where
  "missing_from 0 ctx i = []"
| "missing_from (Suc room) ctx i =
     (if \<not> i < dc_nof_packets ctx then []
      else let i = skip_seqs ctx True i
           in if dc_nof_packets ctx \<le> i then []
              else let gap_start = i; i = skip_seqs ctx False i
                   in (gap_start, i - 1) # missing_from room ctx i)"

definition compute_missing_intervals :: "download_ctx_t \<Rightarrow> dtp_interval list" where
  "compute_missing_intervals ctx = missing_from 8 ctx 0"

definition count_received_packets :: "download_ctx_t \<Rightarrow> u32" where
  "count_received_packets ctx =
     fold (\<lambda>i n. if seq_is_received ctx (of_nat i) then n + 1 else n) [0..<unat (dc_nof_packets ctx)] 0"

text \<open>\<open>fseek\<close> and the \<open>fwrite\<close> behind it; \<open>fopen(path, "r+b")\<close>.\<close>

definition fseek_set :: "os \<Rightarrow> bool \<times> os" where
  "fseek_set s = (case next_outcome s of (Good, s) \<Rightarrow> (True, s) | (Fail _, s) \<Rightarrow> (False, s))"

definition fopen_update :: "string \<Rightarrow> os \<Rightarrow> bool \<times> os" where
  "fopen_update p s = (case open_rw p s of (fd, s) \<Rightarrow> (fd \<noteq> None, s))"

text \<open>The callback: whether the transfer goes on; \<open>None\<close> as in \<open>mark_seq_received\<close>.\<close>

definition on_download_data :: "'e dtp_lib \<Rightarrow> bytes option \<Rightarrow> download_ctx_t \<Rightarrow> os \<Rightarrow> (bool \<times> download_ctx_t) option \<times> os" where
  "on_download_data lib packet ctx s =
     (case packet of
        None \<Rightarrow> (Some (True, ctx), s)
      | Some p \<Rightarrow>
          if length p = 0 then (Some (True, ctx), s)
          else if length p < 8 then (Some (True, ctx), s)
          else let info = dl_info lib p
          in (case fseek_set s of (ok, s) \<Rightarrow>
               if \<not> ok then (Some (False, ctx\<lparr>dc_error := -1\<rparr>), s)
               else (case pwrite (dc_fp ctx) (di_data info) (unat (di_offset info)) s of (written, s) \<Rightarrow>
                 if written \<noteq> length (di_data info) then (Some (False, ctx\<lparr>dc_error := -1\<rparr>), s)
                 else (map_option (\<lambda>c. (True, c))
                         (mark_seq_received (ctx\<lparr>dc_bytes_written := dc_bytes_written ctx + of_nat written\<rparr>) (di_seq info)), s))))"

text \<open>The library offers packets until the callback says no: whether it did.\<close>

fun deliver_packets :: "'e dtp_lib \<Rightarrow> bytes option list \<Rightarrow> download_ctx_t \<Rightarrow> os \<Rightarrow> (bool \<times> download_ctx_t) option \<times> os" where
  "deliver_packets lib [] ctx s = (Some (False, ctx), s)"
| "deliver_packets lib (p # ps) ctx s =
     (case on_download_data lib p ctx s of
        (None, s) \<Rightarrow> (None, s)
      | (Some (False, ctx), s) \<Rightarrow> (Some (True, ctx), s)
      | (Some (True, ctx), s) \<Rightarrow> deliver_packets lib ps ctx s)"

definition dtp_start_transfer ::
  "'e dtp_lib \<Rightarrow> dtp_interval list \<Rightarrow> download_ctx_t \<Rightarrow> os \<Rightarrow> 'e \<Rightarrow> (int \<times> download_ctx_t \<times> 'e) option \<times> os" where
  "dtp_start_transfer lib req ctx s e =
     (case dl_transfer lib req e of (ps, rc, e) \<Rightarrow>
        (case deliver_packets lib ps ctx s of
           (None, s) \<Rightarrow> (None, s)
         | (Some (stopped, ctx), s) \<Rightarrow> (Some (rc stopped, ctx, e), s)))"

text \<open>
  The retry loop: \<open>round\<close> rounds are left. It stops on a write error, on a status that is neither
  \<open>DTP_OK\<close> nor \<open>DTP_CANCELLED\<close> (kept as \<open>hard_error\<close>), on full coverage or when the rounds
  are used up.
\<close>

fun dtp_retry_rounds ::
  "nat \<Rightarrow> 'e dtp_lib \<Rightarrow> int \<Rightarrow> download_ctx_t \<Rightarrow> os \<Rightarrow> 'e \<Rightarrow> (int \<times> download_ctx_t \<times> 'e) option \<times> os" where
  "dtp_retry_rounds 0 lib res ctx s e = (Some (0, ctx, e), s)"
| "dtp_retry_rounds (Suc rnd) lib res ctx s e =
     (if dc_recv_bitmap ctx = None \<or> dc_error ctx \<noteq> 0 then (Some (0, ctx, e), s)
      else if res \<noteq> dl_ok lib \<and> res \<noteq> dl_cancelled lib then (Some (res, ctx, e), s)
      else if dc_nof_packets ctx \<le> count_received_packets ctx then (Some (0, ctx, e), s)
      else let gaps = compute_missing_intervals ctx
      in if gaps = [] then (Some (0, ctx, e), s)
         else (case dtp_start_transfer lib gaps ctx s e of
                 (None, s) \<Rightarrow> (None, s)
               | (Some (res, ctx, e), s) \<Rightarrow> dtp_retry_rounds rnd lib res ctx s e))"

definition dtp_eff_mtu :: "u16 \<Rightarrow> u16" where
  "dtp_eff_mtu mtu = (if mtu > 8 then mtu - 8 else 1)"

definition dtp_nof_packets :: "u32 \<Rightarrow> u16 \<Rightarrow> u32" where
  "dtp_nof_packets expected_size eff_mtu =
     (if expected_size \<noteq> 0 then (expected_size + ucast eff_mtu - 1) div ucast eff_mtu else 0)"

definition dtp_bitmap_bytes :: "u32 \<Rightarrow> nat" where
  "dtp_bitmap_bytes nof_packets = unat ((nof_packets + 7) div 8)"

text \<open>The destination: kept when resuming, else made anew; a missing one discards the state.\<close>

definition dtp_open ::
  "string \<Rightarrow> string option \<Rightarrow> bool \<Rightarrow> bytes option \<Rightarrow> os \<Rightarrow> (bool \<times> bool \<times> bytes option) \<times> os" where
  "dtp_open dest_path st_path resumed bitmap s =
     (if resumed then
        (case fopen_update dest_path s of (ok, s) \<Rightarrow>
           if ok then ((True, True, bitmap), s)
           else let (_, s) = session_state_unlink (the st_path) s;
                    bitmap = map_option (\<lambda>b. replicate (length b) 0) bitmap;
                    (ok, s) = fopen_w dest_path s
                in ((ok, False, bitmap), s))
      else let (ok, s) = fopen_w dest_path s in ((ok, False, bitmap), s))"

text \<open>The id of the session, with the counter of callers that give no name or hash.\<close>

definition dtp_session_id :: "string option \<Rightarrow> string option \<Rightarrow> u32 \<Rightarrow> u32 \<Rightarrow> u32 \<times> u32" where
  "dtp_session_id app_name expected_hash now counter =
     (case (app_name, expected_hash) of
        (Some a, Some h) \<Rightarrow> (session_state_compute_id a h, counter)
      | _ \<Rightarrow> (now XOR push_bit 16 (counter + 1), counter + 1))"

definition dtp_fully_received :: "download_ctx_t \<Rightarrow> bool" where
  "dtp_fully_received ctx \<longleftrightarrow> dc_nof_packets ctx = 0 \<or>
     dc_nof_packets ctx \<le> (if dc_recv_bitmap ctx \<noteq> None then count_received_packets ctx else 0)"

text \<open>The transfers: none when everything is there, else the first request and the retries.\<close>

definition dtp_transfers :: "'e dtp_lib \<Rightarrow> bool \<Rightarrow> download_ctx_t \<Rightarrow> os \<Rightarrow> 'e \<Rightarrow> (int \<times> download_ctx_t \<times> 'e) option \<times> os" where
  "dtp_transfers lib resumed ctx s e =
     (if dtp_fully_received ctx then (Some (0, ctx, e), s)
      else let gaps = (if resumed then compute_missing_intervals ctx else []);
               req = (if gaps \<noteq> [] then gaps else dl_default lib)
           in (case dtp_start_transfer lib req ctx s e of
                 (None, s) \<Rightarrow> (None, s)
               | (Some (res, ctx, e), s) \<Rightarrow> dtp_retry_rounds DTP_MAX_RETRY_ROUNDS lib res ctx s e))"

text \<open>What happens to the state file at the end.\<close>

definition dtp_sidecar :: "string option \<Rightarrow> u32 \<Rightarrow> string option \<Rightarrow> download_ctx_t \<Rightarrow> os \<Rightarrow> os" where
  "dtp_sidecar st_path expected_size expected_hash ctx s =
     (case st_path of
        None \<Rightarrow> s
      | Some p \<Rightarrow>
          if dc_error ctx \<noteq> 0 then s
          else if dtp_fully_received ctx then snd (session_state_unlink p s)
          else (case dc_recv_bitmap ctx of
                  None \<Rightarrow> s
                | Some b \<Rightarrow>
                    if count_received_packets ctx > 0
                    then snd (session_state_save p expected_size (the expected_hash) (dc_nof_packets ctx) (dc_effective_mtu ctx) b s)
                    else s))"

definition dtp_download_file ::
  "'e dtp_lib \<Rightarrow> u32 \<Rightarrow> u8 \<Rightarrow> string option \<Rightarrow> u32 \<Rightarrow> string option \<Rightarrow> string option \<Rightarrow> u16 \<Rightarrow> u32 \<Rightarrow> u8 \<Rightarrow>
     u32 \<Rightarrow> u32 \<Rightarrow> os \<Rightarrow> 'e \<Rightarrow> (int \<times> u32 \<times> 'e) option \<times> os" where
  "dtp_download_file lib server_node payload_id dest_path expected_size expected_hash app_name mtu throughput timeout now counter s e =
     (case dest_path of
        None \<Rightarrow> (Some (-1, counter, e), s)
      | Some dest \<Rightarrow>
        let mtu = (if mtu = 0 then DTP_DEFAULT_MTU else mtu);
            throughput = (if throughput = 0 then DTP_DEFAULT_THROUGHPUT else throughput);
            timeout = (if timeout = 0 then DTP_DEFAULT_TIMEOUT_S else timeout);
            eff_mtu = dtp_eff_mtu mtu;
            nof_packets = dtp_nof_packets expected_size eff_mtu;
            n = dtp_bitmap_bytes nof_packets;
            (ok, s) = (if 0 < n then malloc s else (True, s));
            bitmap = (if 0 < n then Some (replicate n 0) else None)
        in if \<not> ok then (Some (-1, counter, e), s)
        else let st_path = (if app_name \<noteq> None \<and> expected_hash \<noteq> None \<and> expected_size > 0 \<and> 0 < n
                               then session_state_path (the app_name) 640 else None);
                 ((loaded, bitmap), s) = (case st_path of
                     None \<Rightarrow> ((0, bitmap), s)
                   | Some p \<Rightarrow> (case session_state_load p expected_size (the expected_hash) nof_packets eff_mtu (the bitmap) s of
                                 ((r, b), s) \<Rightarrow> ((r, Some b), s)));
                 ((opened, resumed, bitmap), s) = dtp_open dest st_path (loaded = 1) bitmap s
        in if \<not> opened then (Some (-1, counter, e), s)
        else let ctx = \<lparr>dc_fp = dest, dc_bytes_written = 0, dc_expected_size = expected_size, dc_error = 0,
                        dc_recv_bitmap = bitmap, dc_nof_packets = nof_packets, dc_effective_mtu = eff_mtu\<rparr>;
                 (session_id, counter) = dtp_session_id app_name expected_hash now counter
        in if \<not> dl_prepare lib server_node session_id throughput timeout payload_id mtu
           then let (_, s) = fclose_w dest s in (Some (-1, counter, e), s)
        else (case dtp_transfers lib resumed ctx s e of
                (None, s) \<Rightarrow> (None, s)
              | (Some (hard_error, ctx, e), s) \<Rightarrow>
                  let fully = dtp_fully_received ctx;
                      (_, s) = fflush dest s;
                      (_, s) = fclose_w dest s;
                      s = dtp_sidecar st_path expected_size expected_hash ctx s
                  in (Some (if dc_error ctx \<noteq> 0 \<or> hard_error \<noteq> 0 \<or> \<not> fully then -1 else 0, counter, e), s)))"

section \<open>The bitmap\<close>

text \<open>The packets received, and a bitmap that has a bit for every packet.\<close>

definition has_seq :: "download_ctx_t \<Rightarrow> nat \<Rightarrow> bool" where
  "has_seq ctx k \<longleftrightarrow> seq_is_received ctx (of_nat k)"

definition ctx_wf :: "download_ctx_t \<Rightarrow> bool" where
  "ctx_wf ctx \<longleftrightarrow> (\<exists>b. dc_recv_bitmap ctx = Some b \<and> unat (dc_nof_packets ctx) \<le> 8 * length b)"

lemma bit_of_seq:
  fixes sq :: u32
  shows "unat (drop_bit 3 sq) = unat sq div 8" "unat (sq AND 7) = unat sq mod 8"
proof -
  show "unat (drop_bit 3 sq) = unat sq div 8" by (simp add: drop_bit_eq_div unat_div32)
  have "sq AND 7 = take_bit 3 sq" by (simp add: take_bit_eq_mask mask_eq_exp_minus_1)
  then show "unat (sq AND 7) = unat sq mod 8" by (simp add: take_bit_eq_mod unat_mod32)
qed

lemma drop_and_one: "(drop_bit j x AND 1 = (1 :: u8)) \<longleftrightarrow> bit x j"
  by (simp add: bit_iff_odd_drop_bit and_one_eq odd_iff_mod_2_eq_one)

lemma has_seq_bit:
  assumes "dc_recv_bitmap ctx = Some b" "k < unat (dc_nof_packets ctx)"
  shows "has_seq ctx k \<longleftrightarrow> bit (b ! (k div 8)) (k mod 8)"
proof -
  have k: "unat (of_nat k :: u32) = k" using assms(2) unat_lt32 [of "dc_nof_packets ctx"] by (intro unat_of_nat32) simp
  then have "\<not> dc_nof_packets ctx \<le> of_nat k" using assms(2) by (simp add: word_le_nat_alt)
  then show ?thesis using assms(1) k unfolding has_seq_def seq_is_received_def bit_of_seq drop_and_one by simp
qed

lemma mark_ok:
  assumes "ctx_wf ctx" 
  obtains ctx' where "mark_seq_received ctx sq = Some ctx'" "ctx_wf ctx'"
    "dc_fp ctx' = dc_fp ctx" "dc_nof_packets ctx' = dc_nof_packets ctx" "dc_error ctx' = dc_error ctx"
    "dc_effective_mtu ctx' = dc_effective_mtu ctx" "map_option length (dc_recv_bitmap ctx') = map_option length (dc_recv_bitmap ctx)"
    "\<And>k. k < unat (dc_nof_packets ctx) \<Longrightarrow> has_seq ctx' k \<longleftrightarrow> has_seq ctx k \<or> k = unat sq"
proof (cases "dc_nof_packets ctx \<le> sq")
  case True
  then have "mark_seq_received ctx sq = Some ctx" by (simp add: mark_seq_received_def)
  moreover have "k \<noteq> unat sq" if "k < unat (dc_nof_packets ctx)" for k using True that by (simp add: word_le_nat_alt)
  ultimately show ?thesis using that [of ctx] assms by simp
next
  case False
  obtain b where b: "dc_recv_bitmap ctx = Some b" "unat (dc_nof_packets ctx) \<le> 8 * length b" using assms by (auto simp: ctx_wf_def)
  let ?i = "unat sq div 8" and ?j = "unat sq mod 8"
  let ?b = "b[?i := b ! ?i OR push_bit ?j 1]"
  have sq: "unat sq < unat (dc_nof_packets ctx)" using False by (simp add: word_le_nat_alt)
  then have i: "?i < length b" using b(2) by linarith
  let ?c = "ctx\<lparr>dc_recv_bitmap := Some ?b\<rparr>"
  have m: "mark_seq_received ctx sq = Some ?c" using False b(1) i by (simp add: mark_seq_received_def bit_of_seq Let_def)
  have "has_seq ?c k \<longleftrightarrow> has_seq ctx k \<or> k = unat sq" if k: "k < unat (dc_nof_packets ctx)" for k
  proof -
    have "has_seq ?c k \<longleftrightarrow> bit (?b ! (k div 8)) (k mod 8)" using has_seq_bit [of ?c ?b k] k by simp
    moreover have "bit (push_bit ?j 1 :: u8) m \<longleftrightarrow> m = ?j" if "m < 8" for m using that unfolding push_bit_eq_mult by (simp add: bit_exp_iff)
    moreover have "k = unat sq \<longleftrightarrow> k div 8 = ?i \<and> k mod 8 = ?j" by (metis div_mult_mod_eq)
    ultimately show ?thesis using has_seq_bit [OF b(1) k] i by (auto simp: nth_list_update bit_or_iff)
  qed
  moreover have "ctx_wf ?c" using b(2) by (simp add: ctx_wf_def)
  ultimately show ?thesis using that [OF m] b(1) by simp
qed

lemma count_all:
  "count_received_packets ctx = of_nat (length (filter (has_seq ctx) [0..<unat (dc_nof_packets ctx)]))"
proof -
  have "fold (\<lambda>i n. if seq_is_received ctx (of_nat i) then n + 1 else n) xs m = m + of_nat (length (filter (has_seq ctx) xs))" for xs and m :: u32
    by (induction xs arbitrary: m) (auto simp: has_seq_def add.assoc)
  then show ?thesis by (simp add: count_received_packets_def)
qed

lemma count_full_iff: "dc_nof_packets ctx \<le> count_received_packets ctx \<longleftrightarrow> (\<forall>k < unat (dc_nof_packets ctx). has_seq ctx k)"
proof -
  let ?n = "unat (dc_nof_packets ctx)" and ?f = "filter (has_seq ctx) [0..<unat (dc_nof_packets ctx)]"
  have l: "length ?f \<le> ?n" using length_filter_le [of "has_seq ctx" "[0..<?n]"] by simp
  then have "unat (count_received_packets ctx) = length ?f"
    unfolding count_all using unat_lt32 [of "dc_nof_packets ctx"] by (intro unat_of_nat32) simp
  then have "dc_nof_packets ctx \<le> count_received_packets ctx \<longleftrightarrow> length ?f = ?n" using l by (auto simp: word_le_nat_alt)
  also have "\<dots> \<longleftrightarrow> ?f = [0..<?n]" using length_filter_less [of _ "[0..<?n]" "has_seq ctx"] by (metis length_upt diff_zero filter_id_conv less_irrefl)
  also have "\<dots> \<longleftrightarrow> (\<forall>k < ?n. has_seq ctx k)" by (auto simp: filter_id_conv)
  finally show ?thesis .
qed

section \<open>The missing intervals\<close>

lemma skip_seqs_spec:
  fixes i :: u32
  assumes "unat i \<le> unat (dc_nof_packets ctx)"
  shows "unat i \<le> unat (skip_seqs ctx want i) \<and> unat (skip_seqs ctx want i) \<le> unat (dc_nof_packets ctx) \<and>
    (\<forall>k. unat i \<le> k \<longrightarrow> k < unat (skip_seqs ctx want i) \<longrightarrow> has_seq ctx k = want) \<and>
    (unat (skip_seqs ctx want i) < unat (dc_nof_packets ctx) \<longrightarrow> has_seq ctx (unat (skip_seqs ctx want i)) \<noteq> want)"
  using assms
proof (induction ctx want i rule: skip_seqs.induct)
  case (1 ctx want i)
  have hi: "has_seq ctx (unat i) = seq_is_received ctx i" by (simp add: has_seq_def)
  show ?case
  proof (cases "i < dc_nof_packets ctx \<and> seq_is_received ctx i = want")
    case True
    then have u: "unat (i + 1) = unat i + 1" "unat i < unat (dc_nof_packets ctx)"
      using unat_lt32 [of "dc_nof_packets ctx"] by (auto simp: word_less_nat_alt unat_add32)
    have s: "skip_seqs ctx want i = skip_seqs ctx want (i + 1)" using True by (subst skip_seqs.simps) simp
    note ih = "1.IH" [OF True]
    have "has_seq ctx k = want" if "unat i \<le> k" "k < unat (skip_seqs ctx want (i + 1))" for k
      using ih u that True hi by (cases "k = unat i") auto
    then show ?thesis using ih u unfolding s by simp
  next
    case False
    then have "skip_seqs ctx want i = i" by (subst skip_seqs.simps) auto
    then show ?thesis using False "1.prems" hi by (auto simp: word_less_nat_alt)
  qed
qed

lemma missing_from_runs:
  assumes "unat i \<le> unat (dc_nof_packets ctx)"
  shows "\<exists>L. is_runs (\<lambda>k. \<not> has_seq ctx k) (unat i) (unat (dc_nof_packets ctx)) L \<and>
    map (\<lambda>(a, b). (unat a, unat b + 1)) (missing_from room ctx i) = take room L"
  using assms
proof (induction room arbitrary: i)
  case 0
  then show ?case using runs_exist by auto
next
  case (Suc room)
  let ?n = "unat (dc_nof_packets ctx)" and ?P = "\<lambda>k. \<not> has_seq ctx k" and ?j = "skip_seqs ctx True i"
  note sj = skip_seqs_spec [OF Suc.prems, of True]
  have ext: "is_runs ?P a ?n L" if "is_runs ?P b ?n L" "a \<le> b" "\<And>k. a \<le> k \<Longrightarrow> k < b \<Longrightarrow> has_seq ctx k" for a b L
    by (rule is_runs_skips [OF that(1,2)]) (use that(3) in blast)
  show ?case
  proof (cases "unat ?j < ?n")
    case False
    then have "unat ?j = ?n" using sj by simp
    then have "is_runs ?P (unat i) ?n []" using ext [OF is_runs_Nil [of ?n ?n]] sj by auto
    moreover have "missing_from (Suc room) ctx i = []" using False by (auto simp: Let_def word_le_nat_alt word_less_nat_alt)
    ultimately show ?thesis by (intro exI [of _ "[]"]) simp
  next
    case True
    let ?r = "skip_seqs ctx False ?j"
    have "unat ?j \<le> ?n" using True by simp
    note sr = skip_seqs_spec [OF this, of False]
    have lt: "unat ?j < unat ?r" using sr sj True by (metis le_neq_implies_less)
    have rn: "unat ?r \<le> ?n" using sr by simp
    from Suc.IH [OF rn] obtain L where
      L: "is_runs ?P (unat ?r) ?n L" "map (\<lambda>(a, b). (unat a, unat b + 1)) (missing_from room ctx ?r) = take room L" by blast
    have "is_runs ?P (unat ?j) ?n ((unat ?j, unat ?r) # L)" using is_runs_Cons [OF lt rn _ _ L(1)] sr by auto
    then have "is_runs ?P (unat i) ?n ((unat ?j, unat ?r) # L)" using ext sj by blast
    moreover have "i < dc_nof_packets ctx" using sj True by (simp add: word_less_nat_alt)
    then have "missing_from (Suc room) ctx i = (?j, ?r - 1) # missing_from room ctx ?r"
      using True by (auto simp: Let_def word_le_nat_alt)
    moreover have "unat (?r - 1) + 1 = unat ?r" using lt unat_sub32 [of 1 ?r] by (simp add: word_le_nat_alt)
    ultimately show ?thesis using L(2) by (intro exI [of _ "(unat ?j, unat ?r) # L"]) simp
  qed
qed

text \<open>
  With the largest size and a payload of one byte the byte count of the bitmap wraps to 0: no bitmap
  is allocated, and marking the first packet goes through the null pointer.
\<close>

lemma dtp_bitmap_wraps:
  assumes "dc_nof_packets ctx = dtp_nof_packets 0xFFFFFFFF (dtp_eff_mtu 9)" "dc_recv_bitmap ctx = None"
  shows "dtp_bitmap_bytes (dc_nof_packets ctx) = 0 \<and> mark_seq_received ctx 0 = None"
proof -
  have n: "dtp_nof_packets 0xFFFFFFFF (dtp_eff_mtu 9) = 0xFFFFFFFF" by code_simp
  have "dtp_bitmap_bytes 0xFFFFFFFF = 0" by code_simp
  moreover have "\<not> (0xFFFFFFFF :: u32) \<le> 0" by simp
  ultimately show ?thesis using assms n by (simp add: mark_seq_received_def)
qed

end
