(* ===== verification/Dtp_Passes.thy ===== *)
theory Dtp_Passes
  imports Dtp_Client
begin

text \<open>
  What passes of the DTP client give (\<open>dtp_client.c\<close> with \<open>session_state.c\<close>): the destination holds
  every packet the bitmap claims, the state file never claims more than the destination holds, and so
  a download resumed over any number of passes is the source when a pass returns 0.
\<close>

section \<open>Passes\<close>

text \<open>The bytes of packet \<open>k\<close> are in the file.\<close>

definition file_has :: "bytes \<Rightarrow> nat \<Rightarrow> bytes \<Rightarrow> nat \<Rightarrow> bool" where
  "file_has src m d k \<longleftrightarrow> seg (k * m) m d = seg (k * m) m src"

text \<open>A file no longer than the source in which every packet the bitmap claims is there.\<close>

definition dtp_inv :: "bytes \<Rightarrow> nat \<Rightarrow> download_ctx_t \<Rightarrow> os \<Rightarrow> bool" where
  "dtp_inv src m ctx s \<longleftrightarrow> ctx_wf ctx \<and> dc_error ctx = 0 \<and> script s = [] \<and> (\<exists>d. contents s (dc_fp ctx) = Some d \<and> length d \<le> length src \<and>
     (\<forall>k < unat (dc_nof_packets ctx). has_seq ctx k \<longrightarrow> file_has src m d k))"

text \<open>The server's packets carry their piece of the source; any of them may be lost, repeated or reordered.\<close>

definition honest_dtp :: "'e dtp_lib \<Rightarrow> bytes \<Rightarrow> nat \<Rightarrow> bool" where
  "honest_dtp lib src m \<longleftrightarrow> (\<forall>req e p. Some p \<in> set (fst (dl_transfer lib req e)) \<longrightarrow> 8 \<le> length p \<longrightarrow>
     unat (di_offset (dl_info lib p)) = unat (di_seq (dl_info lib p)) * m \<and>
     di_data (dl_info lib p) = seg (unat (di_seq (dl_info lib p)) * m) m src)"

lemma file_has_iff:
  assumes "length d \<le> length src"
  shows "file_has src m d k \<longleftrightarrow> (\<forall>j. k * m \<le> j \<longrightarrow> j < k * m + m \<longrightarrow> j < length src \<longrightarrow> j < length d \<and> d ! j = src ! j)"
proof
  assume h: "file_has src m d k"
  show "\<forall>j. k * m \<le> j \<longrightarrow> j < k * m + m \<longrightarrow> j < length src \<longrightarrow> j < length d \<and> d ! j = src ! j"
  proof (intro allI impI)
    fix j assume j: "k * m \<le> j" "j < k * m + m" "j < length src"
    have l: "length (seg (k * m) m d) = length (seg (k * m) m src)" using h by (simp add: file_has_def)
    then have d: "j < length d" using j by (simp add: length_seg min_def split: if_splits)
    have "seg (k * m) m d ! (j - k * m) = seg (k * m) m src ! (j - k * m)" using h by (simp add: file_has_def)
    then show "j < length d \<and> d ! j = src ! j" using j d by (simp add: nth_seg)
  qed
next
  assume h: "\<forall>j. k * m \<le> j \<longrightarrow> j < k * m + m \<longrightarrow> j < length src \<longrightarrow> j < length d \<and> d ! j = src ! j"
  have l: "length (seg (k * m) m d) = length (seg (k * m) m src)"
  proof -
    have "min (k * m + m) (length src) \<le> length d \<or> min (k * m + m) (length src) \<le> k * m"
      using h [rule_format, of "min (k * m + m) (length src) - 1"] by linarith
    then show ?thesis using assms by (simp only: length_seg) linarith
  qed
  show "file_has src m d k" unfolding file_has_def
  proof (rule nth_equalityI [OF l])
    fix i assume "i < length (seg (k * m) m d)"
    then have i: "i < m" "k * m + i < length d" "k * m + i < length src" using assms by (simp_all only: length_seg)
    then show "seg (k * m) m d ! i = seg (k * m) m src ! i" using h [rule_format, of "k * m + i"] by (simp add: nth_seg)
  qed
qed

lemma pwrite_piece:
  assumes "length d \<le> length src" "b = seg (q * m) m src"
  shows "length (pwrite_bytes (q * m) b d) \<le> length src" "file_has src m (pwrite_bytes (q * m) b d) q"
    "file_has src m d k \<Longrightarrow> file_has src m (pwrite_bytes (q * m) b d) k"
proof -
  let ?o = "q * m" and ?d = "pwrite_bytes (q * m) b d"
  have b: "length b = min m (length src - ?o)" by (simp add: assms(2))
  show l: "length ?d \<le> length src"
  proof (cases "b = []")
    case False
    then have "0 < length b" by simp
    then have "?o + length b \<le> length src" using b by linarith
    then show ?thesis using assms(1) length_pwrite [OF False] by simp
  qed (use assms(1) in \<open>simp add: pwrite_bytes_def\<close>)
  have ln: "length d \<le> length ?d" "b \<noteq> [] \<Longrightarrow> ?o + length b \<le> length ?d"
    using length_pwrite [of b ?o d] by (cases "b = []"; simp add: pwrite_bytes_def)+
  have at: "?d ! j = src ! j" if "?o \<le> j" "j < ?o + length b" for j
  proof -
    have "b \<noteq> []" using that by auto
    then have "?d ! j = b ! (j - ?o)" using that nth_pwrite [of j ?o b d] by simp
    also have "\<dots> = src ! j" unfolding assms(2) using that b by (subst nth_seg) auto
    finally show ?thesis .
  qed
  have out: "?d ! j = d ! j" if "\<not> (?o \<le> j \<and> j < ?o + length b)" "j < length d" for j
    using that nth_pwrite [of j ?o b d] by (cases "b = []") (auto simp: pwrite_bytes_def)
  have in_b: "j < ?o + length b" if "j < ?o + m" "j < length src" "?o \<le> j" for j using that b by linarith
  show "file_has src m ?d q" unfolding file_has_iff [OF l]
  proof (intro allI impI)
    fix j assume j: "?o \<le> j" "j < ?o + m" "j < length src"
    then have jb: "j < ?o + length b" using in_b by blast
    then have "b \<noteq> []" using j(1) by auto
    then show "j < length ?d \<and> ?d ! j = src ! j" using at [OF j(1) jb] ln(2) jb by simp
  qed
  show "file_has src m ?d k" if h: "file_has src m d k" unfolding file_has_iff [OF l]
  proof (intro allI impI)
    fix j assume j: "k * m \<le> j" "j < k * m + m" "j < length src"
    have d: "j < length d" "d ! j = src ! j" using h j unfolding file_has_iff [OF assms(1)] by auto
    show "j < length ?d \<and> ?d ! j = src ! j"
    proof (cases "?o \<le> j \<and> j < ?o + length b")
      case True
      then show ?thesis using at d(1) ln(1) by simp
    next
      case False
      then show ?thesis using out [OF False d(1)] d ln(1) by simp
    qed
  qed
qed

text \<open>One packet, a transfer, the retries.\<close>

lemma data_keeps:
  assumes "dtp_inv src m ctx s" "\<And>x. p = Some x \<Longrightarrow> 8 \<le> length x \<Longrightarrow> unat (di_offset (dl_info lib x)) = unat (di_seq (dl_info lib x)) * m \<and>
     di_data (dl_info lib x) = seg (unat (di_seq (dl_info lib x)) * m) m src"
  obtains ctx' s' where "on_download_data lib p ctx s = (Some (True, ctx'), s')" "dtp_inv src m ctx' s'"
    "dc_fp ctx' = dc_fp ctx" "dc_nof_packets ctx' = dc_nof_packets ctx" "dc_effective_mtu ctx' = dc_effective_mtu ctx"
    "map_option length (dc_recv_bitmap ctx') = map_option length (dc_recv_bitmap ctx)"
    "\<And>k. k < unat (dc_nof_packets ctx) \<Longrightarrow> has_seq ctx k \<Longrightarrow> has_seq ctx' k" "frame (\<lambda>q. q = dc_fp ctx) s s'" "quietly {} s s'"
proof (cases "\<exists>x. p = Some x \<and> 8 \<le> length x")
  case False
  then have "on_download_data lib p ctx s = (Some (True, ctx), s)" by (cases p) (auto simp: on_download_data_def)
  then show ?thesis using that assms(1) frame_refl quiet_refl by blast
next
  case True
  then obtain x where x: "p = Some x" "8 \<le> length x" by blast
  let ?i = "dl_info lib x" and ?fp = "dc_fp ctx"
  let ?c = "ctx\<lparr>dc_bytes_written := dc_bytes_written ctx + of_nat (length (di_data ?i))\<rparr>"
  note i = assms(2) [OF x]
  obtain d where d: "script s = []" "contents s ?fp = Some d" "length d \<le> length src"
    "\<forall>k < unat (dc_nof_packets ctx). has_seq ctx k \<longrightarrow> file_has src m d k" "ctx_wf ctx" "dc_error ctx = 0"
    using assms(1) by (auto simp: dtp_inv_def)
  have sk: "fseek_set s = (True, s)" using d(1) by (simp add: fseek_set_def io_simps)
  let ?d = "pwrite_bytes (unat (di_offset ?i)) (di_data ?i) d"
  obtain s' where w: "pwrite ?fp (di_data ?i) (unat (di_offset ?i)) s = (length (di_data ?i), s')" "script s' = []" "contents s' ?fp = Some ?d"
    using d(1,2) by (auto simp: pwrite_def io_simps contents_def Let_def split: option.splits)
  have fr: "frame (\<lambda>q. q = ?fp) s s'" using frame_calls(15) [of "\<lambda>q. q = ?fp" ?fp s "di_data ?i" "unat (di_offset ?i)"] w(1) by simp
  have qu: "quietly {} s s'" using quietly_calls(14) [of "{}" s ?fp "di_data ?i" "unat (di_offset ?i)"] w(1) by simp
  have wf: "ctx_wf ?c" using d(5) by (simp add: ctx_wf_def)
  have hc: "has_seq ?c k = has_seq ctx k" for k by (simp add: has_seq_def seq_is_received_def)
  obtain ctx' where c0: "mark_seq_received ?c (di_seq ?i) = Some ctx'" "ctx_wf ctx'" "dc_fp ctx' = dc_fp ?c"
    "dc_nof_packets ctx' = dc_nof_packets ?c" "dc_error ctx' = dc_error ?c" "dc_effective_mtu ctx' = dc_effective_mtu ?c"
    "map_option length (dc_recv_bitmap ctx') = map_option length (dc_recv_bitmap ?c)"
    "\<And>k. k < unat (dc_nof_packets ?c) \<Longrightarrow> has_seq ctx' k \<longleftrightarrow> has_seq ?c k \<or> k = unat (di_seq ?i)"
    by (rule mark_ok [OF wf, of "di_seq ?i"]) blast
  have c: "dc_fp ctx' = ?fp" "dc_nof_packets ctx' = dc_nof_packets ctx" "dc_error ctx' = 0" "dc_effective_mtu ctx' = dc_effective_mtu ctx"
    "map_option length (dc_recv_bitmap ctx') = map_option length (dc_recv_bitmap ctx)" using c0(3-7) d(6) by simp_all
  have hs: "has_seq ctx' k \<longleftrightarrow> has_seq ctx k \<or> k = unat (di_seq ?i)" if "k < unat (dc_nof_packets ctx)" for k
    using c0(8) [of k] that hc by simp
  have r: "on_download_data lib p ctx s = (Some (True, ctx'), s')"
    using x sk w(1) c0(1) by (auto simp: on_download_data_def)
  note pp = pwrite_piece [OF d(3), of "di_data ?i" "unat (di_seq ?i)" m]
  have "file_has src m ?d k" if "k < unat (dc_nof_packets ctx)" "has_seq ctx' k" for k
    using hs [OF that(1)] that(2) pp(2,3) d(4) that(1) i by auto
  moreover have "length ?d \<le> length src" using pp(1) i by simp
  ultimately have "dtp_inv src m ctx' s'" unfolding dtp_inv_def using c0(2) c w(2,3) by auto
  then show ?thesis using that [OF r _ c(1,2,4,5) _ fr qu] hs by blast
qed

text \<open>What a stretch of a download may do to its context and the file system.\<close>

definition dtp_step :: "bytes \<Rightarrow> nat \<Rightarrow> download_ctx_t \<Rightarrow> os \<Rightarrow> download_ctx_t \<Rightarrow> os \<Rightarrow> bool" where
  "dtp_step src m ctx s ctx' s' \<longleftrightarrow> dtp_inv src m ctx' s' \<and> dc_fp ctx' = dc_fp ctx \<and> dc_nof_packets ctx' = dc_nof_packets ctx \<and>
     dc_effective_mtu ctx' = dc_effective_mtu ctx \<and> map_option length (dc_recv_bitmap ctx') = map_option length (dc_recv_bitmap ctx) \<and>
     (\<forall>k < unat (dc_nof_packets ctx). has_seq ctx k \<longrightarrow> has_seq ctx' k) \<and> frame (\<lambda>q. q = dc_fp ctx) s s' \<and>
     quietly {} s s'"

lemma dtp_step_refl: "dtp_inv src m ctx s \<Longrightarrow> dtp_step src m ctx s ctx s"
  by (simp add: dtp_step_def frame_refl quiet_refl)

lemma dtp_step_trans: "dtp_step src m c s c' s' \<Longrightarrow> dtp_step src m c' s' c'' s'' \<Longrightarrow> dtp_step src m c s c'' s''"
  unfolding dtp_step_def using frame_trans quiet_trans by fastforce

lemma deliver_step:
  assumes "dtp_inv src m ctx s" "\<And>x. Some x \<in> set ps \<Longrightarrow> 8 \<le> length x \<Longrightarrow> unat (di_offset (dl_info lib x)) = unat (di_seq (dl_info lib x)) * m \<and>
     di_data (dl_info lib x) = seg (unat (di_seq (dl_info lib x)) * m) m src"
  shows "\<exists>ctx' s'. deliver_packets lib ps ctx s = (Some (False, ctx'), s') \<and> dtp_step src m ctx s ctx' s'"
  using assms
proof (induction ps arbitrary: ctx s)
  case Nil
  then show ?case using dtp_step_refl by simp
next
  case (Cons p ps)
  obtain c1 s1 where d: "on_download_data lib p ctx s = (Some (True, c1), s1)" "dtp_step src m ctx s c1 s1"
    by (rule data_keeps [OF Cons.prems(1), of p lib]) (use Cons.prems(2) in \<open>auto simp: dtp_step_def\<close>)
  have "dtp_inv src m c1 s1" using d(2) by (simp add: dtp_step_def)
  from Cons.IH [OF this] Cons.prems(2) obtain c2 s2 where
    "deliver_packets lib ps c1 s1 = (Some (False, c2), s2)" "dtp_step src m c1 s1 c2 s2" by auto
  then show ?case using d dtp_step_trans by fastforce
qed

lemma transfer_step:
  assumes "honest_dtp lib src m" "dtp_inv src m ctx s"
  shows "\<exists>rc ctx' e' s'. dtp_start_transfer lib req ctx s e = (Some (rc, ctx', e'), s') \<and> dtp_step src m ctx s ctx' s'"
proof -
  obtain ps rc e1 where t: "dl_transfer lib req e = (ps, rc, e1)" by (metis prod_cases3)
  have "fst (dl_transfer lib req e) = ps" using t by simp
  then have "unat (di_offset (dl_info lib x)) = unat (di_seq (dl_info lib x)) * m \<and>
     di_data (dl_info lib x) = seg (unat (di_seq (dl_info lib x)) * m) m src" if "Some x \<in> set ps" "8 \<le> length x" for x
    using assms(1) that unfolding honest_dtp_def by blast
  from deliver_step [OF assms(2) this] show ?thesis using t by (fastforce simp: dtp_start_transfer_def)
qed

lemma retry_step:
  assumes "honest_dtp lib src m" "dtp_inv src m ctx s"
  shows "\<exists>hard ctx' e' s'. dtp_retry_rounds n lib res ctx s e = (Some (hard, ctx', e'), s') \<and> dtp_step src m ctx s ctx' s'"
  using assms(2)
proof (induction n arbitrary: res ctx s e)
  case 0
  then show ?case using dtp_step_refl by simp
next
  case (Suc n)
  obtain rc c1 e1 s1 where t: "dtp_start_transfer lib (compute_missing_intervals ctx) ctx s e = (Some (rc, c1, e1), s1)"
    "dtp_step src m ctx s c1 s1" using transfer_step [OF assms(1) Suc.prems] by blast
  have "dtp_inv src m c1 s1" using t(2) by (simp add: dtp_step_def)
  from Suc.IH [OF this, of rc e1] obtain hard c2 e2 s2 where
    r: "dtp_retry_rounds n lib rc c1 s1 e1 = (Some (hard, c2, e2), s2)" "dtp_step src m c1 s1 c2 s2" by blast
  have "dtp_retry_rounds (Suc n) lib res ctx s e = (Some (0, ctx, e), s) \<or> dtp_retry_rounds (Suc n) lib res ctx s e = (Some (res, ctx, e), s) \<or>
      dtp_retry_rounds (Suc n) lib res ctx s e = (Some (hard, c2, e2), s2)"
    using t(1) r(1) by (simp add: Let_def)
  then show ?case using dtp_step_trans [OF t(2) r(2)] dtp_step_refl [OF Suc.prems] by blast
qed

lemma transfers_step:
  assumes "honest_dtp lib src m" "dtp_inv src m ctx s"
  shows "\<exists>hard ctx' e' s'. dtp_transfers lib resumed ctx s e = (Some (hard, ctx', e'), s') \<and> dtp_step src m ctx s ctx' s'"
proof (cases "dtp_fully_received ctx")
  case True
  then show ?thesis using dtp_step_refl [OF assms(2)] by (simp add: dtp_transfers_def)
next
  case False
  let ?g = "if resumed then compute_missing_intervals ctx else []"
  let ?q = "if ?g \<noteq> [] then ?g else dl_default lib"
  obtain rc c1 e1 s1 where t: "dtp_start_transfer lib ?q ctx s e = (Some (rc, c1, e1), s1)" "dtp_step src m ctx s c1 s1"
    using transfer_step [OF assms] by blast
  have "dtp_inv src m c1 s1" using t(2) by (simp add: dtp_step_def)
  from retry_step [OF assms(1) this, of DTP_MAX_RETRY_ROUNDS rc e1] obtain hard c2 e2 s2 where
    "dtp_retry_rounds DTP_MAX_RETRY_ROUNDS lib rc c1 s1 e1 = (Some (hard, c2, e2), s2)" "dtp_step src m c1 s1 c2 s2" by blast
  then show ?thesis using t dtp_step_trans [OF t(2)] False unfolding dtp_transfers_def Let_def by fastforce
qed

text \<open>A quiet load resumes and leaves the file system alone, or refuses and leaves no state file.\<close>

lemma read_all_state:
  assumes "script s = []" "script s' = []"
  shows "snd (read_all ns r ok acc s) = s" "fst (read_all ns r ok acc s') = fst (read_all ns r ok acc s)"
proof -
  have "snd (read_all ns r ok acc s) = s \<and> snd (read_all ns r ok acc s') = s' \<and> fst (read_all ns r ok acc s') = fst (read_all ns r ok acc s)"
    by (induction ns arbitrary: r ok acc) (simp_all add: fread_quiet assms)
  then show "snd (read_all ns r ok acc s) = s" "fst (read_all ns r ok acc s') = fst (read_all ns r ok acc s)" by simp_all
qed

lemma load_quietly:
  assumes "script s = []"
  obtains b where "session_state_load p sz h npk mtu buf s = ((1, b), s)" "length b = length buf"
  | b where "session_state_load p sz h npk mtu buf s = ((0, b), s)" "b = buf \<or> b = replicate (length buf) 0" "contents s p = None"
  | b where "session_state_load p sz h npk mtu buf s = ((0, b), discard p s)" "b = buf \<or> b = replicate (length buf) 0"
proof (cases "contents s p")
  case None
  then have "session_state_load p sz h npk mtu buf s = ((0, buf), s)" using assms by (simp add: session_state_load_def fopen_r_def io_simps)
  then show ?thesis using that(2) None by blast
next
  case (Some d)
  have op: "fopen_r p s = (Some d, s)" using assms Some by (simp add: fopen_r_def io_simps)
  obtain ok flds r where rd: "read_all [4, 4, 65, 4, 2, 2] d True [] s = ((ok, flds, r), s)"
    using read_all_state(1) [OF assms assms, of "[4, 4, 65, 4, 2, 2]" d True "[]"] by (metis prod.collapse)
  have un: "session_state_unlink p s = ((), discard p s)" using assms Some by (auto simp: session_state_unlink_def unlink_def io_simps contents_def)
  let ?bad = "\<not> ok \<or> svu_get32 (flds ! 0) 0 \<noteq> SESSION_STATE_FORMAT_VERSION \<or> c_string (flds ! 2) \<noteq> h \<or>
    svu_get32 (flds ! 1) 0 \<noteq> sz \<or> svu_get32 (flds ! 3) 0 \<noteq> npk \<or> get16 (flds ! 4) \<noteq> mtu"
  show ?thesis
  proof (cases ?bad)
    case True
    then have "session_state_load p sz h npk mtu buf s = ((0, buf), discard p s)"
      unfolding session_state_load_def op using rd un by (auto simp: Let_def simp del: read_all.simps)
    then show ?thesis using that(3) by blast
  next
    case False
    then have l: "session_state_load p sz h npk mtu buf s =
        (if buf = [] then ((1, buf), s) else if length (take (length buf) r) \<noteq> length buf
         then ((0, replicate (length buf) 0), discard p s) else ((1, take (length buf) r), s))"
      unfolding session_state_load_def op using rd un by (simp add: Let_def fread_quiet assms del: read_all.simps)
    consider "buf = []" | "buf \<noteq> []" "length (take (length buf) r) \<noteq> length buf" | "buf \<noteq> []" "length (take (length buf) r) = length buf" by blast
    then show ?thesis
    proof cases
      case 1
      then show ?thesis using that(1) [of buf] l by simp
    next
      case 2
      then show ?thesis using that(3) [of "replicate (length buf) 0"] l by presburger
    next
      case 3
      then show ?thesis using that(1) [of "take (length buf) r"] l by presburger
    qed
  qed
qed

lemma load_same:
  assumes "script s = []" "script s' = []" "contents s' p = contents s p"
  shows "fst (session_state_load p sz h npk mtu buf s') = fst (session_state_load p sz h npk mtu buf s)"
proof (cases "contents s p")
  case None
  then show ?thesis using assms by (simp add: session_state_load_def fopen_r_def io_simps)
next
  case (Some d)
  have op: "fopen_r p s = (Some d, s)" "fopen_r p s' = (Some d, s')" using assms Some by (simp_all add: fopen_r_def io_simps)
  let ?ns = "[4, 4, 65, 4, 2, 2]"
  obtain ok flds r where rd: "read_all ?ns d True [] s = ((ok, flds, r), s)"
    using read_all_state(1) [OF assms(1,1), of ?ns d True "[]"] by (metis prod.collapse)
  have rd': "read_all ?ns d True [] s' = ((ok, flds, r), s')"
    using read_all_state(1) [OF assms(2,2), of ?ns d True "[]"] read_all_state(2) [OF assms(1,2), of ?ns d True "[]"] rd
    by (metis fst_conv prod.collapse)
  show ?thesis unfolding session_state_load_def op
    using rd rd' assms(1,2) by (simp add: Let_def split_def fread_quiet session_state_unlink_def del: read_all.simps)
qed

text \<open>The state file, if the next pass would resume from it, tells the truth about the destination.\<close>

definition resume_ok :: "bytes \<Rightarrow> nat \<Rightarrow> u32 \<Rightarrow> string \<Rightarrow> u32 \<Rightarrow> u16 \<Rightarrow> string \<Rightarrow> string \<Rightarrow> os \<Rightarrow> bool" where
  "resume_ok src m sz h nof eff p dest s \<longleftrightarrow>
     (\<forall>b s'. session_state_load p sz h nof eff (replicate (dtp_bitmap_bytes nof) 0) s = ((1, b), s') \<longrightarrow>
       (\<forall>d. contents s dest = Some d \<longrightarrow> length d \<le> length src \<and>
         (\<forall>k < unat nof. bit (b ! (k div 8)) (k mod 8) \<longrightarrow> file_has src m d k)))"

lemma resume_ok_none:
  assumes "contents s p = None"
  shows "resume_ok src m sz h nof eff p dest s"
proof -
  have "fst (session_state_load p sz h nof eff buf s) \<noteq> (1, b)" for buf b
    using load_sound [of p sz h nof eff buf s b "snd (session_state_load p sz h nof eff buf s)"] assms by (metis option.distinct(1) prod.collapse)
  then show ?thesis unfolding resume_ok_def by (metis fst_conv)
qed

section \<open>One pass\<close>

text \<open>Sizes that fit their fields.\<close>

definition dtp_fits :: "bytes \<Rightarrow> u32 \<Rightarrow> u16 \<Rightarrow> bool" where
  "dtp_fits src sz eff \<longleftrightarrow> length src = unat sz \<and> sz \<noteq> 0 \<and> eff \<noteq> 0 \<and> unat sz + unat eff + 8 \<le> 2 ^ 32"

lemma packets_fit:
  assumes "dtp_fits src sz eff"
  shows "unat (dtp_nof_packets sz eff) = (length src + unat eff - 1) div unat eff" "0 < unat eff"
    "length src \<le> unat (dtp_nof_packets sz eff) * unat eff" "0 < dtp_bitmap_bytes (dtp_nof_packets sz eff)"
    "unat (dtp_nof_packets sz eff) \<le> 8 * dtp_bitmap_bytes (dtp_nof_packets sz eff)" "0 < length src" "dtp_nof_packets sz eff \<noteq> 0"
proof -
  have f: "length src = unat sz" "sz \<noteq> 0" "unat sz + unat eff + 8 \<le> 4294967296" "eff \<noteq> 0" using assms by (simp_all add: dtp_fits_def)
  let ?m = "unat eff" and ?n = "dtp_nof_packets sz eff"
  show m: "0 < ?m" using f(4) by (simp add: unat_gt_0)
  show l: "0 < length src" using f(1,2) by (simp add: unat_gt_0)
  have "?m < 65536" using unsigned_less [of eff] by simp
  then have u: "unat (ucast eff :: u32) = ?m" by (simp add: unsigned_ucast_eq take_bit_nat_eq_self)
  have a: "unat (sz + ucast eff) = unat sz + ?m" using f(3) u by (subst unat_add32) simp_all
  then have "unat (sz + ucast eff - 1) = unat sz + ?m - 1"
    using m unat_sub32 [of 1 "sz + ucast eff"] by (simp add: word_le_nat_alt)
  then show n: "unat ?n = (length src + ?m - 1) div ?m" using f(1,2) u by (simp add: dtp_nof_packets_def unat_div32)
  show c: "length src \<le> unat ?n * ?m"
  proof -
    have "(length src + ?m - 1) mod ?m < ?m" using m by simp
    moreover have "(length src + ?m - 1) div ?m * ?m + (length src + ?m - 1) mod ?m = length src + ?m - 1" by (rule div_mult_mod_eq)
    ultimately show ?thesis unfolding n using m l by linarith
  qed
  have np: "0 < unat ?n" using c l by (metis less_nat_zero_code mult_is_0 not_gr_zero order_less_le_trans)
  then show "?n \<noteq> 0" by auto
  have "unat ?n \<le> length src + ?m - 1" unfolding n by (rule div_le_dividend)
  then have "unat (?n + 7) = unat ?n + 7" using f(1,3) by (subst unat_add32) simp_all
  then have b: "dtp_bitmap_bytes ?n = (unat ?n + 7) div 8" by (simp add: dtp_bitmap_bytes_def unat_div32)
  show "0 < dtp_bitmap_bytes ?n" "unat ?n \<le> 8 * dtp_bitmap_bytes ?n" unfolding b using np by linarith+
qed

text \<open>A file with every packet in it is the source.\<close>

lemma all_pieces:
  assumes "length d \<le> length src" "\<forall>k < n. file_has src m d k" "length src \<le> n * m" "0 < m"
  shows "d = src"
proof -
  have p: "j < length d \<and> d ! j = src ! j" if "j < length src" for j
  proof -
    let ?k = "j div m"
    have k: "?k < n" using that assms(3,4) by (simp add: div_less_iff_less_mult)
    have "?k * m \<le> j" "j < ?k * m + m" using assms(4) div_mult_mod_eq [of j m] mod_less_divisor [OF assms(4), of j] by linarith+
    then show ?thesis using assms(2) k that unfolding file_has_iff [OF assms(1)] by blast
  qed
  then have "length src \<le> length d" using p [of "length src - 1"] by (cases "length src = 0") (simp, linarith)
  then show ?thesis using p assms(1) by (intro nth_equalityI) auto
qed

text \<open>A context made from a buffer, and when its bitmap is empty.\<close>

lemma zero_bits: "\<not> bit (replicate n (0 :: u8) ! i) j" if "i < n"
  using that by simp

lemma open_inv:
  assumes "script s = []" "can_create s dest" "unat nof \<le> 8 * length b" "resumed \<Longrightarrow> contents s dest = Some d \<and> length d \<le> length src \<and>
      (\<forall>k < unat nof. bit (b ! (k div 8)) (k mod 8) \<longrightarrow> file_has src m d k)"
    "ctx = \<lparr>dc_fp = dest, dc_bytes_written = 0, dc_expected_size = sz, dc_error = 0, dc_recv_bitmap = Some b, dc_nof_packets = nof, dc_effective_mtu = eff\<rparr>"
    "\<not> resumed \<Longrightarrow> contents s dest = Some [] \<and> b = replicate (length b) 0"
  shows "dtp_inv src m ctx s"
proof -
  have h: "has_seq ctx k \<longleftrightarrow> bit (b ! (k div 8)) (k mod 8)" if "k < unat nof" for k
    using has_seq_bit [of ctx b k] that assms(5) by simp
  have w: "ctx_wf ctx" using assms(3,5) by (simp add: ctx_wf_def)
  show ?thesis
  proof (cases resumed)
    case True
    then show ?thesis using assms(1,4,5) h w by (auto simp: dtp_inv_def)
  next
    case False
    then have b: "b = replicate (length b) 0" "contents s dest = Some []" using assms(6) by auto
    have "\<not> bit (b ! (k div 8)) (k mod 8)" if "k < unat nof" for k
    proof -
      have "k div 8 < length b" using that assms(3) by linarith
      then have "b ! (k div 8) = 0" by (subst b(1)) simp
      then show ?thesis by simp
    qed
    then show ?thesis using assms(1,5) h w b(2) by (auto simp: dtp_inv_def)
  qed
qed

text \<open>A state, and the parameters of a download, under which a pass is looked at.\<close>

definition dtp_ready :: "bytes \<Rightarrow> u32 \<Rightarrow> string \<Rightarrow> string \<Rightarrow> string \<Rightarrow> os \<Rightarrow> bool" where
  "dtp_ready src sz app p dest s \<longleftrightarrow> script s = [] \<and> session_state_path app 640 = Some p \<and> can_create s dest \<and>
     dest \<noteq> p \<and> dest \<noteq> p @ ''.tmp'' \<and> dest \<notin> state_dirs"

lemma state_path_not_dir: "session_state_path app 640 = Some p \<Longrightarrow> p \<noteq> SESSION_STATE_DIR"
  by (auto simp: session_state_path_def state_path_def Let_def SESSION_STATE_EXT_def split: if_splits)

lemma save_state_quietly: "quietly state_dirs s (snd (session_state_save p sz h nof eff b s))"
proof -
  have w: "quietly state_dirs s (snd (write_all p bs ok s))" for p bs ok s
    by (induction bs arbitrary: ok s) (auto intro!: quiet_steps quiets)
  show ?thesis unfolding session_state_save_def Let_def by (intro quiet_steps quiets w dir_ensure_quietly)
qed

text \<open>A state file stays true while it and the destination stay the same, and a saved one is true if the bitmap is.\<close>

lemma resume_ok_same:
  assumes "resume_ok src m sz h nof eff p dest s" "script s = []" "script t = []" "contents t p = contents s p" "contents t dest = contents s dest"
  shows "resume_ok src m sz h nof eff p dest t"
  using assms(1,5) load_same [OF assms(2-4)] unfolding resume_ok_def by (metis fst_conv prod.collapse)

lemma saved_true:
  assumes "session_state_save p sz h nof eff b s = (rc, t)" "script s = []" "script t = []"
    "dest \<noteq> p" "\<not> save_scratch p dest" "\<not> save_scratch p p" "resume_ok src m sz h nof eff p dest s" "length b = dtp_bitmap_bytes nof"
    "contents s dest = Some d" "length d \<le> length src" "\<forall>k < unat nof. bit (b ! (k div 8)) (k mod 8) \<longrightarrow> file_has src m d k"
  shows "resume_ok src m sz h nof eff p dest t \<and> contents t dest = contents s dest"
  using assms(1)
proof (cases rule: save_cases)
  case 1
  then show ?thesis using resume_ok_same [OF assms(7,2,3)] frame_contents [OF 1(2)] assms(5,6) by blast
next
  case (2 u k)
  have rn: "lookup t p = lookup u (p @ ''.tmp'')" "lookup t dest = lookup u dest"
    using rename_result(2,5) [OF 2(3)] assms(4,5) by (simp_all add: save_scratch_def)
  have cd: "contents t dest = contents s dest" using rn(2) frame_lookup [OF 2(2) assms(5)] by (simp add: contents_def)
  have cp: "contents t p = Some (take k (session_record sz h nof eff b))" using rn(1) 2(4) by (simp add: contents_def)
  have "b0 = b" if "session_state_load p sz h nof eff (replicate (dtp_bitmap_bytes nof) 0) t = ((1, b0), s0)" for b0 s0
    using load_prefix [OF that _ cp] assms(8) by simp
  then have "resume_ok src m sz h nof eff p dest t" unfolding resume_ok_def using assms(9-11) cd by (metis option.inject)
  then show ?thesis using cd by blast
qed

text \<open>The end of a pass: the state file is gone, or as it was, or it holds the bitmap.\<close>

lemma sidecar_truth:
  assumes "dtp_inv src m ctx s" "dc_fp ctx = dest" "dtp_ready src sz app p dest s" "dc_recv_bitmap ctx = Some b"
    "dc_nof_packets ctx = nof" "dc_effective_mtu ctx = eff" "length b = dtp_bitmap_bytes nof"
    "\<And>b0 s0. session_state_load p sz h nof eff (replicate (dtp_bitmap_bytes nof) 0) s = ((1, b0), s0) \<Longrightarrow>
       \<forall>k < unat nof. bit (b0 ! (k div 8)) (k mod 8) \<longrightarrow> has_seq ctx k"
    "s' = dtp_sidecar (Some p) sz (Some h) ctx s"
  shows "resume_ok src m sz h nof eff p dest s' \<and> contents s' dest = contents s dest \<and> dtp_ready src sz app p dest s'"
proof -
  have r: "script s = []" "session_state_path app 640 = Some p" "can_create s dest" "dest \<noteq> p" "dest \<noteq> p @ ''.tmp''" "dest \<notin> state_dirs"
    using assms(3) by (simp_all add: dtp_ready_def)
  obtain d where d: "contents s dest = Some d" "length d \<le> length src" "\<forall>k < unat nof. has_seq ctx k \<longrightarrow> file_has src m d k"
    using assms(1,2,5) by (auto simp: dtp_inv_def)
  have ok: "resume_ok src m sz h nof eff p dest s" unfolding resume_ok_def using assms(8) d by (metis option.inject)
  have rdy: "dtp_ready src sz app p dest t" if "quietly state_dirs s t" for t
    using that r quiet_create [OF that r(3)] by (auto simp: dtp_ready_def quietly_def)
  let ?un = "snd (session_state_unlink p s)" and ?sv = "snd (session_state_save p sz h nof eff b s)"
  consider "s' = s" | "s' = ?un" | "s' = ?sv"
    using assms(4-6,9) by (auto simp: dtp_sidecar_def split: if_splits)
  then show ?thesis
  proof cases
    case 1
    then show ?thesis using ok assms(3) by simp
  next
    case 2
    have "?un = (if lookup s p = None then s else discard p s)"
      using r(1) by (simp add: session_state_unlink_def unlink_def io_simps)
    then have c: "contents ?un p = None" "contents ?un dest = contents s dest" using r(4) by (auto simp: contents_def)
    have "quietly state_dirs s ?un" unfolding session_state_unlink_def Let_def by (intro quiet_steps quiets)
    then show ?thesis using 2 resume_ok_none [OF c(1)] c(2) rdy by simp
  next
    case 3
    obtain rc t where sv: "session_state_save p sz h nof eff b s = (rc, t)" by force
    have q: "quietly state_dirs s t" using save_state_quietly [of s p sz h nof eff b] sv by simp
    have "\<not> save_scratch p dest" "\<not> save_scratch p p"
      using r(5,6) state_path_not_dir [OF r(2)] by (auto simp: save_scratch_def state_dirs_def)
    note saved = saved_true [OF sv r(1) _ r(4) this ok assms(7) d(1,2)]
    have "script t = []" "\<forall>k < unat nof. bit (b ! (k div 8)) (k mod 8) \<longrightarrow> file_has src m d k"
      using q r(1) d(3) has_seq_bit [OF assms(4)] assms(5) by (simp_all add: quietly_def)
    from saved [OF this] show ?thesis using 3 sv rdy [OF q] by simp
  qed
qed

lemma load_none: "contents s p = None \<Longrightarrow> session_state_load p sz h nof eff buf s \<noteq> ((1, b), s')"
  using load_sound [of p sz h nof eff buf s b s'] by auto

text \<open>Loading the state file and opening the destination: what the transfer starts from.\<close>

definition dtp_opened :: "bytes \<Rightarrow> nat \<Rightarrow> u32 \<Rightarrow> string \<Rightarrow> u32 \<Rightarrow> u16 \<Rightarrow> string \<Rightarrow> string \<Rightarrow> string \<Rightarrow> bytes \<Rightarrow> download_ctx_t \<Rightarrow> os \<Rightarrow> bool" where
  "dtp_opened src m sz h nof eff app p dest b ctx s \<longleftrightarrow>
     ctx = \<lparr>dc_fp = dest, dc_bytes_written = 0, dc_expected_size = sz, dc_error = 0, dc_recv_bitmap = Some b, dc_nof_packets = nof,
            dc_effective_mtu = eff\<rparr> \<and> dtp_inv src m ctx s \<and> dtp_ready src sz app p dest s \<and> length b = dtp_bitmap_bytes nof \<and>
     (\<forall>b0 s0. session_state_load p sz h nof eff (replicate (dtp_bitmap_bytes nof) 0) s = ((1, b0), s0) \<longrightarrow>
        (\<forall>k < unat nof. bit (b0 ! (k div 8)) (k mod 8) \<longrightarrow> has_seq ctx k))"

lemma fresh_open:
  assumes "dtp_ready src sz app p dest s" "contents s p = None" "unat nof \<le> 8 * dtp_bitmap_bytes nof"
  obtains ctx s' where "fopen_w dest s = (True, s')" "dtp_opened src m sz h nof eff app p dest (replicate (dtp_bitmap_bytes nof) 0) ctx s'"
proof -
  have r: "script s = []" "can_create s dest" "dest \<noteq> p" using assms(1) by (simp_all add: dtp_ready_def)
  let ?b = "replicate (dtp_bitmap_bytes nof) (0 :: u8)"
  let ?ctx = "\<lparr>dc_fp = dest, dc_bytes_written = 0, dc_expected_size = sz, dc_error = 0, dc_recv_bitmap = Some ?b, dc_nof_packets = nof,
    dc_effective_mtu = eff\<rparr>"
  obtain s' where w: "fopen_w dest s = (True, s')" "contents s' dest = Some []" "contents s' p = None" "script s' = []"
    "can_create s' dest" using r assms(2) by (auto simp: fopen_w_def io_simps)
  have "dtp_inv src m ?ctx s'" by (rule open_inv [of s' dest nof ?b False _ src m ?ctx]) (use w assms(3) in simp_all)
  moreover have "dtp_ready src sz app p dest s'" using assms(1) w(4,5) by (simp add: dtp_ready_def)
  ultimately have "dtp_opened src m sz h nof eff app p dest ?b ?ctx s'" using load_none [OF w(3)] by (simp add: dtp_opened_def)
  then show ?thesis using that w(1) by blast
qed

lemma load_and_open:
  assumes "dtp_ready src sz app p dest s" "unat nof \<le> 8 * dtp_bitmap_bytes nof" "resume_ok src m sz h nof eff p dest s"
  obtains loaded b1 s1 resumed b ctx s2 where
    "session_state_load p sz h nof eff (replicate (dtp_bitmap_bytes nof) 0) s = ((loaded, b1), s1)"
    "dtp_open dest (Some p) (loaded = 1) (Some b1) s1 = ((True, resumed, Some b), s2)"
    "dtp_opened src m sz h nof eff app p dest b ctx s2"
proof -
  have r: "script s = []" "can_create s dest" "dest \<noteq> p" using assms(1) by (simp_all add: dtp_ready_def)
  let ?z = "replicate (dtp_bitmap_bytes nof) (0 :: u8)"
  have dr: "dtp_ready src sz app p dest (discard p s)" "contents (discard p s) p = None" using assms(1) by (simp_all add: dtp_ready_def)
  from r(1) show ?thesis
  proof (cases rule: load_quietly [where p = p and sz = sz and h = h and npk = nof and mtu = eff and buf = ?z])
    case (1 b)
    show ?thesis
    proof (cases "contents s dest")
      case None
      then have "lookup s dest = None" by (simp add: contents_def)
      then have fu: "fopen_update dest s = (False, s)" using r(1) by (simp add: fopen_update_def open_rw_def io_simps)
      have "contents s p \<noteq> None" using load_sound [OF 1(1)] by auto
      then have "session_state_unlink p s = ((), discard p s)" using r(1) by (auto simp: session_state_unlink_def unlink_def io_simps contents_def)
      then have o: "dtp_open dest (Some p) True (Some b) s = (case fopen_w dest (discard p s) of (ok, s) \<Rightarrow> ((ok, False, Some ?z), s))"
        using fu 1(2) by (simp add: dtp_open_def)
      obtain ctx s' where "fopen_w dest (discard p s) = (True, s')" "dtp_opened src m sz h nof eff app p dest ?z ctx s'"
        by (rule fresh_open [OF dr assms(2)])
      then show ?thesis using that [OF 1(1), of False ?z s'] o by simp
    next
      case (Some d)
      then have fu: "fopen_update dest s = (True, s)" using r(1) by (auto simp: fopen_update_def open_rw_def io_simps contents_def)
      let ?ctx = "\<lparr>dc_fp = dest, dc_bytes_written = 0, dc_expected_size = sz, dc_error = 0, dc_recv_bitmap = Some b, dc_nof_packets = nof,
        dc_effective_mtu = eff\<rparr>"
      have t: "length d \<le> length src" "\<forall>k < unat nof. bit (b ! (k div 8)) (k mod 8) \<longrightarrow> file_has src m d k"
        using assms(3) 1(1) Some unfolding resume_ok_def by blast+
      have "dtp_inv src m ?ctx s" by (rule open_inv [of s dest nof b True d src m ?ctx]) (use r 1(2) assms(2) Some t in simp_all)
      moreover have "has_seq ?ctx k" if "k < unat nof" "bit (b ! (k div 8)) (k mod 8)" for k
        using has_seq_bit [of ?ctx b k] that by simp
      ultimately have "dtp_opened src m sz h nof eff app p dest b ?ctx s" using assms(1) 1 by (simp add: dtp_opened_def)
      then show ?thesis using that [OF 1(1), of True b s] fu by (simp add: dtp_open_def)
    qed
  next
    case (2 b)
    then have "b = ?z" by auto
    obtain ctx s' where "fopen_w dest s = (True, s')" "dtp_opened src m sz h nof eff app p dest ?z ctx s'"
      by (rule fresh_open [OF assms(1) 2(3) assms(2)])
    then show ?thesis using that [OF 2(1), of False ?z s'] \<open>b = ?z\<close> by (simp add: dtp_open_def)
  next
    case (3 b)
    then have "b = ?z" by auto
    obtain ctx s' where "fopen_w dest (discard p s) = (True, s')" "dtp_opened src m sz h nof eff app p dest ?z ctx s'"
      by (rule fresh_open [OF dr assms(2)])
    then show ?thesis using that [OF 3(1), of False ?z s'] \<open>b = ?z\<close> by (simp add: dtp_open_def)
  qed
qed

lemma opened_resume:
  assumes "dtp_opened src m sz h nof eff app p dest b ctx s"
  shows "resume_ok src m sz h nof eff p dest s"
proof -
  note o = assms [unfolded dtp_opened_def]
  have "dc_fp ctx = dest" "dc_nof_packets ctx = nof" using o by auto
  then obtain d where "contents s dest = Some d" "length d \<le> length src" "\<forall>k < unat nof. has_seq ctx k \<longrightarrow> file_has src m d k"
    using o by (auto simp: dtp_inv_def)
  then show ?thesis using o unfolding resume_ok_def by (metis option.inject)
qed

lemma transfers_sidecar:
  assumes "dtp_opened src m sz h nof eff app p dest b ctx s" "dtp_step src m ctx s ctx' t" "s' = dtp_sidecar (Some p) sz (Some h) ctx' t"
  shows "resume_ok src m sz h nof eff p dest s' \<and> contents s' dest = contents t dest \<and> dtp_ready src sz app p dest s'"
proof -
  note o = assms(1) [unfolded dtp_opened_def]
  have f: "dc_fp ctx = dest" "dc_nof_packets ctx = nof" "dc_effective_mtu ctx = eff" "dc_recv_bitmap ctx = Some b" using o by auto
  have r: "script s = []" "session_state_path app 640 = Some p" "can_create s dest" "dest \<noteq> p" "dest \<noteq> p @ ''.tmp''" "dest \<notin> state_dirs"
    using o by (simp_all add: dtp_ready_def)
  note st = assms(2) [unfolded dtp_step_def f]
  obtain b' where b': "dc_recv_bitmap ctx' = Some b'" "length b' = dtp_bitmap_bytes nof" using st o by auto
  have fr: "frame (\<lambda>q. q = dest) s t" using st by simp
  have q: "quietly {} s t" "dtp_inv src m ctx' t" using st by simp_all
  have ts: "script t = []" using q(2) by (simp add: dtp_inv_def)
  have cp: "contents t p = contents s p" using frame_contents [OF fr] r(4) by simp
  have rt: "dtp_ready src sz app p dest t" using r ts quiet_create [OF q(1) r(3)] by (simp add: dtp_ready_def)
  have "\<forall>k < unat nof. bit (b0 ! (k div 8)) (k mod 8) \<longrightarrow> has_seq ctx' k"
    if "session_state_load p sz h nof eff (replicate (dtp_bitmap_bytes nof) 0) t = ((1, b0), s0)" for b0 s0
  proof -
    have "fst (session_state_load p sz h nof eff (replicate (dtp_bitmap_bytes nof) 0) s) = (1, b0)"
      using load_same [OF r(1) ts cp, of sz h nof eff "replicate (dtp_bitmap_bytes nof) 0"] that by simp
    then have "\<forall>k < unat nof. bit (b0 ! (k div 8)) (k mod 8) \<longrightarrow> has_seq ctx k" using o by (metis prod.collapse)
    then show ?thesis using st by blast
  qed
  from sidecar_truth [OF q(2) _ rt b'(1) _ _ b'(2) this assms(3)] st show ?thesis by simp
qed

text \<open>A download whose calls do not fail, from what it loads, opens and transfers.\<close>

lemma download_run:
  assumes "session_state_path app 640 = Some p" "script s = []" "0 < sz" "eff = dtp_eff_mtu (if mtu = 0 then DTP_DEFAULT_MTU else mtu)"
    "nof = dtp_nof_packets sz eff" "0 < dtp_bitmap_bytes nof"
    "session_state_load p sz h nof eff (replicate (dtp_bitmap_bytes nof) 0) s = ((loaded, b1), s1)"
    "dtp_open dest (Some p) (loaded = 1) (Some b1) s1 = ((True, resumed, Some b), s2)" "script s2 = []"
    "ctx = \<lparr>dc_fp = dest, dc_bytes_written = 0, dc_expected_size = sz, dc_error = 0, dc_recv_bitmap = Some b, dc_nof_packets = nof,
      dc_effective_mtu = eff\<rparr>"
    "dtp_transfers lib resumed ctx s2 e = (Some (hard, ctx', e'), t)" "script t = []" "dc_error ctx' = 0"
  obtains cnt prep where "dtp_download_file lib node pid (Some dest) sz (Some h) (Some app) mtu thr tmo now counter s e =
      (if \<not> prep then (Some (-1, cnt, e), s2)
       else (Some (if hard \<noteq> 0 \<or> \<not> dtp_fully_received ctx' then -1 else 0, cnt, e'), dtp_sidecar (Some p) sz (Some h) ctx' t))"
    "(\<forall>a b c d e f. dl_prepare lib a b c d e f) \<longrightarrow> prep"
proof -
  have cl: "fclose_w dest x = (True, x)" "fflush dest x = (True, x)" if "script x = []" for x
    using that by (simp_all add: fclose_w_def fflush_def io_simps)
  obtain sid cnt where id: "dtp_session_id (Some app) (Some h) now counter = (sid, cnt)" by force
  let ?prep = "dl_prepare lib node sid (if thr = 0 then DTP_DEFAULT_THROUGHPUT else thr) (if tmo = 0 then DTP_DEFAULT_TIMEOUT_S else tmo) pid
    (if mtu = 0 then DTP_DEFAULT_MTU else mtu)"
  have "dtp_download_file lib node pid (Some dest) sz (Some h) (Some app) mtu thr tmo now counter s e =
      (if \<not> ?prep then (Some (-1, cnt, e), s2)
       else (Some (if hard \<noteq> 0 \<or> \<not> dtp_fully_received ctx' then -1 else 0, cnt, e'), dtp_sidecar (Some p) sz (Some h) ctx' t))"
    using assms(1-3,6-9,11-13) id cl by (simp add: dtp_download_file_def Let_def assms(4,5,10) [symmetric] malloc_quiet)
  then show ?thesis using that by blast
qed

lemma dtp_pass:
  assumes "dtp_ready src sz app p dest s" "eff = dtp_eff_mtu (if mtu = 0 then DTP_DEFAULT_MTU else mtu)" "dtp_fits src sz eff"
    "honest_dtp lib src (unat eff)" "nof = dtp_nof_packets sz eff" "resume_ok src (unat eff) sz h nof eff p dest s"
  shows "\<exists>rc counter' e' s'. dtp_download_file lib node pid (Some dest) sz (Some h) (Some app) mtu thr tmo now counter s e =
      (Some (rc, counter', e'), s') \<and> dtp_ready src sz app p dest s' \<and> resume_ok src (unat eff) sz h nof eff p dest s' \<and>
      (rc = 0 \<longrightarrow> contents s' dest = Some src)"
proof -
  let ?n = "dtp_bitmap_bytes nof"
  note pf = packets_fit [OF assms(3), folded assms(5)]
  have r: "script s = []" "session_state_path app 640 = Some p" using assms(1) by (simp_all add: dtp_ready_def)
  have sz: "0 < sz" using assms(3) by (simp add: dtp_fits_def word_gt_0)
  obtain loaded b1 s1 resumed b ctx s2 where lo: "session_state_load p sz h nof eff (replicate ?n 0) s = ((loaded, b1), s1)"
    "dtp_open dest (Some p) (loaded = 1) (Some b1) s1 = ((True, resumed, Some b), s2)"
    "dtp_opened src (unat eff) sz h nof eff app p dest b ctx s2"
    by (rule load_and_open [OF assms(1) pf(5) assms(6)])
  note o = lo(3) [unfolded dtp_opened_def]
  have ctx: "ctx = \<lparr>dc_fp = dest, dc_bytes_written = 0, dc_expected_size = sz, dc_error = 0, dc_recv_bitmap = Some b, dc_nof_packets = nof,
      dc_effective_mtu = eff\<rparr>" and inv: "dtp_inv src (unat eff) ctx s2" using o by blast+
  obtain hard ctx' e' t where tr: "dtp_transfers lib resumed ctx s2 e = (Some (hard, ctx', e'), t)" "dtp_step src (unat eff) ctx s2 ctx' t"
    using transfers_step [OF assms(4) inv] by blast
  have it: "dtp_inv src (unat eff) ctx' t" "dc_fp ctx' = dest" "dc_nof_packets ctx' = nof" using tr(2) ctx by (simp_all add: dtp_step_def)
  have t: "script t = []" "dc_error ctx' = 0" using it(1) by (simp_all add: dtp_inv_def)
  let ?s' = "dtp_sidecar (Some p) sz (Some h) ctx' t"
  have s2: "script s2 = []" using inv by (simp add: dtp_inv_def)
  obtain cnt prep where run: "dtp_download_file lib node pid (Some dest) sz (Some h) (Some app) mtu thr tmo now counter s e =
      (if \<not> prep then (Some (-1, cnt, e), s2)
       else (Some (if hard \<noteq> 0 \<or> \<not> dtp_fully_received ctx' then -1 else 0, cnt, e'), ?s'))"
    by (rule download_run [OF r(2,1) sz assms(2,5) pf(4) lo(1,2) s2 ctx tr(1) t])
  show ?thesis
  proof (cases prep)
    case False
    have "resume_ok src (unat eff) sz h nof eff p dest s2" by (rule opened_resume [OF lo(3)])
    then show ?thesis using run False o by auto
  next
    case True
    note fin = transfers_sidecar [OF lo(3) tr(2) refl]
    have "contents t dest = Some src" if "dtp_fully_received ctx'"
    proof -
      have "\<forall>k < unat nof. has_seq ctx' k" using that count_full_iff [of ctx'] pf(7) it(3) by (auto simp: dtp_fully_received_def split: if_splits)
      then obtain d where d: "contents t dest = Some d" "length d \<le> length src" "\<forall>k < unat nof. file_has src (unat eff) d k"
        using it by (auto simp: dtp_inv_def)
      then show ?thesis using all_pieces [OF d(2,3) pf(3,2)] by simp
    qed
    then show ?thesis using run True fin by auto
  qed
qed

section \<open>Properties\<close>

text \<open>
  What a retry asks for. \<open>compute_missing_intervals\<close> gives the first eight of the maximal runs
  of packet numbers that are not in the bitmap, in increasing order and inclusive at both ends: every
  number asked for is missing, and with fewer than eight intervals every missing one is asked for.
\<close>

theorem dtp_missing_intervals:
  "\<exists>L. is_runs (\<lambda>k. \<not> seq_is_received ctx (of_nat k)) 0 (unat (dc_nof_packets ctx)) L \<and>
    map (\<lambda>(a, b). (unat a, unat b + 1)) (compute_missing_intervals ctx) = take 8 L"
  using missing_from_runs [of 0 ctx 8] by (simp add: compute_missing_intervals_def has_seq_def)

text \<open>A pass: one call of \<open>dtp_download_file\<close> against an honest server, whatever the link loses.\<close>

inductive dtp_pass_step :: "bytes \<Rightarrow> u32 \<Rightarrow> string \<Rightarrow> string \<Rightarrow> string \<Rightarrow> u16 \<Rightarrow> os \<Rightarrow> os \<Rightarrow> bool"
  for src sz h app dest mtu where
  pass: "honest_dtp (lib :: unit dtp_lib) src (unat (dtp_eff_mtu (if mtu = 0 then DTP_DEFAULT_MTU else mtu))) \<Longrightarrow>
    dtp_download_file lib node pid (Some dest) sz (Some h) (Some app) mtu thr tmo now counter s e = (Some (rc, counter', e'), s') \<Longrightarrow>
    dtp_pass_step src sz h app dest mtu s s'"

lemma passes_keep:
  assumes "(dtp_pass_step src sz h app dest mtu)\<^sup>*\<^sup>* s s'" "dtp_ready src sz app p dest s"
    "eff = dtp_eff_mtu (if mtu = 0 then DTP_DEFAULT_MTU else mtu)" "dtp_fits src sz eff"
    "resume_ok src (unat eff) sz h (dtp_nof_packets sz eff) eff p dest s"
  shows "dtp_ready src sz app p dest s' \<and> resume_ok src (unat eff) sz h (dtp_nof_packets sz eff) eff p dest s'"
  using assms(1)
proof (induction rule: rtranclp_induct)
  case base
  then show ?case using assms(2,5) by simp
next
  case (step s1 s2)
  from step(2) show ?case
  proof cases
    case (pass lib node pid thr tmo now counter e rc counter' e')
    have "honest_dtp lib src (unat eff)" using pass(1) assms(3) by simp
    from dtp_pass [OF _ assms(3,4) this refl, of app p dest s1 h node pid thr tmo now counter e] pass(2) step.IH
    show ?thesis by auto
  qed
qed

text \<open>
  C20: Downloads resumed over several passes. With no failing call, and starting without a state file, after
  any number of passes cut short by any losses, a pass that returns 0 leaves exactly the source at the
  destination: packets written by earlier passes are trusted only as far as the state file tells the truth.
  (The results of \<open>fflush\<close> and \<open>fclose\<close> are not looked at, so that a failing one can leave less.)
\<close>

theorem dtp_cross_pass_sound:
  assumes "script s0 = []" "session_state_path app 640 = Some p" "can_create s0 dest" "dest \<notin> {p, p @ ''.tmp''} \<union> state_dirs"
    "contents s0 p = None" "eff = dtp_eff_mtu (if mtu = 0 then DTP_DEFAULT_MTU else mtu)" "dtp_fits src sz eff"
    "(dtp_pass_step src sz h app dest mtu)\<^sup>*\<^sup>* s0 s" "honest_dtp lib src (unat eff)"
    "dtp_download_file lib node pid (Some dest) sz (Some h) (Some app) mtu thr tmo now counter s e = (Some (0, counter', e'), s')"
  shows "contents s' dest = Some src"
proof -
  have "dtp_ready src sz app p dest s0" using assms(1-4) by (simp add: dtp_ready_def)
  then have "dtp_ready src sz app p dest s" "resume_ok src (unat eff) sz h (dtp_nof_packets sz eff) eff p dest s"
    using passes_keep [OF assms(8) _ assms(6,7) resume_ok_none [OF assms(5)]] by simp_all
  from dtp_pass [OF this(1) assms(6,7,9) refl this(2), of node pid thr tmo now counter e] assms(10) show ?thesis by simp
qed

section \<open>Witnesses\<close>

text \<open>
  A file of two packets, and a server that always loses one of them: the first pass gets packet 0, the
  second, against a server that now loses packet 0, gets packet 1.
\<close>

definition a_lib :: "nat \<Rightarrow> unit dtp_lib" where
  "a_lib k = \<lparr>dl_prepare = (\<lambda>_ _ _ _ _ _. True), dl_default = [(0, 0xFFFFFFFF)],
     dl_info = (\<lambda>_. \<lparr>di_offset = of_nat k, di_seq = of_nat k, di_data = [[7, 8] ! k]\<rparr>),
     dl_transfer = (\<lambda>_ e. ([Some (replicate 9 0)], (\<lambda>_. 0), e)), dl_ok = 0, dl_cancelled = 1\<rparr>"

definition a_ctx :: "u32 \<Rightarrow> u8 \<Rightarrow> download_ctx_t" where
  "a_ctx w b = \<lparr>dc_fp = ''/tmp/f'', dc_bytes_written = w, dc_expected_size = 2, dc_error = 0, dc_recv_bitmap = Some [b], dc_nof_packets = 2,
     dc_effective_mtu = 1\<rparr>"

lemma a_ctx_facts:
  "dtp_eff_mtu 9 = 1" "dtp_nof_packets 2 1 = 2" "dtp_bitmap_bytes 2 = 1" "\<not> dtp_fully_received (a_ctx w 0)" "\<not> dtp_fully_received (a_ctx w 1)"
  "dtp_fully_received (a_ctx w 3)" "count_received_packets (a_ctx w 1) = 1" "count_received_packets (a_ctx w 3) = 2"
  "compute_missing_intervals (a_ctx w 1) = [(1, 1)]"
  "mark_seq_received (a_ctx w 0) 0 = Some (a_ctx w 1)" "mark_seq_received (a_ctx w 1) 0 = Some (a_ctx w 1)"
  "mark_seq_received (a_ctx w 1) 1 = Some (a_ctx w 3)"
proof -
  have r: "seq_is_received (a_ctx w 0) k \<longleftrightarrow> 2 \<le> k" "seq_is_received (a_ctx w 1) k \<longleftrightarrow> k \<noteq> 1" "seq_is_received (a_ctx w 3) k" for k
  proof -
    have "k = 0 \<or> k = 1 \<or> 2 \<le> k"
    proof (cases "2 \<le> k")
      case False
      then have "unat k = 0 \<or> unat k = 1" by (simp add: word_le_nat_alt) linarith
      then show ?thesis by (auto simp: word_unat_eq_iff)
    qed simp
    then show "seq_is_received (a_ctx w 0) k \<longleftrightarrow> 2 \<le> k" "seq_is_received (a_ctx w 1) k \<longleftrightarrow> k \<noteq> 1" "seq_is_received (a_ctx w 3) k"
      by (auto simp: seq_is_received_def a_ctx_def word_le_nat_alt)
  qed
  have le: "\<not> (2 :: u32) \<le> 1" by (simp add: word_le_nat_alt)
  show "dtp_eff_mtu 9 = 1" "dtp_nof_packets 2 1 = 2" "dtp_bitmap_bytes 2 = 1" by code_simp+
  show "mark_seq_received (a_ctx w 0) 0 = Some (a_ctx w 1)" "mark_seq_received (a_ctx w 1) 0 = Some (a_ctx w 1)"
    "mark_seq_received (a_ctx w 1) 1 = Some (a_ctx w 3)" using le by (simp_all add: mark_seq_received_def a_ctx_def)
  have n: "dc_nof_packets (a_ctx w b) = 2" "dc_recv_bitmap (a_ctx w b) = Some [b]" for b by (simp_all add: a_ctx_def)
  show c: "count_received_packets (a_ctx w 1) = 1" "count_received_packets (a_ctx w 3) = 2"
    by (simp_all add: count_received_packets_def n r upt_rec)
  have "count_received_packets (a_ctx w 0) = 0" using le by (simp add: count_received_packets_def n r upt_rec)
  then show "\<not> dtp_fully_received (a_ctx w 0)" "\<not> dtp_fully_received (a_ctx w 1)" "dtp_fully_received (a_ctx w 3)"
    using c by (simp_all add: dtp_fully_received_def n word_le_nat_alt)
  have "skip_seqs (a_ctx w 1) True 0 = 1" "skip_seqs (a_ctx w 1) False 1 = 2"
    by (simp_all add: skip_seqs.simps n r)
  then show "compute_missing_intervals (a_ctx w 1) = [(1, 1)]" using le by (simp add: compute_missing_intervals_def numeral_eq_Suc n)
qed

lemma a_lib_honest: "k < 2 \<Longrightarrow> honest_dtp (a_lib k) [7, 8] 1"
  by (auto simp: honest_dtp_def a_lib_def seg_def less_2_cases_iff)

lemma a_transfer:
  assumes "script s = []" "contents s ''/tmp/f'' = Some d" "k < 2" "mark_seq_received (a_ctx (w + 1) b) (of_nat k) = Some (a_ctx (w + 1) b')"
  obtains s' where "\<And>req. dtp_start_transfer (a_lib k) req (a_ctx w b) s () = (Some (0, a_ctx (w + 1) b', ()), s')" "script s' = []"
    "contents s' ''/tmp/f'' = Some (pwrite_bytes k [[7, 8] ! k] d)"
proof -
  obtain s' where w: "pwrite ''/tmp/f'' [[7, 8] ! k] k s = (1, s')" "script s' = []" "contents s' ''/tmp/f'' = Some (pwrite_bytes k [[7, 8] ! k] d)"
    using assms(1,2) by (auto simp: pwrite_def io_simps contents_def Let_def)
  have "unat (of_nat k :: u32) = k" using assms(3) by (intro unat_of_nat32) simp
  then have "on_download_data (a_lib k) (Some (replicate 9 0)) (a_ctx w b) s = (Some (True, a_ctx (w + 1) b'), s')"
    using assms(1,4) w(1) by (simp add: on_download_data_def a_lib_def fseek_set_def io_simps a_ctx_def)
  then show ?thesis using that [of s'] w(2,3) by (simp add: dtp_start_transfer_def a_lib_def)
qed

lemma a_lib_ok: "dl_ok (a_lib k) = 0"
  by (simp add: a_lib_def)

lemma a_retries:
  assumes "script s = []" "contents s ''/tmp/f'' = Some [7]"
  shows "\<exists>s'. dtp_retry_rounds n (a_lib 0) 0 (a_ctx w 1) s () = (Some (0, a_ctx (w + of_nat n) 1, ()), s') \<and> script s' = [] \<and> contents s' ''/tmp/f'' = Some [7]"
  using assms
proof (induction n arbitrary: w s)
  case 0
  then show ?case by simp
next
  case (Suc n)
  obtain s1 where t: "\<And>req. dtp_start_transfer (a_lib 0) req (a_ctx w 1) s () = (Some (0, a_ctx (w + 1) 1, ()), s1)" "script s1 = []"
    "contents s1 ''/tmp/f'' = Some [7]"
    by (rule a_transfer [OF Suc.prems, of 0 w 1 1]) (simp_all add: a_ctx_facts pwrite_bytes_def)
  have c: "dc_recv_bitmap (a_ctx w 1) = Some [1]" "dc_error (a_ctx w 1) = 0" "dc_nof_packets (a_ctx w 1) = 2" by (simp_all add: a_ctx_def)
  have "dtp_retry_rounds (Suc n) (a_lib 0) 0 (a_ctx w 1) s () = dtp_retry_rounds n (a_lib 0) 0 (a_ctx (w + 1) 1) s1 ()"
    using t(1) c a_ctx_facts(7,9) a_lib_ok by (simp add: word_le_nat_alt)
  with Suc.IH [OF t(2,3), of "w + 1"] show ?case by (simp add: add.assoc)
qed

lemma a_first_transfers:
  assumes "script s = []" "contents s ''/tmp/f'' = Some []"
  obtains w t where "dtp_transfers (a_lib 0) False (a_ctx 0 0) s () = (Some (0, a_ctx w 1, ()), t)" "script t = []" "contents t ''/tmp/f'' = Some [7]"
proof -
  obtain s1 where t: "\<And>req. dtp_start_transfer (a_lib 0) req (a_ctx 0 0) s () = (Some (0, a_ctx (0 + 1) 1, ()), s1)" "script s1 = []"
    "contents s1 ''/tmp/f'' = Some [7]"
    by (rule a_transfer [OF assms, of 0 0 0 1]) (simp_all add: a_ctx_facts pwrite_bytes_def)
  then show ?thesis using a_retries [OF t(2,3), of DTP_MAX_RETRY_ROUNDS "0 + 1"] a_ctx_facts(4) that by (auto simp: dtp_transfers_def)
qed

text \<open>The first pass, which fails and leaves packet 0 and a state file that says so.\<close>

lemma a_first_pass:
  fixes p :: string
  defines "p \<equiv> ''/var/lib/satdeploy/state/app.dtpstate''"
  obtains s where "dtp_pass_step [7, 8] 2 ''00'' ''app'' ''/tmp/f'' 9 (tmp_os []) s" "script s = []" "contents s ''/tmp/f'' = Some [7]"
    "contents s p = Some (session_record 2 ''00'' 2 1 [1])"
proof -
  let ?f = "''/tmp/f''" and ?init = "tmp_os []"
  have p: "session_state_path ''app'' 640 = Some p" "session_state_path ''app'' 636 = Some p"
    by (simp_all add: p_def session_state_path_def state_path_def app_name_is_safe_def SESSION_STATE_DIR_def SESSION_STATE_EXT_def)
  have ready: "dtp_ready [7, 8] 2 ''app'' p ?f ?init"
    using tmp_os_create [of "[]"] p(1) by (simp add: dtp_ready_def) (simp add: p_def state_dirs_def SESSION_STATE_DIR_def)
  have none: "contents ?init p = None" by (simp add: tmp_os_def contents_def lookup_def)
  have l: "session_state_load p 2 ''00'' 2 1 (replicate (dtp_bitmap_bytes 2) 0) ?init = ((0, [0]), ?init)"
    using none by (simp add: session_state_load_def fopen_r_def io_simps tmp_os_create a_ctx_facts)
  have bm: "unat (2 :: u32) \<le> 8 * dtp_bitmap_bytes 2" by (simp add: a_ctx_facts)
  obtain ctx s1 where o: "fopen_w ?f ?init = (True, s1)" "dtp_opened [7, 8] 1 2 ''00'' 2 1 ''app'' p ?f [0] ctx s1"
    by (rule fresh_open [OF ready none bm, of 1 "''00''" 1]) (simp add: a_ctx_facts)
  have ctx: "ctx = a_ctx 0 0" and inv: "dtp_inv [7, 8] 1 ctx s1" using o(2) unfolding dtp_opened_def a_ctx_def by blast+
  have s1: "script s1 = []" "contents s1 ?f = Some []" "dirs s1 = dirs ?init"
    using o(1) tmp_os_create [of "[]"] by (auto simp: fopen_w_def io_simps)
  obtain w t where tr: "dtp_transfers (a_lib 0) False ctx s1 () = (Some (0, a_ctx w 1, ()), t)" "script t = []" "contents t ?f = Some [7]"
    unfolding ctx by (rule a_first_transfers [OF s1(1,2)])
  have st: "dtp_step [7, 8] 1 ctx s1 (a_ctx w 1) t"
    using transfers_step [OF a_lib_honest inv, of 0 False "()"] tr(1) by auto
  have e: "dc_error (a_ctx w 1) = 0" by (simp add: a_ctx_def)
  have op: "dtp_open ?f (Some p) ((0 :: int) = 1) (Some [0]) ?init = ((True, False, Some [0]), s1)" using o(1) by (simp add: dtp_open_def)
  have two: "(0 :: u32) < 2" by (simp add: word_less_nat_alt)
  have m: "(1 :: u16) = dtp_eff_mtu (if 9 = (0 :: u16) then DTP_DEFAULT_MTU else 9)" "(2 :: u32) = dtp_nof_packets 2 1" "0 < dtp_bitmap_bytes 2"
    by (simp_all add: a_ctx_facts)
  let ?s = "dtp_sidecar (Some p) 2 (Some ''00'') (a_ctx w 1) t"
  obtain cnt prep where run: "dtp_download_file (a_lib 0) 1 0 (Some ?f) 2 (Some ''00'') (Some ''app'') 9 0 0 0 0 ?init () =
      (if \<not> prep then (Some (-1, cnt, ()), s1) else (Some (if (0 :: int) \<noteq> 0 \<or> \<not> dtp_fully_received (a_ctx w 1) then -1 else 0, cnt, ()), ?s))"
      "(\<forall>a b c d e f. dl_prepare (a_lib 0) a b c d e f) \<longrightarrow> prep"
    by (rule download_run [OF p(1) tmp_os_create(2) two m l op s1(1) ctx [unfolded a_ctx_def] tr(1,2) e,
          where node = 1 and pid = 0 and thr = 0 and tmo = 0 and now = 0 and counter = 0])
  have "prep" using run(2) by (simp add: a_lib_def)
  then have "dtp_download_file (a_lib 0) 1 0 (Some ?f) 2 (Some ''00'') (Some ''app'') 9 0 0 0 0 ?init () = (Some (-1, cnt, ()), ?s)"
    using run(1) a_ctx_facts(5) by simp
  then have ps: "dtp_pass_step [7, 8] 2 ''00'' ''app'' ?f 9 ?init ?s"
    using a_lib_honest [of 0] m(1) by (intro dtp_pass_step.pass [of "a_lib 0"]) simp_all
  have fr: "lookup t q = None" if "q \<noteq> ?f" for q
  proof -
    have "lookup t q = lookup s1 q" using st that frame_lookup [of "\<lambda>q. q = ?f" s1 t q] by (simp add: dtp_step_def ctx a_ctx_def)
    also have "\<dots> = lookup ?init q" using frame_lookup [OF frame_calls(3) [of "\<lambda>q. q = ?f" ?f ?init], of q] o(1) that by simp
    finally show ?thesis by (simp add: tmp_os_def lookup_def)
  qed
  have "\<forall>d \<in> set (dirs t). d = ''/tmp''" using st s1(3) by (auto simp: dtp_step_def quietly_def tmp_os_def)
  then have "\<forall>d \<in> set (dirs t). dirname d \<noteq> SESSION_STATE_DIR" by (auto simp: dirname_def SESSION_STATE_DIR_def)
  from save_quiet [OF tr(2) _ p(2) this, of 2 "''00''" 2 1 "[1]"] fr obtain s where
    s: "session_state_save p 2 ''00'' 2 1 [1] t = (0, s)" "script s = []" "contents s p = Some (session_record 2 ''00'' 2 1 [1])"
    by (auto simp: SESSION_STATE_DIR_def)
  have "?s = s" using s(1) a_ctx_facts(5,7) by (simp add: dtp_sidecar_def) (simp add: a_ctx_def)
  moreover have "contents ?s ?f = Some [7]" using transfers_sidecar [OF o(2) st refl] tr(3) by simp
  ultimately show ?thesis using that ps s(2,3) by simp
qed

theorem dtp_cross_pass_sound_witness:
  "\<exists>s c s'. dtp_pass_step [7, 8] 2 ''00'' ''app'' ''/tmp/f'' 9 (tmp_os []) s \<and> contents s ''/tmp/f'' = Some [7] \<and>
    dtp_download_file (a_lib 1) 1 0 (Some ''/tmp/f'') 2 (Some ''00'') (Some ''app'') 9 0 0 0 0 s () = (Some (0, c, ()), s') \<and>
    contents s' ''/tmp/f'' = Some [7, 8]"
proof -
  let ?p = "''/var/lib/satdeploy/state/app.dtpstate''" and ?f = "''/tmp/f''"
  obtain s where s: "dtp_pass_step [7, 8] 2 ''00'' ''app'' ?f 9 (tmp_os []) s" "script s = []" "contents s ?f = Some [7]"
    "contents s ?p = Some (session_record 2 ''00'' 2 1 [1])" by (rule a_first_pass)
  have p: "session_state_path ''app'' 640 = Some ?p"
    by (simp add: session_state_path_def state_path_def app_name_is_safe_def SESSION_STATE_DIR_def SESSION_STATE_EXT_def)
  have l: "session_state_load ?p 2 ''00'' 2 1 (replicate (dtp_bitmap_bytes 2) 0) s = ((1, [1]), s)"
    by (rule load_quiet [OF s(2)]) (use s(4) in \<open>simp_all add: session_record_def a_ctx_facts\<close>)
  have op: "dtp_open ?f (Some ?p) ((1 :: int) = 1) (Some [1]) s = ((True, True, Some [1]), s)"
    using s(2,3) by (auto simp: dtp_open_def fopen_update_def open_rw_def io_simps contents_def)
  obtain t where tr: "\<And>req. dtp_start_transfer (a_lib 1) req (a_ctx 0 1) s () = (Some (0, a_ctx (0 + 1) 3, ()), t)" "script t = []"
    by (rule a_transfer [OF s(2,3), of 1 0 1 3]) (simp_all add: a_ctx_facts)
  have "dc_nof_packets (a_ctx (0 + 1) 3) = 2" by (simp add: a_ctx_def)
  then have "dtp_retry_rounds n (a_lib 1) 0 (a_ctx (0 + 1) 3) t () = (Some (0, a_ctx (0 + 1) 3, ()), t)" for n
    using a_ctx_facts(8) [of "0 + 1"] a_lib_ok [of 1] by (cases n) simp_all
  then have ts: "dtp_transfers (a_lib 1) True (a_ctx 0 1) s () = (Some (0, a_ctx (0 + 1) 3, ()), t)"
    using tr(1) a_ctx_facts(5) by (simp add: dtp_transfers_def)
  have two: "(0 :: u32) < 2" by (simp add: word_less_nat_alt)
  have m: "(1 :: u16) = dtp_eff_mtu (if 9 = (0 :: u16) then DTP_DEFAULT_MTU else 9)" "(2 :: u32) = dtp_nof_packets 2 1" "0 < dtp_bitmap_bytes 2"
    by (simp_all add: a_ctx_facts)
  have e: "dc_error (a_ctx (0 + 1) 3) = 0" by (simp add: a_ctx_def)
  let ?s' = "dtp_sidecar (Some ?p) 2 (Some ''00'') (a_ctx (0 + 1) 3) t"
  obtain cnt prep where run: "dtp_download_file (a_lib 1) 1 0 (Some ?f) 2 (Some ''00'') (Some ''app'') 9 0 0 0 0 s () =
      (if \<not> prep then (Some (-1, cnt, ()), s) else (Some (if (0 :: int) \<noteq> 0 \<or> \<not> dtp_fully_received (a_ctx (0 + 1) 3) then -1 else 0, cnt, ()), ?s'))"
      "(\<forall>a b c d e f. dl_prepare (a_lib 1) a b c d e f) \<longrightarrow> prep"
    by (rule download_run [OF p s(2) two m l op s(2) a_ctx_def ts tr(2) e,
          where node = 1 and pid = 0 and thr = 0 and tmo = 0 and now = 0 and counter = 0])
  have "prep" using run(2) by (simp add: a_lib_def)
  then have r: "dtp_download_file (a_lib 1) 1 0 (Some ?f) 2 (Some ''00'') (Some ''app'') 9 0 0 0 0 s () = (Some (0, cnt, ()), ?s')"
    using run(1) a_ctx_facts(6) by simp
  have "dtp_fits [7, 8] 2 1" by (simp add: dtp_fits_def)
  moreover have "?f \<notin> {?p, ?p @ ''.tmp''} \<union> state_dirs" by (simp add: state_dirs_def SESSION_STATE_DIR_def)
  moreover have "contents (tmp_os []) ?p = None" by (simp add: tmp_os_def contents_def lookup_def)
  moreover have "(dtp_pass_step [7, 8] 2 ''00'' ''app'' ?f 9)\<^sup>*\<^sup>* (tmp_os []) s" using s(1) by blast
  ultimately have "contents ?s' ?f = Some [7, 8]"
    using a_lib_honest [of 1] by (intro dtp_cross_pass_sound [OF tmp_os_create(2) p tmp_os_create(1) _ _ m(1) _ _ _ r]) simp_all
  then show ?thesis using s(1,3) r by blast
qed

end
