(* ===== verification/Loss_Filter.thy ===== *)
theory Loss_Filter
  imports Session_State Complex_Main "HOL-Library.Sublist"
begin

text \<open>
  The loss filter of the test builds, \<open>satdeploy-agent/src/loss_filter.c\<close>, and its hook in front of
  \<open>csp_qfifo_write\<close>: the parser of the pattern file, the schedule of events, the generator, the
  Gilbert-Elliott model and the decision on a packet. The mutex and the sleep are not modelled (the delay
  is a result), the clock is an argument, and the conversion \<open>%lf\<close> is a parameter. Shown: packets are only ever
  dropped, what the link does depends on the time alone, and the generator's numbers are in \<open>[0, 1)\<close>.
\<close>

unbundle bit_operations_syntax

section \<open>Definitions\<close>

text \<open>
  A \<open>double\<close>: a rational, an infinity or not a number. A comparison with \<open>NaN\<close> is false.
  No arithmetic of the filter but the time offset can round, and that one is taken as exact.
\<close>

datatype dbl = Num rat | Pinf | Ninf | NaN

fun dlt :: "dbl \<Rightarrow> dbl \<Rightarrow> bool" where
  "dlt (Num x) (Num y) \<longleftrightarrow> x < y"
| "dlt Ninf (Num _) \<longleftrightarrow> True"
| "dlt Ninf Pinf \<longleftrightarrow> True"
| "dlt (Num _) Pinf \<longleftrightarrow> True"
| "dlt _ _ \<longleftrightarrow> False"

definition dle :: "dbl \<Rightarrow> dbl \<Rightarrow> bool" where
  "dle x y \<longleftrightarrow> x \<noteq> NaN \<and> y \<noteq> NaN \<and> (dlt x y \<or> x = y)"

datatype action_t = ACT_UP | ACT_DOWN | ACT_PROB | ACT_CLEAR | ACT_LATENCY | ACT_GILBERT

record event_t =
  ev_t_offset_s :: dbl
  ev_action :: action_t
  ev_params :: "dbl list"

text \<open>The file-scope state \<open>g\<close> with the state of the generator; \<open>n_events\<close> is the length of the list.\<close>

record loss_filter =
  lf_initialized :: bool
  lf_enabled :: bool
  lf_events :: "event_t list"
  lf_t0 :: rat
  lf_link_up :: bool
  lf_drop_prob :: dbl
  lf_current_idx :: nat
  lf_latency_ms :: u32
  lf_gilbert_active :: bool
  lf_gilbert_in_bad :: bool
  lf_p_GG :: dbl
  lf_p_BB :: dbl
  lf_drop_G :: dbl
  lf_drop_B :: dbl
  lf_packets_seen :: u32
  lf_packets_dropped :: u32
  lf_rng :: u64

definition lf_start :: loss_filter where
  "lf_start = \<lparr>lf_initialized = False, lf_enabled = False, lf_events = [], lf_t0 = 0, lf_link_up = True, lf_drop_prob = Num 0,
     lf_current_idx = 0, lf_latency_ms = 0, lf_gilbert_active = False, lf_gilbert_in_bad = False, lf_p_GG = Num 0, lf_p_BB = Num 0,
     lf_drop_G = Num 0, lf_drop_B = Num 0, lf_packets_seen = 0, lf_packets_dropped = 0, lf_rng = 0x12345678\<rparr>"

definition xorshift64 :: "u64 \<Rightarrow> u64" where
  "xorshift64 x =
     (let x = x XOR push_bit 13 x;
          x = x XOR drop_bit 7 x
      in x XOR push_bit 17 x)"

definition rand_unit :: "loss_filter \<Rightarrow> dbl \<times> loss_filter" where
  "rand_unit f =
     (let x = xorshift64 (lf_rng f)
      in (Num (of_nat (unat (drop_bit 11 x)) / 2 ^ 53), f\<lparr>lf_rng := x\<rparr>))"

text \<open>
  A line of the pattern file. \<open>lf\<close> is the conversion \<open>%lf\<close> of \<open>sscanf\<close>: the number read and the
  rest of the text. The result is the return code and the event.
\<close>

definition in_unit :: "dbl \<Rightarrow> bool" where
  "in_unit p \<longleftrightarrow> \<not> (dlt p (Num 0) \<or> dlt (Num 1) p)"

definition parse_pattern_line :: "(string \<Rightarrow> (dbl \<times> string) option) \<Rightarrow> string \<Rightarrow> int \<times> event_t option" where
  "parse_pattern_line lf line =
     (let line = dropWhile (\<lambda>c. c = CHR '' '' \<or> c = CHR 0x09) line
      in if line = [] \<or> hd line = CHR 0x0A \<or> hd line = CHR ''#'' then (1, None)
         else (case lf line of
            None \<Rightarrow> (-1, None)
          | Some (t, line) \<Rightarrow>
              let line = dropWhile is_space line;
                  action_buf = take 15 (takeWhile (\<lambda>c. \<not> is_space c) line);
                  rest = drop (length action_buf) line;
                  ev = (\<lambda>a ps. (0, Some \<lparr>ev_t_offset_s = t, ev_action = a, ev_params = ps\<rparr>))
              in if action_buf = [] then (-1, None)
                 else if action_buf = ''up'' then ev ACT_UP []
                 else if action_buf = ''down'' then ev ACT_DOWN []
                 else if action_buf = ''clear'' then ev ACT_CLEAR []
                 else if action_buf = ''prob'' then
                   (case lf rest of
                      None \<Rightarrow> (-1, None)
                    | Some (p, _) \<Rightarrow> if \<not> in_unit p then (-1, None) else ev ACT_PROB [p])
                 else if action_buf = ''latency'' then
                   (case lf rest of
                      None \<Rightarrow> (-1, None)
                    | Some (ms, _) \<Rightarrow> if dlt ms (Num 0) \<or> dlt (Num 60000) ms then (-1, None) else ev ACT_LATENCY [ms])
                 else if action_buf = ''gilbert'' then
                   (case lf rest of None \<Rightarrow> (-1, None) | Some (p_gg, rest) \<Rightarrow>
                    (case lf rest of None \<Rightarrow> (-1, None) | Some (p_bb, rest) \<Rightarrow>
                     (case lf rest of None \<Rightarrow> (-1, None) | Some (drop_g, rest) \<Rightarrow>
                      (case lf rest of None \<Rightarrow> (-1, None) | Some (drop_b, _) \<Rightarrow>
                         if \<not> in_unit p_gg \<or> \<not> in_unit p_bb \<or> \<not> in_unit drop_g \<or> \<not> in_unit drop_b then (-1, None)
                         else ev ACT_GILBERT [p_gg, p_bb, drop_g, drop_b]))))
                 else (-1, None)))"

text \<open>\<open>fgets\<close> with a buffer of \<open>n\<close> bytes until the end of the file; a string ends at a NUL.\<close>

function fgets_lines :: "nat \<Rightarrow> string \<Rightarrow> string list" where
  "fgets_lines n t =
     (if t = [] \<or> n < 2 then []
      else let k = min (n - 1) (length (takeWhile (\<lambda>c. c \<noteq> CHR 0x0A) t) + 1)
           in takeWhile (\<lambda>c. c \<noteq> CHR 0x00) (take k t) # fgets_lines n (drop k t))"
  by pat_completeness auto
termination fgets_lines
  by (relation "measure (\<lambda>(n, t). length t)") auto

declare fgets_lines.simps [simp del]

text \<open>The two passes over the lines: counting, which stops at an error, and filling.\<close>

fun count_events :: "(string \<Rightarrow> (dbl \<times> string) option) \<Rightarrow> string list \<Rightarrow> nat \<Rightarrow> nat option" where
  "count_events lf [] n = Some n"
| "count_events lf (l # ls) n =
     (case parse_pattern_line lf l of
        (rc, _) \<Rightarrow> if rc = 0 then count_events lf ls (Suc n) else if rc < 0 then None else count_events lf ls n)"

fun fill_events :: "(string \<Rightarrow> (dbl \<times> string) option) \<Rightarrow> nat \<Rightarrow> string list \<Rightarrow> event_t list \<Rightarrow> event_t list" where
  "fill_events lf n [] es = es"
| "fill_events lf n (l # ls) es =
     (if \<not> length es < n then es
      else case parse_pattern_line lf l of
             (rc, e) \<Rightarrow> if rc = 0 then fill_events lf n ls (es @ [the e]) else fill_events lf n ls es)"

definition monotonic :: "event_t list \<Rightarrow> bool" where
  "monotonic es \<longleftrightarrow> list_all (\<lambda>j. \<not> dlt (ev_t_offset_s (es ! j)) (ev_t_offset_s (es ! (j - 1)))) [1..<length es]"

definition load_pattern_file :: "(string \<Rightarrow> (dbl \<times> string) option) \<Rightarrow> string \<Rightarrow> loss_filter \<Rightarrow> os \<Rightarrow> (int \<times> loss_filter) \<times> os" where
  "load_pattern_file lf path f s =
     (case fopen_r path s of
        (None, s) \<Rightarrow> ((-1, f), s)
      | (Some d, s) \<Rightarrow>
          let ls = fgets_lines 256 (string_of d)
          in (case count_events lf ls 0 of
                None \<Rightarrow> ((-1, f), s)
              | Some n \<Rightarrow>
                  (case malloc s of (ok, s) \<Rightarrow>
                     if \<not> ok then ((-1, f\<lparr>lf_events := []\<rparr>), s)
                     else let es = fill_events lf n ls []
                          in if monotonic es then ((0, f\<lparr>lf_events := es\<rparr>), s) else ((-1, f\<lparr>lf_events := []\<rparr>), s))))"

text \<open>\<open>path\<close> and \<open>seed\<close> are the two environment variables, the seed as \<open>strtoull\<close> reads it.\<close>

definition loss_filter_init ::
  "(string \<Rightarrow> (dbl \<times> string) option) \<Rightarrow> string option \<Rightarrow> u64 option \<Rightarrow> rat \<Rightarrow> loss_filter \<Rightarrow> os \<Rightarrow> (int \<times> loss_filter) \<times> os" where
  "loss_filter_init lf path seed now f s =
     (if lf_initialized f then ((0, f), s)
      else if path = None \<or> path = Some [] then ((0, f\<lparr>lf_initialized := True, lf_enabled := False\<rparr>), s)
      else (case load_pattern_file lf (the path) f s of ((rc, f), s) \<Rightarrow>
        if rc \<noteq> 0 then ((-1, f), s)
        else let rng = (case seed of None \<Rightarrow> lf_rng f | Some x \<Rightarrow> if x = 0 then 1 else x)
             in ((0, f\<lparr>lf_rng := rng, lf_t0 := now, lf_initialized := True, lf_enabled := True, lf_link_up := True,
                       lf_drop_prob := Num 0, lf_current_idx := 0\<rparr>), s)))"

definition now_offset_s :: "loss_filter \<Rightarrow> rat \<Rightarrow> dbl" where
  "now_offset_s f now = Num (now - lf_t0 f)"

definition nth_param :: "event_t \<Rightarrow> nat \<Rightarrow> dbl" where
  "nth_param e i = (if i < length (ev_params e) then ev_params e ! i else Num 0)"

text \<open>The conversion to \<open>uint32_t\<close> of a delay, which the parser has bounded.\<close>

definition to_u32 :: "dbl \<Rightarrow> u32" where
  "to_u32 x = (case x of Num r \<Rightarrow> of_int \<lfloor>r\<rfloor> | _ \<Rightarrow> 0)"

definition apply_event :: "event_t \<Rightarrow> loss_filter \<Rightarrow> loss_filter" where
  "apply_event e f =
     (case ev_action e of
        ACT_UP \<Rightarrow> f\<lparr>lf_link_up := True, lf_drop_prob := Num 0, lf_gilbert_active := False\<rparr>
      | ACT_DOWN \<Rightarrow> f\<lparr>lf_link_up := False, lf_drop_prob := Num 0, lf_gilbert_active := False\<rparr>
      | ACT_CLEAR \<Rightarrow> f\<lparr>lf_link_up := True, lf_drop_prob := Num 0, lf_gilbert_active := False\<rparr>
      | ACT_PROB \<Rightarrow> f\<lparr>lf_link_up := True, lf_drop_prob := nth_param e 0, lf_gilbert_active := False\<rparr>
      | ACT_LATENCY \<Rightarrow> f\<lparr>lf_latency_ms := to_u32 (nth_param e 0)\<rparr>
      | ACT_GILBERT \<Rightarrow> f\<lparr>lf_link_up := True, lf_drop_prob := Num 0, lf_gilbert_active := True, lf_gilbert_in_bad := False,
          lf_p_GG := nth_param e 0, lf_p_BB := nth_param e 1, lf_drop_G := nth_param e 2, lf_drop_B := nth_param e 3\<rparr>)"

function advance_state_locked :: "dbl \<Rightarrow> loss_filter \<Rightarrow> loss_filter" where
  "advance_state_locked now_s f =
     (if lf_current_idx f < length (lf_events f) \<and> dle (ev_t_offset_s (lf_events f ! lf_current_idx f)) now_s
      then advance_state_locked now_s ((apply_event (lf_events f ! lf_current_idx f) f)\<lparr>lf_current_idx := Suc (lf_current_idx f)\<rparr>)
      else f)"
  by pat_completeness auto

lemma apply_event_schedule [simp]:
  "lf_events (apply_event e f) = lf_events f" "lf_t0 (apply_event e f) = lf_t0 f" "lf_enabled (apply_event e f) = lf_enabled f"
  "lf_initialized (apply_event e f) = lf_initialized f" "lf_packets_seen (apply_event e f) = lf_packets_seen f"
  "lf_packets_dropped (apply_event e f) = lf_packets_dropped f" "lf_rng (apply_event e f) = lf_rng f"
  "lf_current_idx (apply_event e f) = lf_current_idx f"
  by (simp_all add: apply_event_def split: action_t.splits)

termination advance_state_locked
  by (relation "measure (\<lambda>(now_s, f). length (lf_events f) - lf_current_idx f)") auto

declare advance_state_locked.simps [simp del]

text \<open>The decision on one packet, without the mutex.\<close>

definition drop_decision :: "loss_filter \<Rightarrow> bool \<times> loss_filter" where
  "drop_decision f =
     (if \<not> lf_link_up f then (True, f)
      else if lf_gilbert_active f then
        if lf_gilbert_in_bad f then
          let (u, f) = rand_unit f; (v, f) = rand_unit f
          in (dlt u (lf_drop_B f), if dle (lf_p_BB f) v then f\<lparr>lf_gilbert_in_bad := False\<rparr> else f)
        else
          let (u, f) = rand_unit f; (v, f) = rand_unit f
          in (dlt u (lf_drop_G f), if dle (lf_p_GG f) v then f\<lparr>lf_gilbert_in_bad := True\<rparr> else f)
      else if dlt (Num 0) (lf_drop_prob f) then let (u, f) = rand_unit f in (dlt u (lf_drop_prob f), f)
      else (False, f))"

definition loss_filter_should_drop :: "rat \<Rightarrow> loss_filter \<Rightarrow> bool \<times> loss_filter" where
  "loss_filter_should_drop now f =
     (if \<not> lf_initialized f \<or> \<not> lf_enabled f then (False, f)
      else let f = f\<lparr>lf_packets_seen := lf_packets_seen f + 1\<rparr>;
               f = advance_state_locked (now_offset_s f now) f;
               (d, f) = drop_decision f
           in (d, if d then f\<lparr>lf_packets_dropped := lf_packets_dropped f + 1\<rparr> else f))"

text \<open>The delay in milliseconds the caller then sleeps.\<close>

definition loss_filter_apply_latency :: "rat \<Rightarrow> loss_filter \<Rightarrow> u32 \<times> loss_filter" where
  "loss_filter_apply_latency now f =
     (if lf_initialized f \<and> lf_enabled f
      then let f = advance_state_locked (now_offset_s f now) f in (lf_latency_ms f, f)
      else (0, f))"

definition loss_filter_close :: "loss_filter \<Rightarrow> loss_filter" where
  "loss_filter_close f = f\<lparr>lf_events := [], lf_initialized := False, lf_enabled := False\<rparr>"

definition loss_filter_stats :: "loss_filter \<Rightarrow> u32 \<times> u32" where
  "loss_filter_stats f = (lf_packets_seen f, lf_packets_dropped f)"

text \<open>
  The wrapped \<open>csp_qfifo_write\<close>: what is handed to the real one (a packet may be null), and the delay
  before; the two times are those of the two clock readings.
\<close>

definition wrap_csp_qfifo_write :: "rat \<Rightarrow> rat \<Rightarrow> 'p option \<Rightarrow> loss_filter \<Rightarrow> ('p option list \<times> u32) \<times> loss_filter" where
  "wrap_csp_qfifo_write now1 now2 packet f =
     (case packet of
        None \<Rightarrow> (([None], 0), f)
      | Some p \<Rightarrow>
          (case loss_filter_should_drop now1 f of (d, f) \<Rightarrow>
             if d then (([], 0), f)
             else (case loss_filter_apply_latency now2 f of (ms, f) \<Rightarrow> (([Some p], ms), f))))"

section \<open>The generator\<close>

lemma xor_zero: "x XOR y = 0 \<Longrightarrow> x = (y :: u64)"
  by (metis xor.assoc xor.left_neutral xor.commute xor_self_eq)

lemma xor_push_nonzero:
  fixes x :: u64
  assumes "x \<noteq> 0" "0 < k"
  shows "x XOR push_bit k x \<noteq> 0"
proof
  assume "x XOR push_bit k x = 0"
  then have x: "x = push_bit k x" by (rule xor_zero)
  have "\<not> bit x n" for n
  proof (induction n rule: less_induct)
    case (less n)
    have "bit x n \<longleftrightarrow> bit (push_bit k x) n" using x by simp
    then show ?case using less [of "n - k"] assms(2) by (auto simp: bit_push_bit_iff)
  qed
  then show False using assms(1) by (auto simp: bit_eq_iff)
qed

lemma xor_drop_nonzero:
  fixes x :: u64
  assumes "x \<noteq> 0" "0 < k"
  shows "x XOR drop_bit k x \<noteq> 0"
proof
  assume "x XOR drop_bit k x = 0"
  then have x: "x = drop_bit k x" by (rule xor_zero)
  have up: "bit x n \<Longrightarrow> bit x (n + k * j)" for n j
  proof (induction j)
    case (Suc j)
    then have "bit (drop_bit k x) (n + k * j)" using x by simp
    then show ?case by (simp add: bit_drop_bit_eq algebra_simps)
  qed simp
  have "\<not> bit x n" for n
  proof
    assume "bit x n"
    from up [OF this, of 64] have "n + k * 64 < 64" by (auto dest: bit_imp_le_length)
    then show False using assms(2) by simp
  qed
  then show False using assms(1) by (auto simp: bit_eq_iff)
qed

lemma xorshift_nonzero: "x \<noteq> 0 \<Longrightarrow> xorshift64 x \<noteq> 0"
  unfolding xorshift64_def Let_def by (intro xor_push_nonzero xor_drop_nonzero) simp_all

lemma drop11_lt: "unat (drop_bit 11 (x :: u64)) < 2 ^ 53"
proof -
  have "unat x < 2 ^ 64" using unsigned_less [of x, where ?'a = nat] by simp
  then have "unat x div 2 ^ 11 < 2 ^ 53" by (intro less_mult_imp_div_less) simp
  then show ?thesis by (simp add: drop_bit_eq_div unat_div)
qed

lemma rand_unit_range:
  obtains u where "rand_unit f = (Num u, f\<lparr>lf_rng := xorshift64 (lf_rng f)\<rparr>)" "0 \<le> u" "u < 1"
proof -
  let ?n = "unat (drop_bit 11 (xorshift64 (lf_rng f)))"
  have "(of_nat ?n :: rat) < of_nat (2 ^ 53)" using drop11_lt by (simp only: of_nat_less_iff)
  then have "of_nat ?n / 2 ^ 53 < (1 :: rat)" by (simp add: divide_less_eq)
  moreover have "0 \<le> (of_nat ?n / 2 ^ 53 :: rat)" by (simp only: of_nat_0_le_iff divide_nonneg_pos zero_less_power zero_less_numeral)
  ultimately show ?thesis using that [of "of_nat ?n / 2 ^ 53"] unfolding rand_unit_def Let_def by blast
qed

section \<open>The schedule\<close>

lemma apply_event_idx: "apply_event e (f\<lparr>lf_current_idx := k\<rparr>) = (apply_event e f)\<lparr>lf_current_idx := k\<rparr>"
  by (simp add: apply_event_def split: action_t.splits)

lemma fold_events_idx: "fold apply_event es (f\<lparr>lf_current_idx := k\<rparr>) = (fold apply_event es f)\<lparr>lf_current_idx := k\<rparr>"
  by (induction es arbitrary: f) (simp_all add: apply_event_idx)

lemma fold_events_schedule [simp]:
  "lf_events (fold apply_event es f) = lf_events f" "lf_t0 (fold apply_event es f) = lf_t0 f" "lf_enabled (fold apply_event es f) = lf_enabled f"
  "lf_initialized (fold apply_event es f) = lf_initialized f" "lf_packets_seen (fold apply_event es f) = lf_packets_seen f"
  "lf_packets_dropped (fold apply_event es f) = lf_packets_dropped f" "lf_rng (fold apply_event es f) = lf_rng f"
  by (induction es arbitrary: f) simp_all

text \<open>The loop applies the events that are due, in order.\<close>

lemma advance_fold:
  "advance_state_locked t f = (let es = takeWhile (\<lambda>e. dle (ev_t_offset_s e) t) (drop (lf_current_idx f) (lf_events f))
     in (fold apply_event es f)\<lparr>lf_current_idx := lf_current_idx f + length es\<rparr>)"
proof (induction t f rule: advance_state_locked.induct)
  case (1 t f)
  let ?i = "lf_current_idx f"
  show ?case
  proof (cases "?i < length (lf_events f) \<and> dle (ev_t_offset_s (lf_events f ! ?i)) t")
    case True
    let ?f = "(apply_event (lf_events f ! ?i) f)\<lparr>lf_current_idx := Suc ?i\<rparr>"
    have d: "drop ?i (lf_events f) = lf_events f ! ?i # drop (Suc ?i) (lf_events f)" using True by (simp add: Cons_nth_drop_Suc)
    have "advance_state_locked t f = advance_state_locked t ?f" using True by (subst advance_state_locked.simps) simp
    then show ?thesis using "1.IH" [OF True] d True by (simp add: Let_def fold_events_idx)
  next
    case False
    then have "takeWhile (\<lambda>e. dle (ev_t_offset_s e) t) (drop ?i (lf_events f)) = []"
      by (cases "drop ?i (lf_events f)") (auto simp: takeWhile_eq_Nil_iff not_less dest: nth_via_drop)
    moreover have "advance_state_locked t f = f" using False by (subst advance_state_locked.simps) auto
    ultimately show ?thesis by simp
  qed
qed

text \<open>An event whose time is not a number holds up the schedule for ever, whatever follows it.\<close>

lemma nan_blocks:
  assumes "lf_current_idx f < length (lf_events f)" "ev_t_offset_s (lf_events f ! lf_current_idx f) = NaN"
  shows "advance_state_locked t f = f"
  using assms by (subst advance_state_locked.simps) (simp add: dle_def)

lemma dle_trans: "dle x y \<Longrightarrow> dle y z \<Longrightarrow> dle x z"
  by (cases x; cases y; cases z) (auto simp: dle_def)

lemma dle_total: "x \<noteq> NaN \<Longrightarrow> y \<noteq> NaN \<Longrightarrow> \<not> dlt y x \<Longrightarrow> dle x y"
  by (cases x; cases y) (auto simp: dle_def)

definition timed :: "event_t list \<Rightarrow> bool" where
  "timed es \<longleftrightarrow> sorted_wrt (\<lambda>a b. dle (ev_t_offset_s a) (ev_t_offset_s b)) es"

lemma monotonic_timed:
  assumes "monotonic es" "\<forall>e \<in> set es. ev_t_offset_s e \<noteq> NaN"
  shows "timed es"
proof -
  have "dle (ev_t_offset_s (es ! j)) (ev_t_offset_s (es ! Suc j))" if "Suc j < length es" for j
  proof (rule dle_total)
    show "ev_t_offset_s (es ! j) \<noteq> NaN" "ev_t_offset_s (es ! Suc j) \<noteq> NaN" using assms(2) that by simp_all
    show "\<not> dlt (ev_t_offset_s (es ! Suc j)) (ev_t_offset_s (es ! j))"
    proof -
      have "Suc j \<in> set [1..<length es]" using that by simp
      then show ?thesis using assms(1) unfolding monotonic_def list_all_iff by fastforce
    qed
  qed
  then show ?thesis unfolding timed_def by (subst sorted_wrt_iff_nth_Suc_transp) (auto simp: transp_def intro: dle_trans)
qed

lemma timed_takeWhile:
  assumes "timed es"
  shows "takeWhile (\<lambda>e. dle (ev_t_offset_s e) t) es = filter (\<lambda>e. dle (ev_t_offset_s e) t) es"
  using assms
proof (induction es)
  case (Cons e es)
  show ?case
  proof (cases "dle (ev_t_offset_s e) t")
    case True
    then show ?thesis using Cons by (simp add: timed_def)
  next
    case False
    have "\<not> dle (ev_t_offset_s x) t" if "x \<in> set es" for x
      using False Cons.prems that dle_trans by (auto simp: timed_def)
    then show ?thesis using False by (simp add: filter_empty_conv)
  qed
qed simp

section \<open>What the link does at a time\<close>

text \<open>The settings the events make; the Markov state and the generator change with every packet.\<close>

definition mode :: "loss_filter \<Rightarrow> bool \<times> dbl \<times> u32 \<times> bool \<times> dbl list" where
  "mode f = (lf_link_up f, lf_drop_prob f, lf_latency_ms f, lf_gilbert_active f, [lf_p_GG f, lf_p_BB f, lf_drop_G f, lf_drop_B f])"

lemma mode_event: "mode f = mode h \<Longrightarrow> mode (apply_event e f) = mode (apply_event e h)"
  by (simp add: mode_def apply_event_def split: action_t.splits)

lemma mode_events: "mode f = mode h \<Longrightarrow> mode (fold apply_event es f) = mode (fold apply_event es h)"
proof (induction es arbitrary: f h)
  case (Cons e es)
  from Cons.IH [OF mode_event [OF Cons.prems]] show ?case by simp
qed simp

text \<open>What one decision leaves alone.\<close>

definition same_schedule :: "loss_filter \<Rightarrow> loss_filter \<Rightarrow> bool" where
  "same_schedule f h \<longleftrightarrow> mode h = mode f \<and> lf_events h = lf_events f \<and> lf_current_idx h = lf_current_idx f \<and> lf_t0 h = lf_t0 f \<and>
     lf_enabled h = lf_enabled f \<and> lf_initialized h = lf_initialized f \<and> lf_packets_seen h = lf_packets_seen f \<and>
     lf_packets_dropped h = lf_packets_dropped f"

lemma rand_plan: "same_schedule f (snd (rand_unit f))"
  by (simp add: same_schedule_def mode_def rand_unit_def Let_def)

lemma decision_plan: "same_schedule f (snd (drop_decision f))"
proof -
  have 2: "same_schedule f (snd (rand_unit (snd (rand_unit f))))" by (simp add: same_schedule_def mode_def rand_unit_def Let_def)
  have b: "same_schedule f h \<Longrightarrow> same_schedule f (h\<lparr>lf_gilbert_in_bad := x\<rparr>)" for h x by (simp add: same_schedule_def mode_def)
  have 0: "same_schedule f f" by (simp add: same_schedule_def)
  show ?thesis using 0 rand_plan [of f] 2 b by (simp add: drop_decision_def Let_def split_def)
qed

definition enabled :: "loss_filter \<Rightarrow> bool" where
  "enabled f \<longleftrightarrow> lf_initialized f \<and> lf_enabled f"

lemma should_drop_step:
  assumes "loss_filter_should_drop now f = (d, h)" "enabled f"
  shows "\<exists>h1. h1 = advance_state_locked (now_offset_s f now) (f\<lparr>lf_packets_seen := lf_packets_seen f + 1\<rparr>) \<and>
    mode h = mode h1 \<and> lf_events h = lf_events f \<and> lf_t0 h = lf_t0 f \<and> enabled h \<and> lf_current_idx h = lf_current_idx h1 \<and>
    lf_packets_seen h = lf_packets_seen f + 1 \<and> lf_packets_dropped h = lf_packets_dropped f + (if d then 1 else 0)"
proof -
  let ?f = "f\<lparr>lf_packets_seen := lf_packets_seen f + 1\<rparr>"
  let ?h1 = "advance_state_locked (now_offset_s f now) ?f"
  have o: "now_offset_s ?f now = now_offset_s f now" by (simp add: now_offset_s_def)
  have k: "lf_events ?h1 = lf_events f" "lf_t0 ?h1 = lf_t0 f" "enabled ?h1" "lf_packets_seen ?h1 = lf_packets_seen f + 1"
    "lf_packets_dropped ?h1 = lf_packets_dropped f"
    using assms(2) by (simp_all add: advance_fold Let_def enabled_def)
  obtain d' h' where dd: "drop_decision ?h1 = (d', h')" by force
  have p: "same_schedule ?h1 h'" using decision_plan [of ?h1] dd by simp
  have "d' = d" "h = (if d then h'\<lparr>lf_packets_dropped := lf_packets_dropped h' + 1\<rparr> else h')"
    using assms dd o by (auto simp: loss_filter_should_drop_def enabled_def Let_def)
  then show ?thesis using p k by (auto simp: same_schedule_def enabled_def mode_def)
qed

text \<open>The invariant of polling: the events applied are the first ones, and the settings are theirs.\<close>

definition follows :: "loss_filter \<Rightarrow> loss_filter \<Rightarrow> bool" where
  "follows f0 f \<longleftrightarrow> lf_events f = lf_events f0 \<and> lf_t0 f = lf_t0 f0 \<and> enabled f \<and> lf_current_idx f \<le> length (lf_events f0) \<and>
     mode f = mode (fold apply_event (take (lf_current_idx f) (lf_events f0)) f0)"

lemma follows_advance:
  assumes "follows f0 f" "\<forall>e \<in> set (take (lf_current_idx f) (lf_events f0)). dle (ev_t_offset_s e) t" "timed (lf_events f0)"
    "h = advance_state_locked t (f\<lparr>lf_packets_seen := n\<rparr>)"
  shows "lf_current_idx h = length (filter (\<lambda>e. dle (ev_t_offset_s e) t) (lf_events f0))"
    "mode h = mode (fold apply_event (filter (\<lambda>e. dle (ev_t_offset_s e) t) (lf_events f0)) f0)"
proof -
  let ?es = "lf_events f0" and ?P = "\<lambda>t e. dle (ev_t_offset_s e) t" and ?k = "lf_current_idx f"
  have tw: "takeWhile (?P u) ?es = filter (?P u) ?es" for u by (rule timed_takeWhile [OF assms(3)])
  have "\<forall>e \<in> set (take ?k ?es). ?P t e" by (rule assms(2))
  then have split: "takeWhile (?P t) ?es = take ?k ?es @ takeWhile (?P t) (drop ?k ?es)"
    using takeWhile_append2 [of "take ?k ?es" "?P t" "drop ?k ?es"] by simp
  let ?new = "takeWhile (?P t) (drop ?k ?es)"
  have h: "h = (fold apply_event ?new (f\<lparr>lf_packets_seen := n\<rparr>))\<lparr>lf_current_idx := ?k + length ?new\<rparr>"
    using assms(1,4) by (simp add: advance_fold Let_def follows_def)
  have kl: "length (take ?k ?es) = ?k" using assms(1) by (simp add: follows_def)
  show "lf_current_idx h = length (filter (?P t) ?es)" using arg_cong [OF split, of length] tw kl by (simp add: h)
  have "mode h = mode (fold apply_event ?new (f\<lparr>lf_packets_seen := n\<rparr>))" by (simp add: h mode_def)
  also have "\<dots> = mode (fold apply_event ?new (fold apply_event (take ?k ?es) f0))"
    using assms(1) by (intro mode_events) (simp add: follows_def mode_def)
  also have "\<dots> = mode (fold apply_event (filter (?P t) ?es) f0)" using split tw by (metis fold_append comp_apply)
  finally show "mode h = mode (fold apply_event (filter (?P t) ?es) f0)" .
qed

fun polls :: "rat list \<Rightarrow> loss_filter \<Rightarrow> loss_filter" where
  "polls [] f = f"
| "polls (t # ts) f = polls ts (snd (loss_filter_should_drop t f))"

lemma polls_follow:
  assumes "follows f0 f" "timed (lf_events f0)" "sorted ts" "ts \<noteq> []"
    "\<forall>e \<in> set (take (lf_current_idx f) (lf_events f0)). dle (ev_t_offset_s e) (Num (hd ts - lf_t0 f0))"
  shows "mode (polls ts f) = mode (fold apply_event (filter (\<lambda>e. dle (ev_t_offset_s e) (Num (last ts - lf_t0 f0))) (lf_events f0)) f0)"
  using assms
proof (induction ts arbitrary: f)
  case (Cons t ts)
  let ?P = "\<lambda>t e. dle (ev_t_offset_s e) (Num (t - lf_t0 f0))"
  obtain d h where sd: "loss_filter_should_drop t f = (d, h)" by force
  have f: "enabled f" "lf_t0 f = lf_t0 f0" "lf_events f = lf_events f0" using Cons.prems(1) by (simp_all add: follows_def)
  obtain h1 where h1: "h1 = advance_state_locked (now_offset_s f t) (f\<lparr>lf_packets_seen := lf_packets_seen f + 1\<rparr>)"
    "mode h = mode h1" "lf_events h = lf_events f" "lf_t0 h = lf_t0 f" "enabled h" "lf_current_idx h = lf_current_idx h1"
    using should_drop_step [OF sd f(1)] by blast
  have n: "now_offset_s f t = Num (t - lf_t0 f0)" using f(2) by (simp add: now_offset_s_def)
  have due: "\<forall>e \<in> set (take (lf_current_idx f) (lf_events f0)). ?P t e" using Cons.prems(5) by simp
  note a = follows_advance [OF Cons.prems(1) due Cons.prems(2) h1(1) [unfolded n]]
  show ?case
  proof (cases "ts = []")
    case True
    then show ?thesis using sd a(2) h1(2) by simp
  next
    case False
    have i: "lf_current_idx h = length (filter (?P t) (lf_events f0))" using a(1) h1(6) by simp
    have tk: "take (lf_current_idx h) (lf_events f0) = filter (?P t) (lf_events f0)"
      unfolding i using timed_takeWhile [OF Cons.prems(2)] by (metis takeWhile_eq_take)
    have fo: "follows f0 h" using f h1(3-5) a(2) h1(2) tk i unfolding follows_def by simp
    have le: "dle (Num (t - lf_t0 f0)) (Num (hd ts - lf_t0 f0))" using Cons.prems(3) False by (cases ts) (auto simp: dle_def)
    have "\<forall>e \<in> set (take (lf_current_idx h) (lf_events f0)). ?P (hd ts) e" unfolding tk using dle_trans [OF _ le] by simp
    from Cons.IH [OF fo Cons.prems(2) _ False this] show ?thesis using sd False Cons.prems(3) by simp
  qed
qed simp

section \<open>Packets through the filter\<close>

text \<open>Packets handed to the wrapped queue, each with its two clock readings: those that reach the real queue.\<close>

fun feed :: "(rat \<times> rat \<times> 'p) list \<Rightarrow> loss_filter \<Rightarrow> 'p list \<times> loss_filter" where
  "feed [] f = ([], f)"
| "feed ((t1, t2, p) # ps) f =
     (case wrap_csp_qfifo_write t1 t2 (Some p) f of ((out, _), f) \<Rightarrow>
        (case feed ps f of (rest, f) \<Rightarrow> (map the out @ rest, f)))"

lemma latency_keeps:
  assumes "loss_filter_apply_latency t f = (ms, h)"
  shows "enabled h = enabled f" "lf_packets_seen h = lf_packets_seen f" "lf_packets_dropped h = lf_packets_dropped f"
  using assms by (auto simp: loss_filter_apply_latency_def enabled_def advance_fold Let_def split: if_splits)

lemma hook_step:
  assumes "wrap_csp_qfifo_write t1 t2 (Some p) f = ((out, ms), h)" "enabled f"
  shows "enabled h" "lf_packets_seen h = lf_packets_seen f + 1"
    "out = [] \<and> lf_packets_dropped h = lf_packets_dropped f + 1 \<or> out = [Some p] \<and> lf_packets_dropped h = lf_packets_dropped f"
proof -
  obtain d f1 where sd: "loss_filter_should_drop t1 f = (d, f1)" by force
  note s = should_drop_step [OF sd assms(2)]
  obtain ms2 f2 where la: "loss_filter_apply_latency t2 f1 = (ms2, f2)" by force
  note l = latency_keeps [OF la]
  have "if d then out = [] \<and> h = f1 else out = [Some p] \<and> h = f2"
    using assms(1) sd la by (auto simp: wrap_csp_qfifo_write_def split: if_splits)
  then show "enabled h" "lf_packets_seen h = lf_packets_seen f + 1"
    "out = [] \<and> lf_packets_dropped h = lf_packets_dropped f + 1 \<or> out = [Some p] \<and> lf_packets_dropped h = lf_packets_dropped f"
    using s l by (auto split: if_splits)
qed

lemma load_result:
  assumes "load_pattern_file lf path f s = ((rc, f1), s')" "rc = 0"
  shows "\<exists>es. monotonic es \<and> f1 = f\<lparr>lf_events := es\<rparr>"
  using assms by (auto simp: load_pattern_file_def Let_def split: option.splits prod.splits if_splits)

section \<open>Properties\<close>

text \<open>
  C36: The filter loses packets and does nothing else to them. Whatever the pattern and the seed, the
  packets that pass an enabled filter are a subsequence of those that came, unchanged, and the
  counters account for every one (modulo \<open>2 ^ 32\<close>); a filter that is not enabled passes all.
\<close>

theorem loss_filter_only_drops:
  assumes "feed ps f = (out, h)"
  shows "subseq out (map (snd \<circ> snd) ps) \<and>
    (if enabled f then lf_packets_seen h = lf_packets_seen f + of_nat (length ps) \<and>
       lf_packets_dropped h = lf_packets_dropped f + of_nat (length ps - length out)
     else out = map (snd \<circ> snd) ps \<and> h = f)"
  using assms
proof (induction ps arbitrary: f out)
  case (Cons x ps)
  obtain t1 t2 p where x: "x = (t1, t2, p)" by (metis prod_cases3)
  obtain o1 ms f1 where w: "wrap_csp_qfifo_write t1 t2 (Some p) f = ((o1, ms), f1)" by (metis prod.exhaust)
  obtain rest where r: "feed ps f1 = (rest, h)" "out = map the o1 @ rest" using Cons.prems x w by (auto split: prod.splits)
  note ih = Cons.IH [OF r(1)]
  have len: "length rest \<le> length ps" using ih list_emb_length by fastforce
  show ?case
  proof (cases "enabled f")
    case True
    note s = hook_step [OF w True]
    have "length (x # ps) - length out = (if o1 = [] then Suc (length ps - length rest) else length ps - length rest)"
      using s(3) r(2) len by auto
    then show ?thesis using ih s r(2) True x by (auto simp: algebra_simps comp_def)
  next
    case False
    then have "o1 = [Some p]" "f1 = f"
      using w by (auto simp: wrap_csp_qfifo_write_def loss_filter_should_drop_def loss_filter_apply_latency_def enabled_def)
    then show ?thesis using ih r(2) False x by (simp add: comp_def)
  qed
qed auto

text \<open>
  C35: What the link does depends on the time only. After a pattern was loaded whose times are numbers,
  however often packets came before, at the time of the last one the link is exactly in the state that
  the events of the pattern up to that time, in the order of the file, put it in.
\<close>

theorem loss_schedule_by_time:
  assumes "loss_filter_init lf (Some path) seed now f s = ((0, f0), s')" "\<not> lf_initialized f" "path \<noteq> []"
    "\<forall>e \<in> set (lf_events f0). ev_t_offset_s e \<noteq> NaN" "sorted ts" "ts \<noteq> []"
  shows "mode (polls ts f0) = mode (fold apply_event (filter (\<lambda>e. dle (ev_t_offset_s e) (Num (last ts - now))) (lf_events f0)) f0)"
proof -
  obtain rc f1 s1 where l: "load_pattern_file lf path f s = ((rc, f1), s1)" by (metis prod.exhaust)
  have rc: "rc = 0" using assms(1-3) l by (auto simp: loss_filter_init_def split: if_splits)
  have m: "monotonic (lf_events f1)" using load_result [OF l rc] by auto
  have f0: "lf_events f0 = lf_events f1" "lf_t0 f0 = now" "lf_current_idx f0 = 0" "enabled f0"
    using assms(1-3) l rc by (auto simp: loss_filter_init_def enabled_def Let_def)
  have "timed (lf_events f0)" using monotonic_timed assms(4) m f0(1) by simp
  moreover have "follows f0 f0" using f0 by (simp add: follows_def)
  ultimately show ?thesis using polls_follow [of f0 f0 ts] assms(5,6) f0 by simp
qed

text \<open>
  C40: The generator does not get stuck and its numbers are below one. From a state that is not zero, which
  initialisation makes sure of, every state is not zero and every number drawn is in \<open>[0, 1)\<close>.
\<close>

theorem rand_unit_bounds:
  assumes "lf_rng f \<noteq> 0" "rand_unit f = (u, h)"
  shows "lf_rng h \<noteq> 0 \<and> dle (Num 0) u \<and> dlt u (Num 1)"
proof -
  obtain v where v: "rand_unit f = (Num v, f\<lparr>lf_rng := xorshift64 (lf_rng f)\<rparr>)" "0 \<le> v" "v < 1" by (rule rand_unit_range)
  then have "u = Num v" "h = f\<lparr>lf_rng := xorshift64 (lf_rng f)\<rparr>" using assms(2) by simp_all
  then show ?thesis using v(2,3) xorshift_nonzero [OF assms(1)] by (auto simp: dle_def)
qed

text \<open>A second initialisation keeps the burst model of the first pattern.\<close>

lemma reinit_keeps_gilbert:
  assumes "loss_filter_init lf (Some path) seed now (loss_filter_close f) s = ((0, h), s')" "path \<noteq> []"
  shows "lf_gilbert_active h = lf_gilbert_active f \<and> lf_latency_ms h = lf_latency_ms f"
proof -
  let ?f = "loss_filter_close f"
  obtain rc f1 s1 where l: "load_pattern_file lf path ?f s = ((rc, f1), s1)" by (metis prod.exhaust)
  have rc: "rc = 0" using assms l by (auto simp: loss_filter_init_def loss_filter_close_def split: if_splits)
  obtain es where "f1 = ?f\<lparr>lf_events := es\<rparr>" using load_result [OF l rc] by blast
  then have "lf_gilbert_active f1 = lf_gilbert_active f" "lf_latency_ms f1 = lf_latency_ms f" by (simp_all add: loss_filter_close_def)
  moreover have "lf_gilbert_active h = lf_gilbert_active f1" "lf_latency_ms h = lf_latency_ms f1"
    using assms l rc by (auto simp: loss_filter_init_def loss_filter_close_def Let_def)
  ultimately show ?thesis by simp
qed

section \<open>Witnesses\<close>

definition a_filter :: loss_filter where
  "a_filter = lf_start\<lparr>lf_initialized := True, lf_enabled := True, lf_events := [\<lparr>ev_t_offset_s = Num 1, ev_action = ACT_DOWN, ev_params = []\<rparr>]\<rparr>"

theorem loss_filter_only_drops_witness:
  "feed [(0, 0, CHR ''a''), (2, 2, CHR ''b'')] a_filter = (''a'', snd (feed [(0, 0, CHR ''a''), (2, 2, CHR ''b'')] a_filter)) \<and>
    lf_packets_dropped (snd (feed [(0, 0, CHR ''a''), (2, 2, CHR ''b'')] a_filter)) = 1"
proof -
  have "fst (feed [(0, 0, CHR ''a''), (2, 2, CHR ''b'')] a_filter) = ''a''"
    by (simp add: wrap_csp_qfifo_write_def loss_filter_should_drop_def loss_filter_apply_latency_def advance_state_locked.simps
        drop_decision_def apply_event_def now_offset_s_def dle_def a_filter_def lf_start_def)
  then have e: "feed [(0, 0, CHR ''a''), (2, 2, CHR ''b'')] a_filter = (''a'', snd (feed [(0, 0, CHR ''a''), (2, 2, CHR ''b'')] a_filter))"
    by (metis prod.collapse)
  show ?thesis using loss_filter_only_drops [OF e] e by (simp add: enabled_def a_filter_def lf_start_def)
qed

theorem rand_unit_bounds_witness:
  "lf_rng (snd (rand_unit lf_start)) \<noteq> 0 \<and> dlt (fst (rand_unit lf_start)) (Num 1)"
  using rand_unit_bounds [of lf_start "fst (rand_unit lf_start)" "snd (rand_unit lf_start)"] by (simp add: lf_start_def)

definition a_scan :: "string \<Rightarrow> (dbl \<times> string) option" where
  "a_scan t = (case dropWhile is_space t of
     [] \<Rightarrow> None
   | c # r \<Rightarrow> if c \<in> {CHR ''0'', CHR ''1'', CHR ''2''} then Some (Num (of_int (int (of_char c) - 48)), r) else None)"

definition a_pattern :: os where
  "a_pattern = files_os [(''/p'', bytes_of (''1 down'' @ [CHR 0x0A]))]"

lemma a_pattern_loads:
  "load_pattern_file a_scan ''/p'' lf_start a_pattern =
     ((0, lf_start\<lparr>lf_events := [\<lparr>ev_t_offset_s = Num 1, ev_action = ACT_DOWN, ev_params = []\<rparr>]\<rparr>), a_pattern)"
proof -
  have o: "fopen_r ''/p'' a_pattern = (Some (bytes_of (''1 down'' @ [CHR 0x0A])), a_pattern)"
    by (simp add: fopen_r_def a_pattern_def io_simps)
  have m: "malloc a_pattern = (True, a_pattern)" by (simp add: a_pattern_def io_simps)
  have s: "string_of (bytes_of (''1 down'' @ [CHR 0x0A])) = ''1 down'' @ [CHR 0x0A]" by (rule string_of_bytes_of)
  have l: "fgets_lines 256 (''1 down'' @ [CHR 0x0A]) = [''1 down'' @ [CHR 0x0A]]" by (simp add: fgets_lines.simps)
  have p: "parse_pattern_line a_scan (''1 down'' @ [CHR 0x0A]) = (0, Some \<lparr>ev_t_offset_s = Num 1, ev_action = ACT_DOWN, ev_params = []\<rparr>)"
    by (simp add: parse_pattern_line_def a_scan_def is_space_def)
  show ?thesis unfolding load_pattern_file_def o prod.case option.case s l Let_def using p m by (simp add: monotonic_def)
qed

theorem loss_schedule_by_time_witness:
  "\<exists>f0 s'. loss_filter_init a_scan (Some ''/p'') None 0 lf_start a_pattern = ((0, f0), s') \<and>
     lf_link_up f0 \<and> \<not> lf_link_up (polls [0, 2] f0)"
proof -
  let ?e = "\<lparr>ev_t_offset_s = Num 1, ev_action = ACT_DOWN, ev_params = []\<rparr>"
  let ?f0 = "lf_start\<lparr>lf_events := [?e], lf_initialized := True, lf_enabled := True\<rparr>"
  have i: "loss_filter_init a_scan (Some ''/p'') None 0 lf_start a_pattern = ((0, ?f0), a_pattern)"
    using a_pattern_loads by (simp add: loss_filter_init_def lf_start_def)
  have "mode (polls [0, 2] ?f0) = mode (apply_event ?e ?f0)"
    using loss_schedule_by_time [OF i, of "[0, 2]"] by (simp add: lf_start_def dle_def)
  then have "\<not> lf_link_up (polls [0, 2] ?f0)" by (simp add: mode_def apply_event_def)
  then show ?thesis using i by (intro exI [of _ ?f0] exI [of _ a_pattern]) (simp add: lf_start_def)
qed

end
