(* ===== verification/Agent_Main.thy ===== *)
theory Agent_Main
  imports Loss_Filter Agent_Total
begin

text \<open>
  The agent's \<open>main\<close>, \<open>satdeploy-agent/src/main.c\<close>: the options, the interface, and the order of the
  start up to the accept loop of the deploy handler. What \<open>getopt_long\<close> and the CSP library return are
  arguments; the calls are kept in a list. Banner, usage text, signal handlers and the body of the router
  thread are not modelled. The build is the one with the loss filter; without it \<open>loss_filter_init\<close> is a stub
  that returns 0, as here without a pattern. Shown: the agent serves only after a complete start, and a start that is
  refused changes nothing.
\<close>

section \<open>Definitions\<close>

definition DEFAULT_NODE_ADDR :: int where "DEFAULT_NODE_ADDR = 5425"
definition DEFAULT_INTERFACE :: string where "DEFAULT_INTERFACE = ''ZMQ''"
definition DEFAULT_ZMQ_HOST :: string where "DEFAULT_ZMQ_HOST = ''localhost''"
definition DEFAULT_CAN_DEVICE :: string where "DEFAULT_CAN_DEVICE = ''can0''"
definition DEFAULT_KISS_DEVICE :: string where "DEFAULT_KISS_DEVICE = ''/dev/ttyS1''"
definition DEFAULT_BAUDRATE :: u32 where "DEFAULT_BAUDRATE = 115200"
definition DEFAULT_NETMASK :: int where "DEFAULT_NETMASK = 8"

text \<open>\<open>atoi\<close> of the C library: \<open>strtol\<close> in base ten, which saturates at 64 bits, cut down to \<open>int\<close>.\<close>

definition strtol10 :: "string \<Rightarrow> int" where
  "strtol10 t =
     (let t = dropWhile is_space t;
          neg = (t \<noteq> [] \<and> hd t = CHR ''-'');
          t = (if t \<noteq> [] \<and> (hd t = CHR ''-'' \<or> hd t = CHR ''+'') then tl t else t);
          n = int (dec_value (takeWhile is_dec t))
      in max (- (2 ^ 63)) (min (2 ^ 63 - 1) (if neg then - n else n)))"

definition atoi :: "string \<Rightarrow> int" where
  "atoi t = sint (word_of_int (strtol10 t) :: 32 word)"

record agent_conf =
  ac_interface :: string
  ac_port :: "string option"
  ac_node_addr :: int
  ac_netmask :: int
  ac_baudrate :: u32
  ac_sub_port :: u16
  ac_pub_port :: u16

text \<open>The two proxy ports are constants of the CSP library.\<close>

definition default_conf :: "u16 \<Rightarrow> u16 \<Rightarrow> agent_conf" where
  "default_conf sub_port pub_port = \<lparr>ac_interface = DEFAULT_INTERFACE, ac_port = None, ac_node_addr = DEFAULT_NODE_ADDR,
     ac_netmask = DEFAULT_NETMASK, ac_baudrate = DEFAULT_BAUDRATE, ac_sub_port = sub_port, ac_pub_port = pub_port\<rparr>"

text \<open>The loop over what \<open>getopt_long\<close> returns, with \<open>optarg\<close>; on the left, the exit status.\<close>

fun agent_options :: "(char \<times> string) list \<Rightarrow> agent_conf \<Rightarrow> int + agent_conf" where
  "agent_options [] c = Inr c"
| "agent_options ((opt, optarg) # os) c =
     (if opt = CHR ''i'' then agent_options os (c\<lparr>ac_interface := optarg\<rparr>)
      else if opt = CHR ''p'' then agent_options os (c\<lparr>ac_port := Some optarg\<rparr>)
      else if opt = CHR ''a'' then agent_options os (c\<lparr>ac_node_addr := atoi optarg\<rparr>)
      else if opt = CHR ''b'' then agent_options os (c\<lparr>ac_baudrate := word_of_int (atoi optarg)\<rparr>)
      else if opt = CHR ''m'' then agent_options os (c\<lparr>ac_netmask := atoi optarg\<rparr>)
      else if opt = CHR ''S'' then agent_options os (c\<lparr>ac_sub_port := word_of_int (atoi optarg)\<rparr>)
      else if opt = CHR ''P'' then agent_options os (c\<lparr>ac_pub_port := word_of_int (atoi optarg)\<rparr>)
      else if opt = CHR ''V'' then Inl 0
      else if opt = CHR ''h'' then Inl 0
      else Inl 1)"

definition default_port :: "agent_conf \<Rightarrow> agent_conf" where
  "default_port c =
     (if ac_port c \<noteq> None then c
      else if ac_interface c = ''ZMQ'' then c\<lparr>ac_port := Some DEFAULT_ZMQ_HOST\<rparr>
      else if ac_interface c = ''CAN'' then c\<lparr>ac_port := Some DEFAULT_CAN_DEVICE\<rparr>
      else if ac_interface c = ''KISS'' then c\<lparr>ac_port := Some DEFAULT_KISS_DEVICE\<rparr>
      else c)"

text \<open>
  The calls that open an interface, with their arguments; the CSP library answers with an error code
  and whether it set the interface pointer.
\<close>

datatype iface_call =
    Zmqhub_init "string option" int int u16 u16
  | Socketcan_open "string option" int nat
  | Kiss_open "string option" u32 int

record iface =
  if_name :: string
  if_addr :: int
  if_netmask :: int

datatype boot_call = Load_pattern | Csp_init | Open_iface iface_call | Set_route iface | Add_iface iface | Bind_deploy | Bind_services
  | Start_router | Serve | Join_router

text \<open>The interface, \<open>None\<close> when it could not be opened, and the calls made so far.\<close>

definition iface_init :: "(iface_call \<Rightarrow> int \<times> bool) \<Rightarrow> agent_conf \<Rightarrow> boot_call list \<Rightarrow> (stop + iface option) \<times> boot_call list" where
  "iface_init csp c calls =
     (let added = (\<lambda>name ok calls.
            if \<not> ok then (Inl Null_deref, calls)
            else let i = \<lparr>if_name = name, if_addr = ac_node_addr c, if_netmask = ac_netmask c\<rparr>;
                     calls = calls @ [Set_route i];
                     calls = calls @ [Add_iface i]
                 in (Inr (Some i), calls))
      in if ac_interface c = ''ZMQ'' then
           let call = Zmqhub_init (ac_port c) (ac_node_addr c) (ac_netmask c) (ac_sub_port c) (ac_pub_port c);
               (rc, ok) = csp call; calls = calls @ [Open_iface call]
           in if rc \<noteq> 0 \<or> \<not> ok then (Inr None, calls) else added ''zmq'' ok calls
         else if ac_interface c = ''CAN'' then
           let call = Socketcan_open (ac_port c) (ac_node_addr c) 1000000;
               (rc, ok) = csp call; calls = calls @ [Open_iface call]
           in if rc \<noteq> 0 then (Inr None, calls) else added ''can'' ok calls
         else if ac_interface c = ''KISS'' then
           let call = Kiss_open (ac_port c) (ac_baudrate c) (ac_node_addr c);
               (rc, ok) = csp call; calls = calls @ [Open_iface call]
           in if rc \<noteq> 0 then (Inr None, calls) else added ''kiss'' ok calls
         else (Inr None, calls))"

text \<open>
  What \<open>main\<close> is started with: the options as \<open>getopt_long\<close> gives them, the environment of the loss
  filter, the monotonic clock, and the answers of the CSP library.
\<close>

record boot =
  bt_options :: "(char \<times> string) list"
  bt_lf :: "string \<Rightarrow> (dbl \<times> string) option"
  bt_pattern :: "string option"
  bt_seed :: "u64 option"
  bt_now :: rat
  bt_sub_port :: u16
  bt_pub_port :: u16
  bt_csp :: "iface_call \<Rightarrow> int \<times> bool"
  bt_bind :: int
  bt_listen :: int

text \<open>
  The exit status with the replies that were sent, the state of the filter, and the calls in their order.
  The router thread is taken to start: the code does not look at the result of \<open>pthread_create\<close>.
\<close>

definition agent_main ::
  "boot \<Rightarrow> 'e env \<Rightarrow> bytes option option list \<Rightarrow> loss_filter \<Rightarrow> 'e agent \<Rightarrow> os \<Rightarrow>
     boot_call list \<times> (stop + int \<times> bytes option list \<times> 'e agent) \<times> loss_filter \<times> os" where
  "agent_main b ev conns f ag s =
     (case agent_options (bt_options b) (default_conf (bt_sub_port b) (bt_pub_port b)) of
        Inl rc \<Rightarrow> ([], Inr (rc, [], ag), f, s)
      | Inr c \<Rightarrow>
          let c = default_port c;
              ((rc, f), s) = loss_filter_init (bt_lf b) (bt_pattern b) (bt_seed b) (bt_now b) f s;
              calls = [Load_pattern]
          in if rc \<noteq> 0 then (calls, Inr (1, [], ag), f, s)
             else let calls = calls @ [Csp_init];
                      (ifc, calls) = iface_init (bt_csp b) c calls
             in (case ifc of
                   Inl x \<Rightarrow> (calls, Inl x, f, s)
                 | Inr None \<Rightarrow> (calls, Inr (1, [], ag), loss_filter_close f, s)
                 | Inr (Some _) \<Rightarrow>
                     let calls = calls @ [Bind_deploy]
                     in if deploy_handler_init (bt_bind b) (bt_listen b) \<noteq> 0
                        then (calls, Inr (1, [], ag), loss_filter_close f, s)
                        else let calls = calls @ [Bind_services];
                                 calls = calls @ [Start_router];
                                 calls = calls @ [Serve]
                        in (case deploy_handler_loop ev conns [] ag s of
                              (Inl x, s) \<Rightarrow> (calls, Inl x, f, s)
                            | (Inr (sent, ag), s) \<Rightarrow>
                                let calls = calls @ [Join_router] in (calls, Inr (0, sent, ag), loss_filter_close f, s))))"

section \<open>Lemmas\<close>

text \<open>Decimal text that fits an \<open>int\<close> is read back.\<close>

lemma atoi_decimal:
  assumes "n < 2 ^ 31"
  shows "atoi (dec_digits n) = int n"
proof -
  let ?t = "dec_digits n"
  have d: "\<forall>c \<in> set ?t. is_dec c" by (rule dec_digits_dec)
  have ne: "?t \<noteq> []" by (simp add: dec_digits.simps [of n])
  then have "is_dec (hd ?t)" using d by simp
  then have h: "\<not> is_space (hd ?t)" "hd ?t \<noteq> CHR ''-''" "hd ?t \<noteq> CHR ''+''" by (auto simp: is_dec_def is_space_def)
  have dw: "dropWhile is_space ?t = ?t" using h(1) by (cases ?t) auto
  have tw: "takeWhile is_dec ?t = ?t" using d by (simp add: takeWhile_eq_all_conv)
  have "strtol10 ?t = int n" using h(2,3) assms by (simp add: strtol10_def dw tw dec_value_digits)
  then show ?thesis using assms unfolding atoi_def sint_sbintrunc' by (simp add: signed_take_bit_int_eq_self)
qed

lemma load_frame: "frame P s (snd (load_pattern_file lf p f s))"
  unfolding load_pattern_file_def Let_def by (intro frame_steps frames)

lemma init_frame: "frame P s (snd (loss_filter_init lf p seed now f s))"
proof -
  obtain rc h s' where "load_pattern_file lf (the p) f s = ((rc, h), s')" by (metis prod.exhaust)
  then show ?thesis using load_frame [of P s lf "the p" f] frame_refl by (auto simp: loss_filter_init_def Let_def)
qed

lemma iface_calls:
  assumes "iface_init csp c calls = (r, calls')"
  shows "Serve \<in> set calls' \<longleftrightarrow> Serve \<in> set calls"
    "r = Inr (Some i) \<Longrightarrow> \<exists>call. calls' = calls @ [Open_iface call, Set_route i, Add_iface i] \<and> csp call = (0, True) \<and>
      if_addr i = ac_node_addr c \<and> if_netmask i = ac_netmask c"
  using assms by (auto simp: iface_init_def Let_def split: if_splits prod.splits)

lemma handler_init_iff: "deploy_handler_init b l = 0 \<longleftrightarrow> b = 0 \<and> l = 0"
  by (simp add: deploy_handler_init_def)

lemma default_port_keeps [simp]: "ac_node_addr (default_port c) = ac_node_addr c" "ac_netmask (default_port c) = ac_netmask c"
  by (simp_all add: default_port_def)

lemma options_refused: "agent_options os c = Inl rc \<Longrightarrow> rc = 0 \<or> rc = 1"
  by (induction os c rule: agent_options.induct) (auto split: if_splits)

section \<open>Properties\<close>

text \<open>
  C39: The agent serves only after a complete start. When \<open>main\<close> gets to the deploy handler, the options
  were accepted, the loss pattern had loaded without an error, and before anything of CSP was
  started; then CSP opened the interface without an error, it has the configured address and netmask and
  is the default route, and binding the deploy port and listening on it succeeded, before the port for
  all others was bound. No file has changed until then; the answers and the files are those of the
  handler in that state, and when it returns the exit status is zero and the filter is closed. When any of
  these steps fails, no connection is served, the agent's state is as it was, no file has changed,
  and the exit status is 1 (0 only for \<open>-V\<close> and \<open>-h\<close>), unless CSP set no interface without reporting an
  error, which \<open>main\<close> then follows.
\<close>

theorem agent_main_gate:
  assumes "agent_main b ev conns f ag s = (calls, r, f', s')"
    "loss_filter_init (bt_lf b) (bt_pattern b) (bt_seed b) (bt_now b) f s = ((lrc, f1), s1)"
  shows "if Serve \<in> set calls
    then \<exists>c call i. agent_options (bt_options b) (default_conf (bt_sub_port b) (bt_pub_port b)) = Inr c \<and> lrc = 0 \<and>
      bt_csp b call = (0, True) \<and> if_addr i = ac_node_addr c \<and> if_netmask i = ac_netmask c \<and> bt_bind b = 0 \<and> bt_listen b = 0 \<and>
      take 9 calls = [Load_pattern, Csp_init, Open_iface call, Set_route i, Add_iface i, Bind_deploy, Bind_services, Start_router, Serve] \<and>
      frame (\<lambda>_. False) s s1 \<and> snd (deploy_handler_loop ev conns [] ag s1) = s' \<and>
      map_sum id (\<lambda>(rc, sent, ag'). (sent, ag')) r = fst (deploy_handler_loop ev conns [] ag s1) \<and> (\<forall>x. r = Inr x \<longrightarrow> fst x = 0 \<and> \<not> lf_initialized f')
    else frame (\<lambda>_. False) s s' \<and>
      (\<forall>rc sent ag'. r = Inr (rc, sent, ag') \<longrightarrow> sent = [] \<and> ag' = ag \<and>
         (rc = 1 \<or> rc = 0 \<and> agent_options (bt_options b) (default_conf (bt_sub_port b) (bt_pub_port b)) = Inl 0))"
proof (cases "agent_options (bt_options b) (default_conf (bt_sub_port b) (bt_pub_port b))")
  case (Inl rc)
  then show ?thesis using assms frame_refl options_refused [OF Inl] by (auto simp: agent_main_def)
next
  case (Inr c)
  have fr: "frame (\<lambda>_. False) s s1" using init_frame [of "\<lambda>_. False" s "bt_lf b" "bt_pattern b" "bt_seed b" "bt_now b" f] assms(2) by simp
  obtain o1 cs where io: "iface_init (bt_csp b) (default_port c) [Load_pattern, Csp_init] = (o1, cs)" by force
  note ic = iface_calls [OF io]
  show ?thesis
  proof (cases "lrc = 0 \<and> (\<exists>i. o1 = Inr (Some i)) \<and> bt_bind b = 0 \<and> bt_listen b = 0")
    case False
    then have "Serve \<notin> set calls" "s' = s1" "\<forall>rc sent ag'. r = Inr (rc, sent, ag') \<longrightarrow> sent = [] \<and> ag' = ag \<and> rc = 1"
      using assms Inr io ic(1) by (auto simp: agent_main_def handler_init_iff Let_def split: if_splits sum.splits option.splits)
    then show ?thesis using fr by simp
  next
    case True
    then obtain i0 call where ready: "lrc = 0" "o1 = Inr (Some i0)" "bt_bind b = 0" "bt_listen b = 0"
      "cs = [Load_pattern, Csp_init, Open_iface call, Set_route i0, Add_iface i0]" "bt_csp b call = (0, True)"
      "if_addr i0 = ac_node_addr c" "if_netmask i0 = ac_netmask c" using ic(2) by auto
    obtain l s2 where lp: "deploy_handler_loop ev conns [] ag s1 = (l, s2)" by force
    show ?thesis using assms Inr io ready lp fr
      by (cases l) (auto simp: agent_main_def handler_init_iff loss_filter_close_def Let_def intro!: exI [of _ c] exI [of _ call] exI [of _ i0])
  qed
qed

section \<open>Witnesses\<close>

definition a_boot :: boot where
  "a_boot = \<lparr>bt_options = [(CHR ''a'', ''7'')], bt_lf = a_scan, bt_pattern = None, bt_seed = None, bt_now = 0, bt_sub_port = 6000, bt_pub_port = 7000,
     bt_csp = (\<lambda>_. (0, True)), bt_bind = 0, bt_listen = 0\<rparr>"

theorem agent_main_gate_witness:
  "\<exists>calls f' s'. agent_main a_boot an_env [] lf_start an_agent (files_os []) = (calls, Inr (0, [], an_agent), f', s') \<and>
    take 2 calls = [Load_pattern, Csp_init] \<and> Serve \<in> set calls"
proof -
  obtain calls r f' s' where m: "agent_main a_boot an_env [] lf_start an_agent (files_os []) = (calls, r, f', s')" by (metis prod_cases4)
  obtain lrc f1 s1 where li: "loss_filter_init (bt_lf a_boot) (bt_pattern a_boot) (bt_seed a_boot) (bt_now a_boot) lf_start (files_os []) = ((lrc, f1), s1)"
    by (metis prod.exhaust)
  have e: "Serve \<in> set calls" "r = Inr (0, [], an_agent)"
    using m by (auto simp: agent_main_def a_boot_def default_conf_def DEFAULT_INTERFACE_def default_port_def DEFAULT_ZMQ_HOST_def iface_init_def Let_def
        loss_filter_init_def lf_start_def deploy_handler_init_def)
  then obtain call i where "take 9 calls = [Load_pattern, Csp_init, Open_iface call, Set_route i, Add_iface i, Bind_deploy, Bind_services, Start_router, Serve]"
    using agent_main_gate [OF m li] by auto
  then have "take 2 calls = [Load_pattern, Csp_init]" by (cases calls; cases "tl calls") auto
  then show ?thesis using m e by blast
qed

end
