(* ===== verification/Output.thy ===== *)
theory Output
  imports Ground_Cli
begin

text \<open>
  The console of the ground station, \<open>satdeploy-apm/src/output.c\<close> and \<open>output.h\<close>: each function gives the
  text it prints. \<open>shown\<close> is what the console entries of the commands come to. Shown: the sizes in
  the version table are whole and right to half a tenth of their unit.
\<close>

section \<open>Definitions\<close>

definition COLOR_RESET :: string where "COLOR_RESET = CHR 0x1B # ''[0m''"
definition COLOR_GREEN :: string where "COLOR_GREEN = CHR 0x1B # ''[32m''"
definition COLOR_YELLOW :: string where "COLOR_YELLOW = CHR 0x1B # ''[33m''"
definition COLOR_RED :: string where "COLOR_RED = CHR 0x1B # ''[31m''"
definition COLOR_BLUE :: string where "COLOR_BLUE = CHR 0x1B # ''[34m''"
definition COLOR_WHITE :: string where "COLOR_WHITE = CHR 0x1B # ''[37m''"
definition COLOR_BRIGHT_WHITE :: string where "COLOR_BRIGHT_WHITE = CHR 0x1B # ''[97m''"
definition COLOR_BRIGHT_BLACK :: string where "COLOR_BRIGHT_BLACK = CHR 0x1B # ''[90m''"
definition COLOR_BOLD :: string where "COLOR_BOLD = CHR 0x1B # ''[1m''"

definition SYM_CHECK :: string where "SYM_CHECK = ''>''"
definition SYM_CROSS :: string where "SYM_CROSS = ''x''"
definition SYM_ARROW :: string where "SYM_ARROW = ''>''"
definition SYM_BULLET :: string where "SYM_BULLET = ''*''"

definition COL_APP_WIDTH :: nat where "COL_APP_WIDTH = 16"
definition COL_STATUS_WIDTH :: nat where "COL_STATUS_WIDTH = 14"
definition COL_HASH_WIDTH :: nat where "COL_HASH_WIDTH = 10"
definition COL_TIMESTAMP_WIDTH :: nat where "COL_TIMESTAMP_WIDTH = 20"

definition newline :: string where "newline = [CHR 0x0A]"
definition tab :: string where "tab = [CHR 0x09]"

text \<open>\<open>%-*s\<close>: padded with blanks on the right to the width, never cut.\<close>

definition left_justify :: "nat \<Rightarrow> string \<Rightarrow> string" where
  "left_justify w t = t @ replicate (w - length t) CHR '' ''"

definition safe_msg :: "string option \<Rightarrow> string" where
  "safe_msg m = (case m of None \<Rightarrow> ''(no message)'' | Some t \<Rightarrow> t)"

definition output_success :: "string option \<Rightarrow> string" where
  "output_success m = COLOR_GREEN @ SYM_CHECK @ '' '' @ safe_msg m @ COLOR_RESET @ newline"

definition output_warning :: "string option \<Rightarrow> string" where
  "output_warning m = COLOR_YELLOW @ ''[WARNING] '' @ safe_msg m @ COLOR_RESET @ newline"

definition output_error :: "string option \<Rightarrow> string" where
  "output_error m = COLOR_RED @ ''[ERROR] '' @ safe_msg m @ COLOR_RESET @ newline"

definition output_status_header :: string where
  "output_status_header = COLOR_BRIGHT_BLACK @ ''    '' @ left_justify COL_APP_WIDTH ''APP'' @ tab @ left_justify COL_STATUS_WIDTH ''STATUS'' @ tab @
     left_justify COL_HASH_WIDTH ''HASH'' @ tab @ ''PATH'' @ COLOR_RESET @ newline"

definition output_separator :: "int \<Rightarrow> string" where
  "output_separator width = COLOR_BRIGHT_BLACK @ ''    '' @ replicate (nat width) CHR ''-'' @ COLOR_RESET @ newline"

text \<open>The 8 leading characters of a hash, a dash when there is none.\<close>

definition hash_short :: "string option \<Rightarrow> string" where
  "hash_short h = (case h of None \<Rightarrow> ''-'' | Some t \<Rightarrow> if t = [] then ''-'' else take 8 t)"

definition status_style :: "string \<Rightarrow> bool \<Rightarrow> bool \<Rightarrow> string \<times> string" where
  "status_style status is_running has_service =
     (if \<not> has_service then (SYM_BULLET, COLOR_GREEN)
      else if is_running then (SYM_CHECK, COLOR_GREEN)
      else if status = ''failed'' then (SYM_CROSS, COLOR_RED)
      else if status = ''not deployed'' then (SYM_BULLET, COLOR_YELLOW)
      else if status = ''deployed'' then (SYM_BULLET, COLOR_GREEN)
      else (SYM_BULLET, COLOR_YELLOW))"

definition output_status_row :: "string \<Rightarrow> string \<Rightarrow> string option \<Rightarrow> string option \<Rightarrow> string option \<Rightarrow> bool \<Rightarrow> bool \<Rightarrow> string" where
  "output_status_row app_name status hash path provenance is_running has_service =
     (let (symbol, color) = status_style status is_running has_service;
          hash_col = (case provenance of
             Some p \<Rightarrow> if p \<noteq> [] then cstr 64 (hash_short hash @ '' ('' @ p @ '')'') else cstr 64 (hash_short hash)
           | None \<Rightarrow> cstr 64 (hash_short hash))
      in ''  '' @ color @ symbol @ COLOR_RESET @ '' '' @ left_justify COL_APP_WIDTH app_name @ tab @
         color @ left_justify COL_STATUS_WIDTH status @ COLOR_RESET @ tab @
         COLOR_WHITE @ left_justify 10 hash_col @ COLOR_RESET @ tab @
         COLOR_BRIGHT_BLACK @ (case path of Some p \<Rightarrow> p | None \<Rightarrow> []) @ COLOR_RESET @ newline)"

definition output_versions_header :: string where
  "output_versions_header = COLOR_BRIGHT_BLACK @ ''    '' @ left_justify COL_HASH_WIDTH ''HASH'' @ tab @ left_justify COL_TIMESTAMP_WIDTH ''TIMESTAMP'' @ tab @
     left_justify 8 ''STATUS'' @ tab @ left_justify 10 ''SIZE'' @ tab @ ''PATH'' @ COLOR_RESET @ newline"

text \<open>
  Rounding to the nearest integer, ties to the even one; the conversion of a 64-bit count to a
  \<open>double\<close>, which keeps 53 bits; and \<open>%.1f\<close> of its quotient by a power of two, which is exact.
\<close>

definition round_div :: "nat \<Rightarrow> nat \<Rightarrow> nat" where
  "round_div n u = (let q = n div u; r = n mod u in if 2 * r < u \<or> (2 * r = u \<and> even q) then q else q + 1)"

definition to_double :: "nat \<Rightarrow> nat" where
  "to_double n = (case find (\<lambda>k. n < 2 ^ (53 + k)) [0..<12] of None \<Rightarrow> n | Some k \<Rightarrow> round_div n (2 ^ k) * 2 ^ k)"

definition fixed1 :: "nat \<Rightarrow> nat \<Rightarrow> string" where
  "fixed1 n u = (let t = round_div (10 * n) u in dec_digits (t div 10) @ ''.'' @ dec_digits (t mod 10))"

definition format_size :: "nat \<Rightarrow> u64 \<Rightarrow> string" where
  "format_size buf_len bytes =
     cstr buf_len
       (if bytes = 0 then ''-''
        else if bytes < 1024 then dec_digits (unat bytes) @ '' B''
        else if bytes < 1024 * 1024 then fixed1 (to_double (unat bytes)) 1024 @ '' KB''
        else if bytes < 1024 * 1024 * 1024 then fixed1 (to_double (unat bytes)) (1024 * 1024) @ '' MB''
        else fixed1 (to_double (unat bytes)) (1024 * 1024 * 1024) @ '' GB'')"

definition output_version_row :: "string option \<Rightarrow> string option \<Rightarrow> bool \<Rightarrow> u64 \<Rightarrow> string option \<Rightarrow> string" where
  "output_version_row hash timestamp is_deployed size_bytes path =
     (let (symbol, color, status_text) = (if is_deployed then (SYM_ARROW, COLOR_GREEN, ''deployed'') else (SYM_BULLET, COLOR_BLUE, ''backup''));
          dash = (\<lambda>t. case t of Some x \<Rightarrow> x | None \<Rightarrow> ''-'')
      in ''  '' @ color @ symbol @ COLOR_RESET @ '' '' @ color @ left_justify COL_HASH_WIDTH (hash_short hash) @ COLOR_RESET @ tab @
         COLOR_BRIGHT_BLACK @ left_justify COL_TIMESTAMP_WIDTH (dash timestamp) @ COLOR_RESET @ tab @
         color @ left_justify 8 status_text @ COLOR_RESET @ tab @
         COLOR_WHITE @ left_justify 10 (format_size 16 size_bytes) @ COLOR_RESET @ tab @
         COLOR_BRIGHT_BLACK @ dash path @ COLOR_RESET @ newline)"

definition output_title :: "string \<Rightarrow> string" where
  "output_title title = COLOR_BOLD @ title @ COLOR_RESET @ newline"

definition output_step :: "int \<Rightarrow> int \<Rightarrow> string \<Rightarrow> string" where
  "output_step current tot message =
     COLOR_BRIGHT_WHITE @ ''['' @ show_int current @ ''/'' @ show_int tot @ '']'' @ COLOR_RESET @ '' '' @ message @ newline"

text \<open>What a console entry of the commands prints.\<close>

fun shown :: "console \<Rightarrow> string" where
  "shown (Con_success m) = output_success (Some m)"
| "shown (Con_error m) = output_error (Some m)"
| "shown (Con_status app status hash path provenance running service) =
     output_status_row app status (Some hash) (Some path) provenance running service"
| "shown (Con_version hash timestamp deployed bytes path) =
     output_version_row (Some hash) (Some timestamp) deployed (of_nat bytes) (Some path)"
| "shown (Con_log t) = t @ newline"

section \<open>Sizes\<close>

lemma round_div_near:
  assumes "0 < u"
  shows "2 * \<bar>int n - int (round_div n u) * int u\<bar> \<le> int u"
proof -
  have n: "int n = int (n div u) * int u + int (n mod u)" by (metis div_mult_mod_eq of_nat_add of_nat_mult)
  have r: "n mod u < u" using assms by simp
  show ?thesis
  proof (cases "round_div n u = n div u")
    case True
    then have "2 * (n mod u) \<le> u" by (auto simp: round_div_def Let_def split: if_splits)
    then show ?thesis using True n by simp
  next
    case False
    then have q: "round_div n u = n div u + 1" "u \<le> 2 * (n mod u)" by (auto simp: round_div_def Let_def split: if_splits)
    then show ?thesis using n r by (simp add: algebra_simps)
  qed
qed

lemma round_div_le: "0 < u \<Longrightarrow> round_div n u \<le> n div u + 1"
  by (simp add: round_div_def Let_def)

lemma to_double_exact: "n < 2 ^ 53 \<Longrightarrow> to_double n = n"
  by (simp add: to_double_def round_div_def upt_rec)

text \<open>The unit of a size of at least a kilobyte.\<close>

definition size_unit :: "nat \<Rightarrow> nat \<times> string" where
  "size_unit n = (if n < 2 ^ 20 then (2 ^ 10, ''KB'') else if n < 2 ^ 30 then (2 ^ 20, ''MB'') else (2 ^ 30, ''GB''))"

lemma fixed1_fits:
  assumes "n < 2 ^ 53" "u = fst (size_unit n)"
  shows "length (fixed1 n u) \<le> 10"
proof -
  have u: "0 < u" using assms(2) by (simp add: size_unit_def)
  have "10 * n div u < 10 * 2 ^ 23"
    using assms by (auto simp: size_unit_def less_mult_imp_div_less split: if_splits)
  then have "round_div (10 * n) u \<le> 10 * 2 ^ 23" using round_div_le [OF u, of "10 * n"] by linarith
  then have "round_div (10 * n) u div 10 < 10 ^ 8" by simp
  then have "length (dec_digits (round_div (10 * n) u div 10)) \<le> 8" by (intro length_dec_digits) simp_all
  moreover have "length (dec_digits (round_div (10 * n) u mod 10)) \<le> 1" by (intro length_dec_digits) simp_all
  ultimately show ?thesis by (simp add: fixed1_def Let_def)
qed

text \<open>
  A size below \<open>2 ^ 53\<close> bytes is shown whole, not cut by the 16 bytes of \<open>size_buf\<close>, and right: the exact
  count below a kilobyte, else tenths of the unit, off by at most half a tenth.
\<close>

theorem format_size_reads:
  assumes "0 < unat n" "unat n < 2 ^ 53"
  shows "if unat n < 1024 then format_size 16 n = dec_digits (unat n) @ '' B''
    else \<exists>t. format_size 16 n = dec_digits (t div 10) @ ''.'' @ dec_digits (t mod 10) @ '' '' @ snd (size_unit (unat n)) \<and>
      2 * \<bar>int (10 * unat n) - int t * int (fst (size_unit (unat n)))\<bar> \<le> int (fst (size_unit (unat n)))"
proof (cases "unat n < 1024")
  case True
  have "length (dec_digits (unat n)) \<le> 4" using True by (intro length_dec_digits) simp_all
  then show ?thesis using True assms(1) by (auto simp: format_size_def cstr_def word_less_nat_alt)
next
  case False
  let ?u = "fst (size_unit (unat n))" and ?name = "snd (size_unit (unat n))"
  let ?t = "round_div (10 * unat n) ?u"
  have name: "length ?name \<le> 2" by (simp add: size_unit_def)
  have "format_size 16 n = cstr 16 (fixed1 (unat n) ?u @ '' '' @ ?name)"
    using False assms to_double_exact [OF assms(2)] by (auto simp: format_size_def size_unit_def word_less_nat_alt)
  moreover have "length (fixed1 (unat n) ?u @ '' '' @ ?name) \<le> 15"
    using fixed1_fits [OF assms(2) refl] name by simp
  ultimately have "format_size 16 n = fixed1 (unat n) ?u @ '' '' @ ?name" by (simp add: cstr_def)
  then have "format_size 16 n = dec_digits (?t div 10) @ ''.'' @ dec_digits (?t mod 10) @ '' '' @ ?name" by (simp add: fixed1_def Let_def)
  moreover have "2 * \<bar>int (10 * unat n) - int ?t * int ?u\<bar> \<le> int ?u" by (rule round_div_near) (simp add: size_unit_def)
  ultimately show ?thesis using False by auto
qed

theorem format_size_reads_witness:
  "format_size 16 100 = ''100 B'' \<and> (\<exists>t. format_size 16 1536 = dec_digits (t div 10) @ ''.'' @ dec_digits (t mod 10) @ '' KB'')"
proof -
  have "dec_digits 100 = ''100''" by code_simp
  then show ?thesis using format_size_reads [of 100] format_size_reads [of 1536] by (auto simp: size_unit_def)
qed

end
