(* ===== verification/Spec2Isabelle.thy ===== *)
theory Spec2Isabelle
  imports Ground_System Dtp_Passes Agent_Main Output
begin

text \<open>
  \<^bold>\<open>Verification of satDeploy\<close>

  satDeploy deploys files to a satellite over a lossy link. A ground station (\<open>src/satdeploy-apm\<close>, commands
  of the \<open>csh\<close> shell) asks an agent on the satellite (\<open>src/satdeploy-agent\<close>) to pull a file; the agent
  fetches it from a server the station runs for the transfer, verifies it, keeps the version it
  replaces, and installs it. Earlier versions can be listed and rolled back. This development models the C
  code of both sides and proves what makes it correct, up to the two together.

  \<^bold>\<open>Parts and theories\<close>, in the order of the calls:

  \<^item> \<open>Prelude\<close>: words, bytes, C strings and buffers. \<open>Os\<close>: the calls of the operating system
    over an explicit state, and the locale \<open>step_relation\<close> by which a whole operation inherits a relation
    (frame, no failure, unchanged listing) from its calls.
  \<^item> \<open>Sha256\<close>: \<open>svu/ci_sha256.c\<close> and both \<open>sha256.c\<close>. The locale \<open>incremental_hash\<close>, interpreted on
    each, says that any split of the input gives the digest of the reference \<open>sha256\<close>.
  \<^item> \<open>Svu_Proto\<close> (\<open>svu_proto.h\<close>), \<open>Runs\<close>, \<open>Ci_Svu\<close> (\<open>ci_svu.c\<close>): wire format and receiver of the self-verifying
    upload. The locale \<open>verified_receiver\<close> is the contract of the receiver: a completed transfer is the
    source file or exhibits a collision; the reported ranges are the maximal missing or corrupt
    runs; asking for them again converges.
  \<^item> \<open>Svu_Serve\<close> (\<open>svu_serve.c\<close>, \<open>svu_serve_session.c\<close>), \<open>Svu_Session\<close> (\<open>svu_session.c\<close>): server and client.
    The client is sound over any link and live over one that loses nothing.
  \<^item> \<open>Backup_Manager\<close>, \<open>Session_State\<close>, \<open>Svu_Transfer\<close>, \<open>App_Metadata\<close> (the agent's files of these
    names): backups, checkpoints, the sidecar of a transfer as a refinement of the receiver's memory, and
    the metadata cache as an instance of the locale \<open>bounded_map\<close>.
  \<^item> \<open>Deploy_Handler\<close> (\<open>deploy_handler.c\<close>, the messages of \<open>deploy.pb-c.h\<close>): all commands, the dispatcher and the
    accept loop. \<open>Deploy_Safety\<close> and \<open>Deploy_Transfer\<close>: a deploy is all or nothing in every intermediate
    state and whatever fails, keeps the previous version, and succeeds over a good link.
    \<open>Upload_Safety\<close>: the chunked upload as a step relation with its invariant. \<open>Rollback\<close>: the version a
    rollback installs, and the cycle of repeated ones. \<open>Agent_Total\<close>: every command is answered.
    \<open>Undo\<close>: after a deploy, rollbacks by hash go back to the replaced version and forth to the new one.
  \<^item> \<open>Dtp_Client\<close>, \<open>Dtp_Passes\<close> (\<open>dtp_client.c\<close>): the older transfer, resumed over any number of passes.
  \<^item> \<open>Loss_Filter\<close> (\<open>loss_filter.c\<close>, \<open>loss_filter_iface_hook.c\<close>): the fault injection of the test builds.
    \<open>Agent_Main\<close> (\<open>main.c\<close>): the start of the agent.
  \<^item> \<open>History\<close> (\<open>history.c\<close>), \<open>Ground_Cli\<close> (\<open>satdeploy_apm.c\<close>), \<open>Output\<close> (\<open>output.c\<close>): the ground's database,
    commands and console. \<open>Ground_System\<close>: the station and the agent as one system, in which the
    request of a command is handed to \<open>handle_connection\<close> of the agent and the agent's links reach the
    station's server. Its results are the ones an operator relies on: an upload that reports success
    has arrived, it succeeds over a link that loses nothing, what it replaced can be put back, and a
    rollback installs the version it names.

  \<^bold>\<open>Reading the definitions.\<close> Definitions keep the names of the C functions; a part of a long function
  has a name of its own and its callers compose it as the code does. Structs are records, enumerations
  datatypes, fixed-width integers words. A natural number stands for a counter that cannot leave its width.
  File-scope variables and the operating system are passed explicitly. A C result code stays an
  integer; a process that does not come back is \<open>Inl\<close> of a \<open>stop\<close>: a null pointer, a write past an
  array, or a loop that does not end.

  \<^bold>\<open>Failures and crashes.\<close> Each fallible call takes the next entry of a script of outcomes. The script of the
  agent is universally quantified in what protects the installed file and the agent's state: \<open>push_sound\<close>,
  \<open>deploy_all_or_nothing\<close>, \<open>deploy_crash_safe\<close>, the invariant and the gate of the chunked upload,
  \<open>dispatch_well_typed\<close>, the checkpoint's \<open>session_save_crash_safe\<close> and \<open>session_load_strict\<close>; that of
  the station in \<open>upload_stops_server\<close> and \<open>history_never_blocks\<close>. The code ignores \<open>ferror\<close>,
  \<open>fclose\<close> and in places \<open>fwrite\<close>, so results about exact contents hold only when no call fails, and their texts
  say so: the two downloads (\<open>svu_client_run_sound\<close>, \<open>svu_download_sound\<close>, \<open>dtp_cross_pass_sound\<close>), the backups and
  everything that rests on them (\<open>deploy_keeps_previous\<close>, the rollbacks, \<open>push_undone\<close>), the round trips and
  the liveness results. Lemmas such as \<open>restore_ignores_read_error\<close> show what a failure does there. Every
  version of the file system is kept in \<open>fs_log\<close>, so a statement about all its entries is one about
  a power loss at any moment. Paths are compared as strings; an open stream is its path.

  \<^bold>\<open>Loops.\<close> Recursion is structural or has a termination proof. Two loops may run for ever and are partial
  functions: \<open>drain_rounds\<close>, as long as packets arrive, and \<open>chunk_loop\<close> of the server, whose 32-bit offset
  can wrap. They are shown to return over links that fall silent, and for files and chunk sizes
  whose end does not wrap. No definition has fuel; the eight retry rounds of the DTP client and the rounds of
  \<open>svu_client_run\<close> are limits of the code.

  \<^bold>\<open>Parameters.\<close> Code outside the repository's C files is an argument of the definitions: libcsp (what each
  exchange returns; in \<open>Ground_System\<close> the composition of the two programs), libdtp, protobuf (with \<open>codec_sound\<close>, that a
  message never unpacks to another one), \<open>SQLite\<close> (with \<open>alters_columns\<close>), the option parser of the shell,
  \<open>getopt_long\<close>, \<open>system\<close> and \<open>popen\<close>, and the conversion \<open>%lf\<close>. SHA-256 is not assumed to be free of
  collisions; a result about contents says so or speaks of hashes.

  \<^bold>\<open>Not modelled\<close>: threads and mutexes (the server's loop and the agent are composed at their message
  exchanges), pacing and sleeping, \<open>fsync\<close> (the file system has no cache to lose), release of memory, log and progress
  lines (but for what \<open>history.c\<close> writes on standard error, which is \<open>gs_err\<close>), the buffer of a stdio stream, the
  size of CSP buffers, tests for \<open>NULL\<close> arguments where a caller always passes a string, the \<open>NULL\<close> stream of an
  active upload (no state of that kind is reached, by \<open>upload_session_invariant\<close>), time-outs between the station and the
  agent (arrival of request and reply is a hypothesis where it matters), and the variant of the transfer without resume that is built as a baseline
  (\<open>SATDEPLOY_NAIVE_BASELINE\<close>); \<open>dtp_log_quiet.c\<close>, which silences libdtp; the packing functions
  of \<open>deploy.pb-c.c\<close>, which are generated; the Python and shell tools of the experiments.
  \<open>apm/svu\<close> holds copies of the files of \<open>agent/svu\<close>, byte for byte; the model is of the one.
\<close>

end
